(* ===== verification/Prelude.thy ===== *)
theory Prelude
  imports Main "HOL-Library.Word" "HOL-Library.Multiset"
begin

text \<open>
  Shared vocabulary of the development: bytes, the unsigned size type of the target, the
  decimal printer of the C++ library, the string helpers of \<^verbatim>\<open>android-base\<close> (a library
  outside this repository, hence a parameter with named assumptions), and the generic list
  lemmas that the components use.

  Sizes.  The sources use \<^verbatim>\<open>size_t\<close> of a 64-bit target.  A value of that type is a
  natural number; every operation of the sources that can wrap is written with
  \<open>size_add\<close>, \<open>size_sub\<close> or \<open>size_mul\<close>, which reduce modulo \<open>2 ^ 64\<close>.
\<close>

named_theorems size_simps "size arithmetic that does not wrap"

section \<open>Bytes and sizes\<close>

type_synonym byte = "8 word"

definition SIZE_MAX :: nat where
  "SIZE_MAX = 2 ^ 64 - 1"

definition INT_MAX :: nat where
  "INT_MAX = 2 ^ 31 - 1"

definition size_add :: "nat \<Rightarrow> nat \<Rightarrow> nat" where
  "size_add a b = (a + b) mod 2 ^ 64"

definition size_sub :: "nat \<Rightarrow> nat \<Rightarrow> nat" where
  "size_sub a b = (if b \<le> a then a - b else a + 2 ^ 64 - b)"

definition size_mul :: "nat \<Rightarrow> nat \<Rightarrow> nat" where
  "size_mul a b = (a * b) mod 2 ^ 64"

lemma size_add_small [size_simps]: "a + b \<le> SIZE_MAX \<Longrightarrow> size_add a b = a + b"
  by (simp add: size_add_def SIZE_MAX_def)

lemma size_sub_small [size_simps]: "b \<le> a \<Longrightarrow> size_sub a b = a - b"
  by (simp add: size_sub_def)

lemma size_mul_small [size_simps]: "a * b \<le> SIZE_MAX \<Longrightarrow> size_mul a b = a * b"
  by (simp add: size_mul_def SIZE_MAX_def)

lemma size_add_bound: "size_add a b \<le> SIZE_MAX"
  using mod_less_divisor [of "2 ^ 64" "a + b"] unfolding size_add_def SIZE_MAX_def by simp

lemma INT_MAX_le_SIZE_MAX: "INT_MAX \<le> SIZE_MAX"
  by (simp add: INT_MAX_def SIZE_MAX_def)

lemma uint_of_nat_byte: "n < 256 \<Longrightarrow> uint (of_nat n :: byte) = int n"
  by (simp add: unsigned_of_nat take_bit_nat_eq_self)

lemma unat_of_nat_byte: "unat (of_nat n :: byte) = n mod 256"
  by (simp add: unsigned_of_nat take_bit_eq_mod)

section \<open>Decimal numbers\<close>

text \<open>\<^verbatim>\<open>std::to_string\<close> and the \<^verbatim>\<open>%zu\<close> conversion.\<close>

fun to_string :: "nat \<Rightarrow> string" where
  "to_string n =
     (if n < 10 then [char_of (48 + n)] else to_string (n div 10) @ [char_of (48 + n mod 10)])"

declare to_string.simps [simp del]

definition int_to_string :: "int \<Rightarrow> string" where
  "int_to_string i = (if i < 0 then CHR ''-'' # to_string (nat (- i)) else to_string (nat i))"

definition is_digit :: "char \<Rightarrow> bool" where
  "is_digit c \<longleftrightarrow> 48 \<le> (of_char c :: nat) \<and> (of_char c :: nat) \<le> 57"

lemma of_char_digit: "d < 10 \<Longrightarrow> (of_char (char_of (48 + d) :: char) :: nat) = 48 + d"
  by simp

lemma to_string_digits: "\<forall>c \<in> set (to_string n). is_digit c"
proof (induction n rule: to_string.induct)
  case (1 n)
  have d: "is_digit (char_of (48 + m))" if "m < 10" for m :: nat
    using that by (simp add: is_digit_def)
  show ?case
  proof (cases "n < 10")
    case True
    then show ?thesis using d by (subst to_string.simps) simp
  next
    case False
    with "1.IH" d [of "n mod 10"] show ?thesis by (subst to_string.simps) auto
  qed
qed

lemma to_string_not_Nil [simp]: "to_string n \<noteq> []"
  by (subst to_string.simps) simp

lemma to_string_no_sep: "\<not> is_digit c \<Longrightarrow> c \<notin> set (to_string n)"
  using to_string_digits by blast

section \<open>The string helpers of android-base\<close>

text \<open>
  The sources call \<^verbatim>\<open>android::base::Split\<close>, \<^verbatim>\<open>Join\<close>, \<^verbatim>\<open>Trim\<close>, \<^verbatim>\<open>ParseUint\<close> and
  \<^verbatim>\<open>ParseInt\<close>, which are not part of this repository.  Every definition that calls them
  takes the record below; \<open>ab_parse_uint ab s m\<close> is \<open>Some n\<close> when
  \<^verbatim>\<open>ParseUint(s, &n, m)\<close> returns true.
\<close>

record android_base =
  ab_split :: "string \<Rightarrow> string \<Rightarrow> string list"
  ab_join :: "string list \<Rightarrow> char \<Rightarrow> string"
  ab_trim :: "string \<Rightarrow> string"
  ab_parse_uint :: "string \<Rightarrow> nat \<Rightarrow> nat option"
  ab_parse_int :: "string \<Rightarrow> int \<Rightarrow> int \<Rightarrow> int option"

fun join_with :: "char \<Rightarrow> string list \<Rightarrow> string" where
  "join_with c [] = []"
| "join_with c [x] = x"
| "join_with c (x # y # ys) = x @ c # join_with c (y # ys)"

text \<open>
  Documented behaviour the development relies on: splitting at a single delimiter undoes
  joining with it, \<^verbatim>\<open>ParseUint\<close> reads back a printed number that is within the limit and
  never returns more than the limit.
\<close>

definition split_ok :: "android_base \<Rightarrow> bool" where
  "split_ok ab \<longleftrightarrow>
     (\<forall>c xs. xs \<noteq> [] \<and> (\<forall>x \<in> set xs. c \<notin> set x) \<longrightarrow> ab_split ab (join_with c xs) [c] = xs)"

definition parse_uint_ok :: "android_base \<Rightarrow> bool" where
  "parse_uint_ok ab \<longleftrightarrow>
     (\<forall>n m. n \<le> m \<longrightarrow> ab_parse_uint ab (to_string n) m = Some n) \<and>
     (\<forall>s m n. ab_parse_uint ab s m = Some n \<longrightarrow> n \<le> m)"

lemma split_okD:
  "split_ok ab \<Longrightarrow> xs \<noteq> [] \<Longrightarrow> (\<And>x. x \<in> set xs \<Longrightarrow> c \<notin> set x) \<Longrightarrow>
     ab_split ab (join_with c xs) [c] = xs"
  by (simp add: split_ok_def)

lemma parse_uint_okD:
  assumes "parse_uint_ok ab"
  shows "n \<le> m \<Longrightarrow> ab_parse_uint ab (to_string n) m = Some n"
    and "ab_parse_uint ab s m = Some k \<Longrightarrow> k \<le> m"
  using assms by (auto simp: parse_uint_ok_def)

subsection \<open>An executable instance\<close>

text \<open>
  A concrete implementation of the documented behaviour, used wherever a closed instance of
  a theorem is evaluated.
\<close>

fun split_at_chars :: "string \<Rightarrow> string \<Rightarrow> string list" where
  "split_at_chars ds [] = [[]]"
| "split_at_chars ds (c # cs) =
     (let rest = split_at_chars ds cs
      in if c \<in> set ds then [] # rest else (c # hd rest) # tl rest)"

fun read_digits :: "nat \<Rightarrow> string \<Rightarrow> nat option" where
  "read_digits acc [] = Some acc"
| "read_digits acc (c # cs) =
     (if is_digit c then read_digits (10 * acc + (of_char c - 48)) cs else None)"

definition read_uint :: "string \<Rightarrow> nat \<Rightarrow> nat option" where
  "read_uint s m =
     (if s = [] then None
      else case read_digits 0 s of None \<Rightarrow> None | Some n \<Rightarrow> if n \<le> m then Some n else None)"

definition read_int :: "string \<Rightarrow> int \<Rightarrow> int \<Rightarrow> int option" where
  "read_int s lo hi =
     (let neg = (s \<noteq> [] \<and> hd s = CHR ''-''); ds = (if neg then tl s else s)
      in if ds = [] then None
         else case read_digits 0 ds of
             None \<Rightarrow> None
           | Some n \<Rightarrow>
               (let v = (if neg then - int n else int n)
                in if lo \<le> v \<and> v \<le> hi then Some v else None))"

definition is_space :: "char \<Rightarrow> bool" where
  "is_space c \<longleftrightarrow> of_char c \<in> {9, 10, 11, 12, 13, 32 :: nat}"

definition trim_spaces :: "string \<Rightarrow> string" where
  "trim_spaces s = rev (dropWhile is_space (rev (dropWhile is_space s)))"

definition sample_base :: android_base where
  "sample_base =
     \<lparr>ab_split = (\<lambda>s ds. split_at_chars ds s), ab_join = (\<lambda>xs c. join_with c xs),
      ab_trim = trim_spaces, ab_parse_uint = read_uint, ab_parse_int = read_int\<rparr>"

lemma split_at_chars_not_Nil [simp]: "split_at_chars ds s \<noteq> []"
  by (induction s) (auto simp: Let_def)

lemma split_at_chars_plain: "c \<notin> set x \<Longrightarrow> split_at_chars [c] x = [x]"
  by (induction x) auto

lemma split_at_chars_append:
  "c \<notin> set x \<Longrightarrow> split_at_chars [c] (x @ c # rest) = x # split_at_chars [c] rest"
  by (induction x) auto

lemma split_join_with:
  "xs \<noteq> [] \<Longrightarrow> (\<And>x. x \<in> set xs \<Longrightarrow> c \<notin> set x) \<Longrightarrow> split_at_chars [c] (join_with c xs) = xs"
proof (induction c xs rule: join_with.induct)
  case (2 c x)
  then show ?case by (simp add: split_at_chars_plain)
next
  case (3 c x y ys)
  then show ?case by (simp add: split_at_chars_append)
qed simp

lemma read_digits_append:
  "read_digits a (xs @ ys) = (case read_digits a xs of None \<Rightarrow> None | Some b \<Rightarrow> read_digits b ys)"
  by (induction xs arbitrary: a) auto

lemma read_digits_to_string: "read_digits 0 (to_string n) = Some n"
proof (induction n rule: to_string.induct)
  case (1 n)
  have d: "is_digit (char_of (48 + m))" if "m < 10" for m :: nat
    using that by (simp add: is_digit_def)
  show ?case
  proof (cases "n < 10")
    case True
    then show ?thesis using d by (subst to_string.simps) simp
  next
    case False
    with "1.IH" d [of "n mod 10"] show ?thesis
      by (subst to_string.simps) (simp add: read_digits_append)
  qed
qed

lemma sample_split_ok: "split_ok sample_base"
  by (auto simp: split_ok_def sample_base_def split_join_with)

lemma sample_parse_uint_ok: "parse_uint_ok sample_base"
  by (auto simp: parse_uint_ok_def sample_base_def read_uint_def read_digits_to_string
      split: option.splits if_splits)

section \<open>Lists\<close>

lemma sum_list_append_singleton: "sum_list (map f (xs @ [x])) = sum_list (map f xs) + (f x :: nat)"
  by simp

lemma concat_map_append: "concat (map f (xs @ ys)) = concat (map f xs) @ concat (map f ys)"
  by simp

lemma upt_split: "a \<le> m \<Longrightarrow> m \<le> b \<Longrightarrow> [a..<b] = [a..<m] @ [m..<b]"
  using upt_add_eq_append [of a m "b - m"] by simp

end
