(* ===== verification/Range_Sets.thy ===== *)
theory Range_Sets
  imports Prelude
begin

text \<open>
  Range sets (\<^verbatim>\<open>otautil/rangeset.cpp\<close>, \<^verbatim>\<open>otautil/include/otautil/rangeset.h\<close>): the text
  form \<^verbatim>\<open>"<count>,<first>,<second>,..."\<close> in which a transfer list names blocks, the
  operations of \<^verbatim>\<open>RangeSet\<close> and of its sorted variant \<^verbatim>\<open>SortedRangeSet\<close>.  A failed
  \<^verbatim>\<open>CHECK\<close> is the value \<open>None\<close>.

  The abstraction of a range set is \<open>blocks_of\<close>, the list of the block numbers it stands
  for, in order.  The lemmas relate every operation to that list.
\<close>

section \<open>Ranges\<close>

datatype range = Range (range_first: nat) (range_second: nat)

text \<open>\<^verbatim>\<open>std::pair\<close> is ordered lexicographically.\<close>

instantiation range :: linorder
begin

definition less_eq_range :: "range \<Rightarrow> range \<Rightarrow> bool" where
  "less_eq_range a b \<longleftrightarrow>
     range_first a < range_first b \<or>
     range_first a = range_first b \<and> range_second a \<le> range_second b"

definition less_range :: "range \<Rightarrow> range \<Rightarrow> bool" where
  "less_range a b \<longleftrightarrow>
     range_first a < range_first b \<or>
     range_first a = range_first b \<and> range_second a < range_second b"

instance
  by standard (auto simp: less_eq_range_def less_range_def range.expand)

end

definition range_size :: "range \<Rightarrow> nat" where
  "range_size r = size_sub (range_second r) (range_first r)"

definition range_blocks :: "range \<Rightarrow> nat list" where
  "range_blocks r = [range_first r..<range_second r]"

definition range_ok :: "range \<Rightarrow> bool" where
  "range_ok r \<longleftrightarrow> range_first r < range_second r \<and> range_second r \<le> SIZE_MAX"

lemma range_size_ok: "range_ok r \<Longrightarrow> range_size r = range_second r - range_first r"
  by (simp add: range_size_def range_ok_def size_simps)

lemma length_range_blocks: "range_ok r \<Longrightarrow> length (range_blocks r) = range_size r"
  by (simp add: range_size_ok range_blocks_def)

lemma set_range_blocks: "set (range_blocks r) = {range_first r..<range_second r}"
  by (simp add: range_blocks_def)

section \<open>The class RangeSet\<close>

record RangeSet =
  rs_ranges :: "range list"
  rs_blocks :: nat

definition RangeSet_empty :: RangeSet where
  "RangeSet_empty = \<lparr>rs_ranges = [], rs_blocks = 0\<rparr>"

definition Clear :: "RangeSet \<Rightarrow> RangeSet" where
  "Clear rs = rs\<lparr>rs_ranges := [], rs_blocks := 0\<rparr>"

definition PushBack :: "RangeSet \<Rightarrow> range \<Rightarrow> bool \<times> RangeSet" where
  "PushBack rs r =
     (if range_second r \<le> range_first r then (False, rs)
      else
        let sz = size_sub (range_second r) (range_first r)
        in if size_sub SIZE_MAX sz \<le> rs_blocks rs then (False, rs)
           else (True, rs\<lparr>rs_ranges := rs_ranges rs @ [r],
                           rs_blocks := size_add (rs_blocks rs) sz\<rparr>))"

fun RangeSet_push_all :: "range list \<Rightarrow> RangeSet \<Rightarrow> RangeSet" where
  "RangeSet_push_all [] rs = rs"
| "RangeSet_push_all (r # rest) rs =
     (case PushBack rs r of
        (True, rs') \<Rightarrow> RangeSet_push_all rest rs'
      | (False, rs') \<Rightarrow> Clear rs')"

definition RangeSet_ctor :: "range list \<Rightarrow> RangeSet" where
  "RangeSet_ctor pairs =
     (if pairs = [] then RangeSet_empty else RangeSet_push_all pairs RangeSet_empty)"

text \<open>The pairs of \<^verbatim>\<open>RangeSet::Parse\<close>: two tokens at a time, each at most \<^verbatim>\<open>INT_MAX\<close>.\<close>

fun Parse_pairs :: "android_base \<Rightarrow> string list \<Rightarrow> range list option" where
  "Parse_pairs ab (x # y # rest) =
     (case ab_parse_uint ab x INT_MAX of
        None \<Rightarrow> None
      | Some a \<Rightarrow>
          (case ab_parse_uint ab y INT_MAX of
             None \<Rightarrow> None
           | Some b \<Rightarrow>
               (case Parse_pairs ab rest of
                  None \<Rightarrow> None
                | Some ps \<Rightarrow> Some (Range a b # ps))))"
| "Parse_pairs ab _ = Some []"

definition Parse :: "android_base \<Rightarrow> string \<Rightarrow> RangeSet" where
  "Parse ab range_text =
     (let pieces = ab_split ab range_text '',''
      in if length pieces < 3 then RangeSet_empty
         else case ab_parse_uint ab (pieces ! 0) INT_MAX of
             None \<Rightarrow> RangeSet_empty
           | Some num \<Rightarrow>
               if num = 0 then RangeSet_empty
               else if num mod 2 \<noteq> 0 then RangeSet_empty
               else if num \<noteq> length pieces - 1 then RangeSet_empty
               else case Parse_pairs ab (tl pieces) of
                   None \<Rightarrow> RangeSet_empty
                 | Some pairs \<Rightarrow> RangeSet_ctor pairs)"

definition ToString :: "RangeSet \<Rightarrow> string" where
  "ToString rs =
     (if rs_ranges rs = [] then []
      else to_string (length (rs_ranges rs) * 2) @
           concat (map (\<lambda>r. '','' @ to_string (range_first r) @ '','' @ to_string (range_second r))
             (rs_ranges rs)))"

fun GetBlockNumber_loop :: "range list \<Rightarrow> nat \<Rightarrow> nat option" where
  "GetBlockNumber_loop [] idx = None"
| "GetBlockNumber_loop (r # rest) idx =
     (if idx < size_sub (range_second r) (range_first r) then Some (size_add (range_first r) idx)
      else GetBlockNumber_loop rest (size_sub idx (size_sub (range_second r) (range_first r))))"

definition GetBlockNumber :: "RangeSet \<Rightarrow> nat \<Rightarrow> nat option" where
  "GetBlockNumber rs idx =
     (if idx < rs_blocks rs then GetBlockNumber_loop (rs_ranges rs) idx else None)"

definition Overlaps :: "RangeSet \<Rightarrow> RangeSet \<Rightarrow> bool" where
  "Overlaps rs other \<longleftrightarrow>
     list_ex (\<lambda>r. list_ex (\<lambda>o'.
         \<not> (range_first o' \<ge> range_second r \<or> range_first r \<ge> range_second o'))
       (rs_ranges other)) (rs_ranges rs)"

text \<open>
  \<^verbatim>\<open>RangeSet::Split\<close>.  The iterator is the list of the ranges from \<^verbatim>\<open>it\<close> to the end;
  \<open>r\<close> is the local copy \<^verbatim>\<open>range\<close>, which is only replaced while the iterator has not
  reached the end.  Moving the iterator past the end is \<open>None\<close>.
\<close>

fun Split_fill :: "nat \<Rightarrow> range \<Rightarrow> range list \<Rightarrow> RangeSet \<Rightarrow> (range \<times> range list \<times> RangeSet) option"
where
  "Split_fill needed r it buffer =
     (if needed = 0 then Some (r, it, buffer)
      else
        let range_blocks = size_sub (range_second r) (range_first r)
        in if needed < range_blocks
           then Some (Range (size_add (range_first r) needed) (range_second r), it,
                  snd (PushBack buffer
                    (Range (range_first r) (size_add (range_first r) needed))))
           else case it of
               [] \<Rightarrow> None
             | _ # it' \<Rightarrow>
                 Split_fill (needed - range_blocks) (case it' of [] \<Rightarrow> r | r' # _ \<Rightarrow> r') it'
                   (snd (PushBack buffer r)))"

declare Split_fill.simps [simp del]

fun Split_groups :: "nat list \<Rightarrow> range \<Rightarrow> range list \<Rightarrow> RangeSet list option" where
  "Split_groups [] r it = Some []"
| "Split_groups (b # bs) r it =
     (case Split_fill b r it RangeSet_empty of
        None \<Rightarrow> None
      | Some (r', it', buffer) \<Rightarrow>
          (case Split_groups bs r' it' of
             None \<Rightarrow> None
           | Some rest \<Rightarrow> Some (buffer # rest)))"

definition Split :: "RangeSet \<Rightarrow> nat \<Rightarrow> RangeSet list option" where
  "Split rs groups =
     (case rs_ranges rs of
        [] \<Rightarrow> Some []
      | r # _ \<Rightarrow>
          if groups = 0 then Some []
          else
            let groups = (if rs_blocks rs < groups then rs_blocks rs else groups);
                mean = rs_blocks rs div groups;
                extra = rs_blocks rs mod groups
            in Split_groups (replicate extra (size_add mean 1) @ replicate (groups - extra) mean)
                 r (rs_ranges rs))"

section \<open>The class SortedRangeSet\<close>

definition kBlockSize :: nat where
  "kBlockSize = 4096"

definition SortedRangeSet_ctor :: "range list \<Rightarrow> RangeSet" where
  "SortedRangeSet_ctor pairs =
     (let rs = RangeSet_ctor pairs in rs\<lparr>rs_ranges := sort (rs_ranges rs)\<rparr>)"

definition Insert_emit :: "range \<Rightarrow> RangeSet \<Rightarrow> RangeSet" where
  "Insert_emit r rs =
     rs\<lparr>rs_ranges := rs_ranges rs @ [r],
        rs_blocks := size_add (rs_blocks rs) (size_sub (range_second r) (range_first r))\<rparr>"

fun Insert_loop :: "range \<Rightarrow> range list \<Rightarrow> RangeSet \<Rightarrow> RangeSet" where
  "Insert_loop cur [] rs = Insert_emit cur rs"
| "Insert_loop cur (r # rest) rs =
     (if range_first r \<le> range_second cur
      then Insert_loop (Range (range_first cur) (max (range_second cur) (range_second r))) rest rs
      else Insert_loop r rest (Insert_emit cur rs))"

definition Insert_set :: "RangeSet \<Rightarrow> RangeSet \<Rightarrow> RangeSet" where
  "Insert_set self rs =
     (if length (rs_ranges rs) = 0 then self
      else
        let temp = sort (rs_ranges self @ rs_ranges rs)
        in Insert_loop (hd temp) (tl temp) (Clear self))"

definition Insert_range :: "RangeSet \<Rightarrow> range \<Rightarrow> RangeSet" where
  "Insert_range self to_insert = Insert_set self (SortedRangeSet_ctor [to_insert])"

definition byte_span :: "nat \<Rightarrow> nat \<Rightarrow> range" where
  "byte_span start len =
     Range (start div kBlockSize) (size_add (size_sub (size_add start len) 1 div kBlockSize) 1)"

definition Insert_span :: "RangeSet \<Rightarrow> nat \<Rightarrow> nat \<Rightarrow> RangeSet" where
  "Insert_span self start len = Insert_range self (byte_span start len)"

definition Overlaps_span :: "RangeSet \<Rightarrow> nat \<Rightarrow> nat \<Rightarrow> bool" where
  "Overlaps_span self start len = Overlaps self (RangeSet_ctor [byte_span start len])"

fun GetOffset_loop :: "range list \<Rightarrow> nat \<Rightarrow> nat \<Rightarrow> nat \<Rightarrow> nat option" where
  "GetOffset_loop [] old_offset old_block_start new_block_start = None"
| "GetOffset_loop (r # rest) old_offset old_block_start new_block_start =
     (if range_second r \<le> old_block_start
      then GetOffset_loop rest old_offset old_block_start
             (size_add new_block_start (size_sub (range_second r) (range_first r)))
      else if range_first r \<le> old_block_start
      then Some (size_add
             (size_mul (size_add new_block_start (size_sub old_block_start (range_first r)))
               kBlockSize)
             (old_offset mod kBlockSize))
      else None)"

definition GetOffsetInRangeSet :: "RangeSet \<Rightarrow> nat \<Rightarrow> nat option" where
  "GetOffsetInRangeSet self old_offset =
     GetOffset_loop (rs_ranges self) old_offset (old_offset div kBlockSize) 0"

section \<open>Well-formedness and the blocks of a set\<close>

definition blocks_of :: "RangeSet \<Rightarrow> nat list" where
  "blocks_of rs = concat (map range_blocks (rs_ranges rs))"

definition wf_rs :: "RangeSet \<Rightarrow> bool" where
  "wf_rs rs \<longleftrightarrow>
     (\<forall>r \<in> set (rs_ranges rs). range_ok r) \<and>
     rs_blocks rs = sum_list (map range_size (rs_ranges rs)) \<and> rs_blocks rs \<le> SIZE_MAX"

lemma wf_rs_empty [simp]: "wf_rs RangeSet_empty"
  by (simp add: wf_rs_def RangeSet_empty_def)

lemma rs_blocks_empty [simp]: "rs_blocks RangeSet_empty = 0"
  by (simp add: RangeSet_empty_def)

lemma rs_ranges_empty [simp]: "rs_ranges RangeSet_empty = []"
  by (simp add: RangeSet_empty_def)

lemma blocks_of_empty [simp]: "blocks_of RangeSet_empty = []"
  by (simp add: blocks_of_def RangeSet_empty_def)

lemma Clear_eq [simp]: "Clear rs = RangeSet_empty"
  by (simp add: Clear_def RangeSet_empty_def)

lemma length_concat_range_blocks:
  "\<forall>r \<in> set rr. range_ok r \<Longrightarrow>
     length (concat (map range_blocks rr)) = sum_list (map range_size rr)"
  by (induction rr) (auto simp: length_range_blocks)

lemma length_blocks_of: "wf_rs rs \<Longrightarrow> length (blocks_of rs) = rs_blocks rs"
  by (simp add: wf_rs_def blocks_of_def length_concat_range_blocks)

lemma set_blocks_of: "set (blocks_of rs) = (\<Union>r \<in> set (rs_ranges rs). {range_first r..<range_second r})"
  by (simp add: blocks_of_def set_range_blocks)

subsection \<open>PushBack and the constructor\<close>

lemma PushBack_True_iff:
  assumes "wf_rs rs" "range_second r \<le> SIZE_MAX"
  shows "fst (PushBack rs r) \<longleftrightarrow> range_ok r \<and> rs_blocks rs + range_size r < SIZE_MAX"
proof (cases "range_first r < range_second r")
  case True
  with assms(2) have ok: "range_ok r" by (simp add: range_ok_def)
  with assms(2) have le: "range_size r \<le> SIZE_MAX" by (simp add: range_size_ok)
  with ok True show ?thesis
    by (auto simp: PushBack_def Let_def range_size_def size_simps)
next
  case False
  then show ?thesis by (simp add: PushBack_def range_ok_def)
qed

lemma PushBack_False [simp]: "\<not> fst (PushBack rs r) \<Longrightarrow> snd (PushBack rs r) = rs"
  by (auto simp: PushBack_def Let_def split: if_splits)

lemma PushBack_True:
  assumes "wf_rs rs" "range_second r \<le> SIZE_MAX" "fst (PushBack rs r)"
  shows "snd (PushBack rs r) =
    rs\<lparr>rs_ranges := rs_ranges rs @ [r], rs_blocks := rs_blocks rs + range_size r\<rparr>"
proof -
  have ok: "range_ok r" and lt: "rs_blocks rs + range_size r < SIZE_MAX"
    using PushBack_True_iff assms by blast+
  from ok have "range_first r < range_second r" by (simp add: range_ok_def)
  with lt assms(3) show ?thesis
    by (simp add: PushBack_def Let_def range_size_def size_simps split: if_splits)
qed

lemma wf_rs_snoc:
  "wf_rs rs \<Longrightarrow> range_ok r \<Longrightarrow> rs_blocks rs + range_size r \<le> SIZE_MAX \<Longrightarrow>
     wf_rs (rs\<lparr>rs_ranges := rs_ranges rs @ [r], rs_blocks := rs_blocks rs + range_size r\<rparr>)"
  by (auto simp: wf_rs_def)

lemma blocks_of_snoc:
  "blocks_of (rs\<lparr>rs_ranges := rs_ranges rs @ [r], rs_blocks := b\<rparr>) = blocks_of rs @ range_blocks r"
  by (simp add: blocks_of_def)

lemma wf_rs_PushBack:
  assumes "wf_rs rs" "range_second r \<le> SIZE_MAX"
  shows "wf_rs (snd (PushBack rs r))"
proof (cases "fst (PushBack rs r)")
  case True
  with assms have "range_ok r \<and> rs_blocks rs + range_size r < SIZE_MAX"
    by (simp add: PushBack_True_iff)
  with True assms show ?thesis by (simp add: PushBack_True wf_rs_snoc)
next
  case False
  with assms show ?thesis by simp
qed

lemma RangeSet_push_all_wf:
  "wf_rs rs \<Longrightarrow> \<forall>r \<in> set rr. range_second r \<le> SIZE_MAX \<Longrightarrow> wf_rs (RangeSet_push_all rr rs)"
proof (induction rr arbitrary: rs)
  case (Cons r rr)
  then have "wf_rs (snd (PushBack rs r))" by (simp add: wf_rs_PushBack)
  with Cons show ?case by (auto split: prod.splits bool.splits)
qed simp

lemma RangeSet_push_all_ranges:
  assumes "wf_rs rs" "\<forall>r \<in> set rr. range_ok r"
    and "rs_blocks rs + sum_list (map range_size rr) < SIZE_MAX"
  shows "RangeSet_push_all rr rs =
    \<lparr>rs_ranges = rs_ranges rs @ rr, rs_blocks = rs_blocks rs + sum_list (map range_size rr)\<rparr>"
  using assms
proof (induction rr arbitrary: rs)
  case (Cons r rr)
  have s: "range_second r \<le> SIZE_MAX" using Cons.prems by (simp add: range_ok_def)
  have t: "fst (PushBack rs r)" using Cons.prems s by (simp add: PushBack_True_iff)
  obtain rs' where p: "PushBack rs r = (True, rs')" using t by (cases "PushBack rs r") auto
  have rs': "rs' = rs\<lparr>rs_ranges := rs_ranges rs @ [r], rs_blocks := rs_blocks rs + range_size r\<rparr>"
    using PushBack_True [OF Cons.prems(1) s t] p by simp
  have "wf_rs rs'" using wf_rs_PushBack [OF Cons.prems(1) s] p by simp
  with Cons rs' have "RangeSet_push_all rr rs' =
    \<lparr>rs_ranges = rs_ranges rs' @ rr, rs_blocks = rs_blocks rs' + sum_list (map range_size rr)\<rparr>"
    by simp
  with p rs' show ?case by simp
qed simp

lemma RangeSet_ctor_wf:
  "\<forall>r \<in> set rr. range_second r \<le> SIZE_MAX \<Longrightarrow> wf_rs (RangeSet_ctor rr)"
  by (simp add: RangeSet_ctor_def RangeSet_push_all_wf)

lemma RangeSet_ctor_ok:
  "\<forall>r \<in> set rr. range_ok r \<Longrightarrow> sum_list (map range_size rr) < SIZE_MAX \<Longrightarrow>
     RangeSet_ctor rr = \<lparr>rs_ranges = rr, rs_blocks = sum_list (map range_size rr)\<rparr>"
  using RangeSet_push_all_ranges [of RangeSet_empty rr]
  by (cases "rr = []") (simp add: RangeSet_ctor_def RangeSet_empty_def, simp add: RangeSet_ctor_def)

subsection \<open>Parsing\<close>

lemma Parse_pairs_bound:
  "parse_uint_ok ab \<Longrightarrow> Parse_pairs ab xs = Some ps \<Longrightarrow> r \<in> set ps \<Longrightarrow> range_second r \<le> INT_MAX"
proof (induction ab xs arbitrary: ps rule: Parse_pairs.induct)
  case (1 ab x y rest)
  then show ?case
    using parse_uint_okD(2) [OF "1.prems"(1)] by (auto split: option.splits)
qed auto

lemma Parse_wf:
  assumes "parse_uint_ok ab"
  shows "wf_rs (Parse ab s)"
proof -
  have "wf_rs (RangeSet_ctor ps)" if "Parse_pairs ab xs = Some ps" for xs ps
    using Parse_pairs_bound [OF assms that] INT_MAX_le_SIZE_MAX
    by (intro RangeSet_ctor_wf) (meson order_trans)
  then show ?thesis by (auto simp: Parse_def Let_def split: option.splits)
qed

subsection \<open>Printing and reading back\<close>

definition range_tokens :: "range list \<Rightarrow> string list" where
  "range_tokens rr = concat (map (\<lambda>r. [to_string (range_first r), to_string (range_second r)]) rr)"

lemma range_tokens_simps [simp]:
  "range_tokens [] = []"
  "range_tokens (r # rr) = to_string (range_first r) # to_string (range_second r) # range_tokens rr"
  by (simp_all add: range_tokens_def)

lemma length_range_tokens [simp]: "length (range_tokens rr) = length rr * 2"
  by (induction rr) auto

lemma join_with_Cons: "ys \<noteq> [] \<Longrightarrow> join_with c (x # ys) = x @ c # join_with c ys"
  by (cases ys) auto

lemma join_tokens:
  "join_with CHR '','' (x # range_tokens rr) =
     x @ concat (map (\<lambda>r. '','' @ to_string (range_first r) @ '','' @ to_string (range_second r)) rr)"
proof (induction rr arbitrary: x)
  case (Cons r rr)
  have "join_with CHR '','' (x # range_tokens (r # rr)) =
    x @ CHR '','' # to_string (range_first r) @
      CHR '','' # join_with CHR '','' (to_string (range_second r) # range_tokens rr)"
    by (simp add: join_with_Cons)
  with Cons show ?case by simp
qed simp

lemma ToString_join:
  "rs_ranges rs \<noteq> [] \<Longrightarrow>
     ToString rs = join_with CHR '',''
       (to_string (length (rs_ranges rs) * 2) # range_tokens (rs_ranges rs))"
  by (simp add: ToString_def join_tokens)

lemma Parse_pairs_tokens:
  assumes "parse_uint_ok ab"
  shows "\<forall>r \<in> set rr. range_first r \<le> INT_MAX \<and> range_second r \<le> INT_MAX \<Longrightarrow>
    Parse_pairs ab (range_tokens rr) = Some rr"
  by (induction rr) (auto simp: parse_uint_okD(1) [OF assms])

lemma tokens_no_comma: "x \<in> set (to_string n # range_tokens rr) \<Longrightarrow> CHR '','' \<notin> set x"
  using to_string_no_sep [of "CHR '',''"] by (induction rr) (auto simp: is_digit_def)

lemma Parse_ToString:
  assumes ab: "split_ok ab" "parse_uint_ok ab"
    and rs: "wf_rs rs" "rs_ranges rs \<noteq> []" "rs_blocks rs < SIZE_MAX"
    and small: "\<forall>r \<in> set (rs_ranges rs). range_second r \<le> INT_MAX"
      "length (rs_ranges rs) * 2 \<le> INT_MAX"
  shows "Parse ab (ToString rs) = rs"
proof -
  let ?rr = "rs_ranges rs"
  have ok: "\<forall>r \<in> set ?rr. range_ok r" using rs by (simp add: wf_rs_def)
  have lims: "\<forall>r \<in> set ?rr. range_first r \<le> INT_MAX \<and> range_second r \<le> INT_MAX"
    using ok small(1) by (meson range_ok_def less_imp_le order_trans)
  have sp: "ab_split ab (ToString rs) '','' = to_string (length ?rr * 2) # range_tokens ?rr"
    unfolding ToString_join [OF rs(2)]
    by (rule split_okD [OF ab(1)]) (use tokens_no_comma in auto)
  have len: "0 < length ?rr" using rs(2) by simp
  have "Parse ab (ToString rs) = RangeSet_ctor ?rr"
    using len small(2)
    by (simp add: Parse_def Let_def sp parse_uint_okD(1) [OF ab(2)] Parse_pairs_tokens [OF ab(2) lims])
  also have "\<dots> = rs"
    using ok rs by (simp add: RangeSet_ctor_ok wf_rs_def)
  finally show ?thesis .
qed

subsection \<open>Indexing\<close>

lemma GetBlockNumber_loop_nth:
  "\<forall>r \<in> set rr. range_ok r \<Longrightarrow>
     GetBlockNumber_loop rr idx =
       (if idx < sum_list (map range_size rr)
        then Some (concat (map range_blocks rr) ! idx) else None)"
proof (induction rr arbitrary: idx)
  case (Cons r rr)
  then have ok: "range_ok r" by simp
  then have sz: "size_sub (range_second r) (range_first r) = range_size r"
    by (simp add: range_size_def)
  have len: "length (range_blocks r) = range_size r" using ok by (rule length_range_blocks)
  show ?case
  proof (cases "idx < range_size r")
    case True
    have lt: "range_first r + idx < range_second r"
      using True ok by (simp add: range_size_ok)
    have le: "range_first r + idx \<le> SIZE_MAX"
      using lt ok by (simp add: range_ok_def)
    have "range_blocks r ! idx = range_first r + idx"
      using lt by (simp add: range_blocks_def)
    with True le len show ?thesis by (simp add: sz size_add_small nth_append)
  next
    case False
    have "idx - range_size r < sum_list (map range_size rr) \<longleftrightarrow>
        idx < range_size r + sum_list (map range_size rr)"
      using False by auto
    with False Cons len show ?thesis
      by (simp add: sz size_sub_small nth_append)
  qed
qed simp

lemma GetBlockNumber_eq:
  assumes "wf_rs rs"
  shows "GetBlockNumber rs idx =
    (if idx < length (blocks_of rs) then Some (blocks_of rs ! idx) else None)"
proof -
  have "\<forall>r \<in> set (rs_ranges rs). range_ok r" using assms by (simp add: wf_rs_def)
  from GetBlockNumber_loop_nth [OF this, of idx] show ?thesis
    using length_blocks_of [OF assms] assms
    by (simp add: GetBlockNumber_def blocks_of_def wf_rs_def)
qed

subsection \<open>Overlap\<close>

lemma ranges_meet_iff:
  "range_ok r \<Longrightarrow> range_ok q \<Longrightarrow>
     (\<not> (range_first q \<ge> range_second r \<or> range_first r \<ge> range_second q)) \<longleftrightarrow>
     {range_first r..<range_second r} \<inter> {range_first q..<range_second q} \<noteq> {}"
proof -
  assume "range_ok r" "range_ok q"
  then have "range_first r < range_second r" "range_first q < range_second q"
    by (simp_all add: range_ok_def)
  then have "max (range_first r) (range_first q) \<in>
      {range_first r..<range_second r} \<inter> {range_first q..<range_second q}"
    if "\<not> (range_first q \<ge> range_second r \<or> range_first r \<ge> range_second q)"
    using that by auto
  then show ?thesis by fastforce
qed

lemma Overlaps_iff:
  assumes "wf_rs rs" "wf_rs other"
  shows "Overlaps rs other \<longleftrightarrow> set (blocks_of rs) \<inter> set (blocks_of other) \<noteq> {}"
proof -
  have ok: "range_ok r" if "r \<in> set (rs_ranges rs) \<or> r \<in> set (rs_ranges other)" for r
    using that assms by (auto simp: wf_rs_def)
  have "Overlaps rs other \<longleftrightarrow> (\<exists>r \<in> set (rs_ranges rs). \<exists>q \<in> set (rs_ranges other).
      {range_first r..<range_second r} \<inter> {range_first q..<range_second q} \<noteq> {})"
    unfolding Overlaps_def list_ex_iff using ok ranges_meet_iff by blast
  also have "\<dots> \<longleftrightarrow> set (blocks_of rs) \<inter> set (blocks_of other) \<noteq> {}"
    unfolding set_blocks_of by blast
  finally show ?thesis .
qed

subsection \<open>Splitting\<close>

text \<open>
  What is left to hand out: the current range, then every range after the iterator.
\<close>

definition Split_rem :: "range \<Rightarrow> range list \<Rightarrow> nat list" where
  "Split_rem r it = (case it of [] \<Rightarrow> [] | _ # it' \<Rightarrow> range_blocks r @ concat (map range_blocks it'))"

definition Split_inv :: "range \<Rightarrow> range list \<Rightarrow> bool" where
  "Split_inv r it \<longleftrightarrow> (it \<noteq> [] \<longrightarrow> range_ok r) \<and> (\<forall>x \<in> set (tl it). range_ok x)"

lemma Split_rem_Nil [simp]: "Split_rem r [] = []"
  by (simp add: Split_rem_def)

lemma Split_rem_Cons [simp]:
  "Split_rem r (x # it) = range_blocks r @ concat (map range_blocks it)"
  by (simp add: Split_rem_def)

lemma Split_rem_next:
  "Split_rem (case it of [] \<Rightarrow> r | r' # _ \<Rightarrow> r') it = concat (map range_blocks it)"
  by (cases it) auto

lemma Split_inv_next:
  "Split_inv r (x # it) \<Longrightarrow> Split_inv (case it of [] \<Rightarrow> r | r' # _ \<Rightarrow> r') it"
  by (cases it) (auto simp: Split_inv_def)

lemma range_cut:
  assumes "range_ok r" "0 < n" "n < range_size r"
  shows "range_ok (Range (range_first r) (size_add (range_first r) n))"
    and "range_ok (Range (size_add (range_first r) n) (range_second r))"
    and "range_blocks (Range (range_first r) (size_add (range_first r) n)) = take n (range_blocks r)"
    and "range_blocks (Range (size_add (range_first r) n) (range_second r)) = drop n (range_blocks r)"
    and "range_size (Range (range_first r) (size_add (range_first r) n)) = n"
proof -
  have lt: "range_first r + n < range_second r"
    using assms by (simp add: range_size_ok)
  have le: "range_second r \<le> SIZE_MAX" using assms(1) by (simp add: range_ok_def)
  have add: "size_add (range_first r) n = range_first r + n"
    using lt le by (intro size_add_small) simp
  show "range_ok (Range (range_first r) (size_add (range_first r) n))"
    and "range_ok (Range (size_add (range_first r) n) (range_second r))"
    using lt le assms(2) by (simp_all add: add range_ok_def)
  show "range_blocks (Range (range_first r) (size_add (range_first r) n)) = take n (range_blocks r)"
    using lt by (simp add: add range_blocks_def)
  show "range_blocks (Range (size_add (range_first r) n) (range_second r)) = drop n (range_blocks r)"
    by (simp add: add range_blocks_def)
  show "range_size (Range (range_first r) (size_add (range_first r) n)) = n"
    by (simp add: add range_size_def size_sub_small)
qed

lemma PushBack_ok:
  assumes "wf_rs rs" "range_ok r" "rs_blocks rs + range_size r < SIZE_MAX"
  shows "wf_rs (snd (PushBack rs r))"
    and "blocks_of (snd (PushBack rs r)) = blocks_of rs @ range_blocks r"
    and "rs_blocks (snd (PushBack rs r)) = rs_blocks rs + range_size r"
proof -
  have s: "range_second r \<le> SIZE_MAX" using assms(2) by (simp add: range_ok_def)
  have t: "fst (PushBack rs r)" using assms s by (simp add: PushBack_True_iff)
  show "wf_rs (snd (PushBack rs r))" using assms(1) s by (rule wf_rs_PushBack)
  show "blocks_of (snd (PushBack rs r)) = blocks_of rs @ range_blocks r"
    and "rs_blocks (snd (PushBack rs r)) = rs_blocks rs + range_size r"
    using PushBack_True [OF assms(1) s t] by (simp_all add: blocks_of_snoc)
qed

lemma Split_fill_ok:
  assumes "Split_inv r it" "wf_rs buffer" "needed \<le> length (Split_rem r it)"
    and "rs_blocks buffer + needed < SIZE_MAX"
  shows "\<exists>r' it' buf. Split_fill needed r it buffer = Some (r', it', buf) \<and>
    Split_inv r' it' \<and> wf_rs buf \<and>
    blocks_of buf = blocks_of buffer @ take needed (Split_rem r it) \<and>
    Split_rem r' it' = drop needed (Split_rem r it)"
  using assms
proof (induction needed r it buffer rule: Split_fill.induct)
  case (1 needed r it buffer)
  show ?case
  proof (cases "needed = 0")
    case True
    with "1.prems" show ?thesis by (simp add: Split_fill.simps [of 0])
  next
    case pos: False
    with "1.prems" obtain x it' where it: "it = x # it'" by (cases it) auto
    have ok: "range_ok r" using "1.prems"(1) it by (simp add: Split_inv_def)
    have sz: "size_sub (range_second r) (range_first r) = range_size r"
      by (simp add: range_size_def)
    have len: "length (range_blocks r) = range_size r" using ok by (rule length_range_blocks)
    show ?thesis
    proof (cases "needed < range_size r")
      case True
      note cut = range_cut [OF ok _ True]
      from True pos it "1.prems" cut len PushBack_ok [OF "1.prems"(2) cut(1)] show ?thesis
        by (auto simp: Split_fill.simps [of needed] sz Split_inv_def)
    next
      case False
      let ?r = "case it' of [] \<Rightarrow> r | r' # _ \<Rightarrow> r'"
      let ?b = "snd (PushBack buffer r)"
      have push: "wf_rs ?b" "blocks_of ?b = blocks_of buffer @ range_blocks r"
          "rs_blocks ?b = rs_blocks buffer + range_size r"
        using PushBack_ok [OF "1.prems"(2) ok] False "1.prems"(4) by simp_all
      have unf: "Split_fill needed r it buffer = Split_fill (needed - range_size r) ?r it' ?b"
        using pos False it by (simp add: Split_fill.simps [of needed] sz)
      have "needed - range_size r \<le> length (Split_rem ?r it')"
        using "1.prems"(3) it len by (simp add: Split_rem_next)
      moreover have "rs_blocks ?b + (needed - range_size r) < SIZE_MAX"
        using push(3) False "1.prems"(4) by simp
      moreover have "Split_inv ?r it'" using "1.prems"(1) it by (simp add: Split_inv_next)
      ultimately have "\<exists>r' it'' buf. Split_fill (needed - range_size r) ?r it' ?b = Some (r', it'', buf) \<and>
          Split_inv r' it'' \<and> wf_rs buf \<and>
          blocks_of buf = blocks_of ?b @ take (needed - range_size r) (Split_rem ?r it') \<and>
          Split_rem r' it'' = drop (needed - range_size r) (Split_rem ?r it')"
        using "1.IH" [OF pos refl, of x it'] push(1) False it by (simp add: sz)
      with unf False it len push(2) show ?thesis by (auto simp: Split_rem_next)
    qed
  qed
qed

lemma Split_groups_ok:
  assumes "Split_inv r it" "sum_list bs \<le> length (Split_rem r it)" "\<forall>b \<in> set bs. b < SIZE_MAX"
  shows "\<exists>out. Split_groups bs r it = Some out \<and> map rs_blocks out = bs \<and>
    (\<forall>g \<in> set out. wf_rs g) \<and> concat (map blocks_of out) = take (sum_list bs) (Split_rem r it)"
  using assms
proof (induction bs arbitrary: r it)
  case (Cons b bs)
  have "b \<le> length (Split_rem r it)" using Cons.prems(2) by simp
  with Split_fill_ok [OF Cons.prems(1) wf_rs_empty, of b] Cons.prems(3)
  obtain r' it' buf where f: "Split_fill b r it RangeSet_empty = Some (r', it', buf)"
      "Split_inv r' it'" "wf_rs buf" "blocks_of buf = take b (Split_rem r it)"
      "Split_rem r' it' = drop b (Split_rem r it)"
    by auto
  have "rs_blocks buf = b"
    using length_blocks_of [OF f(3)] f(4) Cons.prems(2) by simp
  moreover have rest: "sum_list bs \<le> length (Split_rem r' it')"
    using Cons.prems(2) f(5) by simp
  moreover obtain out where "Split_groups bs r' it' = Some out" "map rs_blocks out = bs"
      "\<forall>g \<in> set out. wf_rs g" "concat (map blocks_of out) = take (sum_list bs) (Split_rem r' it')"
    using Cons.IH [OF f(2) rest] Cons.prems(3) by auto
  ultimately show ?case using f by (simp add: take_add)
qed simp

lemma Split_sizes:
  fixes n g :: nat
  assumes "0 < g"
  shows "sum_list (replicate (n mod g) (n div g + 1) @ replicate (g - n mod g) (n div g)) = n"
proof -
  have "sum_list (replicate (n mod g) (n div g + 1) @ replicate (g - n mod g) (n div g)) =
      (n mod g + (g - n mod g)) * (n div g) + n mod g"
    by (simp add: sum_list_replicate algebra_simps)
  also have "\<dots> = g * (n div g) + n mod g"
    using mod_less_divisor [OF assms, of n] by simp
  finally show ?thesis by simp
qed

lemma sorted_wrt_replicate: "P x x \<Longrightarrow> sorted_wrt P (replicate n x)"
  by (induction n) auto

lemma Split_sizes_sorted:
  "sorted_wrt (\<lambda>x y. y \<le> x \<and> x \<le> y + 1) (replicate a (m + 1) @ replicate b (m :: nat))"
  by (auto simp: sorted_wrt_append intro: sorted_wrt_replicate)

subsection \<open>Sorted insertion\<close>

abbreviation separated :: "range list \<Rightarrow> bool" where
  "separated \<equiv> sorted_wrt (\<lambda>a b. range_second a < range_first b)"

definition wf_sorted :: "RangeSet \<Rightarrow> bool" where
  "wf_sorted rs \<longleftrightarrow> wf_rs rs \<and> separated (rs_ranges rs)"

lemma wf_sorted_empty [simp]: "wf_sorted RangeSet_empty"
  by (simp add: wf_sorted_def)

lemma sorted_firsts: "sorted (x # xs) \<Longrightarrow> r \<in> set xs \<Longrightarrow> range_first x \<le> range_first r"
  by (auto simp: less_eq_range_def)

text \<open>
  The state of the loop of \<^verbatim>\<open>Insert\<close>: the ranges already written back are separated from
  each other and end before the range in hand, and there are at most as many blocks in them
  as the first block of the range in hand.
\<close>

definition Insert_inv :: "range \<Rightarrow> RangeSet \<Rightarrow> bool" where
  "Insert_inv cur rs \<longleftrightarrow>
     range_ok cur \<and> wf_sorted rs \<and> rs_blocks rs \<le> range_first cur \<and>
     (\<forall>r \<in> set (rs_ranges rs). range_second r < range_first cur)"

lemma Insert_emit_inv:
  assumes "Insert_inv cur rs"
  shows "wf_sorted (Insert_emit cur rs)"
    and "rs_blocks (Insert_emit cur rs) \<le> range_second cur"
    and "set (blocks_of (Insert_emit cur rs)) = set (blocks_of rs) \<union> set (range_blocks cur)"
    and "\<forall>r \<in> set (rs_ranges (Insert_emit cur rs)). range_second r \<le> range_second cur"
proof -
  have ok: "range_ok cur" and lim: "rs_blocks rs \<le> range_first cur"
    using assms by (auto simp: Insert_inv_def)
  then have le: "rs_blocks rs + range_size cur \<le> range_second cur"
    by (simp add: range_size_ok range_ok_def)
  then have le': "rs_blocks rs + range_size cur \<le> SIZE_MAX"
    using ok by (simp add: range_ok_def)
  have emit: "Insert_emit cur rs =
      rs\<lparr>rs_ranges := rs_ranges rs @ [cur], rs_blocks := rs_blocks rs + range_size cur\<rparr>"
    using le' by (simp add: Insert_emit_def range_size_def [symmetric] size_add_small)
  show "wf_sorted (Insert_emit cur rs)"
    using assms ok le' wf_rs_snoc [of rs cur]
    by (auto simp: emit wf_sorted_def Insert_inv_def sorted_wrt_append)
  show "rs_blocks (Insert_emit cur rs) \<le> range_second cur" using le by (simp add: emit)
  show "set (blocks_of (Insert_emit cur rs)) = set (blocks_of rs) \<union> set (range_blocks cur)"
    by (simp add: emit blocks_of_snoc)
  show "\<forall>r \<in> set (rs_ranges (Insert_emit cur rs)). range_second r \<le> range_second cur"
    using assms by (fastforce simp: emit Insert_inv_def range_ok_def)
qed

lemma Insert_loop_correct:
  assumes "Insert_inv cur rs" "sorted rest" "\<forall>r \<in> set rest. range_ok r \<and> range_first cur \<le> range_first r"
  shows "wf_sorted (Insert_loop cur rest rs) \<and>
    set (blocks_of (Insert_loop cur rest rs)) =
      set (blocks_of rs) \<union> set (range_blocks cur) \<union> (\<Union>r \<in> set rest. set (range_blocks r))"
  using assms
proof (induction cur rest rs rule: Insert_loop.induct)
  case (1 cur rs)
  then show ?case using Insert_emit_inv [OF "1.prems"(1)] by simp
next
  case (2 cur r rest rs)
  have r: "range_ok r" "range_first cur \<le> range_first r" using "2.prems"(3) by auto
  have cur: "range_ok cur" using "2.prems"(1) by (simp add: Insert_inv_def)
  show ?case
  proof (cases "range_first r \<le> range_second cur")
    case True
    let ?m = "Range (range_first cur) (max (range_second cur) (range_second r))"
    have "Insert_inv ?m rs" using "2.prems"(1) r cur by (auto simp: Insert_inv_def range_ok_def)
    moreover have "set (range_blocks ?m) = set (range_blocks cur) \<union> set (range_blocks r)"
      using True r cur by (auto simp: set_range_blocks range_ok_def)
    ultimately show ?thesis using "2.IH"(1) [OF True] "2.prems"(2,3) True by auto
  next
    case False
    note em = Insert_emit_inv [OF "2.prems"(1)]
    have "Insert_inv r (Insert_emit cur rs)"
      using em False r by (fastforce simp: Insert_inv_def)
    moreover have "\<forall>q \<in> set rest. range_ok q \<and> range_first r \<le> range_first q"
      using "2.prems"(2,3) sorted_firsts by auto
    ultimately show ?thesis using "2.IH"(2) [OF False] "2.prems"(2) False em(3) by auto
  qed
qed

lemma Insert_set_correct:
  assumes "wf_sorted self" "wf_rs rs"
  shows "wf_sorted (Insert_set self rs) \<and>
    set (blocks_of (Insert_set self rs)) = set (blocks_of self) \<union> set (blocks_of rs)"
proof (cases "rs_ranges rs = []")
  case True
  then have "blocks_of rs = []" by (simp add: blocks_of_def)
  with True assms show ?thesis by (simp add: Insert_set_def)
next
  case False
  let ?temp = "sort (rs_ranges self @ rs_ranges rs)"
  have "length ?temp \<noteq> 0" using False by simp
  then obtain x xs where t: "?temp = x # xs" by (cases ?temp) auto
  have srt: "sorted (x # xs)" using t by (metis sorted_sort)
  have st: "set (x # xs) = set (rs_ranges self) \<union> set (rs_ranges rs)"
    using arg_cong [OF t, of set] by simp
  have ok: "\<forall>r \<in> set (x # xs). range_ok r"
    using assms unfolding st by (auto simp: wf_sorted_def wf_rs_def)
  have inv: "Insert_inv x RangeSet_empty"
    using ok by (simp add: Insert_inv_def)
  have "\<forall>r \<in> set xs. range_ok r \<and> range_first x \<le> range_first r"
    using ok srt sorted_firsts by auto
  from Insert_loop_correct [OF inv _ this] srt
  have "wf_sorted (Insert_loop x xs RangeSet_empty) \<and>
      set (blocks_of (Insert_loop x xs RangeSet_empty)) = (\<Union>r \<in> set (x # xs). set (range_blocks r))"
    by simp
  moreover have "Insert_set self rs = Insert_loop x xs RangeSet_empty"
    using False t by (simp add: Insert_set_def)
  ultimately show ?thesis unfolding st by (simp add: blocks_of_def)
qed

lemma byte_span_ok:
  assumes "0 < len" "start + len \<le> SIZE_MAX"
  shows "range_ok (byte_span start len)"
    and "b \<in> set (range_blocks (byte_span start len)) \<longleftrightarrow>
      (\<exists>i. start \<le> i \<and> i < start + len \<and> i div kBlockSize = b)"
proof -
  let ?e = "(start + len - 1) div kBlockSize"
  have "size_add ?e 1 = ?e + 1"
    using assms by (intro size_add_small) (simp add: kBlockSize_def SIZE_MAX_def)
  then have span: "byte_span start len = Range (start div kBlockSize) (?e + 1)"
    using assms by (simp add: byte_span_def size_simps)
  have le: "start div kBlockSize \<le> ?e" using assms(1) by (intro div_le_mono) simp
  have "?e + 1 \<le> SIZE_MAX" using assms by (simp add: kBlockSize_def SIZE_MAX_def)
  with le show "range_ok (byte_span start len)" by (simp add: span range_ok_def)
  have "start div kBlockSize \<le> b \<and> b \<le> ?e \<longleftrightarrow>
      (\<exists>i. start \<le> i \<and> i < start + len \<and> i div kBlockSize = b)" (is "?l \<longleftrightarrow> ?r")
  proof
    assume l: ?l
    let ?i = "max start (b * kBlockSize)"
    have "?i div kBlockSize = b"
      using l by (auto simp: max_def kBlockSize_def)
    moreover have "?i < start + len"
      using l assms(1) by (auto simp: max_def kBlockSize_def)
    ultimately show ?r by (intro exI [of _ ?i]) simp
  next
    assume ?r
    then obtain i where i: "start \<le> i" "i \<le> start + len - 1" "i div kBlockSize = b" by auto
    then show ?l using div_le_mono [OF i(1), of kBlockSize] div_le_mono [OF i(2), of kBlockSize] by simp
  qed
  then show "b \<in> set (range_blocks (byte_span start len)) \<longleftrightarrow>
      (\<exists>i. start \<le> i \<and> i < start + len \<and> i div kBlockSize = b)"
    by (simp add: span set_range_blocks less_Suc_eq_le)
qed

subsection \<open>Offsets\<close>

lemma separated_blocks_ge:
  "separated (r # rr) \<Longrightarrow> range_ok r \<Longrightarrow> b \<in> set (concat (map range_blocks rr)) \<Longrightarrow>
     range_second r < b"
  by (force simp: set_range_blocks range_ok_def)

lemma GetOffset_loop_correct:
  assumes "separated rr" "\<forall>r \<in> set rr. range_ok r \<and> acc \<le> range_first r"
    and "old \<le> SIZE_MAX" "b = old div kBlockSize"
  shows "(case GetOffset_loop rr old b acc of
        None \<Rightarrow> b \<notin> set (concat (map range_blocks rr))
      | Some n \<Rightarrow> \<exists>i < length (concat (map range_blocks rr)).
          concat (map range_blocks rr) ! i = b \<and> n = (acc + i) * kBlockSize + old mod kBlockSize)"
  using assms
proof (induction rr arbitrary: acc)
  case (Cons r rr)
  have ok: "range_ok r" and acc: "acc \<le> range_first r" using Cons.prems(2) by auto
  then have b: "range_first r < range_second r" "range_second r \<le> SIZE_MAX"
    by (simp_all add: range_ok_def)
  have len: "length (range_blocks r) = range_second r - range_first r"
    by (simp add: range_blocks_def)
  consider "range_second r \<le> b" | "range_first r \<le> b" "b < range_second r" | "b < range_first r"
    by linarith
  then show ?case
  proof cases
    case 1
    let ?acc = "acc + (range_second r - range_first r)"
    have sa: "size_add acc (size_sub (range_second r) (range_first r)) = ?acc"
      using b acc by (simp add: size_simps)
    have nin: "b \<notin> set (range_blocks r)" using 1 by (simp add: set_range_blocks)
    have "\<forall>q \<in> set rr. range_ok q \<and> ?acc \<le> range_first q"
      using Cons.prems(1,2) acc b by fastforce
    with Cons have "case GetOffset_loop rr old b ?acc of
        None \<Rightarrow> b \<notin> set (concat (map range_blocks rr))
      | Some n \<Rightarrow> \<exists>i < length (concat (map range_blocks rr)).
          concat (map range_blocks rr) ! i = b \<and> n = (?acc + i) * kBlockSize + old mod kBlockSize"
      by simp
    moreover have "\<exists>j < length (concat (map range_blocks (r # rr))).
        concat (map range_blocks (r # rr)) ! j = b \<and> n = (acc + j) * kBlockSize + old mod kBlockSize"
      if "i < length (concat (map range_blocks rr))" "concat (map range_blocks rr) ! i = b"
        "n = (?acc + i) * kBlockSize + old mod kBlockSize" for i n
      using that len
      by (intro exI [of _ "length (range_blocks r) + i"]) (simp add: nth_append add.assoc)
    ultimately show ?thesis using 1 sa nin by (auto split: option.splits)
  next
    case 2
    then obtain i where i: "b = range_first r + i" using le_Suc_ex by blast
    have lim: "(acc + i) * kBlockSize + old mod kBlockSize \<le> SIZE_MAX"
    proof -
      have "(acc + i) * kBlockSize \<le> b * kBlockSize" using acc i by (intro mult_le_mono1) simp
      moreover have "b * kBlockSize + old mod kBlockSize = old" using Cons.prems(4) by simp
      ultimately have "(acc + i) * kBlockSize + old mod kBlockSize \<le> old" by linarith
      then show ?thesis using Cons.prems(3) by simp
    qed
    have m: "(acc + i) * kBlockSize \<le> SIZE_MAX" using lim by simp
    have "acc + i \<le> (acc + i) * kBlockSize" by (simp add: kBlockSize_def)
    with m have a: "acc + i \<le> SIZE_MAX" by (rule order_trans [rotated])
    have "size_sub b (range_first r) = i" using i by (simp add: size_sub_small)
    then have "GetOffset_loop (r # rr) old b acc = Some ((acc + i) * kBlockSize + old mod kBlockSize)"
      using 2 by (simp add: size_add_small [OF a] size_mul_small [OF m] size_add_small [OF lim])
    moreover have "i < length (range_blocks r)" "range_blocks r ! i = b"
      using 2 i len by (simp_all add: range_blocks_def)
    ultimately show ?thesis by (auto simp: nth_append intro!: exI [of _ i])
  next
    case 3
    have "b \<notin> set (concat (map range_blocks (r # rr)))"
      using 3 b separated_blocks_ge [OF Cons.prems(1) ok, of b] by (auto simp: set_range_blocks)
    with 3 b show ?thesis by simp
  qed
qed simp

section \<open>The interface of a set of blocks\<close>

text \<open>
  What a client of \<^verbatim>\<open>SortedRangeSet\<close> may rely on: a canonical representation of a set of
  block numbers with union and an intersection test.
\<close>

locale block_set =
  fixes emp :: 's and ins :: "'s \<Rightarrow> 's \<Rightarrow> 's" and meets :: "'s \<Rightarrow> 's \<Rightarrow> bool"
    and blocks :: "'s \<Rightarrow> nat set" and inv :: "'s \<Rightarrow> bool"
  assumes inv_emp: "inv emp" and blocks_emp: "blocks emp = {}"
    and inv_ins: "inv a \<Longrightarrow> inv b \<Longrightarrow> inv (ins a b)"
    and blocks_ins: "inv a \<Longrightarrow> inv b \<Longrightarrow> blocks (ins a b) = blocks a \<union> blocks b"
    and meets_iff: "inv a \<Longrightarrow> inv b \<Longrightarrow> meets a b \<longleftrightarrow> blocks a \<inter> blocks b \<noteq> {}"
    and canonical: "inv a \<Longrightarrow> inv b \<Longrightarrow> blocks a = blocks b \<Longrightarrow> a = b"
begin

lemma ins_commute: "inv a \<Longrightarrow> inv b \<Longrightarrow> ins a b = ins b a"
  by (rule canonical) (auto simp: inv_ins blocks_ins)

lemma ins_assoc: "inv a \<Longrightarrow> inv b \<Longrightarrow> inv c \<Longrightarrow> ins (ins a b) c = ins a (ins b c)"
  by (rule canonical) (auto simp: inv_ins blocks_ins)

lemma ins_absorb: "inv a \<Longrightarrow> inv b \<Longrightarrow> blocks b \<subseteq> blocks a \<Longrightarrow> ins a b = a"
  by (rule canonical) (auto simp: inv_ins blocks_ins)

lemma meets_ins: "inv a \<Longrightarrow> inv b \<Longrightarrow> inv c \<Longrightarrow> meets (ins a b) c \<longleftrightarrow> meets a c \<or> meets b c"
  by (auto simp: meets_iff inv_ins blocks_ins)

lemma inv_fold: "inv a \<Longrightarrow> \<forall>x \<in> set xs. inv x \<Longrightarrow> inv (foldl ins a xs)"
  by (induction xs arbitrary: a) (auto simp: inv_ins)

lemma blocks_fold:
  "inv a \<Longrightarrow> \<forall>x \<in> set xs. inv x \<Longrightarrow> blocks (foldl ins a xs) = blocks a \<union> (\<Union>x \<in> set xs. blocks x)"
  by (induction xs arbitrary: a) (auto simp: inv_ins blocks_ins)

lemma fold_order:
  assumes "\<forall>x \<in> set xs. inv x" "set xs = set ys"
  shows "foldl ins emp xs = foldl ins emp ys"
proof (rule canonical)
  have ys: "\<forall>y \<in> set ys. inv y" using assms by simp
  show "inv (foldl ins emp xs)" "inv (foldl ins emp ys)"
    using assms(1) ys inv_emp by (simp_all add: inv_fold)
  show "blocks (foldl ins emp xs) = blocks (foldl ins emp ys)"
    using assms ys inv_emp by (simp add: blocks_fold)
qed

end

lemma separated_head:
  assumes "separated (r # rr)" "separated (q # qq)" "range_ok r" "range_ok q"
    and "\<forall>x \<in> set rr \<union> set qq. range_ok x"
    and "set (concat (map range_blocks (r # rr))) = set (concat (map range_blocks (q # qq)))"
  shows "range_first q \<le> range_first r" and "range_second r \<le> range_second q"
proof -
  let ?A = "set (concat (map range_blocks (r # rr)))" and ?B = "set (concat (map range_blocks (q # qq)))"
  have "range_first r \<in> ?A" using assms(3) by (simp add: set_range_blocks range_ok_def)
  then have "range_first r \<in> ?B" by (simp only: assms(6))
  then show f: "range_first q \<le> range_first r"
    using separated_blocks_ge [OF assms(2,4)] assms(4)
    by (fastforce simp: set_range_blocks range_ok_def)
  show "range_second r \<le> range_second q"
  proof (rule ccontr)
    assume "\<not> range_second r \<le> range_second q"
    then have lt: "range_second q < range_second r" by simp
    have "range_first q \<in> ?B" using assms(4) by (simp add: set_range_blocks range_ok_def)
    then have "range_first q \<in> ?A" by (simp only: assms(6))
    then have "range_first r \<le> range_first q"
      using separated_blocks_ge [OF assms(1,3)] assms(3)
      by (fastforce simp: set_range_blocks range_ok_def)
    with lt assms(4) have "range_second q \<in> ?A"
      by (simp add: set_range_blocks range_ok_def)
    then have "range_second q \<in> ?B" by (simp only: assms(6))
    then show False
      using separated_blocks_ge [OF assms(2,4), of "range_second q"]
      by (auto simp: set_range_blocks)
  qed
qed

lemma separated_canonical:
  assumes "separated rr" "separated qq" "\<forall>x \<in> set rr \<union> set qq. range_ok x"
    and "set (concat (map range_blocks rr)) = set (concat (map range_blocks qq))"
  shows "rr = qq"
  using assms
proof (induction rr arbitrary: qq)
  case Nil
  then show ?case by (cases qq) (auto simp: set_range_blocks range_ok_def)
next
  case (Cons r rr)
  obtain q qs where qq: "qq = q # qs"
    using Cons.prems(3,4) by (cases qq) (auto simp: set_range_blocks range_ok_def)
  have ok: "range_ok r" "range_ok q" "\<forall>x \<in> set rr \<union> set qs. range_ok x"
    "\<forall>x \<in> set qs \<union> set rr. range_ok x"
    using Cons.prems(3) qq by auto
  note sep = Cons.prems(1) Cons.prems(2) [unfolded qq]
  note eq = Cons.prems(4) [unfolded qq]
  have "range_first r = range_first q" "range_second r = range_second q"
    using separated_head [OF sep ok(1,2,3) eq]
      separated_head [OF sep(2,1) ok(2,1,4) eq [symmetric]]
    by (blast intro: order_antisym)+
  then have rq: "r = q" by (simp add: range.expand)
  let ?R = "set (concat (map range_blocks rr))" and ?Q = "set (concat (map range_blocks qs))"
  have "x \<notin> set (range_blocks r)" if "x \<in> ?R" for x
    using separated_blocks_ge [OF sep(1) ok(1) that] by (simp add: set_range_blocks)
  moreover have "x \<notin> set (range_blocks r)" if "x \<in> ?Q" for x
    using separated_blocks_ge [OF sep(2) ok(2) that] rq by (simp add: set_range_blocks)
  moreover have "set (range_blocks r) \<union> ?R = set (range_blocks r) \<union> ?Q"
    using eq rq by simp
  ultimately have "?R = ?Q" by blast
  with Cons.IH [of qs] sep ok(3) rq qq show ?case by simp
qed

lemma wf_sorted_canonical:
  assumes "wf_sorted a" "wf_sorted b" "set (blocks_of a) = set (blocks_of b)"
  shows "a = b"
proof -
  have "rs_ranges a = rs_ranges b"
    using assms by (intro separated_canonical) (auto simp: wf_sorted_def wf_rs_def blocks_of_def)
  then show ?thesis using assms(1,2) by (simp add: wf_sorted_def wf_rs_def)
qed

interpretation srs: block_set RangeSet_empty Insert_set Overlaps "\<lambda>rs. set (blocks_of rs)" wf_sorted
proof unfold_locales
  fix a b assume "wf_sorted a" "wf_sorted b"
  then show "wf_sorted (Insert_set a b)"
    and "set (blocks_of (Insert_set a b)) = set (blocks_of a) \<union> set (blocks_of b)"
    and "Overlaps a b = (set (blocks_of a) \<inter> set (blocks_of b) \<noteq> {})"
    using Insert_set_correct Overlaps_iff by (simp_all add: wf_sorted_def)
qed (simp_all add: wf_sorted_canonical)

lemma Insert_span_blocks:
  assumes "wf_sorted rs" "0 < len" "start + len \<le> SIZE_MAX"
  shows "set (blocks_of (Insert_span rs start len)) =
      set (blocks_of rs) \<union> {b. \<exists>i. start \<le> i \<and> i < start + len \<and> i div kBlockSize = b}"
proof -
  let ?r = "byte_span start len"
  note span = byte_span_ok [OF assms(2,3)]
  have small: "range_size ?r < SIZE_MAX"
    using span(1) assms by (simp add: range_size_ok byte_span_def size_simps kBlockSize_def SIZE_MAX_def)
  have c: "SortedRangeSet_ctor [?r] = \<lparr>rs_ranges = [?r], rs_blocks = range_size ?r\<rparr>"
    using RangeSet_ctor_ok [of "[?r]"] span(1) small by (simp add: SortedRangeSet_ctor_def)
  have "wf_sorted (SortedRangeSet_ctor [?r])"
    using span(1) small by (simp add: c wf_sorted_def wf_rs_def)
  then have "set (blocks_of (Insert_span rs start len)) = set (blocks_of rs) \<union> set (range_blocks ?r)"
    using srs.blocks_ins [OF assms(1)] by (simp add: Insert_span_def Insert_range_def c blocks_of_def)
  then show ?thesis using span(2) by blast
qed

lemma GetOffsetInRangeSet_correct:
  assumes "wf_sorted rs" "off \<le> SIZE_MAX"
  shows "case GetOffsetInRangeSet rs off of
        None \<Rightarrow> off div kBlockSize \<notin> set (blocks_of rs)
      | Some n \<Rightarrow> n div kBlockSize < length (blocks_of rs) \<and>
          blocks_of rs ! (n div kBlockSize) = off div kBlockSize \<and> n mod kBlockSize = off mod kBlockSize"
proof -
  have k: "(i * kBlockSize + off mod kBlockSize) div kBlockSize = i"
    "(i * kBlockSize + off mod kBlockSize) mod kBlockSize = off mod kBlockSize" for i
    by (simp_all add: kBlockSize_def)
  have "case GetOffsetInRangeSet rs off of
        None \<Rightarrow> off div kBlockSize \<notin> set (blocks_of rs)
      | Some n \<Rightarrow> \<exists>i < length (blocks_of rs). blocks_of rs ! i = off div kBlockSize \<and>
          n = (0 + i) * kBlockSize + off mod kBlockSize"
    unfolding GetOffsetInRangeSet_def blocks_of_def
    using assms by (intro GetOffset_loop_correct) (auto simp: wf_sorted_def wf_rs_def)
  then show ?thesis using k by (auto split: option.splits)
qed

section \<open>Properties\<close>

definition sample_rs :: RangeSet where
  "sample_rs = \<lparr>rs_ranges = [Range 1 3, Range 5 8], rs_blocks = 5\<rparr>"

lemma sample_rs_simps [simp]:
  "rs_ranges sample_rs = [Range 1 3, Range 5 8]" "rs_blocks sample_rs = 5"
  by (simp_all add: sample_rs_def)

lemma sample_rs_wf: "wf_sorted sample_rs" "wf_rs sample_rs" "rs_blocks sample_rs < SIZE_MAX"
  by (simp_all add: wf_sorted_def wf_rs_def range_ok_def range_size_def size_sub_def SIZE_MAX_def)

lemma sample_rs_blocks: "blocks_of sample_rs = [1, 2, 5, 6, 7]"
  by (simp add: blocks_of_def range_blocks_def upt_conv_Cons)

text \<open>
  C1.  Reading back what \<^verbatim>\<open>RangeSet::ToString\<close> prints yields the same range set, for every
  well-formed set that \<^verbatim>\<open>RangeSet::Parse\<close> can represent (limits and token count at most
  \<^verbatim>\<open>INT_MAX\<close>).
\<close>

theorem rangeset_parse_print:
  assumes "split_ok ab" "parse_uint_ok ab"
    and "wf_rs rs" "rs_ranges rs \<noteq> []" "rs_blocks rs < SIZE_MAX"
    and "\<forall>r \<in> set (rs_ranges rs). range_second r \<le> INT_MAX" "length (rs_ranges rs) * 2 \<le> INT_MAX"
  shows "Parse ab (ToString rs) = rs"
  using assms by (rule Parse_ToString)

theorem rangeset_parse_print_witness:
  "split_ok sample_base \<and> parse_uint_ok sample_base \<and> wf_rs sample_rs \<and>
   Parse sample_base (ToString sample_rs) = sample_rs"
  using rangeset_parse_print [OF sample_split_ok sample_parse_uint_ok sample_rs_wf(2) _ sample_rs_wf(3)]
    sample_split_ok sample_parse_uint_ok sample_rs_wf(2)
  by (simp add: INT_MAX_def)

text \<open>
  C2.  Whatever the text, \<^verbatim>\<open>RangeSet::Parse\<close> yields a well-formed set: every range is
  non-empty, and the block count is the number of blocks in the ranges, without overflow.
  \<^verbatim>\<open>GetBlockNumber\<close> on it returns the block at that index and fails its \<^verbatim>\<open>CHECK\<close> exactly for
  an index that is not below the block count.
\<close>

theorem rangeset_parse_index:
  assumes "parse_uint_ok ab"
  shows "wf_rs (Parse ab s) \<and> length (blocks_of (Parse ab s)) = rs_blocks (Parse ab s) \<and>
    GetBlockNumber (Parse ab s) idx =
      (if idx < rs_blocks (Parse ab s) then Some (blocks_of (Parse ab s) ! idx) else None)"
  using Parse_wf [OF assms, of s]
  by (simp add: GetBlockNumber_eq length_blocks_of)

theorem rangeset_parse_index_witness:
  "parse_uint_ok sample_base \<and>
   GetBlockNumber (Parse sample_base (ToString sample_rs)) 3 =
     (if 3 < rs_blocks (Parse sample_base (ToString sample_rs))
      then Some (blocks_of (Parse sample_base (ToString sample_rs)) ! 3) else None)"
  using rangeset_parse_index [OF sample_parse_uint_ok, of "ToString sample_rs" 3] sample_parse_uint_ok
  by simp

text \<open>
  C3.  \<^verbatim>\<open>RangeSet::Split\<close> hands out the same blocks in the same order, in as many groups as
  asked for (one block each when there are fewer blocks than groups), and the sizes of the
  groups differ by at most one block, the larger groups first.
\<close>

theorem rangeset_split:
  assumes "wf_rs rs" "rs_ranges rs \<noteq> []" "rs_blocks rs < SIZE_MAX" "0 < groups"
  shows "\<exists>out. Split rs groups = Some out \<and> length out = min groups (rs_blocks rs) \<and>
    concat (map blocks_of out) = blocks_of rs \<and> (\<forall>g \<in> set out. wf_rs g) \<and>
    sorted_wrt (\<lambda>a b. rs_blocks b \<le> rs_blocks a \<and> rs_blocks a \<le> rs_blocks b + 1) out"
proof -
  obtain r rr where rr: "rs_ranges rs = r # rr" using assms(2) by (cases "rs_ranges rs") auto
  let ?n = "rs_blocks rs" and ?g = "min groups (rs_blocks rs)"
  let ?bs = "replicate (?n mod ?g) (?n div ?g + 1) @ replicate (?g - ?n mod ?g) (?n div ?g)"
  have inv: "Split_inv r (rs_ranges rs)" and rem: "Split_rem r (rs_ranges rs) = blocks_of rs"
    using assms(1) rr by (auto simp: Split_inv_def wf_rs_def blocks_of_def)
  have "0 < range_size r" using assms(1) rr by (simp add: wf_rs_def range_size_ok range_ok_def)
  then have "0 < ?n" using assms(1) rr by (simp add: wf_rs_def)
  then have g: "0 < ?g" using assms(4) by simp
  have sum: "sum_list ?bs = ?n" by (rule Split_sizes [OF g])
  have mean: "?n div ?g + 1 \<le> SIZE_MAX" "?n div ?g < SIZE_MAX"
    using assms(3) div_le_dividend [of ?n ?g] by linarith+
  have big: "\<forall>b \<in> set ?bs. b < SIZE_MAX"
  proof
    fix b assume b: "b \<in> set ?bs"
    then have "b \<le> sum_list ?bs" by (rule member_le_sum_list) (rule le0)
    then show "b < SIZE_MAX" using sum assms(3) by linarith
  qed
  have split: "Split rs groups = Split_groups ?bs r (rs_ranges rs)"
    using rr assms(4) mean(1) by (auto simp: Split_def Let_def size_add_small min_def)
  have "sum_list ?bs \<le> length (Split_rem r (rs_ranges rs))"
    using sum rem length_blocks_of [OF assms(1)] by simp
  then obtain out where out: "Split_groups ?bs r (rs_ranges rs) = Some out" "map rs_blocks out = ?bs"
      "\<forall>g \<in> set out. wf_rs g" "concat (map blocks_of out) = take (sum_list ?bs) (blocks_of rs)"
    using Split_groups_ok [OF inv _ big] rem by auto
  have "length out = ?g"
    using arg_cong [OF out(2), of length] mod_less_divisor [OF g, of ?n] by simp
  moreover have "sorted_wrt (\<lambda>a b. rs_blocks b \<le> rs_blocks a \<and> rs_blocks a \<le> rs_blocks b + 1) out"
    using Split_sizes_sorted [of "?n mod ?g" "?n div ?g" "?g - ?n mod ?g"]
    unfolding out(2) [symmetric] sorted_wrt_map .
  moreover have "concat (map blocks_of out) = blocks_of rs"
    unfolding out(4) sum using length_blocks_of [OF assms(1)] by simp
  ultimately show ?thesis using trans [OF split out(1)] out(3) by blast
qed

theorem rangeset_split_witness:
  "wf_rs sample_rs \<and> (\<exists>out. Split sample_rs 3 = Some out \<and> length out = 3 \<and>
    concat (map blocks_of out) = [1, 2, 5, 6, 7])"
  using rangeset_split [OF sample_rs_wf(2) _ sample_rs_wf(3), of 3] sample_rs_wf(2)
  by (auto simp: sample_rs_blocks)

text \<open>
  C4.  \<^verbatim>\<open>SortedRangeSet::Insert\<close> computes the union: the result is again sorted, its ranges
  are separated by at least one block and hold exactly the blocks of both sets, and the
  order in which several sets are inserted does not matter.
\<close>

theorem sorted_insert_union:
  assumes "\<forall>x \<in> set xs. wf_sorted x" "set xs = set ys"
  shows "wf_sorted (foldl Insert_set RangeSet_empty xs) \<and>
    set (blocks_of (foldl Insert_set RangeSet_empty xs)) = (\<Union>x \<in> set xs. set (blocks_of x)) \<and>
    foldl Insert_set RangeSet_empty xs = foldl Insert_set RangeSet_empty ys"
  using srs.inv_fold [OF srs.inv_emp assms(1)] srs.blocks_fold [OF srs.inv_emp assms(1)]
    srs.fold_order [OF assms] by simp

theorem sorted_insert_union_witness:
  "wf_sorted sample_rs \<and>
   foldl Insert_set RangeSet_empty [sample_rs, RangeSet_empty] =
     foldl Insert_set RangeSet_empty [RangeSet_empty, sample_rs]"
  using sorted_insert_union [of "[sample_rs, RangeSet_empty]" "[RangeSet_empty, sample_rs]"]
    sample_rs_wf(1) by auto

end
