(* ===== verification/Asn1.thy ===== *)
theory Asn1
  imports Prelude "HOL-Library.Monad_Syntax" "HOL-Library.Sublist"
begin

unbundle bit_operations_syntax

text \<open>
  The DER cursor of \<^verbatim>\<open>asn1_decoder.cpp\<close> / \<^verbatim>\<open>asn1_decoder.h\<close>.  A cursor is an offset into the
  buffer that holds the signature block, the number of bytes left and the application
  type.  Operations live in the option monad: \<open>None\<close> is a read outside the buffer, which
  the lemmas rule out; a null pointer or a \<^verbatim>\<open>false\<close> result is an ordinary value.

  Main results: every operation reads inside the buffer and leaves the cursor inside the
  region it started with (\<open>safe_*\<close>), and the decoder inverts the DER encoder of definite
  lengths (\<open>*_der\<close>).
\<close>

section \<open>The cursor\<close>

record asn1_context =
  a_p :: nat
  a_length :: nat
  a_app_type :: int

definition asn1_context_new :: "nat \<Rightarrow> nat \<Rightarrow> asn1_context" where
  "asn1_context_new p len = \<lparr>a_p = p, a_length = len, a_app_type = 0\<rparr>"

definition kMaskConstructed :: int where "kMaskConstructed = 0xE0"
definition kMaskTag :: int where "kMaskTag = 0x7F"
definition kMaskAppType :: int where "kMaskAppType = 0x1F"
definition kTagOctetString :: int where "kTagOctetString = 0x04"
definition kTagOid :: int where "kTagOid = 0x06"
definition kTagSequence :: int where "kTagSequence = 0x30"
definition kTagSet :: int where "kTagSet = 0x31"
definition kTagConstructed :: int where "kTagConstructed = 0xA0"

lemmas asn1_consts = kMaskConstructed_def kMaskTag_def kMaskAppType_def kTagOctetString_def
  kTagOid_def kTagSequence_def kTagSet_def kTagConstructed_def

text \<open>A read of one byte of memory.\<close>

definition rd :: "byte list \<Rightarrow> nat \<Rightarrow> byte option" where
  "rd buf i = (if i < length buf then Some (buf ! i) else None)"

definition peek_byte :: "byte list \<Rightarrow> asn1_context \<Rightarrow> int option" where
  "peek_byte buf c = (if a_length c = 0 then Some (-1) else map_option uint (rd buf (a_p c)))"

definition get_byte :: "byte list \<Rightarrow> asn1_context \<Rightarrow> (int \<times> asn1_context) option" where
  "get_byte buf c =
     (if a_length c = 0 then Some (-1, c)
      else do { b \<leftarrow> rd buf (a_p c);
                Some (uint b, c\<lparr>a_p := a_p c + 1, a_length := a_length c - 1\<rparr>) })"

definition skip_bytes :: "nat \<Rightarrow> asn1_context \<Rightarrow> bool \<times> asn1_context" where
  "skip_bytes num_skip c =
     (if a_length c < num_skip then (False, c)
      else (True, c\<lparr>a_p := a_p c + num_skip, a_length := a_length c - num_skip\<rparr>))"

fun decode_octets ::
  "byte list \<Rightarrow> nat \<Rightarrow> nat \<Rightarrow> asn1_context \<Rightarrow> (nat option \<times> asn1_context) option" where
  "decode_octets buf 0 len c = Some (Some len, c)"
| "decode_octets buf (Suc n) len c =
     do { (byte, c) \<leftarrow> get_byte buf c;
          if byte = -1 then Some (None, c)
          else decode_octets buf n (size_add (size_mul len 256) (nat byte)) c }"

definition decode_length :: "byte list \<Rightarrow> asn1_context \<Rightarrow> (nat option \<times> asn1_context) option" where
  "decode_length buf c =
     do { (num_octets, c) \<leftarrow> get_byte buf c;
          if num_octets = -1 then Some (None, c)
          else if num_octets AND 0x80 = 0 then Some (Some (nat num_octets), c)
          else
            let num_octets = num_octets AND kMaskTag
            in if 8 \<le> num_octets then Some (None, c)
               else decode_octets buf (nat num_octets) 0 c }"

definition asn1_constructed_get ::
  "byte list \<Rightarrow> asn1_context \<Rightarrow> (asn1_context option \<times> asn1_context) option" where
  "asn1_constructed_get buf c =
     do { (type, c) \<leftarrow> get_byte buf c;
          if type = -1 \<or> type AND kMaskConstructed \<noteq> kTagConstructed then Some (None, c)
          else do { (len, c) \<leftarrow> decode_length buf c;
                    case len of
                      None \<Rightarrow> Some (None, c)
                    | Some len \<Rightarrow>
                        if a_length c < len then Some (None, c)
                        else Some (Some ((asn1_context_new (a_p c) len)
                                     \<lparr>a_app_type := type AND kMaskAppType\<rparr>), c) } }"

text \<open>
  The loop of \<^verbatim>\<open>asn1_constructed_skip_all\<close>, run while a constructed element follows.  The
  fuel is the number of bytes left; it is enough because every turn consumes at least one.
\<close>

fun skip_all_loop :: "nat \<Rightarrow> byte list \<Rightarrow> int \<Rightarrow> asn1_context \<Rightarrow> (bool \<times> asn1_context) option" where
  "skip_all_loop fuel buf byte c =
     (if byte \<noteq> -1 \<and> byte AND kMaskConstructed = kTagConstructed then
        (case fuel of
           0 \<Rightarrow> None
         | Suc fuel \<Rightarrow>
             do { (len, c) \<leftarrow> decode_length buf (snd (skip_bytes 1 c));
                  case len of
                    None \<Rightarrow> Some (False, c)
                  | Some len \<Rightarrow>
                      (case skip_bytes len c of
                         (False, c) \<Rightarrow> Some (False, c)
                       | (True, c) \<Rightarrow>
                           do { byte \<leftarrow> peek_byte buf c; skip_all_loop fuel buf byte c }) })
      else Some (byte \<noteq> -1, c))"

declare skip_all_loop.simps [simp del]

definition asn1_constructed_skip_all ::
  "byte list \<Rightarrow> asn1_context \<Rightarrow> (bool \<times> asn1_context) option" where
  "asn1_constructed_skip_all buf c =
     do { byte \<leftarrow> peek_byte buf c; skip_all_loop (a_length c) buf byte c }"

definition asn1_constructed_type :: "asn1_context \<Rightarrow> int" where
  "asn1_constructed_type c = a_app_type c"

definition asn1_sequence_get ::
  "byte list \<Rightarrow> asn1_context \<Rightarrow> (asn1_context option \<times> asn1_context) option" where
  "asn1_sequence_get buf c =
     do { (byte, c) \<leftarrow> get_byte buf c;
          if byte AND kMaskTag \<noteq> kTagSequence then Some (None, c)
          else do { (len, c) \<leftarrow> decode_length buf c;
                    case len of
                      None \<Rightarrow> Some (None, c)
                    | Some len \<Rightarrow>
                        if a_length c < len then Some (None, c)
                        else Some (Some (asn1_context_new (a_p c) len), c) } }"

definition asn1_set_get ::
  "byte list \<Rightarrow> asn1_context \<Rightarrow> (asn1_context option \<times> asn1_context) option" where
  "asn1_set_get buf c =
     do { (byte, c) \<leftarrow> get_byte buf c;
          if byte AND kMaskTag \<noteq> kTagSet then Some (None, c)
          else do { (len, c) \<leftarrow> decode_length buf c;
                    case len of
                      None \<Rightarrow> Some (None, c)
                    | Some len \<Rightarrow>
                        if a_length c < len then Some (None, c)
                        else Some (Some (asn1_context_new (a_p c) len), c) } }"

definition asn1_sequence_next :: "byte list \<Rightarrow> asn1_context \<Rightarrow> (bool \<times> asn1_context) option" where
  "asn1_sequence_next buf c =
     do { (byte, c) \<leftarrow> get_byte buf c;
          if byte = -1 then Some (False, c)
          else do { (len, c) \<leftarrow> decode_length buf c;
                    case len of
                      None \<Rightarrow> Some (False, c)
                    | Some len \<Rightarrow> Some (skip_bytes len c) } }"

text \<open>The two getters of a byte string: the result is the offset and the length.\<close>

definition asn1_oid_get ::
  "byte list \<Rightarrow> asn1_context \<Rightarrow> ((nat \<times> nat) option \<times> asn1_context) option" where
  "asn1_oid_get buf c =
     do { (byte, c) \<leftarrow> get_byte buf c;
          if byte \<noteq> kTagOid then Some (None, c)
          else do { (len, c) \<leftarrow> decode_length buf c;
                    case len of
                      None \<Rightarrow> Some (None, c)
                    | Some len \<Rightarrow>
                        if len = 0 \<or> a_length c < len then Some (None, c)
                        else Some (Some (a_p c, len), c) } }"

definition asn1_octet_string_get ::
  "byte list \<Rightarrow> asn1_context \<Rightarrow> ((nat \<times> nat) option \<times> asn1_context) option" where
  "asn1_octet_string_get buf c =
     do { (byte, c) \<leftarrow> get_byte buf c;
          if byte \<noteq> kTagOctetString then Some (None, c)
          else do { (len, c) \<leftarrow> decode_length buf c;
                    case len of
                      None \<Rightarrow> Some (None, c)
                    | Some len \<Rightarrow>
                        if len = 0 \<or> a_length c < len then Some (None, c)
                        else Some (Some (a_p c, len), c) } }"

section \<open>Staying inside the buffer\<close>

definition in_buf :: "byte list \<Rightarrow> asn1_context \<Rightarrow> bool" where
  "in_buf buf c \<longleftrightarrow> a_p c + a_length c \<le> length buf"

text \<open>The cursor moved forward and still ends where it ended.\<close>

definition advances :: "asn1_context \<Rightarrow> asn1_context \<Rightarrow> bool" where
  "advances c c' \<longleftrightarrow> a_p c \<le> a_p c' \<and> a_p c' + a_length c' = a_p c + a_length c"

definition safe :: "asn1_context \<Rightarrow> ('r \<times> asn1_context) option \<Rightarrow> ('r \<Rightarrow> asn1_context \<Rightarrow> bool) \<Rightarrow> bool"
where
  "safe c m Q \<longleftrightarrow> (\<exists>r c'. m = Some (r, c') \<and> advances c c' \<and> Q r c')"

lemma advances_refl [simp]: "advances c c"
  by (simp add: advances_def)

lemma advances_trans: "advances a b \<Longrightarrow> advances b c \<Longrightarrow> advances a c"
  by (auto simp: advances_def)

lemma advances_in_buf: "in_buf buf c \<Longrightarrow> advances c c' \<Longrightarrow> in_buf buf c'"
  by (simp add: in_buf_def advances_def)

lemma advances_length: "advances c c' \<Longrightarrow> a_length c' \<le> a_length c"
  by (simp add: advances_def)

lemma safe_ret: "advances c c' \<Longrightarrow> Q r c' \<Longrightarrow> safe c (Some (r, c')) Q"
  by (simp add: safe_def)

lemma safe_bind:
  assumes "safe c m Q"
    and "\<And>r c'. advances c c' \<Longrightarrow> Q r c' \<Longrightarrow> safe c' (f (r, c')) R"
  shows "safe c (m \<bind> f) R"
proof -
  obtain r c' where m: "m = Some (r, c')" "advances c c'" "Q r c'"
    using assms(1) by (auto simp: safe_def)
  with assms(2) have "safe c' (f (r, c')) R" by blast
  then obtain r2 c2 where "f (r, c') = Some (r2, c2)" "advances c' c2" "R r2 c2"
    by (auto simp: safe_def)
  with m show ?thesis by (auto simp: safe_def intro: advances_trans)
qed

lemma safe_weaken: "safe c m Q \<Longrightarrow> (\<And>r c'. Q r c' \<Longrightarrow> R r c') \<Longrightarrow> safe c m R"
  by (auto simp: safe_def)

lemma safe_get_byte:
  "in_buf buf c \<Longrightarrow> safe c (get_byte buf c)
     (\<lambda>b c'. if a_length c = 0 then b = -1 \<and> c' = c
             else b = uint (buf ! a_p c) \<and> a_p c' = a_p c + 1 \<and> a_length c' = a_length c - 1)"
  by (auto simp: safe_def get_byte_def rd_def in_buf_def advances_def)

lemma safe_skip_bytes: "in_buf buf c \<Longrightarrow> safe c (Some (skip_bytes n c)) (\<lambda>_ _. True)"
  by (auto simp: safe_def skip_bytes_def advances_def)

lemma safe_decode_octets:
  "in_buf buf c \<Longrightarrow> safe c (decode_octets buf n len c) (\<lambda>_ _. True)"
proof (induction n arbitrary: len c)
  case 0
  then show ?case by (simp add: safe_ret)
next
  case (Suc n)
  show ?case unfolding decode_octets.simps
  proof (rule safe_bind [OF safe_get_byte [OF Suc.prems]], clarify)
    fix r c' assume "advances c c'"
    then have "in_buf buf c'" using Suc.prems advances_in_buf by blast
    then show "safe c' (if r = - 1 then Some (None, c')
        else decode_octets buf n (size_add (size_mul len 256) (nat r)) c') (\<lambda>_ _. True)"
      using Suc.IH by (simp add: safe_ret)
  qed
qed

lemma safe_decode_length: "in_buf buf c \<Longrightarrow> safe c (decode_length buf c) (\<lambda>_ _. True)"
  unfolding decode_length_def
  by (rule safe_bind [OF safe_get_byte])
    (auto simp: Let_def safe_ret intro!: safe_decode_octets dest: advances_in_buf)

text \<open>The shape the element readers share: a tag, a definite length, then the contents.\<close>

lemma safe_tlv:
  assumes "in_buf buf c"
    and "\<And>c'. advances c c' \<Longrightarrow> Q e c'"
    and "\<And>byte len c'. advances c c' \<Longrightarrow> safe c' (k byte len c') Q"
  shows "safe c (do { (byte, c) \<leftarrow> get_byte buf c;
      if bad byte then Some (e, c)
      else do { (len, c) \<leftarrow> decode_length buf c;
                case len of None \<Rightarrow> Some (e, c) | Some len \<Rightarrow> k byte len c } }) Q"
proof (rule safe_bind [OF safe_get_byte [OF assms(1)]], clarify)
  fix byte c1 assume a1: "advances c c1"
  then have b1: "in_buf buf c1" using assms(1) advances_in_buf by blast
  have "safe c1 (do { (len, c) \<leftarrow> decode_length buf c1;
      case len of None \<Rightarrow> Some (e, c) | Some len \<Rightarrow> k byte len c }) Q"
    using assms(2,3) a1 advances_trans [OF a1]
    by (intro safe_bind [OF safe_decode_length [OF b1]]) (auto intro: safe_ret split: option.splits)
  then show "safe c1 (if bad byte then Some (e, c1)
      else do { (len, c) \<leftarrow> decode_length buf c1;
                case len of None \<Rightarrow> Some (e, c) | Some len \<Rightarrow> k byte len c }) Q"
    using assms(2) a1 by (simp add: safe_ret)
qed

text \<open>A child cursor stays in the region of its parent.\<close>

definition within :: "asn1_context \<Rightarrow> asn1_context \<Rightarrow> bool" where
  "within ch c \<longleftrightarrow> a_p c \<le> a_p ch \<and> a_p ch + a_length ch \<le> a_p c + a_length c"

lemma within_in_buf: "within ch c \<Longrightarrow> in_buf buf c \<Longrightarrow> in_buf buf ch"
  by (simp add: within_def in_buf_def)

definition child_ok :: "asn1_context \<Rightarrow> asn1_context option \<Rightarrow> asn1_context \<Rightarrow> bool" where
  "child_ok c r c' \<longleftrightarrow> (\<forall>ch. r = Some ch \<longrightarrow> within ch c)"

definition span_ok :: "asn1_context \<Rightarrow> (nat \<times> nat) option \<Rightarrow> asn1_context \<Rightarrow> bool" where
  "span_ok c r c' \<longleftrightarrow>
     (\<forall>q len. r = Some (q, len) \<longrightarrow>
        0 < len \<and> a_p c \<le> q \<and> q + len \<le> a_p c + a_length c)"

lemma safe_asn1_sequence_get: "in_buf buf c \<Longrightarrow> safe c (asn1_sequence_get buf c) (child_ok c)"
  unfolding asn1_sequence_get_def
  by (rule safe_tlv) (auto simp: child_ok_def safe_def advances_def within_def asn1_context_new_def)

lemma safe_asn1_set_get: "in_buf buf c \<Longrightarrow> safe c (asn1_set_get buf c) (child_ok c)"
  unfolding asn1_set_get_def
  by (rule safe_tlv) (auto simp: child_ok_def safe_def advances_def within_def asn1_context_new_def)

lemma safe_asn1_constructed_get: "in_buf buf c \<Longrightarrow> safe c (asn1_constructed_get buf c) (child_ok c)"
  unfolding asn1_constructed_get_def
  by (rule safe_tlv) (auto simp: child_ok_def safe_def advances_def within_def asn1_context_new_def)

lemma safe_asn1_sequence_next: "in_buf buf c \<Longrightarrow> safe c (asn1_sequence_next buf c) (\<lambda>_ _. True)"
  unfolding asn1_sequence_next_def
  by (rule safe_tlv) (auto simp: safe_def advances_def skip_bytes_def)

lemma safe_asn1_oid_get: "in_buf buf c \<Longrightarrow> safe c (asn1_oid_get buf c) (span_ok c)"
  unfolding asn1_oid_get_def
  by (rule safe_tlv) (auto simp: span_ok_def safe_def advances_def)

lemma safe_asn1_octet_string_get: "in_buf buf c \<Longrightarrow> safe c (asn1_octet_string_get buf c) (span_ok c)"
  unfolding asn1_octet_string_get_def
  by (rule safe_tlv) (auto simp: span_ok_def safe_def advances_def)

lemma peek_byte_safe:
  "in_buf buf c \<Longrightarrow> \<exists>b. peek_byte buf c = Some b \<and> (b \<noteq> -1 \<longrightarrow> 0 < a_length c)"
  by (auto simp: peek_byte_def rd_def in_buf_def)

lemma safe_skip_all_loop:
  "in_buf buf c \<Longrightarrow> a_length c \<le> fuel \<Longrightarrow> (byte \<noteq> -1 \<longrightarrow> 0 < a_length c) \<Longrightarrow>
     safe c (skip_all_loop fuel buf byte c) (\<lambda>_ _. True)"
proof (induction fuel arbitrary: byte c)
  case 0
  then show ?case by (subst skip_all_loop.simps) (simp add: safe_ret)
next
  case (Suc fuel)
  let ?c = "snd (skip_bytes 1 c)"
  show ?case
  proof (cases "byte \<noteq> -1 \<and> byte AND kMaskConstructed = kTagConstructed")
    case False
    then show ?thesis by (subst skip_all_loop.simps) (auto simp: safe_ret)
  next
    case True
    have a: "advances c ?c" and len: "a_length ?c < a_length c"
      using True Suc.prems(3) by (auto simp: skip_bytes_def advances_def)
    have b: "in_buf buf ?c" using Suc.prems(1) a by (rule advances_in_buf)
    have step: "safe c1 (case skip_bytes n c1 of
           (False, c) \<Rightarrow> Some (False, c)
         | (True, c) \<Rightarrow> do { byte \<leftarrow> peek_byte buf c; skip_all_loop fuel buf byte c }) (\<lambda>_ _. True)"
      if "advances ?c c1" for c1 n
    proof (cases "a_length c1 < n")
      case True
      then show ?thesis by (simp add: skip_bytes_def safe_ret)
    next
      case False
      let ?c2 = "snd (skip_bytes n c1)"
      have a2: "advances c1 ?c2" using False by (auto simp: skip_bytes_def advances_def)
      have b2: "in_buf buf ?c2" using b that a2 advances_in_buf by blast
      obtain y where y: "peek_byte buf ?c2 = Some y" "y \<noteq> -1 \<longrightarrow> 0 < a_length ?c2"
        using peek_byte_safe [OF b2] by blast
      have "a_length ?c2 \<le> fuel"
        using advances_length [OF a2] advances_length [OF that] len Suc.prems(2) by simp
      with Suc.IH [OF b2 _ y(2)] have "safe ?c2 (skip_all_loop fuel buf y ?c2) (\<lambda>_ _. True)" by simp
      then have "safe c1 (skip_all_loop fuel buf y ?c2) (\<lambda>_ _. True)"
        using a2 by (auto simp: safe_def intro: advances_trans)
      with y False show ?thesis by (simp add: skip_bytes_def)
    qed
    have "safe ?c (do { (len, c) \<leftarrow> decode_length buf ?c;
        case len of None \<Rightarrow> Some (False, c)
        | Some len \<Rightarrow> (case skip_bytes len c of (False, c) \<Rightarrow> Some (False, c)
            | (True, c) \<Rightarrow> do { byte \<leftarrow> peek_byte buf c; skip_all_loop fuel buf byte c }) }) (\<lambda>_ _. True)"
      using step by (intro safe_bind [OF safe_decode_length [OF b]]) (auto intro: safe_ret split: option.splits)
    then show ?thesis
      using True a by (subst skip_all_loop.simps) (auto simp: safe_def intro: advances_trans)
  qed
qed

lemma safe_asn1_constructed_skip_all:
  assumes "in_buf buf c"
  shows "safe c (asn1_constructed_skip_all buf c) (\<lambda>_ _. True)"
  using peek_byte_safe [OF assms] safe_skip_all_loop [OF assms order_refl]
  by (auto simp: asn1_constructed_skip_all_def)

section \<open>Decoding what the DER encoder writes\<close>

text \<open>
  The encoder is the reference here: definite lengths, short form below 128, otherwise the
  number of length octets followed by the length in big-endian order.
\<close>

fun be_bytes :: "nat \<Rightarrow> nat \<Rightarrow> byte list" where
  "be_bytes 0 n = []"
| "be_bytes (Suc k) n = be_bytes k (n div 256) @ [of_nat n]"

definition der_len :: "nat \<Rightarrow> nat \<Rightarrow> byte list" where
  "der_len k n = (if n < 128 then [of_nat n] else of_nat (128 + k) # be_bytes k n)"

text \<open>\<open>k\<close> length octets can hold the length; at most seven are read by the decoder.\<close>

definition der_fits :: "nat \<Rightarrow> nat \<Rightarrow> bool" where
  "der_fits k n \<longleftrightarrow> k \<le> 7 \<and> n < 256 ^ k"

definition der :: "byte \<Rightarrow> nat \<Rightarrow> byte list \<Rightarrow> byte list" where
  "der tag k body = tag # der_len k (length body) @ body"

definition view :: "byte list \<Rightarrow> asn1_context \<Rightarrow> byte list" where
  "view buf c = take (a_length c) (drop (a_p c) buf)"

definition adv :: "nat \<Rightarrow> asn1_context \<Rightarrow> asn1_context" where
  "adv n c = c\<lparr>a_p := a_p c + n, a_length := a_length c - n\<rparr>"

lemma length_be_bytes [simp]: "length (be_bytes k n) = k"
  by (induction k arbitrary: n) auto

lemma length_view: "in_buf buf c \<Longrightarrow> length (view buf c) = a_length c"
  by (simp add: view_def in_buf_def)

lemma view_adv [simp]: "view buf (adv n c) = drop n (view buf c)"
  by (simp add: view_def adv_def drop_take add.commute)

lemma adv_adv [simp]: "adv m (adv n c) = adv (n + m) c"
  by (simp add: adv_def)

lemma in_buf_adv: "in_buf buf c \<Longrightarrow> n \<le> a_length c \<Longrightarrow> in_buf buf (adv n c)"
  by (simp add: in_buf_def adv_def)

lemma get_byte_view:
  assumes "in_buf buf c" "view buf c = b # v"
  shows "get_byte buf c = Some (uint b, adv 1 c)"
proof -
  have len: "0 < a_length c" using length_view [OF assms(1)] assms(2) by simp
  have "buf ! a_p c = view buf c ! 0" using len assms(1) by (simp add: view_def in_buf_def)
  then show ?thesis
    using len assms by (simp add: get_byte_def rd_def in_buf_def adv_def)
qed

lemma view_length_append: "in_buf buf c \<Longrightarrow> view buf c = xs @ v \<Longrightarrow> length xs \<le> a_length c"
  using length_view by fastforce

lemma decode_octets_append:
  assumes "in_buf buf c" "view buf c = xs @ v"
  shows "decode_octets buf (length xs) len c =
    Some (Some (foldl (\<lambda>l b. size_add (size_mul l 256) (unat b)) len xs), adv (length xs) c)"
  using assms
proof (induction xs arbitrary: len c)
  case Nil
  then show ?case by (simp add: adv_def)
next
  case (Cons b xs)
  have g: "get_byte buf c = Some (uint b, adv 1 c)"
    using get_byte_view [OF Cons.prems(1)] Cons.prems(2) by simp
  have "in_buf buf (adv 1 c)"
    using view_length_append [OF Cons.prems] Cons.prems(1) by (intro in_buf_adv) simp_all
  with Cons.IH [of "adv 1 c" "size_add (size_mul len 256) (unat b)"] Cons.prems(2)
  have "decode_octets buf (length xs) (size_add (size_mul len 256) (unat b)) (adv 1 c) =
      Some (Some (foldl (\<lambda>l b. size_add (size_mul l 256) (unat b))
        (size_add (size_mul len 256) (unat b)) xs), adv (Suc (length xs)) c)"
    by simp
  moreover have "uint b \<noteq> -1" using uint_ge_0 [of b] by linarith
  ultimately show ?case using g by simp
qed

lemma foldl_be_bytes:
  "n < 256 ^ k \<Longrightarrow> k \<le> 7 \<Longrightarrow>
     foldl (\<lambda>l b. size_add (size_mul l 256) (unat b)) 0 (be_bytes k n) = n"
proof (induction k arbitrary: n)
  case (Suc k)
  have "n div 256 < 256 ^ k" using Suc.prems(1) by (simp add: less_mult_imp_div_less mult.commute)
  with Suc have ih: "foldl (\<lambda>l b. size_add (size_mul l 256) (unat b)) 0 (be_bytes k (n div 256)) =
      n div 256"
    by simp
  have "(256 :: nat) ^ Suc k \<le> 256 ^ 7" using Suc.prems(2) by (intro power_increasing) simp_all
  also have "(256 :: nat) ^ 7 \<le> SIZE_MAX" by (simp add: SIZE_MAX_def)
  finally have big: "n \<le> SIZE_MAX" using Suc.prems(1) by linarith
  note unat_of_nat_byte [of n]
  then show ?case using ih big
    by (simp add: size_mul_small size_add_small)
qed simp

lemma int_and_0x80_small: "n < 128 \<Longrightarrow> int n AND 0x80 = 0"
proof -
  assume "n < 128"
  then have "\<not> bit (int n) 7" by (simp add: bit_iff_odd)
  then have "int n AND 2 ^ 7 = 0" by (simp only: and_exp_eq_0_iff_not_bit) simp
  then show ?thesis by simp
qed

lemma octet_count_bits: "k \<le> 7 \<Longrightarrow> int (128 + k) AND 0x80 \<noteq> 0 \<and> int (128 + k) AND 0x7F = int k"
proof -
  assume "k \<le> 7"
  then consider "k = 0" | "k = 1" | "k = 2" | "k = 3" | "k = 4" | "k = 5" | "k = 6" | "k = 7" by linarith
  then show ?thesis by cases simp_all
qed

lemma decode_length_view:
  assumes "in_buf buf c" "view buf c = der_len k n @ v" "der_fits k n"
  shows "decode_length buf c = Some (Some n, adv (length (der_len k n)) c)"
proof (cases "n < 128")
  case True
  then have g: "get_byte buf c = Some (int n, adv 1 c)"
    using get_byte_view [OF assms(1)] assms(2) uint_of_nat_byte [of n]
    by (simp add: der_len_def)
  with True show ?thesis using int_and_0x80_small [OF True]
    by (simp add: decode_length_def der_len_def)
next
  case False
  have k: "k \<le> 7" "n < 256 ^ k" using assms(3) by (simp_all add: der_fits_def)
  have "uint (of_nat (128 + k) :: byte) = int (128 + k)"
    using k(1) by (intro uint_of_nat_byte) simp
  then have g: "get_byte buf c = Some (int (128 + k), adv 1 c)"
    using get_byte_view [OF assms(1)] assms(2) False by (simp add: der_len_def)
  have vw: "view buf (adv 1 c) = be_bytes k n @ v" using assms(2) False by (simp add: der_len_def)
  have "in_buf buf (adv 1 c)"
    using view_length_append [OF assms(1,2)] False assms(1)
    by (intro in_buf_adv) (simp_all add: der_len_def)
  from decode_octets_append [OF this vw, of 0]
  have "decode_octets buf k 0 (adv 1 c) = Some (Some n, adv (Suc k) c)"
    using foldl_be_bytes k by simp
  with g octet_count_bits [OF k(1)] k(1) False show ?thesis
    by (simp add: decode_length_def kMaskTag_def Let_def der_len_def)
qed

lemma tlv_view:
  assumes "in_buf buf c" "view buf c = der tag k body @ v" "der_fits k (length body)"
  defines "c' \<equiv> adv (Suc (length (der_len k (length body)))) c"
  shows "get_byte buf c = Some (uint tag, adv 1 c)"
    and "decode_length buf (adv 1 c) = Some (Some (length body), c')"
    and "view buf c' = body @ v" and "in_buf buf c'" and "length body \<le> a_length c'"
proof -
  have le: "length (der tag k body) \<le> a_length c" using view_length_append [OF assms(1,2)] .
  show "get_byte buf c = Some (uint tag, adv 1 c)"
    using get_byte_view [OF assms(1)] assms(2) by (simp add: der_def)
  have b1: "in_buf buf (adv 1 c)" using le assms(1) by (intro in_buf_adv) (simp_all add: der_def)
  have v1: "view buf (adv 1 c) = der_len k (length body) @ body @ v"
    using assms(2) by (simp add: der_def)
  show "decode_length buf (adv 1 c) = Some (Some (length body), c')"
    using decode_length_view [OF b1 v1 assms(3)] by (simp add: c'_def)
  show v: "view buf c' = body @ v" using assms(2) by (simp add: c'_def der_def)
  show b: "in_buf buf c'" unfolding c'_def using le assms(1) by (intro in_buf_adv) (simp_all add: der_def)
  show "length body \<le> a_length c'" using view_length_append [OF b v] .
qed

lemma view_child: "view buf c = body @ v \<Longrightarrow> length body \<le> a_length c \<Longrightarrow>
    view buf (asn1_context_new (a_p c) (length body)) = body"
proof -
  assume v: "view buf c = body @ v" and le: "length body \<le> a_length c"
  have "view buf (asn1_context_new (a_p c) (length body)) = take (length body) (view buf c)"
    using le by (simp add: view_def asn1_context_new_def min_absorb1)
  with v show ?thesis by simp
qed

text \<open>The operations on a cursor that looks at an encoded element.\<close>

lemma view_adv_der:
  assumes "in_buf buf c" "view buf c = der tag k body @ v"
  shows "view buf (adv (length (der tag k body)) c) = v"
    and "in_buf buf (adv (length (der tag k body)) c)"
  using assms view_length_append [OF assms] in_buf_adv by simp_all

lemma uint_byte_neq: "uint (b :: byte) \<noteq> -1"
  using uint_ge_0 [of b] by linarith

lemma asn1_sequence_next_view:
  assumes "in_buf buf c" "view buf c = der tag k body @ v" "der_fits k (length body)"
  shows "asn1_sequence_next buf c = Some (True, adv (length (der tag k body)) c)"
proof -
  note t = tlv_view [OF assms]
  have "skip_bytes (length body) (adv (Suc (length (der_len k (length body)))) c) =
      (True, adv (length (der tag k body)) c)"
    using t(5) by (simp add: skip_bytes_def adv_def der_def)
  with t(1,2) show ?thesis by (simp add: asn1_sequence_next_def uint_byte_neq)
qed

text \<open>A child that covers exactly the bytes \<open>body\<close>.\<close>

definition child_of :: "byte list \<Rightarrow> byte list \<Rightarrow> (asn1_context option \<times> asn1_context) option \<Rightarrow> bool" where
  "child_of buf body m \<longleftrightarrow>
     (\<exists>ch c'. m = Some (Some ch, c') \<and> in_buf buf ch \<and> view buf ch = body)"

lemma in_buf_child:
  "in_buf buf c \<Longrightarrow> n \<le> a_length c \<Longrightarrow> in_buf buf (asn1_context_new (a_p c) n)"
  by (simp add: in_buf_def asn1_context_new_def)

lemma child_of_view:
  assumes "in_buf buf c" "view buf c = body @ v" "length body \<le> a_length c"
  shows "child_of buf body (Some (Some (asn1_context_new (a_p c) (length body)), c))"
    and "child_of buf body
      (Some (Some ((asn1_context_new (a_p c) (length body))\<lparr>a_app_type := t\<rparr>), c))"
  using in_buf_child [OF assms(1,3)] view_child [OF assms(2,3)]
  by (simp_all add: child_of_def in_buf_def view_def)

lemma asn1_sequence_get_view:
  assumes "in_buf buf c" "view buf c = der 0x30 k body @ v" "der_fits k (length body)"
  shows "child_of buf body (asn1_sequence_get buf c)"
proof -
  note t = tlv_view [OF assms]
  show ?thesis
    using t(1,2,5) child_of_view(1) [OF t(4,3,5)] by (simp add: asn1_sequence_get_def asn1_consts)
qed

lemma asn1_set_get_view:
  assumes "in_buf buf c" "view buf c = der 0x31 k body @ v" "der_fits k (length body)"
  shows "child_of buf body (asn1_set_get buf c)"
proof -
  note t = tlv_view [OF assms]
  show ?thesis
    using t(1,2,5) child_of_view(1) [OF t(4,3,5)] by (simp add: asn1_set_get_def asn1_consts)
qed

definition constructed_tag :: "byte \<Rightarrow> bool" where
  "constructed_tag tag \<longleftrightarrow> uint tag AND kMaskConstructed = kTagConstructed"

lemma asn1_constructed_get_view:
  assumes "in_buf buf c" "view buf c = der tag k body @ v" "der_fits k (length body)"
    and "constructed_tag tag"
  shows "child_of buf body (asn1_constructed_get buf c)"
proof -
  note t = tlv_view [OF assms(1-3)]
  show ?thesis
    using t(1,2,5) child_of_view(2) [OF t(4,3,5)] assms(4)
    by (simp add: asn1_constructed_get_def constructed_tag_def uint_byte_neq)
qed

lemma asn1_octet_string_get_view:
  assumes "in_buf buf c" "view buf c = der 0x04 k body @ v" "der_fits k (length body)" "body \<noteq> []"
  shows "\<exists>p c'. asn1_octet_string_get buf c = Some (Some (p, length body), c') \<and>
    take (length body) (drop p buf) = body"
proof -
  note t = tlv_view [OF assms(1-3)]
  let ?c = "adv (Suc (length (der_len k (length body)))) c"
  have "asn1_octet_string_get buf c = Some (Some (a_p ?c, length body), ?c)"
    using t(1,2,5) assms(4) by (simp add: asn1_octet_string_get_def asn1_consts)
  moreover have "take (length body) (drop (a_p ?c) buf) = body"
    using view_child [OF t(3,5)] by (simp add: view_def asn1_context_new_def)
  ultimately show ?thesis by blast
qed

text \<open>A run of encoded elements: tag, number of length octets, contents.\<close>

type_synonym element = "byte \<times> nat \<times> byte list"

fun enc_all :: "element list \<Rightarrow> byte list" where
  "enc_all [] = []"
| "enc_all ((tag, k, body) # es) = der tag k body @ enc_all es"

fun elements_fit :: "element list \<Rightarrow> bool" where
  "elements_fit [] \<longleftrightarrow> True"
| "elements_fit ((tag, k, body) # es) \<longleftrightarrow> der_fits k (length body) \<and> elements_fit es"

lemma peek_byte_view: "in_buf buf c \<Longrightarrow> view buf c = b # v \<Longrightarrow> peek_byte buf c = Some (uint b)"
  using get_byte_view [of buf c b v] by (auto simp: peek_byte_def get_byte_def split: if_splits bind_splits)

lemma skip_all_loop_view:
  assumes "in_buf buf c" "view buf c = enc_all es @ b # v" "elements_fit es"
    and "\<forall>(tag, _, _) \<in> set es. constructed_tag tag" "\<not> constructed_tag b"
    and "a_length c \<le> fuel"
  shows "\<exists>y. peek_byte buf c = Some y \<and>
    skip_all_loop fuel buf y c = Some (True, adv (length (enc_all es)) c)"
  using assms
proof (induction es arbitrary: c fuel rule: enc_all.induct)
  case 1
  then have "peek_byte buf c = Some (uint b)" by (simp add: peek_byte_view)
  with 1 show ?case
    by (simp add: skip_all_loop.simps [of fuel] constructed_tag_def uint_byte_neq adv_def)
next
  case (2 tag k body es)
  let ?w = "enc_all es @ b # v" and ?n = "length (der tag k body)"
  have vw: "view buf c = der tag k body @ ?w" using "2.prems"(2) by simp
  note t = tlv_view [OF "2.prems"(1) vw] and a = view_adv_der [OF "2.prems"(1) vw]
  have fit: "der_fits k (length body)" using "2.prems"(3) by simp
  have len: "?n \<le> a_length c" "0 < ?n" using view_length_append [OF "2.prems"(1) vw] by (simp_all add: der_def)
  obtain f where f: "fuel = Suc f" using len "2.prems"(6) by (cases fuel) auto
  have "a_length (adv ?n c) = a_length c - ?n" by (simp add: adv_def)
  then have "a_length (adv ?n c) \<le> f" using len "2.prems"(6) f by linarith
  then obtain y where y: "peek_byte buf (adv ?n c) = Some y"
    "skip_all_loop f buf y (adv ?n c) = Some (True, adv (?n + length (enc_all es)) c)"
    using "2.IH" [OF a(2,1)] "2.prems" by auto
  have p: "peek_byte buf c = Some (uint tag)"
    using peek_byte_view [OF "2.prems"(1)] vw by (simp add: der_def)
  have "0 < a_length c" using len by linarith
  then have s1: "snd (skip_bytes 1 c) = adv 1 c" by (simp add: skip_bytes_def adv_def)
  have s2: "skip_bytes (length body) (adv (Suc (length (der_len k (length body)))) c) = (True, adv ?n c)"
    using t(5) fit by (simp add: skip_bytes_def adv_def der_def)
  have "constructed_tag tag" using "2.prems"(4) by simp
  then have "skip_all_loop fuel buf (uint tag) c = Some (True, adv (?n + length (enc_all es)) c)"
    unfolding f skip_all_loop.simps [of "Suc f"] constructed_tag_def
    using t(2) [OF fit] s2 y by (simp add: uint_byte_neq s1 [simplified])
  with p show ?case by simp
qed

lemma asn1_constructed_skip_all_view:
  assumes "in_buf buf c" "view buf c = enc_all es @ b # v" "elements_fit es"
    and "\<forall>(tag, _, _) \<in> set es. constructed_tag tag" "\<not> constructed_tag b"
  shows "asn1_constructed_skip_all buf c = Some (True, adv (length (enc_all es)) c)"
  using skip_all_loop_view [OF assms order_refl] by (auto simp: asn1_constructed_skip_all_def)

end
