(* ===== verification/Verifier.thy ===== *)
theory Verifier
  imports Asn1
begin

unbundle bit_operations_syntax

text \<open>
  Whole-file signature verification (\<^verbatim>\<open>verifier.cpp\<close>): extraction of the signature from the
  PKCS#7 block in the archive comment and the check of the package against the list of
  certificates.  The hash functions and the public-key checks of BoringSSL are parameters.
  An incremental hash context is the list of bytes fed to it so far.  The progress callback
  and the log are left out.

  \<open>None\<close> is a read outside the package; \<open>verify_file_spec\<close> shows that it never happens and
  that the answer is \<open>VERIFY_SUCCESS\<close> exactly for a well-signed package.
\<close>

section \<open>The PKCS\#7 block\<close>

text \<open>The chain \<^verbatim>\<open>!c->asn1_sequence_next() || ...\<close> of \<open>n\<close> calls.\<close>

fun sequence_nexts :: "nat \<Rightarrow> byte list \<Rightarrow> asn1_context \<Rightarrow> (bool \<times> asn1_context) option" where
  "sequence_nexts 0 buf c = Some (True, c)"
| "sequence_nexts (Suc n) buf c =
     do { (ok, c) \<leftarrow> asn1_sequence_next buf c;
          if ok then sequence_nexts n buf c else Some (False, c) }"

definition pkcs7_signer :: "byte list \<Rightarrow> asn1_context \<Rightarrow> (bool \<times> byte list) option" where
  "pkcs7_signer buf sig_set =
     do { (sig_seq, _) \<leftarrow> asn1_sequence_get buf sig_set;
          case sig_seq of
            None \<Rightarrow> Some (False, [])
          | Some sig_seq \<Rightarrow>
              do { (ok, sig_seq) \<leftarrow> sequence_nexts 4 buf sig_seq;
                   if \<not> ok then Some (False, [])
                   else do { (sig, _) \<leftarrow> asn1_octet_string_get buf sig_seq;
                             case sig of
                               None \<Rightarrow> Some (False, [])
                             | Some (p, len) \<Rightarrow> Some (True, take len (drop p buf)) } } }"

definition pkcs7_signed_data :: "byte list \<Rightarrow> asn1_context \<Rightarrow> (bool \<times> byte list) option" where
  "pkcs7_signed_data buf signed_data_app =
     do { (signed_data_seq, _) \<leftarrow> asn1_sequence_get buf signed_data_app;
          case signed_data_seq of
            None \<Rightarrow> Some (False, [])
          | Some signed_data_seq \<Rightarrow>
              do { (ok, signed_data_seq) \<leftarrow> sequence_nexts 3 buf signed_data_seq;
                   if \<not> ok then Some (False, [])
                   else do { (ok, signed_data_seq) \<leftarrow> asn1_constructed_skip_all buf signed_data_seq;
                             if \<not> ok then Some (False, [])
                             else do { (sig_set, _) \<leftarrow> asn1_set_get buf signed_data_seq;
                                       case sig_set of
                                         None \<Rightarrow> Some (False, [])
                                       | Some sig_set \<Rightarrow> pkcs7_signer buf sig_set } } } }"

definition read_pkcs7 :: "byte list \<Rightarrow> (bool \<times> byte list) option" where
  "read_pkcs7 pkcs7_der =
     do { (pkcs7_seq, _) \<leftarrow>
            asn1_sequence_get pkcs7_der (asn1_context_new 0 (length pkcs7_der));
          case pkcs7_seq of
            None \<Rightarrow> Some (False, [])
          | Some pkcs7_seq \<Rightarrow>
              do { (ok, pkcs7_seq) \<leftarrow> asn1_sequence_next pkcs7_der pkcs7_seq;
                   if \<not> ok then Some (False, [])
                   else do { (app, _) \<leftarrow> asn1_constructed_get pkcs7_der pkcs7_seq;
                             case app of
                               None \<Rightarrow> Some (False, [])
                             | Some app \<Rightarrow> pkcs7_signed_data pkcs7_der app } } }"

section \<open>Certificates\<close>

datatype KeyType = KEY_TYPE_RSA | KEY_TYPE_EC

datatype nid = NID_sha1 | NID_sha256

record ('rsa, 'ec) Certificate =
  hash_len :: int
  key_type :: KeyType
  rsa :: 'rsa
  ec :: 'ec

text \<open>The functions of BoringSSL the verifier calls.\<close>

record ('rsa, 'ec) crypto =
  cr_sha1 :: "byte list \<Rightarrow> byte list"
  cr_sha256 :: "byte list \<Rightarrow> byte list"
  cr_RSA_verify :: "nid \<Rightarrow> byte list \<Rightarrow> byte list \<Rightarrow> 'rsa \<Rightarrow> bool"
  cr_ECDSA_verify :: "byte list \<Rightarrow> byte list \<Rightarrow> 'ec \<Rightarrow> bool"

definition SHA_DIGEST_LENGTH :: int where "SHA_DIGEST_LENGTH = 20"
definition SHA256_DIGEST_LENGTH :: int where "SHA256_DIGEST_LENGTH = 32"

lemmas digest_lengths = SHA_DIGEST_LENGTH_def SHA256_DIGEST_LENGTH_def

section \<open>The package\<close>

definition VERIFY_SUCCESS :: int where "VERIFY_SUCCESS = 0"
definition VERIFY_FAILURE :: int where "VERIFY_FAILURE = 1"
definition FOOTER_SIZE :: nat where "FOOTER_SIZE = 6"
definition EOCD_HEADER_SIZE :: nat where "EOCD_HEADER_SIZE = 22"
definition MiB :: nat where "MiB = 1024 * 1024"

text \<open>The four-byte test for the end-of-central-directory marker, with its short circuits.\<close>

definition eocd_marker :: "byte list \<Rightarrow> nat \<Rightarrow> bool option" where
  "eocd_marker buf i =
     do { b0 \<leftarrow> rd buf i;
          if b0 \<noteq> 0x50 then Some False
          else do { b1 \<leftarrow> rd buf (i + 1);
               if b1 \<noteq> 0x4b then Some False
               else do { b2 \<leftarrow> rd buf (i + 2);
                    if b2 \<noteq> 0x05 then Some False
                    else do { b3 \<leftarrow> rd buf (i + 3); Some (b3 = 0x06) } } } }"

fun eocd_again :: "byte list \<Rightarrow> nat \<Rightarrow> nat \<Rightarrow> nat \<Rightarrow> bool option" where
  "eocd_again buf eocd 0 i = Some False"
| "eocd_again buf eocd (Suc n) i =
     do { hit \<leftarrow> eocd_marker buf (eocd + i);
          if hit then Some True else eocd_again buf eocd n (i + 1) }"

function hash_loop ::
  "bool \<Rightarrow> bool \<Rightarrow> byte list \<Rightarrow> nat \<Rightarrow> nat \<Rightarrow> byte list \<Rightarrow> byte list \<Rightarrow> byte list \<times> byte list"
where
  "hash_loop need_sha1 need_sha256 addr signed_len so_far sha1_ctx sha256_ctx =
     (if so_far < signed_len then
        let size = min (signed_len - so_far) (16 * MiB);
            chunk = take size (drop so_far addr)
        in hash_loop need_sha1 need_sha256 addr signed_len (so_far + size)
             (if need_sha1 then sha1_ctx @ chunk else sha1_ctx)
             (if need_sha256 then sha256_ctx @ chunk else sha256_ctx)
      else (sha1_ctx, sha256_ctx))"
  by pat_completeness auto
termination
  by (relation "measure (\<lambda>(_, _, _, signed_len, so_far, _). signed_len - so_far)")
    (auto simp: MiB_def)

declare hash_loop.simps [simp del]

fun try_keys ::
  "('r, 'e) crypto \<Rightarrow> byte list \<Rightarrow> byte list \<Rightarrow> byte list \<Rightarrow> ('r, 'e) Certificate list \<Rightarrow> int"
where
  "try_keys cr sha1 sha256 sig_der [] = VERIFY_FAILURE"
| "try_keys cr sha1 sha256 sig_der (key # keys) =
     (if hash_len key \<noteq> SHA_DIGEST_LENGTH \<and> hash_len key \<noteq> SHA256_DIGEST_LENGTH
      then try_keys cr sha1 sha256 sig_der keys
      else
        let hash = (if hash_len key = SHA_DIGEST_LENGTH then sha1 else sha256);
            hash_nid = (if hash_len key = SHA_DIGEST_LENGTH then NID_sha1 else NID_sha256)
        in if key_type key = KEY_TYPE_RSA then
             (if \<not> cr_RSA_verify cr hash_nid hash sig_der (rsa key)
              then try_keys cr sha1 sha256 sig_der keys
              else VERIFY_SUCCESS)
           else if key_type key = KEY_TYPE_EC \<and> hash_len key = SHA256_DIGEST_LENGTH then
             (if \<not> cr_ECDSA_verify cr hash sig_der (ec key)
              then try_keys cr sha1 sha256 sig_der keys
              else VERIFY_SUCCESS)
           else try_keys cr sha1 sha256 sig_der keys)"

text \<open>The part of \<^verbatim>\<open>verify_file\<close> after the footer and the end-of-central-directory record
  have been found: hashing the signed part and checking the signature.\<close>

definition verify_signature ::
  "('r, 'e) crypto \<Rightarrow> byte list \<Rightarrow> ('r, 'e) Certificate list \<Rightarrow> nat \<Rightarrow> nat \<Rightarrow> nat \<Rightarrow> int option" where
  "verify_signature cr addr keys signed_len signature_start eocd_end =
     (let need_sha1 = list_ex (\<lambda>key. hash_len key = SHA_DIGEST_LENGTH) keys;
          need_sha256 = list_ex (\<lambda>key. hash_len key = SHA256_DIGEST_LENGTH) keys;
          (sha1_ctx, sha256_ctx) = hash_loop need_sha1 need_sha256 addr signed_len 0 [] [];
          sha1 = cr_sha1 cr sha1_ctx;
          sha256 = cr_sha256 cr sha256_ctx;
          signature = eocd_end - signature_start;
          signature_size = signature_start - FOOTER_SIZE
      in do { (ok, sig_der) \<leftarrow> read_pkcs7 (take signature_size (drop signature addr));
              if \<not> ok then Some VERIFY_FAILURE
              else Some (try_keys cr sha1 sha256 sig_der keys) })"

definition verify_file ::
  "('r, 'e) crypto \<Rightarrow> byte list \<Rightarrow> ('r, 'e) Certificate list \<Rightarrow> int option" where
  "verify_file cr addr keys =
     (let len = length addr
      in if len < FOOTER_SIZE then Some VERIFY_FAILURE
         else
           let footer = len - FOOTER_SIZE
           in do {
             f0 \<leftarrow> rd addr footer; f1 \<leftarrow> rd addr (footer + 1);
             f2 \<leftarrow> rd addr (footer + 2); f3 \<leftarrow> rd addr (footer + 3);
             f4 \<leftarrow> rd addr (footer + 4); f5 \<leftarrow> rd addr (footer + 5);
             if f2 \<noteq> 0xff \<or> f3 \<noteq> 0xff then Some VERIFY_FAILURE
             else
               let comment_size = unat f4 + unat f5 * 256;
                   signature_start = unat f0 + unat f1 * 256
               in if comment_size < signature_start then Some VERIFY_FAILURE
                  else if signature_start \<le> FOOTER_SIZE then Some VERIFY_FAILURE
                  else
                    let eocd_size = comment_size + EOCD_HEADER_SIZE
                    in if len < eocd_size then Some VERIFY_FAILURE
                       else
                         let signed_len = len - eocd_size + EOCD_HEADER_SIZE - 2;
                             eocd = len - eocd_size
                         in do {
                           found \<leftarrow> eocd_marker addr eocd;
                           if \<not> found then Some VERIFY_FAILURE
                           else do {
                             again \<leftarrow> eocd_again addr eocd (eocd_size - 3 - 4) 4;
                             if again then Some VERIFY_FAILURE
                             else verify_signature cr addr keys signed_len signature_start
                                    (eocd + eocd_size) } } })"

section \<open>Reading the signature block\<close>

lemma safe_sequence_nexts: "in_buf buf c \<Longrightarrow> safe c (sequence_nexts n buf c) (\<lambda>_ _. True)"
proof (induction n arbitrary: c)
  case (Suc n)
  then show ?case
    unfolding sequence_nexts.simps
    by (intro safe_bind [OF safe_asn1_sequence_next])
      (auto simp: safe_ret dest: advances_in_buf)
qed (simp add: safe_ret)

text \<open>
  A step of the extraction: read a child (or advance), then go on with a cursor that is
  again inside the buffer.
\<close>

definition extracts :: "byte list \<Rightarrow> (bool \<times> byte list) option \<Rightarrow> bool" where
  "extracts buf m \<longleftrightarrow>
     (\<exists>ok sig. m = Some (ok, sig) \<and> (if ok then sig \<noteq> [] \<and> sublist sig buf else sig = []))"

lemma extracts_fail [simp]: "extracts buf (Some (False, []))"
  unfolding extracts_def by (rule exI [of _ False]) simp

lemma extracts_child:
  assumes "safe c m (child_ok c)" "in_buf buf c"
    and "\<And>ch. in_buf buf ch \<Longrightarrow> extracts buf (k ch)"
  shows "extracts buf (do { (r, _) \<leftarrow> m; case r of None \<Rightarrow> Some (False, []) | Some ch \<Rightarrow> k ch })"
proof -
  obtain r c' where m: "m = Some (r, c')" "child_ok c r c'" using assms(1) by (auto simp: safe_def)
  then have "in_buf buf ch" if "r = Some ch" for ch
    using that assms(2) within_in_buf by (auto simp: child_ok_def)
  with m assms(3) show ?thesis by (auto split: option.splits)
qed

lemma extracts_move:
  assumes "safe c m Q" "in_buf buf c" "\<And>c'. in_buf buf c' \<Longrightarrow> extracts buf (k c')"
  shows "extracts buf (do { (ok, c') \<leftarrow> m; if \<not> ok then Some (False, []) else k c' })"
  using assms advances_in_buf [OF assms(2)] by (auto simp: safe_def)

lemma extracts_octets:
  assumes "in_buf buf c"
  shows "extracts buf (do { (sig, _) \<leftarrow> asn1_octet_string_get buf c;
    case sig of None \<Rightarrow> Some (False, []) | Some (p, len) \<Rightarrow> Some (True, take len (drop p buf)) })"
proof -
  obtain r c' where m: "asn1_octet_string_get buf c = Some (r, c')" "span_ok c r c'"
    using safe_asn1_octet_string_get [OF assms] by (auto simp: safe_def)
  show ?thesis
  proof (cases r)
    case None
    with m show ?thesis by simp
  next
    case (Some pl)
    obtain p len where pl: "pl = (p, len)" by (cases pl)
    have b: "0 < len" "p + len \<le> length buf"
      using m(2) assms Some pl by (auto simp: span_ok_def in_buf_def)
    have "take len (drop p buf) \<noteq> []" using b by auto
    moreover have "sublist (take len (drop p buf)) buf"
      using sublist_take sublist_drop by (rule sublist_order.order_trans)
    ultimately have "extracts buf (Some (True, take len (drop p buf)))"
      unfolding extracts_def by (intro exI [of _ True]) simp
    with m Some pl show ?thesis by simp
  qed
qed

lemma read_pkcs7_extracts: "extracts buf (read_pkcs7 buf)"
proof -
  have signer: "extracts buf (pkcs7_signer buf c)" if "in_buf buf c" for c
    unfolding pkcs7_signer_def
    by (rule extracts_child [OF safe_asn1_sequence_get [OF that] that],
        rule extracts_move [OF safe_sequence_nexts], assumption, assumption,
        rule extracts_octets, assumption)
  have data: "extracts buf (pkcs7_signed_data buf c)" if "in_buf buf c" for c
    unfolding pkcs7_signed_data_def
    by (rule extracts_child [OF safe_asn1_sequence_get [OF that] that],
        rule extracts_move [OF safe_sequence_nexts], assumption, assumption,
        rule extracts_move [OF safe_asn1_constructed_skip_all], assumption, assumption,
        rule extracts_child [OF safe_asn1_set_get], assumption, assumption,
        rule signer, assumption)
  have "in_buf buf (asn1_context_new 0 (length buf))"
    by (simp add: in_buf_def asn1_context_new_def)
  note top = extracts_child [OF safe_asn1_sequence_get [OF this] this]
  show ?thesis
    unfolding read_pkcs7_def
    by (rule top,
        rule extracts_move [OF safe_asn1_sequence_next], assumption, assumption,
        rule extracts_child [OF safe_asn1_constructed_get], assumption, assumption,
        rule data, assumption)
qed

text \<open>
  C6.  Signature extraction is safe on every input: \<^verbatim>\<open>read_pkcs7\<close> never reads outside the
  signature block, always returns, and when it reports success the signature is a
  non-empty contiguous part of the block.
\<close>

theorem read_pkcs7_safe:
  "\<exists>ok sig. read_pkcs7 block = Some (ok, sig) \<and>
     (if ok then sig \<noteq> [] \<and> (\<exists>pre post. block = pre @ sig @ post) else sig = [])"
  using read_pkcs7_extracts [of block] unfolding extracts_def sublist_def .

text \<open>
  The encoder of the structure that the comment in front of \<^verbatim>\<open>read_pkcs7\<close> describes.  The
  elements that the extraction skips are arbitrary.
\<close>

record pkcs7 =
  p7_content_type :: element
  p7_signed_data :: "element list"
  p7_optional :: "element list"
  p7_signer :: "element list"
  p7_signature :: "byte list"
  p7_after_signature :: "byte list"
  p7_after_signer :: "byte list"
  p7_after_set :: "byte list"
  p7_trailer :: "byte list"

definition signer_info :: "nat \<Rightarrow> pkcs7 \<Rightarrow> byte list" where
  "signer_info k p = enc_all (p7_signer p) @ der 0x04 k (p7_signature p) @ p7_after_signature p"

definition signer_infos :: "nat \<Rightarrow> pkcs7 \<Rightarrow> byte list" where
  "signer_infos k p = der 0x30 k (signer_info k p) @ p7_after_signer p"

definition signed_data :: "nat \<Rightarrow> pkcs7 \<Rightarrow> byte list" where
  "signed_data k p = enc_all (p7_signed_data p) @ enc_all (p7_optional p) @
     der 0x31 k (signer_infos k p) @ p7_after_set p"

definition content_info :: "nat \<Rightarrow> pkcs7 \<Rightarrow> byte list" where
  "content_info k p = enc_all [p7_content_type p] @ der 0xA0 k (der 0x30 k (signed_data k p))"

definition pkcs7_encode :: "nat \<Rightarrow> pkcs7 \<Rightarrow> byte list" where
  "pkcs7_encode k p = der 0x30 k (content_info k p) @ p7_trailer p"

definition pkcs7_ok :: "nat \<Rightarrow> pkcs7 \<Rightarrow> bool" where
  "pkcs7_ok k p \<longleftrightarrow>
     elements_fit (p7_content_type p # p7_signed_data p @ p7_optional p @ p7_signer p) \<and>
     length (p7_signed_data p) = 3 \<and> length (p7_signer p) = 4 \<and>
     list_all (\<lambda>(tag, _, _). constructed_tag tag) (p7_optional p) \<and>
     p7_signature p \<noteq> [] \<and> k \<le> 7 \<and> length (pkcs7_encode k p) < 256 ^ k"

lemma elements_fit_append [simp]: "elements_fit (xs @ ys) \<longleftrightarrow> elements_fit xs \<and> elements_fit ys"
  by (induction xs rule: elements_fit.induct) auto

lemma sequence_nexts_view:
  "in_buf buf c \<Longrightarrow> view buf c = enc_all es @ v \<Longrightarrow> elements_fit es \<Longrightarrow>
     \<exists>c'. sequence_nexts (length es) buf c = Some (True, c') \<and> in_buf buf c' \<and> view buf c' = v"
proof (induction es arbitrary: c rule: enc_all.induct)
  case (2 tag k body es)
  have vw: "view buf c = der tag k body @ enc_all es @ v" using "2.prems"(2) by simp
  note n = asn1_sequence_next_view [OF "2.prems"(1) vw] and a = view_adv_der [OF "2.prems"(1) vw]
  have "der_fits k (length body)" "elements_fit es" using "2.prems"(3) by simp_all
  with n "2.IH" [OF a(2,1)] show ?case by simp
qed simp

lemma pkcs7_signer_encode:
  assumes "in_buf buf c" "view buf c = der 0x30 k (signer_info k p) @ v"
    and "der_fits k (length (signer_info k p))" "der_fits k (length (p7_signature p))"
    and "elements_fit (p7_signer p)" "length (p7_signer p) = 4" "p7_signature p \<noteq> []"
  shows "pkcs7_signer buf c = Some (True, p7_signature p)"
proof -
  obtain ch c1 where 1: "asn1_sequence_get buf c = Some (Some ch, c1)" "in_buf buf ch"
    "view buf ch = signer_info k p"
    using asn1_sequence_get_view [OF assms(1-3)] by (auto simp: child_of_def)
  obtain c2 where 2: "sequence_nexts 4 buf ch = Some (True, c2)" "in_buf buf c2"
    "view buf c2 = der 0x04 k (p7_signature p) @ p7_after_signature p"
    using sequence_nexts_view [OF 1(2) 1(3) [unfolded signer_info_def] assms(5)] assms(6) by auto
  show ?thesis
    using 1 2 asn1_octet_string_get_view [OF 2(2,3) assms(4,7)] by (auto simp: pkcs7_signer_def)
qed

lemma not_constructed_set: "\<not> constructed_tag 0x31"
  by (simp add: constructed_tag_def asn1_consts)

lemma pkcs7_signed_data_encode:
  assumes "in_buf buf c" "view buf c = der 0x30 k (signed_data k p) @ v"
    and "der_fits k (length (signed_data k p))" "der_fits k (length (signer_infos k p))"
    and "\<And>c v. in_buf buf c \<Longrightarrow> view buf c = signer_infos k p \<Longrightarrow> pkcs7_signer buf c = r"
    and "elements_fit (p7_signed_data p)" "length (p7_signed_data p) = 3"
    and "elements_fit (p7_optional p)" "\<forall>(tag, _, _) \<in> set (p7_optional p). constructed_tag tag"
  shows "pkcs7_signed_data buf c = r"
proof -
  obtain ch c1 where 1: "asn1_sequence_get buf c = Some (Some ch, c1)" "in_buf buf ch"
    "view buf ch = signed_data k p"
    using asn1_sequence_get_view [OF assms(1-3)] by (auto simp: child_of_def)
  obtain c2 where 2: "sequence_nexts 3 buf ch = Some (True, c2)" "in_buf buf c2"
    "view buf c2 = enc_all (p7_optional p) @ der 0x31 k (signer_infos k p) @ p7_after_set p"
    using sequence_nexts_view [OF 1(2) 1(3) [unfolded signed_data_def] assms(6)] assms(7) by auto
  let ?c3 = "adv (length (enc_all (p7_optional p))) c2"
  have 3: "asn1_constructed_skip_all buf c2 = Some (True, ?c3)"
    using asn1_constructed_skip_all_view [OF 2(2) _ assms(8,9) not_constructed_set] 2(3)
    by (simp add: der_def)
  have 4: "in_buf buf ?c3" "view buf ?c3 = der 0x31 k (signer_infos k p) @ p7_after_set p"
    using view_length_append [OF 2(2,3)] 2(2,3) in_buf_adv by simp_all
  obtain sc c4 where 5: "asn1_set_get buf ?c3 = Some (Some sc, c4)" "in_buf buf sc"
    "view buf sc = signer_infos k p"
    using asn1_set_get_view [OF 4 assms(4)] by (auto simp: child_of_def)
  show ?thesis
    using 1(1) 2(1) 3 5(1) assms(5) [OF 5(2,3)] by (simp add: pkcs7_signed_data_def)
qed

lemma length_der: "length body \<le> length (der tag k body)"
  by (simp add: der_def)

lemma pkcs7_fits:
  assumes "pkcs7_ok k p"
  shows "der_fits k (length (content_info k p))" "der_fits k (length (der 0x30 k (signed_data k p)))"
    "der_fits k (length (signed_data k p))" "der_fits k (length (signer_infos k p))"
    "der_fits k (length (signer_info k p))" "der_fits k (length (p7_signature p))"
proof -
  have 1: "length (content_info k p) \<le> length (pkcs7_encode k p)"
    by (simp add: pkcs7_encode_def der_def)
  have 2: "length (der 0x30 k (signed_data k p)) \<le> length (content_info k p)"
    unfolding content_info_def by (simp add: der_def [of "0xA0"])
  have 3: "length (signed_data k p) \<le> length (der 0x30 k (signed_data k p))" by (rule length_der)
  have 4: "length (signer_infos k p) \<le> length (signed_data k p)"
    unfolding signed_data_def by (simp add: der_def [of "0x31"])
  have 5: "length (signer_info k p) \<le> length (signer_infos k p)"
    unfolding signer_infos_def by (simp add: der_def [of "0x30"])
  have 6: "length (p7_signature p) \<le> length (signer_info k p)"
    unfolding signer_info_def by (simp add: der_def [of "0x04"])
  have k: "k \<le> 7" "length (pkcs7_encode k p) < 256 ^ k" using assms by (simp_all add: pkcs7_ok_def)
  show "der_fits k (length (content_info k p))" "der_fits k (length (der 0x30 k (signed_data k p)))"
    "der_fits k (length (signed_data k p))" "der_fits k (length (signer_infos k p))"
    "der_fits k (length (signer_info k p))" "der_fits k (length (p7_signature p))"
    unfolding der_fits_def using k 1 2 3 4 5 6 by linarith+
qed

text \<open>
  C7.  The extraction inverts the encoder: on the DER encoding of a PKCS\#7 SignedData
  structure, with any skipped elements and any optional constructed elements before the
  set of signers, \<^verbatim>\<open>read_pkcs7\<close> returns the first signer's signature.
\<close>

theorem read_pkcs7_encode:
  assumes "pkcs7_ok k p"
  shows "read_pkcs7 (pkcs7_encode k p) = Some (True, p7_signature p)"
proof -
  let ?buf = "pkcs7_encode k p"
  let ?c0 = "asn1_context_new 0 (length ?buf)"
  note fits = pkcs7_fits [OF assms]
  have ok: "elements_fit [p7_content_type p]" "elements_fit (p7_signed_data p)"
    "elements_fit (p7_optional p)" "elements_fit (p7_signer p)" "length (p7_signed_data p) = 3"
    "length (p7_signer p) = 4" "\<forall>(tag, _, _) \<in> set (p7_optional p). constructed_tag tag"
    "p7_signature p \<noteq> []"
    using assms by (cases "p7_content_type p"; auto simp: pkcs7_ok_def list_all_iff)+
  have c0: "in_buf ?buf ?c0" "view ?buf ?c0 = der 0x30 k (content_info k p) @ p7_trailer p"
    by (simp_all add: in_buf_def view_def asn1_context_new_def pkcs7_encode_def)
  obtain ch c1 where 1: "asn1_sequence_get ?buf ?c0 = Some (Some ch, c1)" "in_buf ?buf ch"
    "view ?buf ch = content_info k p"
    using asn1_sequence_get_view [OF c0 fits(1)] by (auto simp: child_of_def)
  obtain c2 where 2: "sequence_nexts 1 ?buf ch = Some (True, c2)" "in_buf ?buf c2"
    "view ?buf c2 = der 0xA0 k (der 0x30 k (signed_data k p)) @ []"
    using sequence_nexts_view [OF 1(2) 1(3) [unfolded content_info_def] ok(1)] by auto
  then have 3: "asn1_sequence_next ?buf ch = Some (True, c2)"
    by (auto split: bind_splits if_splits)
  have "constructed_tag 0xA0" by (simp add: constructed_tag_def asn1_consts)
  from asn1_constructed_get_view [OF 2(2,3) fits(2) this] obtain app c4 where
    4: "asn1_constructed_get ?buf c2 = Some (Some app, c4)" "in_buf ?buf app"
      "view ?buf app = der 0x30 k (signed_data k p) @ []"
    by (auto simp: child_of_def)
  have "pkcs7_signer ?buf c = Some (True, p7_signature p)"
    if "in_buf ?buf c" "view ?buf c = signer_infos k p" for c
    using pkcs7_signer_encode [OF that(1) _ fits(5,6) ok(4,6,8)] that(2) signer_infos_def by simp
  from pkcs7_signed_data_encode [OF 4(2,3) fits(3,4) this ok(2,5,3,7)]
  show ?thesis using 1(1) 3 4(1) by (simp add: read_pkcs7_def)
qed

definition sample_pkcs7 :: pkcs7 where
  "sample_pkcs7 =
     \<lparr>p7_content_type = (0x06, 1, [42]), p7_signed_data = [(2, 1, [1]), (0x31, 1, []), (0x30, 1, [6, 0])],
      p7_optional = [(0xA0, 1, [1, 2]), (0xA1, 1, [])],
      p7_signer = [(2, 1, [1]), (0x30, 1, [5]), (0x30, 1, []), (0x30, 1, [7])],
      p7_signature = [9, 8, 7], p7_after_signature = [1], p7_after_signer = [2],
      p7_after_set = [3], p7_trailer = [4]\<rparr>"

theorem read_pkcs7_encode_witness:
  "pkcs7_ok 1 sample_pkcs7 \<and>
   read_pkcs7 (pkcs7_encode 1 sample_pkcs7) = Some (True, [9, 8, 7])"
proof -
  have ok: "pkcs7_ok 1 sample_pkcs7"
    by (simp add: pkcs7_ok_def sample_pkcs7_def der_fits_def constructed_tag_def asn1_consts
        pkcs7_encode_def content_info_def signed_data_def signer_infos_def signer_info_def
        der_def der_len_def)
  then show ?thesis using read_pkcs7_encode [OF ok] by (simp add: sample_pkcs7_def)
qed

section \<open>The scan and the hashes\<close>

definition marker_at :: "byte list \<Rightarrow> nat \<Rightarrow> bool" where
  "marker_at buf i \<longleftrightarrow> take 4 (drop i buf) = [0x50, 0x4b, 0x05, 0x06]"

lemma take_4_drop:
  assumes "i + 4 \<le> length buf"
  shows "take 4 (drop i buf) = [buf ! i, buf ! (i + 1), buf ! (i + 2), buf ! (i + 3)]"
proof -
  have d: "drop j buf = buf ! j # drop k buf" if "j < length buf" "k = Suc j" for j k
    using Cons_nth_drop_Suc [OF that(1)] that(2) by simp
  have "drop i buf = buf ! i # buf ! (i + 1) # buf ! (i + 2) # buf ! (i + 3) # drop (i + 4) buf"
  proof -
    have "drop i buf = buf ! i # drop (i + 1) buf" using assms by (intro d) simp_all
    also have "drop (i + 1) buf = buf ! (i + 1) # drop (i + 2) buf" using assms by (intro d) simp_all
    also have "drop (i + 2) buf = buf ! (i + 2) # drop (i + 3) buf" using assms by (intro d) simp_all
    also have "drop (i + 3) buf = buf ! (i + 3) # drop (i + 4) buf" using assms by (intro d) simp_all
    finally show ?thesis .
  qed
  then show ?thesis by simp
qed

lemma eocd_marker_eq:
  assumes "i + 4 \<le> length buf"
  shows "eocd_marker buf i = Some (marker_at buf i)"
proof -
  have r: "rd buf i = Some (buf ! i)" "rd buf (i + 1) = Some (buf ! (i + 1))"
    "rd buf (i + 2) = Some (buf ! (i + 2))" "rd buf (i + 3) = Some (buf ! (i + 3))"
    using assms by (simp_all add: rd_def)
  show ?thesis
    unfolding eocd_marker_def marker_at_def take_4_drop [OF assms] r by simp
qed

lemma eocd_again_eq:
  "eocd + i + n + 3 \<le> length buf \<Longrightarrow>
     eocd_again buf eocd n i = Some (\<exists>j \<in> set [i..<i + n]. marker_at buf (eocd + j))"
proof (induction n arbitrary: i)
  case (Suc n)
  have m: "eocd_marker buf (eocd + i) = Some (marker_at buf (eocd + i))"
    using Suc.prems by (intro eocd_marker_eq) simp
  have ih: "eocd_again buf eocd n (i + 1) =
      Some (\<exists>j \<in> set [i + 1..<i + 1 + n]. marker_at buf (eocd + j))"
    using Suc.prems by (intro Suc.IH) simp
  have u: "[i..<i + Suc n] = i # [i + 1..<i + 1 + n]" by (simp add: upt_conv_Cons)
  show ?case unfolding eocd_again.simps m ih u by (simp del: set_upt)
qed simp

lemma hash_loop_eq:
  "so_far \<le> signed_len \<Longrightarrow> signed_len \<le> length addr \<Longrightarrow>
     hash_loop n1 n2 addr signed_len so_far c1 c2 =
       (if n1 then c1 @ take (signed_len - so_far) (drop so_far addr) else c1,
        if n2 then c2 @ take (signed_len - so_far) (drop so_far addr) else c2)"
proof (induction n1 n2 addr signed_len so_far c1 c2 rule: hash_loop.induct)
  case (1 n1 n2 addr signed_len so_far c1 c2)
  let ?size = "min (signed_len - so_far) (16 * MiB)"
  show ?case
  proof (cases "so_far < signed_len")
    case True
    have split: "take (signed_len - so_far) (drop so_far addr) =
        take ?size (drop so_far addr) @
        take (signed_len - (so_far + ?size)) (drop (so_far + ?size) addr)"
      using take_add [of ?size "signed_len - (so_far + ?size)" "drop so_far addr"] True
      by (simp add: add.commute)
    have "so_far + ?size \<le> signed_len" using True by simp
    note "1.IH" [OF True refl refl this "1.prems"(2)]
    then show ?thesis
      unfolding split hash_loop.simps [of n1 n2 addr signed_len so_far] Let_def
      using True by simp
  next
    case False
    with "1.prems" show ?thesis
      unfolding hash_loop.simps [of n1 n2 addr signed_len so_far] by simp
  qed
qed

definition key_accepts ::
  "('r, 'e) crypto \<Rightarrow> byte list \<Rightarrow> byte list \<Rightarrow> byte list \<Rightarrow> ('r, 'e) Certificate \<Rightarrow> bool" where
  "key_accepts cr sha1 sha256 sig key \<longleftrightarrow>
     hash_len key = SHA_DIGEST_LENGTH \<and> key_type key = KEY_TYPE_RSA \<and>
       cr_RSA_verify cr NID_sha1 sha1 sig (rsa key) \<or>
     hash_len key = SHA256_DIGEST_LENGTH \<and> key_type key = KEY_TYPE_RSA \<and>
       cr_RSA_verify cr NID_sha256 sha256 sig (rsa key) \<or>
     hash_len key = SHA256_DIGEST_LENGTH \<and> key_type key = KEY_TYPE_EC \<and>
       cr_ECDSA_verify cr sha256 sig (ec key)"

lemma try_keys_Cons:
  "try_keys cr sha1 sha256 sig (key # keys) =
     (if key_accepts cr sha1 sha256 sig key then VERIFY_SUCCESS
      else try_keys cr sha1 sha256 sig keys)"
  by (cases "key_type key"; cases "hash_len key = 20"; cases "hash_len key = 32")
    (simp_all add: key_accepts_def digest_lengths)

lemma try_keys_eq:
  "try_keys cr sha1 sha256 sig keys =
     (if \<exists>key \<in> set keys. key_accepts cr sha1 sha256 sig key then VERIFY_SUCCESS else VERIFY_FAILURE)"
  by (induction keys) (simp_all add: try_keys_Cons del: try_keys.simps(2))

section \<open>Well-signed packages\<close>

text \<open>
  The specification, over the parts of the package: \<open>pre\<close> is everything before the
  end-of-central-directory record, whose header is \<open>22\<close> bytes long and whose comment ends
  with the footer.  The signature covers \<open>pre\<close> and the header without its last two bytes.
\<close>

definition footer_of :: "nat \<Rightarrow> nat \<Rightarrow> byte list" where
  "footer_of ss cs =
     [of_nat ss, of_nat (ss div 256), 0xff, 0xff, of_nat cs, of_nat (cs div 256)]"

definition signed_archive :: "byte list \<Rightarrow> byte list \<Rightarrow> byte list \<Rightarrow> byte list \<Rightarrow> bool" where
  "signed_archive addr pre eocd block \<longleftrightarrow>
     addr = pre @ eocd \<and>
     22 \<le> length eocd \<and> length eocd < 22 + 65536 \<and>
     (\<exists>hd ss. eocd = hd @ block @ footer_of ss (length eocd - 22) \<and>
        ss = length block + 6 \<and> block \<noteq> [] \<and> ss \<le> length eocd - 22) \<and>
     marker_at eocd 0 \<and> (\<forall>j. 4 \<le> j \<and> j + 4 \<le> length eocd \<longrightarrow> \<not> marker_at eocd j)"

definition well_signed ::
  "('r, 'e) crypto \<Rightarrow> ('r, 'e) Certificate list \<Rightarrow> byte list \<Rightarrow> bool" where
  "well_signed cr keys addr \<longleftrightarrow>
     (\<exists>pre eocd block sig key.
        signed_archive addr pre eocd block \<and> read_pkcs7 block = Some (True, sig) \<and>
        key \<in> set keys \<and>
        (let signed = pre @ take 20 eocd
         in key_accepts cr (cr_sha1 cr signed) (cr_sha256 cr signed) sig key))"

lemma byte_pair:
  fixes f g :: byte
  shows "n < 65536 \<Longrightarrow>
    f = of_nat n \<and> g = of_nat (n div 256) \<longleftrightarrow> unat f + unat g * 256 = n"
proof -
  assume n: "n < 65536"
  have f: "unat f < 256" and g: "unat g < 256"
    using unsigned_less [of f] unsigned_less [of g] by simp_all
  have inj: "(h = of_nat m) \<longleftrightarrow> unat h = m mod 256" for h :: byte and m
    by (metis unat_of_nat_byte word_unat_eq_iff)
  have "n div 256 mod 256 = n div 256" using n by (simp add: less_mult_imp_div_less)
  then have "f = of_nat n \<and> g = of_nat (n div 256) \<longleftrightarrow>
      unat f = n mod 256 \<and> unat g = n div 256"
    unfolding inj by simp
  also have "\<dots> \<longleftrightarrow> unat f + unat g * 256 = n"
  proof
    assume "unat f = n mod 256 \<and> unat g = n div 256"
    then show "unat f + unat g * 256 = n" by simp
  next
    assume n: "unat f + unat g * 256 = n"
    then show "unat f = n mod 256 \<and> unat g = n div 256" using f g by (simp add: n [symmetric])
  qed
  finally show ?thesis .
qed

text \<open>The two sizes that the footer of a package announces.\<close>

definition footer_ss :: "byte list \<Rightarrow> nat" where
  "footer_ss addr = unat (addr ! (length addr - 6)) + unat (addr ! (length addr - 6 + 1)) * 256"

definition footer_cs :: "byte list \<Rightarrow> nat" where
  "footer_cs addr = unat (addr ! (length addr - 6 + 4)) + unat (addr ! (length addr - 6 + 5)) * 256"

lemma footer_bounds: "footer_ss addr < 65536" "footer_cs addr < 65536"
proof -
  have b: "unat f < 256" for f :: byte using unsigned_less [of f, where 'a = nat] by simp
  have "unat f + unat g * 256 < 65536" for f g :: byte
    using b [of f] b [of g] by linarith
  then show "footer_ss addr < 65536" "footer_cs addr < 65536"
    by (simp_all only: footer_ss_def footer_cs_def)
qed

lemma list_6: "length xs = 6 \<Longrightarrow> xs = [xs ! 0, xs ! 1, xs ! 2, xs ! 3, xs ! 4, xs ! 5]"
  by (auto simp: numeral_eq_Suc length_Suc_conv)

lemma drop_footer_iff:
  assumes "6 \<le> length addr" "ss < 65536" "cs < 65536"
  shows "drop (length addr - 6) addr = footer_of ss cs \<longleftrightarrow>
    addr ! (length addr - 6 + 2) = 0xff \<and> addr ! (length addr - 6 + 3) = 0xff \<and>
    footer_ss addr = ss \<and> footer_cs addr = cs"
proof -
  let ?d = "drop (length addr - 6) addr"
  have n: "?d ! k = addr ! (length addr - 6 + k)" if "k < 6" for k using that assms(1) by simp
  have d: "?d = [?d ! 0, ?d ! 1, ?d ! 2, ?d ! 3, ?d ! 4, ?d ! 5]"
    using assms(1) by (intro list_6) simp
  have "?d = footer_of ss cs \<longleftrightarrow>
      (?d ! 0 = of_nat ss \<and> ?d ! 1 = of_nat (ss div 256)) \<and> ?d ! 2 = 0xff \<and> ?d ! 3 = 0xff \<and>
      (?d ! 4 = of_nat cs \<and> ?d ! 5 = of_nat (cs div 256))"
    by (subst d) (simp only: footer_of_def list.inject simp_thms conj_assoc)
  then show ?thesis
    unfolding byte_pair [OF assms(2)] byte_pair [OF assms(3)]
    using n [of 0] n [of 1] n [of 2] n [of 3] n [of 4] n [of 5]
    by (simp only: footer_ss_def footer_cs_def) auto
qed

lemma marker_at_drop: "marker_at (drop k addr) j \<longleftrightarrow> marker_at addr (k + j)"
  by (simp add: marker_at_def add.commute)

lemma signed_archive_parts:
  assumes "signed_archive addr pre eocd block"
  defines "cs \<equiv> length eocd - 22"
  shows "6 \<le> length addr" and "drop (length addr - 6) addr = footer_of (length block + 6) cs"
    and "6 < length block + 6" and "length block + 6 \<le> cs" and "cs + 22 \<le> length addr"
    and "cs < 65536"
    and "pre = take (length addr - (cs + 22)) addr" and "eocd = drop (length addr - (cs + 22)) addr"
    and "block = take (length block) (drop (length addr - (length block + 6)) addr)"
proof -
  obtain hd where e: "addr = pre @ eocd" "22 \<le> length eocd" "length eocd < 22 + 65536"
    "eocd = hd @ block @ footer_of (length block + 6) cs" "block \<noteq> []" "length block + 6 \<le> cs"
    using assms(1) unfolding cs_def signed_archive_def by blast
  have lf: "length (footer_of a b) = 6" for a b by (simp add: footer_of_def)
  have addr: "addr = (pre @ hd) @ block @ footer_of (length block + 6) cs" using e(1,4) by simp
  have len: "length addr = length (pre @ hd) + length block + 6" by (subst addr) (simp add: lf)
  show "6 \<le> length addr" "length block + 6 \<le> cs" using len e(6) by simp_all
  show "6 < length block + 6" using e(5) by simp
  show "cs < 65536" "cs + 22 \<le> length addr" using e(1,2,3) by (simp_all add: cs_def)
  show "pre = take (length addr - (cs + 22)) addr" "eocd = drop (length addr - (cs + 22)) addr"
    using e(1,2) by (simp_all add: cs_def)
  have "drop (length (pre @ hd) + length block) addr = footer_of (length block + 6) cs"
    by (subst addr) simp
  then show "drop (length addr - 6) addr = footer_of (length block + 6) cs" using len by simp
  have "drop (length (pre @ hd)) addr = block @ footer_of (length block + 6) cs" by (subst addr) simp
  then show "block = take (length block) (drop (length addr - (length block + 6)) addr)"
    using len by simp
qed

text \<open>The checks of the footer and of the record that precede the signature check.\<close>

definition layout_ok :: "byte list \<Rightarrow> bool" where
  "layout_ok addr \<longleftrightarrow>
     6 \<le> length addr \<and> addr ! (length addr - 6 + 2) = 0xff \<and> addr ! (length addr - 6 + 3) = 0xff \<and>
     footer_ss addr \<le> footer_cs addr \<and> 6 < footer_ss addr \<and>
     footer_cs addr + 22 \<le> length addr \<and>
     marker_at addr (length addr - (footer_cs addr + 22)) \<and>
     (\<forall>j. 4 \<le> j \<and> j + 4 \<le> footer_cs addr + 22 \<longrightarrow>
        \<not> marker_at addr (length addr - (footer_cs addr + 22) + j))"

lemma signed_archive_layout:
  assumes "signed_archive addr pre eocd block"
  shows "layout_ok addr"
    and "pre = take (length addr - (footer_cs addr + 22)) addr"
    and "eocd = drop (length addr - (footer_cs addr + 22)) addr"
    and "block = take (footer_ss addr - 6) (drop (length addr - footer_ss addr) addr)"
proof -
  note p = signed_archive_parts [OF assms]
  have f: "addr ! (length addr - 6 + 2) = 0xff" "addr ! (length addr - 6 + 3) = 0xff"
    and ss: "footer_ss addr = length block + 6" and cs: "footer_cs addr = length eocd - 22"
    using drop_footer_iff [OF p(1) _ p(6), of "length block + 6"] p(2,4,6) by auto
  show "pre = take (length addr - (footer_cs addr + 22)) addr"
    and eocd: "eocd = drop (length addr - (footer_cs addr + 22)) addr"
    using p(7,8) by (simp_all add: cs)
  show "block = take (footer_ss addr - 6) (drop (length addr - footer_ss addr) addr)"
    using p(9) by (simp add: ss)
  have le: "22 \<le> length eocd" using assms by (simp add: signed_archive_def)
  have me: "marker_at eocd j = marker_at addr (length addr - (footer_cs addr + 22) + j)" for j
    by (subst eocd) (rule marker_at_drop)
  have m: "marker_at eocd 0" "\<forall>j. 4 \<le> j \<and> j + 4 \<le> length eocd \<longrightarrow> \<not> marker_at eocd j"
    using assms by (simp_all add: signed_archive_def)
  have b: "footer_ss addr \<le> footer_cs addr" "6 < footer_ss addr"
    "footer_cs addr + 22 \<le> length addr"
    using p(3,4,5) by (simp_all add: ss cs)
  have len: "length eocd = footer_cs addr + 22" using le by (simp add: cs)
  show "layout_ok addr"
    unfolding layout_ok_def
    by (intro conjI f p(1) b m(2) [unfolded me len] m(1) [unfolded me, simplified])
qed

lemma layout_signed_archive:
  assumes "layout_ok addr"
  defines "e \<equiv> length addr - (footer_cs addr + 22)"
  shows "signed_archive addr (take e addr) (drop e addr)
    (take (footer_ss addr - 6) (drop (length addr - footer_ss addr) addr))"
proof -
  let ?ss = "footer_ss addr" and ?cs = "footer_cs addr"
  let ?block = "take (?ss - 6) (drop (length addr - ?ss) addr)"
  let ?hd = "take (?cs + 22 - ?ss) (drop e addr)"
  have l: "6 \<le> length addr" "?ss \<le> ?cs" "6 < ?ss" "?cs + 22 \<le> length addr"
    using assms(1) by (simp_all add: layout_ok_def)
  have len: "length (drop e addr) = ?cs + 22" using l by (simp add: e_def)
  have foot: "drop (length addr - 6) addr = footer_of ?ss ?cs"
    using assms(1) unfolding drop_footer_iff [OF l(1) footer_bounds] layout_ok_def by blast
  have lb: "length ?block = ?ss - 6" using l by simp
  have "drop (length addr - ?ss) addr = ?block @ drop (?ss - 6) (drop (length addr - ?ss) addr)"
    by (simp only: append_take_drop_id)
  also have "drop (?ss - 6) (drop (length addr - ?ss) addr) = footer_of ?ss ?cs"
    using foot l by simp
  finally have d: "drop (length addr - ?ss) addr = ?block @ footer_of ?ss ?cs" .
  have "drop e addr = ?hd @ drop (?cs + 22 - ?ss) (drop e addr)"
    by (simp only: append_take_drop_id)
  also have "drop (?cs + 22 - ?ss) (drop e addr) = drop (length addr - ?ss) addr"
    using l by (simp add: e_def)
  also note d
  finally have ex: "drop e addr = ?hd @ ?block @ footer_of ?ss (length (drop e addr) - 22)"
    unfolding len diff_add_inverse2 .
  have m: "marker_at (drop e addr) 0"
    "\<forall>j. 4 \<le> j \<and> j + 4 \<le> length (drop e addr) \<longrightarrow> \<not> marker_at (drop e addr) j"
    using assms(1) unfolding len marker_at_drop e_def [symmetric] layout_ok_def add_0_right by blast+
  have "length ?block > 0" using l(3) unfolding lb by simp
  then have "?block \<noteq> []" by (rule length_greater_0_conv [THEN iffD1])
  moreover have "addr = take e addr @ drop e addr" by simp
  moreover have "22 \<le> length (drop e addr)" "length (drop e addr) < 22 + 65536"
    "?ss = length ?block + 6" "?ss \<le> length (drop e addr) - 22"
    unfolding len lb using l footer_bounds(2) [of addr] by simp_all
  ultimately show ?thesis unfolding signed_archive_def using ex m by blast
qed

lemma well_signed_iff:
  "well_signed cr keys addr \<longleftrightarrow>
     layout_ok addr \<and>
     (\<exists>sig. read_pkcs7 (take (footer_ss addr - 6) (drop (length addr - footer_ss addr) addr)) =
          Some (True, sig) \<and>
        (\<exists>key \<in> set keys.
           (let signed = take (length addr - footer_cs addr - 2) addr
            in key_accepts cr (cr_sha1 cr signed) (cr_sha256 cr signed) sig key)))"
    (is "_ \<longleftrightarrow> ?R")
proof -
  let ?e = "length addr - (footer_cs addr + 22)"
  let ?block = "take (footer_ss addr - 6) (drop (length addr - footer_ss addr) addr)"
  have sgn: "take ?e addr @ take 20 (drop ?e addr) = take (length addr - footer_cs addr - 2) addr"
    if "layout_ok addr"
    using that take_add [of ?e 20 addr] by (simp add: layout_ok_def)
  show ?thesis
  proof
    assume "well_signed cr keys addr"
    then obtain pre eocd block sig key where a: "signed_archive addr pre eocd block"
      and w: "read_pkcs7 block = Some (True, sig)" "key \<in> set keys"
        "key_accepts cr (cr_sha1 cr (pre @ take 20 eocd)) (cr_sha256 cr (pre @ take 20 eocd)) sig key"
      unfolding well_signed_def Let_def by blast
    note l = signed_archive_layout [OF a]
    have "pre @ take 20 eocd = take (length addr - footer_cs addr - 2) addr"
      using sgn [OF l(1)] l(2,3) by simp
    with w(3) have "key_accepts cr (cr_sha1 cr (take (length addr - footer_cs addr - 2) addr))
        (cr_sha256 cr (take (length addr - footer_cs addr - 2) addr)) sig key"
      by simp
    with l(1,4) w(1,2) show ?R unfolding Let_def by blast
  next
    assume r: ?R
    then have a: "signed_archive addr (take ?e addr) (drop ?e addr) ?block" and l: "layout_ok addr"
      by (simp_all only: layout_signed_archive)
    from r a show "well_signed cr keys addr"
      unfolding well_signed_def sgn [OF l, symmetric] Let_def by blast
  qed
qed

lemma verify_signature_eq:
  assumes "signed_len \<le> length addr"
    and "read_pkcs7 (take (ss - 6) (drop (e - ss) addr)) = Some (ok, sig)"
  defines "covered \<equiv> take signed_len addr"
  shows "verify_signature cr addr keys signed_len ss e =
    Some (if ok \<and> (\<exists>key \<in> set keys. key_accepts cr (cr_sha1 cr covered) (cr_sha256 cr covered) sig key)
          then VERIFY_SUCCESS else VERIFY_FAILURE)"
proof -
  define n1 where "n1 = list_ex (\<lambda>key. hash_len key = SHA_DIGEST_LENGTH) keys"
  define n2 where "n2 = list_ex (\<lambda>key. hash_len key = SHA256_DIGEST_LENGTH) keys"
  define c1 where "c1 = (if n1 then covered else [])"
  define c2 where "c2 = (if n2 then covered else [])"
  have h: "hash_loop n1 n2 addr signed_len 0 [] [] = (c1, c2)"
    using hash_loop_eq [of 0 signed_len addr n1 n2 "[]" "[]"] assms(1)
    by (simp add: c1_def c2_def covered_def)
  have "key_accepts cr (cr_sha1 cr c1) (cr_sha256 cr c2) sig key =
      key_accepts cr (cr_sha1 cr covered) (cr_sha256 cr covered) sig key" if "key \<in> set keys" for key
    using that by (auto simp: key_accepts_def c1_def c2_def n1_def n2_def list_ex_iff)
  then have "try_keys cr (cr_sha1 cr c1) (cr_sha256 cr c2) sig keys =
      (if \<exists>key \<in> set keys. key_accepts cr (cr_sha1 cr covered) (cr_sha256 cr covered) sig key
       then VERIFY_SUCCESS else VERIFY_FAILURE)"
    by (simp add: try_keys_eq)
  then show ?thesis
    unfolding verify_signature_def n1_def [symmetric] n2_def [symmetric] Let_def h FOOTER_SIZE_def
    by (simp add: assms(2))
qed

lemma layout_scan:
  assumes "footer_cs addr + 22 \<le> length addr"
  defines "e \<equiv> length addr - (footer_cs addr + 22)"
  shows "eocd_marker addr e = Some (marker_at addr e)"
    and "eocd_again addr e (footer_cs addr + 22 - 3 - 4) 4 =
      Some (\<exists>j. 4 \<le> j \<and> j + 4 \<le> footer_cs addr + 22 \<and> marker_at addr (e + j))"
proof -
  show "eocd_marker addr e = Some (marker_at addr e)"
    using assms(1) by (intro eocd_marker_eq) (simp add: e_def)
  have "eocd_again addr e (footer_cs addr + 22 - 3 - 4) 4 =
      Some (\<exists>j \<in> set [4..<4 + (footer_cs addr + 22 - 3 - 4)]. marker_at addr (e + j))"
    using assms(1) by (intro eocd_again_eq) (simp add: e_def)
  moreover have "j \<in> set [4..<4 + (footer_cs addr + 22 - 3 - 4)] \<longleftrightarrow>
      4 \<le> j \<and> j + 4 \<le> footer_cs addr + 22" for j
    by auto
  ultimately show "eocd_again addr e (footer_cs addr + 22 - 3 - 4) 4 =
      Some (\<exists>j. 4 \<le> j \<and> j + 4 \<le> footer_cs addr + 22 \<and> marker_at addr (e + j))"
    by (simp only: Bex_def conj_assoc)
qed

lemma verify_file_layout:
  "verify_file cr addr keys =
     (if layout_ok addr
      then verify_signature cr addr keys (length addr - footer_cs addr - 2) (footer_ss addr) (length addr)
      else Some VERIFY_FAILURE)"
proof (cases "6 \<le> length addr")
  case False
  then show ?thesis by (simp add: verify_file_def FOOTER_SIZE_def layout_ok_def)
next
  case True
  let ?f = "length addr - 6"
  have r: "rd addr ?f = Some (addr ! ?f)" "rd addr (?f + 1) = Some (addr ! (?f + 1))"
    "rd addr (?f + 2) = Some (addr ! (?f + 2))" "rd addr (?f + 3) = Some (addr ! (?f + 3))"
    "rd addr (?f + 4) = Some (addr ! (?f + 4))" "rd addr (?f + 5) = Some (addr ! (?f + 5))"
    using True by (simp_all add: rd_def)
  show ?thesis
  proof (cases "footer_cs addr + 22 \<le> length addr \<and> 6 < footer_ss addr \<and> footer_ss addr \<le> footer_cs addr")
    case False
    then show ?thesis
      using True
      by (simp only: verify_file_def FOOTER_SIZE_def EOCD_HEADER_SIZE_def Let_def r bind.bind_lunit
          footer_ss_def [symmetric] footer_cs_def [symmetric] layout_ok_def)
        auto
  next
    case b: True
    have len: "length addr - (footer_cs addr + 22) + 22 - 2 = length addr - footer_cs addr - 2"
      "length addr - (footer_cs addr + 22) + (footer_cs addr + 22) = length addr"
      using b by simp_all
    have b': "\<not> length addr < 6" "\<not> footer_cs addr < footer_ss addr" "\<not> footer_ss addr \<le> 6"
      "\<not> length addr < footer_cs addr + 22"
      using True b by simp_all
    show ?thesis
      using True b
      unfolding verify_file_def FOOTER_SIZE_def EOCD_HEADER_SIZE_def Let_def r bind.bind_lunit
        footer_ss_def [symmetric] footer_cs_def [symmetric] layout_ok_def
        layout_scan [OF conjunct1 [OF b]] len
      by (simp only: b' if_False if_True simp_thms bind.bind_lunit) auto
  qed
qed

text \<open>
  C5.  \<^verbatim>\<open>verify_file\<close> reads only inside the package, terminates, and answers
  \<^verbatim>\<open>VERIFY_SUCCESS\<close> exactly for the well-signed packages: those with a footer that announces
  a comment and a signature block that fit, a single end-of-central-directory marker from
  that record on, a PKCS\#7 block that holds a signature, and a certificate that accepts
  the signature for the hash of everything up to the comment length field.
\<close>

theorem verify_file_spec:
  "verify_file cr addr keys =
     Some (if well_signed cr keys addr then VERIFY_SUCCESS else VERIFY_FAILURE)"
proof (cases "layout_ok addr")
  case False
  then show ?thesis by (simp add: verify_file_layout well_signed_iff)
next
  case True
  let ?block = "take (footer_ss addr - 6) (drop (length addr - footer_ss addr) addr)"
  obtain ok sig where r: "read_pkcs7 ?block = Some (ok, sig)"
    using read_pkcs7_extracts [of ?block] by (auto simp: extracts_def)
  have "length addr - footer_cs addr - 2 \<le> length addr" by simp
  note v = verify_signature_eq [OF this r]
  show ?thesis
  proof (cases ok)
    case True
    with \<open>layout_ok addr\<close> r show ?thesis
      unfolding verify_file_layout well_signed_iff v Let_def by simp
  next
    case False
    with r show ?thesis unfolding verify_file_layout well_signed_iff v Let_def by simp
  qed
qed

end
