(* ===== verification/World.thy ===== *)
theory World
  imports Prelude "HOL-Library.State_Monad" "HOL-Library.AList"
begin

text \<open>
  The operating-system state that the updater works on, and the system calls the sources
  use.  Effectful code is written in the state monad of the library.

  Faults.  Every system call takes one event of the schedule \<open>w_oracle\<close>: it succeeds, fails
  with an error number after a prefix of its data has reached the file, transfers fewer bytes
  than asked, or the machine stops in the middle of it.  The empty schedule means that
  everything succeeds.  A property that holds for all schedules holds for every placement of
  I/O errors and power losses.

  Halting.  When the machine stops, or the process ends through a failed \<^verbatim>\<open>CHECK\<close> or an
  uncaught exception, \<open>w_halted\<close> is set and from then on no step changes the state any more:
  the final state of a run is the state at that point.  The value that such a run returns has
  no meaning.

  Not modelled: permissions and ownership, and the page cache (a write is visible and durable
  at once, \<^verbatim>\<open>fsync\<close> only reports errors).
\<close>

named_theorems keeps "programs preserve an invariant"
named_theorems run_simps "one run of a primitive"

section \<open>State\<close>

datatype io_event = IoOk | IoShort nat | IoErr int nat | IoHalt nat

record world =
  w_halted :: bool
  w_files :: "(string \<times> byte list) list"
  w_dev :: "string list"
  w_dirs :: "string list"
  w_fds :: "(int \<times> string \<times> nat) list"
  w_next_fd :: int
  w_oracle :: "io_event list"
  w_errno :: int
  w_stdout :: string

type_synonym ('z, 'a) io = "('z world_scheme, 'a) state"

abbreviation ret :: "'a \<Rightarrow> ('s, 'a) state" where
  "ret \<equiv> State_Monad.return"

definition gets :: "('s \<Rightarrow> 'a) \<Rightarrow> ('s, 'a) state" where
  "gets f = State (\<lambda>s. (f s, s))"

text \<open>A change of the state; it has no effect once the process has ended.\<close>

definition upd :: "('z world_scheme \<Rightarrow> 'z world_scheme) \<Rightarrow> ('z, unit) io" where
  "upd f = State (\<lambda>s. ((), if w_halted s then s else f s))"

definition halt :: "('z, unit) io" where
  "halt = upd (\<lambda>s. s\<lparr>w_halted := True\<rparr>)"

text \<open>\<^verbatim>\<open>CHECK\<close>, and the implicit checks of operations that would be undefined.\<close>

definition CHECK :: "bool \<Rightarrow> ('z, unit) io" where
  "CHECK b = (if b then ret () else halt)"

definition ENOENT :: int where "ENOENT = 2"
definition EINTR :: int where "EINTR = 4"
definition EIO :: int where "EIO = 5"
definition EBADF :: int where "EBADF = 9"
definition EEXIST :: int where "EEXIST = 17"
definition EINVAL :: int where "EINVAL = 22"
definition ENOSPC :: int where "ENOSPC = 28"

lemmas errno_defs = ENOENT_def EINTR_def EIO_def EBADF_def EEXIST_def EINVAL_def ENOSPC_def

definition next_event :: "('z, io_event) io" where
  "next_event = State (\<lambda>s.
     if w_halted s then (IoErr EIO 0, s)
     else case w_oracle s of [] \<Rightarrow> (IoOk, s) | ev # evs \<Rightarrow> (ev, s\<lparr>w_oracle := evs\<rparr>))"

definition fail :: "int \<Rightarrow> ('z, int) io" where
  "fail e = do { upd (\<lambda>s. s\<lparr>w_errno := e\<rparr>); ret (-1) }"

section \<open>Files\<close>

definition file_of :: "'z world_scheme \<Rightarrow> string \<Rightarrow> byte list option" where
  "file_of s p = map_of (w_files s) p"

definition set_file :: "string \<Rightarrow> byte list \<Rightarrow> 'z world_scheme \<Rightarrow> 'z world_scheme" where
  "set_file p c s = s\<lparr>w_files := AList.update p c (w_files s)\<rparr>"

definition del_file :: "string \<Rightarrow> 'z world_scheme \<Rightarrow> 'z world_scheme" where
  "del_file p s = s\<lparr>w_files := AList.delete p (w_files s)\<rparr>"

definition fd_of :: "'z world_scheme \<Rightarrow> int \<Rightarrow> (string \<times> nat) option" where
  "fd_of s fd = map_of (w_fds s) fd"

definition set_fd :: "int \<Rightarrow> string \<Rightarrow> nat \<Rightarrow> 'z world_scheme \<Rightarrow> 'z world_scheme" where
  "set_fd fd p pos s = s\<lparr>w_fds := AList.update fd (p, pos) (w_fds s)\<rparr>"

definition overlay :: "nat \<Rightarrow> byte list \<Rightarrow> byte list \<Rightarrow> byte list" where
  "overlay pos xs c =
     (if xs = [] then c
      else take pos (c @ replicate (pos - length c) 0) @ xs @ drop (pos + length xs) c)"

text \<open>How many of \<open>n\<close> bytes fit at \<open>pos\<close>: a block device has a fixed size.\<close>

definition room :: "string \<Rightarrow> nat \<Rightarrow> nat \<Rightarrow> 'z world_scheme \<Rightarrow> nat" where
  "room p pos n s =
     (case file_of s p of
        None \<Rightarrow> 0
      | Some c \<Rightarrow> if p \<in> set (w_dev s) then min n (length c - pos) else n)"

definition put_bytes :: "string \<Rightarrow> nat \<Rightarrow> byte list \<Rightarrow> 'z world_scheme \<Rightarrow> 'z world_scheme" where
  "put_bytes p pos xs s =
     (case file_of s p of None \<Rightarrow> s | Some c \<Rightarrow> set_file p (overlay pos xs c) s)"

text \<open>A path up to its last slash.\<close>

definition dir_part :: "string \<Rightarrow> string" where
  "dir_part p = rev (dropWhile (\<lambda>c. c \<noteq> CHR ''/'') (rev p))"

section \<open>System calls\<close>

datatype oflag = O_RDONLY | O_RDWR | O_WRONLY | O_CREAT | O_TRUNC | O_SYNC | O_DIRECTORY

definition alloc_fd :: "string \<Rightarrow> ('z, int) io" where
  "alloc_fd p = do {
     fd \<leftarrow> gets w_next_fd;
     upd (\<lambda>s. set_fd fd p 0 (s\<lparr>w_next_fd := fd + 1\<rparr>));
     ret fd }"

definition sys_open :: "string \<Rightarrow> oflag list \<Rightarrow> ('z, int) io" where
  "sys_open p flags = do {
     ev \<leftarrow> next_event;
     f \<leftarrow> gets (\<lambda>s. file_of s p);
     dev \<leftarrow> gets (\<lambda>s. p \<in> set (w_dev s));
     dir \<leftarrow> gets (\<lambda>s. p \<in> set (w_dirs s));
     case ev of
       IoErr e n \<Rightarrow> fail e
     | IoHalt n \<Rightarrow> do { halt; ret (-1) }
     | _ \<Rightarrow>
         (case f of
            None \<Rightarrow>
              if dir then alloc_fd p
              else if O_CREAT \<in> set flags then do { upd (set_file p []); alloc_fd p }
              else fail ENOENT
          | Some c \<Rightarrow>
              if O_TRUNC \<in> set flags \<and> \<not> dev then do { upd (set_file p []); alloc_fd p }
              else alloc_fd p) }"

text \<open>The bytes read, or \<open>None\<close> for the result \<open>-1\<close>.\<close>

definition sys_read :: "int \<Rightarrow> nat \<Rightarrow> ('z, byte list option) io" where
  "sys_read fd n = do {
     ev \<leftarrow> next_event;
     at \<leftarrow> gets (\<lambda>s. fd_of s fd);
     case at of
       None \<Rightarrow> do { fail EBADF; ret None }
     | Some (p, pos) \<Rightarrow> do {
         f \<leftarrow> gets (\<lambda>s. file_of s p);
         case (ev, f) of
           (IoErr e _, _) \<Rightarrow> do { fail e; ret None }
         | (IoHalt _, _) \<Rightarrow> do { halt; ret None }
         | (_, None) \<Rightarrow> do { fail EBADF; ret None }
         | (_, Some c) \<Rightarrow>
             let m = (case ev of IoShort k \<Rightarrow> min n (max 1 k) | _ \<Rightarrow> n);
                 xs = take m (drop pos c)
             in do { upd (set_fd fd p (pos + length xs)); ret (Some xs) } } }"

text \<open>
  The number of bytes written or \<open>-1\<close>.  A failed write may have stored a prefix of the data,
  except that \<^verbatim>\<open>EINTR\<close> means that nothing was written.
\<close>

definition sys_write :: "int \<Rightarrow> byte list \<Rightarrow> ('z, int) io" where
  "sys_write fd xs = (if fd < 0 then fail EBADF else do {
     ev \<leftarrow> next_event;
     at \<leftarrow> gets (\<lambda>s. fd_of s fd);
     case at of
       None \<Rightarrow> fail EBADF
     | Some (p, pos) \<Rightarrow> do {
         cap \<leftarrow> gets (room p pos (length xs));
         case ev of
           IoErr e n \<Rightarrow> do {
             upd (put_bytes p pos (take (if e = EINTR then 0 else min n cap) xs)); fail e }
         | IoHalt n \<Rightarrow> do { upd (put_bytes p pos (take (min n cap) xs)); halt; ret (-1) }
         | _ \<Rightarrow>
             if cap = 0 \<and> xs \<noteq> [] then fail ENOSPC
             else
               let k = (case ev of IoShort n \<Rightarrow> min cap (max 1 n) | _ \<Rightarrow> cap)
               in do { upd (\<lambda>s. set_fd fd p (pos + k) (put_bytes p pos (take k xs) s));
                       ret (int k) } } })"

text \<open>\<^verbatim>\<open>lseek64(fd, offset, SEEK_SET)\<close>.\<close>

definition sys_lseek :: "int \<Rightarrow> nat \<Rightarrow> ('z, int) io" where
  "sys_lseek fd off = do {
     ev \<leftarrow> next_event;
     at \<leftarrow> gets (\<lambda>s. fd_of s fd);
     case (ev, at) of
       (IoErr e _, _) \<Rightarrow> fail e
     | (IoHalt _, _) \<Rightarrow> do { halt; ret (-1) }
     | (_, None) \<Rightarrow> fail EBADF
     | (_, Some (p, _)) \<Rightarrow> do { upd (set_fd fd p off); ret (int off) } }"

text \<open>A call whose only effect the model has is its error: \<^verbatim>\<open>fsync\<close>, \<^verbatim>\<open>chown\<close>, \<^verbatim>\<open>chmod\<close>.\<close>

definition sys_plain :: "('z, int) io" where
  "sys_plain = do {
     ev \<leftarrow> next_event;
     case ev of
       IoErr e _ \<Rightarrow> fail e
     | IoHalt _ \<Rightarrow> do { halt; ret (-1) }
     | _ \<Rightarrow> ret 0 }"

definition sys_fsync :: "int \<Rightarrow> ('z, int) io" where
  "sys_fsync fd = sys_plain"

definition sys_chown :: "string \<Rightarrow> ('z, int) io" where
  "sys_chown p = sys_plain"

definition sys_close :: "int \<Rightarrow> ('z, int) io" where
  "sys_close fd = do {
     ev \<leftarrow> next_event;
     upd (\<lambda>s. s\<lparr>w_fds := AList.delete fd (w_fds s)\<rparr>);
     case ev of
       IoErr e _ \<Rightarrow> fail e
     | IoHalt _ \<Rightarrow> do { halt; ret (-1) }
     | _ \<Rightarrow> ret 0 }"

text \<open>A call that changes the directory tree, either completely or not at all.\<close>

definition sys_atomic ::
  "('z world_scheme \<Rightarrow> int option) \<Rightarrow> ('z world_scheme \<Rightarrow> 'z world_scheme) \<Rightarrow> ('z, int) io" where
  "sys_atomic err f = do {
     ev \<leftarrow> next_event;
     r \<leftarrow> gets err;
     case (ev, r) of
       (IoErr e _, _) \<Rightarrow> fail e
     | (IoHalt n, None) \<Rightarrow> do { upd (\<lambda>s. if n = 0 then s else f s); halt; ret (-1) }
     | (IoHalt n, Some _) \<Rightarrow> do { halt; ret (-1) }
     | (_, Some e) \<Rightarrow> fail e
     | (_, None) \<Rightarrow> do { upd f; ret 0 } }"

definition sys_unlink :: "string \<Rightarrow> ('z, int) io" where
  "sys_unlink p =
     sys_atomic (\<lambda>s. if file_of s p = None then Some ENOENT else None) (del_file p)"

definition sys_rename :: "string \<Rightarrow> string \<Rightarrow> ('z, int) io" where
  "sys_rename p q =
     sys_atomic (\<lambda>s. if file_of s p = None then Some ENOENT else None)
       (\<lambda>s. case file_of s p of None \<Rightarrow> s | Some c \<Rightarrow> if p = q then s else set_file q c (del_file p s))"

definition sys_mkdir :: "string \<Rightarrow> ('z, int) io" where
  "sys_mkdir p =
     sys_atomic (\<lambda>s. if p \<in> set (w_dirs s) \<or> file_of s p \<noteq> None then Some EEXIST else None)
       (\<lambda>s. s\<lparr>w_dirs := p # w_dirs s\<rparr>)"

definition sys_rmdir :: "string \<Rightarrow> ('z, int) io" where
  "sys_rmdir p =
     sys_atomic (\<lambda>s. if p \<in> set (w_dirs s) then None else Some ENOENT)
       (\<lambda>s. s\<lparr>w_dirs := removeAll p (w_dirs s)\<rparr>)"

text \<open>\<^verbatim>\<open>stat\<close>: the size of the file (a directory has size 0).\<close>

definition sys_stat :: "string \<Rightarrow> ('z, nat option) io" where
  "sys_stat p = do {
     ev \<leftarrow> next_event;
     f \<leftarrow> gets (\<lambda>s. file_of s p);
     dir \<leftarrow> gets (\<lambda>s. p \<in> set (w_dirs s));
     case ev of
       IoErr e _ \<Rightarrow> do { fail e; ret None }
     | IoHalt _ \<Rightarrow> do { halt; ret None }
     | _ \<Rightarrow>
         (case f of
            Some c \<Rightarrow> ret (Some (length c))
          | None \<Rightarrow> if dir then ret (Some 0) else do { fail ENOENT; ret None }) }"

text \<open>
  \<^verbatim>\<open>opendir\<close> and the \<^verbatim>\<open>readdir\<close> loop: the names of the regular files directly inside the
  directory, or \<open>None\<close> when it cannot be opened.
\<close>

definition names_in :: "string \<Rightarrow> string list \<Rightarrow> string list" where
  "names_in d ps =
     (let pre = d @ ''/'' in
      filter (\<lambda>n. n \<noteq> [] \<and> CHR ''/'' \<notin> set n)
        (map (drop (length pre)) (filter (\<lambda>p. take (length pre) p = pre) ps)))"

definition sys_listdir :: "string \<Rightarrow> ('z, string list option) io" where
  "sys_listdir d = do {
     ev \<leftarrow> next_event;
     ps \<leftarrow> gets (\<lambda>s. map fst (filter (\<lambda>f. fst f \<notin> set (w_dev s)) (w_files s)));
     dir \<leftarrow> gets (\<lambda>s. d \<in> set (w_dirs s));
     case ev of
       IoErr e _ \<Rightarrow> do { fail e; ret None }
     | IoHalt _ \<Rightarrow> do { halt; ret None }
     | _ \<Rightarrow> if dir then ret (Some (names_in d ps)) else do { fail ENOENT; ret None } }"

text \<open>
  \<^verbatim>\<open>fread\<close> reads until the count is reached, the file ends or an error occurs; the result is
  what was read.
\<close>

definition sys_fread :: "int \<Rightarrow> nat \<Rightarrow> ('z, byte list) io" where
  "sys_fread fd n = do {
     ev \<leftarrow> next_event;
     at \<leftarrow> gets (\<lambda>s. fd_of s fd);
     case at of
       None \<Rightarrow> do { fail EBADF; ret [] }
     | Some (p, pos) \<Rightarrow> do {
         f \<leftarrow> gets (\<lambda>s. file_of s p);
         case f of
           None \<Rightarrow> do { fail EBADF; ret [] }
         | Some c \<Rightarrow>
             (case ev of
                IoErr e k \<Rightarrow>
                  let xs = take (min n k) (drop pos c)
                  in do { upd (set_fd fd p (pos + length xs)); fail e; ret xs }
              | IoHalt _ \<Rightarrow> do { halt; ret [] }
              | _ \<Rightarrow>
                  let xs = take n (drop pos c)
                  in do { upd (set_fd fd p (pos + length xs)); ret xs }) } }"

text \<open>
  \<^verbatim>\<open>TEMP_FAILURE_RETRY\<close>: repeat a call that was interrupted.  Every turn takes an event, so
  the length of the schedule bounds the number of turns.
\<close>

fun retry_loop :: "nat \<Rightarrow> ('a \<Rightarrow> bool) \<Rightarrow> ('z, 'a) io \<Rightarrow> ('z, 'a) io" where
  "retry_loop 0 failed call = call"
| "retry_loop (Suc n) failed call = do {
     r \<leftarrow> call;
     e \<leftarrow> gets w_errno;
     if failed r \<and> e = EINTR then retry_loop n failed call else ret r }"

definition TEMP_FAILURE_RETRY :: "('a \<Rightarrow> bool) \<Rightarrow> ('z, 'a) io \<Rightarrow> ('z, 'a) io" where
  "TEMP_FAILURE_RETRY failed call = do {
     n \<leftarrow> gets (\<lambda>s. length (w_oracle s));
     retry_loop n failed call }"

section \<open>Reasoning about runs\<close>

text \<open>
  \<open>wp m Q s\<close>: the run of \<open>m\<close> from \<open>s\<close> ends with a value and a state that satisfy \<open>Q\<close>.  The
  equations below execute a program symbolically; an operation with a specification is
  stepped over with \<open>wp_mono\<close>.
\<close>

definition wp :: "('s, 'a) state \<Rightarrow> ('a \<Rightarrow> 's \<Rightarrow> bool) \<Rightarrow> 's \<Rightarrow> bool" where
  "wp m Q s = (case run_state m s of (a, s') \<Rightarrow> Q a s')"

lemma wp_ret [simp]: "wp (ret a) Q = Q a"
  by (simp add: wp_def fun_eq_iff)

lemma wp_bind [simp]: "wp (m \<bind> f) Q s = wp m (\<lambda>a s'. wp (f a) Q s') s"
  by (simp add: wp_def split: prod.splits)

lemma wp_gets [simp]: "wp (gets f) Q s = Q (f s) s"
  by (simp add: wp_def gets_def)

lemma wp_upd [simp]: "wp (upd f) Q s = Q () (if w_halted s then s else f s)"
  by (simp add: wp_def upd_def)

lemma wp_halt [simp]: "wp halt Q s = Q () (if w_halted s then s else s\<lparr>w_halted := True\<rparr>)"
  by (simp add: halt_def)

lemma wp_if [simp]: "wp (if b then m else n) Q s = (if b then wp m Q s else wp n Q s)"
  by simp

lemma wp_const [simp]: "wp m (\<lambda>_ _. Q) s = Q"
  by (simp add: wp_def split: prod.split)

lemma wp_mono: "wp m Q s \<Longrightarrow> (\<And>a s'. Q a s' \<Longrightarrow> R a s') \<Longrightarrow> wp m R s"
  by (auto simp: wp_def split: prod.splits)

lemma wp_seq: "wp m Q s \<Longrightarrow> (\<And>a s'. Q a s' \<Longrightarrow> wp (f a) R s') \<Longrightarrow> wp (m \<bind> f) R s"
  by (auto elim: wp_mono)

lemma wp_ifI: "(b \<Longrightarrow> wp m Q s) \<Longrightarrow> (\<not> b \<Longrightarrow> wp n Q s) \<Longrightarrow> wp (if b then m else n) Q s"
  by simp

lemma wp_optionI:
  "(x = None \<Longrightarrow> wp m Q s) \<Longrightarrow> (\<And>y. x = Some y \<Longrightarrow> wp (f y) Q s) \<Longrightarrow>
     wp (case x of None \<Rightarrow> m | Some y \<Rightarrow> f y) Q s"
  by (cases x) simp_all

text \<open>The value of the last statement decides, whatever ran before it.\<close>

lemma wp_tail: "(\<And>s'. Q x s') \<Longrightarrow> wp (m \<bind> (\<lambda>_. ret x)) Q s"
  by (simp add: wp_def split: prod.split)

lemma wp_any: "(\<And>a s'. Q a s') \<Longrightarrow> wp m Q s"
  by (simp add: wp_def split: prod.split)

lemma wp_conj: "wp m Q s \<Longrightarrow> wp m R s \<Longrightarrow> wp m (\<lambda>a s'. Q a s' \<and> R a s') s"
  by (auto simp: wp_def split: prod.splits)

lemma wp_run: "wp m Q s \<longleftrightarrow> Q (fst (run_state m s)) (snd (run_state m s))"
  by (simp add: wp_def split: prod.splits)

lemma wp_runD: "wp m Q s \<Longrightarrow> run_state m s = (a, s') \<Longrightarrow> Q a s'"
  by (simp add: wp_def)

lemma run_gets [simp]: "run_state (gets f) s = (f s, s)"
  by (simp add: gets_def)

lemma run_upd: "run_state (upd f) s = ((), if w_halted s then s else f s)"
  by (simp add: upd_def)

lemma run_upd_live [simp]: "\<not> w_halted s \<Longrightarrow> run_state (upd f) s = ((), f s)"
  by (simp add: upd_def)

text \<open>
  Symbolic evaluation of runs: with \<open>run_eval\<close> as simp rules and \<open>bind_weak_cong\<close> as
  congruence rule, a program is evaluated statement by statement, never below a binder.
\<close>

named_theorems run_eval "equations that evaluate one statement of a run"

lemma bind_weak_cong: "m = m' \<Longrightarrow> (m \<bind> f :: ('s, 'a) state) = m' \<bind> f"
  by simp

lemma run_statements [run_eval]:
  "run_state (ret a) s = (a, s)"
  "run_state (m \<bind> f) s = (case run_state m s of (a, s') \<Rightarrow> run_state (f a) s')"
  "run_state (if b then m else n) s = (if b then run_state m s else run_state n s)"
  "run_state (Let x g) s = run_state (g x) s"
  by (simp_all split: prod.split)

lemma run_cases [run_eval]:
  "run_state (case x of None \<Rightarrow> m | Some y \<Rightarrow> f y) s =
     (case x of None \<Rightarrow> run_state m s | Some y \<Rightarrow> run_state (f y) s)"
  "run_state (case p of (a, b) \<Rightarrow> g a b) s = (case p of (a, b) \<Rightarrow> run_state (g a b) s)"
  "run_state (case xs of [] \<Rightarrow> m | y # ys \<Rightarrow> h y ys) s =
     (case xs of [] \<Rightarrow> run_state m s | y # ys \<Rightarrow> run_state (h y ys) s)"
  "run_state (case n of 0 \<Rightarrow> m | Suc k \<Rightarrow> i k) s =
     (case n of 0 \<Rightarrow> run_state m s | Suc k \<Rightarrow> run_state (i k) s)"
  "run_state (case ev of IoOk \<Rightarrow> a1 | IoShort n1 \<Rightarrow> b1 n1 | IoErr e1 n1 \<Rightarrow> c1 e1 n1 | IoHalt n1 \<Rightarrow> d1 n1) s =
     (case ev of IoOk \<Rightarrow> run_state a1 s | IoShort n1 \<Rightarrow> run_state (b1 n1) s
      | IoErr e1 n1 \<Rightarrow> run_state (c1 e1 n1) s | IoHalt n1 \<Rightarrow> run_state (d1 n1) s)"
  by (simp_all split: option.split prod.split list.split nat.split io_event.split)

lemma run_next_event [run_eval]:
  "run_state next_event s =
     (if w_halted s then (IoErr EIO 0, s)
      else case w_oracle s of [] \<Rightarrow> (IoOk, s) | ev # evs \<Rightarrow> (ev, s\<lparr>w_oracle := evs\<rparr>))"
  by (simp add: next_event_def)

declare run_gets [run_eval] run_upd [run_eval]

lemmas [run_eval] = fail_def halt_def CHECK_def
  alloc_fd_def sys_open_def sys_read_def
  sys_write_def sys_lseek_def sys_plain_def
  sys_fsync_def sys_chown_def sys_close_def
  sys_atomic_def sys_unlink_def sys_rename_def
  sys_mkdir_def sys_rmdir_def sys_stat_def
  sys_listdir_def sys_fread_def
  TEMP_FAILURE_RETRY_def retry_loop.simps

lemmas file_defs = file_of_def fd_of_def set_fd_def put_bytes_def set_file_def del_file_def room_def overlay_def

text \<open>\<open>keep I m\<close>: every run of \<open>m\<close>, ended or interrupted, preserves \<open>I\<close>.\<close>

definition keep :: "('s \<Rightarrow> bool) \<Rightarrow> ('s, 'a) state \<Rightarrow> bool" where
  "keep I m \<longleftrightarrow> (\<forall>s. I s \<longrightarrow> wp m (\<lambda>_. I) s)"

lemma keepI: "(\<And>s. I s \<Longrightarrow> wp m (\<lambda>_. I) s) \<Longrightarrow> keep I m"
  by (simp add: keep_def)

lemma keep_wp: "keep I m \<Longrightarrow> I s \<Longrightarrow> wp m (\<lambda>_. I) s"
  by (simp add: keep_def)

lemma keepD: "keep I m \<Longrightarrow> I s \<Longrightarrow> I (snd (run_state m s))"
  by (simp add: keep_def wp_run)

lemma keep_ret [keeps]: "keep I (ret a)"
  by (simp add: keep_def)

lemma keep_gets [keeps]: "keep I (gets f)"
  by (simp add: keep_def)

lemma keep_bind [keeps]: "keep I m \<Longrightarrow> (\<And>a. keep I (f a)) \<Longrightarrow> keep I (m \<bind> f)"
  unfolding keep_def wp_bind by (blast intro: wp_mono)

lemma keep_if [keeps]: "keep I m \<Longrightarrow> keep I n \<Longrightarrow> keep I (if b then m else n)"
  by simp

lemma keep_let [keeps]: "keep I (f x) \<Longrightarrow> keep I (Let x f)"
  by simp

lemma keep_option [keeps]:
  "(x = None \<Longrightarrow> keep I m) \<Longrightarrow> (\<And>y. x = Some y \<Longrightarrow> keep I (f y)) \<Longrightarrow>
     keep I (case x of None \<Rightarrow> m | Some y \<Rightarrow> f y)"
  by (cases x) simp_all

lemma keep_prod [keeps]:
  "(\<And>a b. x = (a, b) \<Longrightarrow> keep I (f a b)) \<Longrightarrow> keep I (case x of (a, b) \<Rightarrow> f a b)"
  by (cases x) simp

lemma keep_event [keeps]:
  "keep I a \<Longrightarrow> (\<And>n. keep I (b n)) \<Longrightarrow> (\<And>e n. keep I (c e n)) \<Longrightarrow> (\<And>n. keep I (d n)) \<Longrightarrow>
     keep I (case ev of IoOk \<Rightarrow> a | IoShort n \<Rightarrow> b n | IoErr e n \<Rightarrow> c e n | IoHalt n \<Rightarrow> d n)"
  by (cases ev) simp_all

lemma keep_upd: "(\<And>s. I s \<Longrightarrow> \<not> w_halted s \<Longrightarrow> I (f s)) \<Longrightarrow> keep I (upd f)"
  by (simp add: keep_def)

lemma keep_retry_loop: "keep I call \<Longrightarrow> keep I (retry_loop n failed call)"
  by (induction n) (auto intro!: keeps)

lemma keep_retry [keeps]: "keep I call \<Longrightarrow> keep I (TEMP_FAILURE_RETRY failed call)"
  unfolding TEMP_FAILURE_RETRY_def by (intro keeps keep_retry_loop)

text \<open>Once the process has ended, nothing changes.\<close>

definition frozen :: "'z world_scheme \<Rightarrow> 'z world_scheme \<Rightarrow> bool" where
  "frozen s0 s \<longleftrightarrow> s = s0"

end
