(* ===== verification/Ota_Io.thy ===== *)
theory Ota_Io
  imports World "HOL-Library.Sublist"
begin

text \<open>
  The I/O wrappers of \<^verbatim>\<open>otafault/ota_io.cpp\<close> and the fault-injection configuration of
  \<^verbatim>\<open>otafault/config.cpp\<close>: every call of the updater goes through them.  They remember which
  path a descriptor belongs to, can inject one error per kind of operation for a chosen file,
  and record in \<open>have_eio_error\<close> that an \<^verbatim>\<open>EIO\<close> was seen (the updater then asks for a retry).

  The archive with the fault configuration belongs to libziparchive; it is the pair of
  functions \<open>za_find\<close> and \<open>za_extract\<close>.  Mutexes are left out: the modelled code calls the
  wrappers from one thread at a time.
\<close>

record zip_archive =
  za_find :: "string \<Rightarrow> bool"
  za_extract :: "string \<Rightarrow> nat \<Rightarrow> string"

record ota_world = world +
  archive :: "zip_archive option"
  io_is_retry :: bool
  should_inject_cache :: "(string \<times> bool) list"
  filename_cache :: "(int \<times> string) list"
  read_fault_file_name :: string
  write_fault_file_name :: string
  fsync_fault_file_name :: string
  have_eio_error :: bool

type_synonym ('z, 'a) ota = "('z ota_world_scheme, 'a) state"

section \<open>Fault configuration\<close>

definition OTAIO_BASE_DIR :: string where "OTAIO_BASE_DIR = ''.libotafault''"
definition OTAIO_READ :: string where "OTAIO_READ = ''READ''"
definition OTAIO_WRITE :: string where "OTAIO_WRITE = ''WRITE''"
definition OTAIO_FSYNC :: string where "OTAIO_FSYNC = ''FSYNC''"
definition OTAIO_CACHE :: string where "OTAIO_CACHE = ''CACHE''"
definition OTAIO_CACHE_FNAME :: string where "OTAIO_CACHE_FNAME = ''/cache/saved.file''"
definition OTAIO_MAX_FNAME_SIZE :: nat where "OTAIO_MAX_FNAME_SIZE = 128"

definition get_type_path :: "string \<Rightarrow> string" where
  "get_type_path io_type = OTAIO_BASE_DIR @ ''/'' @ io_type"

definition should_fault_inject :: "string \<Rightarrow> ('z, bool) ota" where
  "should_fault_inject io_type = do {
     za \<leftarrow> gets archive;
     retry \<leftarrow> gets io_is_retry;
     case za of
       None \<Rightarrow> ret False
     | Some za \<Rightarrow>
         if retry then ret False
         else do {
           cache \<leftarrow> gets should_inject_cache;
           let type_path = get_type_path io_type in
           case map_of cache type_path of
             Some b \<Rightarrow> ret b
           | None \<Rightarrow> do {
               upd (\<lambda>s. s\<lparr>should_inject_cache :=
                      AList.update type_path (za_find za type_path) cache\<rparr>);
               ret (za_find za type_path) } } }"

definition should_hit_cache :: "('z, bool) ota" where
  "should_hit_cache = should_fault_inject OTAIO_CACHE"

definition fault_fname :: "string \<Rightarrow> ('z, string) ota" where
  "fault_fname io_type = do {
     za \<leftarrow> gets archive;
     let type_path = get_type_path io_type in
     case za of
       None \<Rightarrow> do { CHECK False; ret [] }
     | Some za \<Rightarrow>
         if \<not> za_find za type_path then ret []
         else ret (za_extract za type_path OTAIO_MAX_FNAME_SIZE) }"

section \<open>The wrappers\<close>

definition get_hit_file :: "string \<Rightarrow> string \<Rightarrow> ('z, bool) ota" where
  "get_hit_file cached_path ffn = do {
     hit \<leftarrow> should_hit_cache;
     ret (if hit then prefix cached_path OTAIO_CACHE_FNAME else prefix cached_path ffn) }"

definition ota_set_fault_files :: "('z, unit) ota" where
  "ota_set_fault_files = do {
     r \<leftarrow> should_fault_inject OTAIO_READ;
     (if r then do { f \<leftarrow> fault_fname OTAIO_READ; upd (\<lambda>s. s\<lparr>read_fault_file_name := f\<rparr>) } else ret ());
     w \<leftarrow> should_fault_inject OTAIO_WRITE;
     (if w then do { f \<leftarrow> fault_fname OTAIO_WRITE; upd (\<lambda>s. s\<lparr>write_fault_file_name := f\<rparr>) } else ret ());
     y \<leftarrow> should_fault_inject OTAIO_FSYNC;
     (if y then do { f \<leftarrow> fault_fname OTAIO_FSYNC; upd (\<lambda>s. s\<lparr>fsync_fault_file_name := f\<rparr>) } else ret ()) }"

definition ota_io_init :: "zip_archive option \<Rightarrow> bool \<Rightarrow> ('z, unit) ota" where
  "ota_io_init za retry = do {
     upd (\<lambda>s. s\<lparr>archive := za, io_is_retry := retry\<rparr>);
     ota_set_fault_files }"

definition ota_open :: "string \<Rightarrow> oflag list \<Rightarrow> ('z, int) ota" where
  "ota_open path oflags = do {
     fd \<leftarrow> sys_open path oflags;
     upd (\<lambda>s. s\<lparr>filename_cache := AList.update fd path (filename_cache s)\<rparr>);
     ret fd }"

text \<open>\<^verbatim>\<open>fopen\<close>: a stream is represented by its descriptor, a null pointer by \<open>-1\<close>.\<close>

definition ota_fopen :: "string \<Rightarrow> oflag list \<Rightarrow> ('z, int) ota" where
  "ota_fopen path mode = do {
     fh \<leftarrow> sys_open path mode;
     upd (\<lambda>s. s\<lparr>filename_cache := AList.update fh path (filename_cache s)\<rparr>);
     ret fh }"

definition ota_close :: "int \<Rightarrow> ('z, int) ota" where
  "ota_close fd = do {
     upd (\<lambda>s. s\<lparr>filename_cache := AList.delete fd (filename_cache s)\<rparr>);
     sys_close fd }"

definition ota_fclose :: "int \<Rightarrow> ('z, int) ota" where
  "ota_fclose fh = do {
     upd (\<lambda>s. s\<lparr>filename_cache := AList.delete fh (filename_cache s)\<rparr>);
     sys_close fh }"

text \<open>
  The test that decides whether an operation is to fail.  The sources read
  \<^verbatim>\<open>cached->second\<close> before they compare the iterator with \<^verbatim>\<open>end()\<close>, so a descriptor that is
  not in the cache is undefined behaviour.
\<close>

definition inject_fault ::
  "string \<Rightarrow> (('z ota_world_scheme) \<Rightarrow> string) \<Rightarrow> ('z ota_world_scheme \<Rightarrow> 'z ota_world_scheme) \<Rightarrow>
     int \<Rightarrow> ('z, bool) ota" where
  "inject_fault io_type fname clear fd = do {
     inject \<leftarrow> should_fault_inject io_type;
     if \<not> inject then ret False
     else do {
       cached \<leftarrow> gets (\<lambda>s. map_of (filename_cache s) fd);
       case cached of
         None \<Rightarrow> do { CHECK False; ret False }
       | Some cached_path \<Rightarrow> do {
           ffn \<leftarrow> gets fname;
           hit \<leftarrow> get_hit_file cached_path ffn;
           if hit then do {
             upd clear;
             upd (\<lambda>s. s\<lparr>w_errno := EIO\<rparr>);
             upd (\<lambda>s. s\<lparr>have_eio_error := True\<rparr>);
             ret True }
           else ret False } } }"

definition note_eio :: "bool \<Rightarrow> ('z, unit) ota" where
  "note_eio failed = do {
     e \<leftarrow> gets w_errno;
     if failed \<and> e = EIO then upd (\<lambda>s. s\<lparr>have_eio_error := True\<rparr>) else ret () }"

definition ota_fread :: "int \<Rightarrow> nat \<Rightarrow> ('z, byte list) ota" where
  "ota_fread stream nitems = do {
     hit \<leftarrow> inject_fault OTAIO_READ read_fault_file_name (\<lambda>s. s\<lparr>read_fault_file_name := []\<rparr>) stream;
     if hit then ret []
     else do {
       status \<leftarrow> sys_fread stream nitems;
       note_eio (length status \<noteq> nitems);
       ret status } }"

definition ota_read :: "int \<Rightarrow> nat \<Rightarrow> ('z, byte list option) ota" where
  "ota_read fd nbyte = do {
     hit \<leftarrow> inject_fault OTAIO_READ read_fault_file_name (\<lambda>s. s\<lparr>read_fault_file_name := []\<rparr>) fd;
     if hit then ret None
     else do {
       status \<leftarrow> sys_read fd nbyte;
       note_eio (status = None);
       ret status } }"

definition ota_write :: "int \<Rightarrow> byte list \<Rightarrow> ('z, int) ota" where
  "ota_write fd buf = do {
     hit \<leftarrow> inject_fault OTAIO_WRITE write_fault_file_name (\<lambda>s. s\<lparr>write_fault_file_name := []\<rparr>) fd;
     if hit then ret (-1)
     else do {
       status \<leftarrow> sys_write fd buf;
       note_eio (status = -1);
       ret status } }"

definition ota_fsync :: "int \<Rightarrow> ('z, int) ota" where
  "ota_fsync fd = do {
     hit \<leftarrow> inject_fault OTAIO_FSYNC fsync_fault_file_name (\<lambda>s. s\<lparr>fsync_fault_file_name := []\<rparr>) fd;
     if hit then ret (-1)
     else do {
       status \<leftarrow> sys_fsync fd;
       note_eio (status = -1);
       ret status } }"

section \<open>Invariants that ignore the I/O bookkeeping\<close>

text \<open>
  The state without the fields that the I/O layer changes on its own: the schedule, the error
  number, the end of the process, the descriptors and the variables of the wrappers.
\<close>

definition core :: "'z ota_world_scheme \<Rightarrow> 'z ota_world_scheme" where
  "core s = s\<lparr>w_halted := False, w_oracle := [], w_errno := 0, w_fds := [], w_next_fd := 0,
     should_inject_cache := [], filename_cache := [], read_fault_file_name := [],
     write_fault_file_name := [], fsync_fault_file_name := [], have_eio_error := False\<rparr>"

definition io_inv :: "('z ota_world_scheme \<Rightarrow> bool) \<Rightarrow> bool" where
  "io_inv I \<longleftrightarrow> (\<forall>s s'. core s' = core s \<longrightarrow> I s \<longrightarrow> I s')"

lemma io_invD: "io_inv I \<Longrightarrow> I s \<Longrightarrow> core s' = core s \<Longrightarrow> I s'"
  by (auto simp: io_inv_def)

lemma core_upd [simp]:
  "core (s\<lparr>w_halted := h\<rparr>) = core s" "core (s\<lparr>w_oracle := evs\<rparr>) = core s"
  "core (s\<lparr>w_errno := er\<rparr>) = core s" "core (s\<lparr>w_fds := fds\<rparr>) = core s"
  "core (s\<lparr>w_next_fd := nfd\<rparr>) = core s" "core (set_fd fd p pos s) = core s"
  "core (s\<lparr>should_inject_cache := sic\<rparr>) = core s" "core (s\<lparr>filename_cache := fc\<rparr>) = core s"
  "core (s\<lparr>read_fault_file_name := rf\<rparr>) = core s" "core (s\<lparr>write_fault_file_name := wff\<rparr>) = core s"
  "core (s\<lparr>fsync_fault_file_name := sf\<rparr>) = core s" "core (s\<lparr>have_eio_error := he\<rparr>) = core s"
  by (simp_all add: core_def set_fd_def)

text \<open>Descriptor \<open>fd\<close> has been opened on \<open>p\<close>; it may have been closed since.\<close>

definition opened :: "int \<Rightarrow> string \<Rightarrow> 'z world_scheme \<Rightarrow> bool" where
  "opened fd p s \<longleftrightarrow> (\<forall>q pos. fd_of s fd = Some (q, pos) \<longrightarrow> q = p) \<and> fd < w_next_fd s"

lemma fd_of_simps [simp]:
  "fd_of (s\<lparr>w_halted := h\<rparr>) fd = fd_of s fd" "fd_of (s\<lparr>w_oracle := evs\<rparr>) fd = fd_of s fd"
  "fd_of (s\<lparr>w_errno := er\<rparr>) fd = fd_of s fd" "fd_of (s\<lparr>w_files := fs\<rparr>) fd = fd_of s fd"
  "fd_of (s\<lparr>w_next_fd := n\<rparr>) fd = fd_of s fd" "fd_of (s\<lparr>w_dirs := ds\<rparr>) fd = fd_of s fd"
  "fd_of (set_fd fd' p pos s) fd = (if fd = fd' then Some (p, pos) else fd_of s fd)"
  by (simp_all add: fd_of_def set_fd_def update_conv')

lemma file_of_simps [simp]:
  "file_of (s\<lparr>w_halted := h\<rparr>) q = file_of s q" "file_of (s\<lparr>w_oracle := evs\<rparr>) q = file_of s q"
  "file_of (s\<lparr>w_errno := er\<rparr>) q = file_of s q" "file_of (s\<lparr>w_fds := fds\<rparr>) q = file_of s q"
  "file_of (s\<lparr>w_next_fd := n\<rparr>) q = file_of s q" "file_of (set_fd fd p pos s) q = file_of s q"
  "file_of (s\<lparr>w_dirs := ds\<rparr>) q = file_of s q"
  "file_of (set_file p c s) q = (if q = p then Some c else file_of s q)"
  "file_of (del_file p s) q = (if q = p then None else file_of s q)"
  by (auto simp: file_of_def set_fd_def set_file_def del_file_def update_conv' delete_conv')

lemma file_of_core: "file_of (core s) q = file_of s q" "w_dev (core s) = w_dev s"
    "w_files (core s) = w_files s" "w_dirs (core s) = w_dirs s"
  by (simp_all add: core_def file_of_def)

lemma core_file_of: "core s' = core s \<Longrightarrow> file_of s' q = file_of s q"
  by (metis file_of_core(1))

text \<open>
  \<open>I\<close> holds and the descriptors in \<open>fds\<close> refer to their files.
\<close>

definition io_keep :: "(int \<times> string) list \<Rightarrow> ('z ota_world_scheme \<Rightarrow> bool) \<Rightarrow> 'z ota_world_scheme \<Rightarrow> bool"
where
  "io_keep fds I s \<longleftrightarrow> I s \<and> (\<forall>(fd, p) \<in> set fds. opened fd p s)"

lemma io_keep_Nil [simp]: "io_keep [] I = I"
  by (auto simp: io_keep_def)

lemmas [run_eval] = should_fault_inject_def should_hit_cache_def
  get_hit_file_def inject_fault_def note_eio_def
  ota_open_def ota_fopen_def ota_close_def
  ota_fclose_def ota_read_def ota_fread_def
  ota_write_def ota_fsync_def

named_theorems iok "operations of the I/O layer that preserve bookkeeping-free invariants"

lemma keep_core:
  assumes "io_inv I"
    and "\<And>s. \<not> w_halted s \<Longrightarrow> core (f s) = core s"
    and "\<And>s fd p. \<not> w_halted s \<Longrightarrow> opened fd p s \<Longrightarrow> (fd, p) \<in> set fds \<Longrightarrow> opened fd p (f s)"
  shows "keep (io_keep fds I) (upd f)"
proof (rule keep_upd)
  fix s assume k: "io_keep fds I s" and live: "\<not> w_halted s"
  then have "I (f s)" using io_invD [OF assms(1) _ assms(2) [OF live]] by (simp add: io_keep_def)
  with k assms(3) [OF live] show "io_keep fds I (f s)" by (auto simp: io_keep_def)
qed

lemma opened_simps [simp]:
  "opened fd p (s\<lparr>w_halted := h\<rparr>) = opened fd p s" "opened fd p (s\<lparr>w_oracle := evs\<rparr>) = opened fd p s"
  "opened fd p (s\<lparr>w_errno := er\<rparr>) = opened fd p s" "opened fd p (s\<lparr>w_files := fs\<rparr>) = opened fd p s"
  "opened fd p (s\<lparr>w_dirs := ds\<rparr>) = opened fd p s"
  by (simp_all add: opened_def)

lemma opened_ota_simps [simp]:
  "opened fd p (s\<lparr>should_inject_cache := sic\<rparr>) = opened fd p s"
  "opened fd p (s\<lparr>filename_cache := fc\<rparr>) = opened fd p s"
  "opened fd p (s\<lparr>read_fault_file_name := rf\<rparr>) = opened fd p s"
  "opened fd p (s\<lparr>write_fault_file_name := wff\<rparr>) = opened fd p s"
  "opened fd p (s\<lparr>fsync_fault_file_name := sf\<rparr>) = opened fd p s"
  "opened fd p (s\<lparr>have_eio_error := he\<rparr>) = opened fd p s"
  by (simp_all add: opened_def fd_of_def)

lemma keep_next_event [iok]: "io_inv I \<Longrightarrow> keep (io_keep fds I) next_event"
  unfolding keep_def wp_def next_event_def io_keep_def
  by (auto split: list.splits elim: io_invD)

lemma keep_halt [iok]: "io_inv I \<Longrightarrow> keep (io_keep fds I) halt"
  unfolding halt_def by (rule keep_core) simp_all

lemma keep_CHECK_io [iok]: "io_inv I \<Longrightarrow> keep (io_keep fds I) (CHECK b)"
  unfolding CHECK_def by (intro keeps iok)

lemma keep_errno [iok]: "io_inv I \<Longrightarrow> keep (io_keep fds I) (upd (\<lambda>s. s\<lparr>w_errno := er\<rparr>))"
  by (rule keep_core) simp_all

lemma keep_fail [iok]: "io_inv I \<Longrightarrow> keep (io_keep fds I) (fail er)"
  unfolding fail_def by (intro keeps iok)

lemma wp_next_event:
  "wp next_event Q s \<longleftrightarrow>
     (if w_halted s then Q (IoErr EIO 0) s
      else case w_oracle s of [] \<Rightarrow> Q IoOk s | ev # evs \<Rightarrow> Q ev (s\<lparr>w_oracle := evs\<rparr>))"
  by (simp add: wp_def next_event_def split: list.splits)

text \<open>A rule that forgets the schedule: the event is arbitrary, the state differs in the rest of
  the schedule only; after the end of the process the call fails.\<close>

lemma wp_next_eventI:
  assumes "w_halted s \<Longrightarrow> Q (IoErr EIO 0) s"
    and "\<And>ev evs. \<not> w_halted s \<Longrightarrow> Q ev (s\<lparr>w_oracle := evs\<rparr>)"
  shows "wp next_event Q s"
proof -
  have "Q IoOk s" if "\<not> w_halted s" using assms(2) [OF that, of IoOk "w_oracle s"] by simp
  with assms show ?thesis by (auto simp: wp_next_event split: list.splits)
qed

lemma wp_fail [simp]: "wp (fail er) Q s = Q (-1) (if w_halted s then s else s\<lparr>w_errno := er\<rparr>)"
  by (simp add: fail_def)

lemma w_next_fd_set_fd [simp]: "w_next_fd (set_fd fd p pos s) = w_next_fd s"
  by (simp add: set_fd_def)

lemma opened_set_fd:
  "opened fd p s \<Longrightarrow> (fd' = fd \<Longrightarrow> p' = p) \<Longrightarrow> opened fd p (set_fd fd' p' pos s)"
  by (auto simp: opened_def)

lemma opened_path: "opened fd p s \<Longrightarrow> fd_of s fd = Some (p', pos) \<Longrightarrow> p' = p"
  by (auto simp: opened_def)

lemma keep_sys_read [iok]: "io_inv I \<Longrightarrow> keep (io_keep fds I) (sys_read fd n)"
  unfolding sys_read_def
  by (rule keepI, unfold wp_bind, rule wp_next_eventI)
    (auto simp: io_keep_def Let_def elim: io_invD intro!: opened_set_fd dest: opened_path
      split: option.split prod.split io_event.split)

lemma keep_sys_fread [iok]: "io_inv I \<Longrightarrow> keep (io_keep fds I) (sys_fread fd n)"
  unfolding sys_fread_def
  by (rule keepI, unfold wp_bind, rule wp_next_eventI)
    (auto simp: io_keep_def Let_def elim: io_invD intro!: opened_set_fd dest: opened_path
      split: option.split prod.split io_event.split)

lemma keep_sys_lseek [iok]: "io_inv I \<Longrightarrow> keep (io_keep fds I) (sys_lseek fd off)"
  unfolding sys_lseek_def
  by (rule keepI, unfold wp_bind, rule wp_next_eventI)
    (auto simp: io_keep_def elim: io_invD intro!: opened_set_fd dest: opened_path
      split: option.split prod.split io_event.split)

lemma keep_sys_plain [iok]:
  "io_inv I \<Longrightarrow> keep (io_keep fds I) sys_plain" "io_inv I \<Longrightarrow> keep (io_keep fds I) (sys_fsync fd)"
  "io_inv I \<Longrightarrow> keep (io_keep fds I) (sys_chown p)"
  unfolding sys_fsync_def sys_chown_def sys_plain_def by (intro keeps iok; assumption)+

lemma keep_sys_stat [iok]: "io_inv I \<Longrightarrow> keep (io_keep fds I) (sys_stat p)"
  unfolding sys_stat_def by (intro keeps iok; assumption)

lemma keep_sys_listdir [iok]: "io_inv I \<Longrightarrow> keep (io_keep fds I) (sys_listdir d)"
  unfolding sys_listdir_def by (intro keeps iok; assumption)

lemma keep_sys_close [iok]:
  assumes "io_inv I"
  shows "keep (io_keep fds I) (sys_close fd)"
proof -
  have "keep (io_keep fds I) (upd (\<lambda>s. s\<lparr>w_fds := AList.delete fd (w_fds s)\<rparr>))"
    using assms by (intro keep_core) (auto simp: opened_def fd_of_def delete_conv')
  note k = this
  show ?thesis unfolding sys_close_def by (intro keeps iok k assms)
qed

lemma keep_should_fault_inject [iok]:
  "io_inv I \<Longrightarrow> keep (io_keep fds I) (should_fault_inject t)"
  unfolding should_fault_inject_def by (intro keeps keep_core) simp_all

lemma keep_get_hit_file [iok]: "io_inv I \<Longrightarrow> keep (io_keep fds I) (get_hit_file p f)"
  unfolding get_hit_file_def should_hit_cache_def by (intro keeps iok)

lemma keep_inject_fault [iok]:
  assumes "io_inv I" "keep (io_keep fds I) (upd clear)"
  shows "keep (io_keep fds I) (inject_fault t fname clear fd)"
proof -
  have "keep (io_keep fds I) (upd (\<lambda>s. s\<lparr>have_eio_error := True\<rparr>))"
    using assms(1) by (rule keep_core) simp_all
  note k = this assms(2)
  show ?thesis unfolding inject_fault_def by (intro keeps iok k assms(1))
qed

lemma keep_note_eio [iok]: "io_inv I \<Longrightarrow> keep (io_keep fds I) (note_eio b)"
  unfolding note_eio_def by (intro keeps keep_core) simp_all

lemma keep_clear [iok]:
  "io_inv I \<Longrightarrow> keep (io_keep fds I) (upd (\<lambda>s. s\<lparr>read_fault_file_name := x\<rparr>))"
  "io_inv I \<Longrightarrow> keep (io_keep fds I) (upd (\<lambda>s. s\<lparr>write_fault_file_name := x\<rparr>))"
  "io_inv I \<Longrightarrow> keep (io_keep fds I) (upd (\<lambda>s. s\<lparr>fsync_fault_file_name := x\<rparr>))"
  "io_inv I \<Longrightarrow> keep (io_keep fds I) (upd (\<lambda>s. s\<lparr>filename_cache := c s\<rparr>))"
  by (rule keep_core; simp)+

lemma keep_ota_read [iok]: "io_inv I \<Longrightarrow> keep (io_keep fds I) (ota_read fd n)"
  unfolding ota_read_def by (intro keeps iok; assumption)

lemma keep_ota_fread [iok]: "io_inv I \<Longrightarrow> keep (io_keep fds I) (ota_fread fd n)"
  unfolding ota_fread_def by (intro keeps iok; assumption)

lemma keep_ota_fsync [iok]: "io_inv I \<Longrightarrow> keep (io_keep fds I) (ota_fsync fd)"
  unfolding ota_fsync_def by (intro keeps iok; assumption)

lemma keep_ota_close [iok]:
  "io_inv I \<Longrightarrow> keep (io_keep fds I) (ota_close fd)"
  "io_inv I \<Longrightarrow> keep (io_keep fds I) (ota_fclose fd)"
  unfolding ota_close_def ota_fclose_def by (intro keeps iok; assumption)+

text \<open>Writing through a descriptor changes the file it is open on and nothing else.\<close>

definition write_closed :: "('z world_scheme \<Rightarrow> bool) \<Rightarrow> string \<Rightarrow> bool" where
  "write_closed I p \<longleftrightarrow> (\<forall>s pos xs. I s \<longrightarrow> I (put_bytes p pos xs s))"

lemma opened_files [simp]:
  "opened fd p (put_bytes q pos xs s) = opened fd p s" "opened fd p (set_file q c s) = opened fd p s"
  "opened fd p (del_file q s) = opened fd p s"
  by (auto simp: opened_def put_bytes_def set_file_def del_file_def fd_of_def split: option.splits)

lemma fd_of_put_bytes [simp]: "fd_of (put_bytes p pos xs s) fd = fd_of s fd"
  by (auto simp: put_bytes_def set_file_def fd_of_def split: option.splits)

lemma io_keep_simps:
  assumes "io_inv I" "io_keep fds I s"
  shows "io_keep fds I (s\<lparr>w_errno := er\<rparr>)" "io_keep fds I (s\<lparr>w_halted := h\<rparr>)"
    "io_keep fds I (s\<lparr>w_oracle := evs\<rparr>)"
  using assms by (auto simp: io_keep_def elim: io_invD)

lemma w_halted_files [simp]: "w_halted (put_bytes p pos xs s) = w_halted s"
  "w_halted (set_file p c s) = w_halted s" "w_halted (del_file p s) = w_halted s"
  "w_halted (set_fd fd p pos s) = w_halted s"
  by (auto simp: put_bytes_def set_file_def del_file_def set_fd_def split: option.split)

lemma keep_sys_write:
  assumes "io_inv I" "(fd, p) \<in> set fds" "write_closed I p"
  shows "keep (io_keep fds I) (sys_write fd xs)"
proof (rule keepI)
  fix s assume k: "io_keep fds I s"
  have put: "io_keep fds I (put_bytes p pos ys s)" if "io_keep fds I s" for pos ys s
    using that assms(3) by (auto simp: io_keep_def write_closed_def)
  have step: "io_keep fds I (set_fd fd p pos' s)"
    if "io_keep fds I s" "fd_of s fd = Some (p, pos)" for s pos pos'
    using that assms(1) by (auto simp: io_keep_def elim: io_invD intro!: opened_set_fd)
      (auto simp: opened_def)
  note more = io_keep_simps [OF assms(1)] put k
  show "wp (sys_write fd xs) (\<lambda>_. io_keep fds I) s"
  proof (cases "fd < 0")
    case True
    then show ?thesis unfolding sys_write_def by (auto intro!: more)
  next
    case live: False
  show ?thesis
  proof (cases "fd_of s fd")
    case None
    then show ?thesis unfolding sys_write_def if_not_P [OF live] wp_bind
      by (intro wp_next_eventI) (auto intro!: more)
  next
    case (Some qpos)
    then obtain pos where "fd_of s fd = Some (p, pos)"
      using k assms(2) by (cases qpos) (auto simp: io_keep_def opened_def)
    then show ?thesis
      unfolding sys_write_def if_not_P [OF live] wp_bind
      by (intro wp_next_eventI)
        (auto simp: Let_def split: io_event.split intro!: more step [where pos = pos])
  qed
  qed
qed

lemma keep_ota_write_bad [iok]: "io_inv I \<Longrightarrow> keep (io_keep fds I) (ota_write (-1) xs)"
  unfolding ota_write_def sys_write_def by (simp, intro keeps iok; assumption)

lemma keep_ota_write:
  assumes "io_inv I" "(fd, p) \<in> set fds" "write_closed I p"
  shows "keep (io_keep fds I) (ota_write fd xs)"
  unfolding ota_write_def by (intro keeps iok assms(1) keep_sys_write [OF assms])

lemma keep_sys_atomic [iok]:
  assumes "io_inv I" "\<And>s. I s \<Longrightarrow> err s = None \<Longrightarrow> I (f s)" "\<And>fd p s. opened fd p (f s) = opened fd p s"
  shows "keep (io_keep fds I) (sys_atomic err f)"
proof -
  have f: "io_keep fds I (f s)" if "io_keep fds I s" "err s = None" for s
    using that assms(2,3) by (auto simp: io_keep_def)
  show ?thesis unfolding sys_atomic_def
    by (rule keepI, unfold wp_bind, rule wp_next_eventI)
      (auto split: option.split io_event.split intro!: f io_keep_simps [OF assms(1)])
qed

lemma keep_sys_unlink [iok]:
  "io_inv I \<Longrightarrow> (\<And>s. I s \<Longrightarrow> I (del_file p s)) \<Longrightarrow> keep (io_keep fds I) (sys_unlink p)"
  unfolding sys_unlink_def by (rule keep_sys_atomic) simp_all

definition open_ok :: "('z world_scheme \<Rightarrow> bool) \<Rightarrow> string \<Rightarrow> oflag list \<Rightarrow> bool" where
  "open_ok I p flags \<longleftrightarrow>
     O_CREAT \<notin> set flags \<and> O_TRUNC \<notin> set flags \<or> (\<forall>s. I s \<longrightarrow> I (set_file p [] s))"

text \<open>The post-condition of an open: \<open>-1\<close>, or a descriptor on the file.\<close>

definition open_post ::
  "(int \<times> string) list \<Rightarrow> ('z ota_world_scheme \<Rightarrow> bool) \<Rightarrow> string \<Rightarrow> int \<Rightarrow> 'z ota_world_scheme \<Rightarrow> bool" where
  "open_post fds I p fd s \<longleftrightarrow>
     io_keep fds I s \<and> (fd \<noteq> -1 \<longrightarrow> io_keep ((fd, p) # fds) I s)"

lemma io_keep_Cons:
  "io_keep ((fd, p) # fds) I s \<longleftrightarrow> io_keep fds I s \<and> opened fd p s"
  by (auto simp: io_keep_def)

lemma wp_alloc_fd:
  assumes "io_inv I" "io_keep fds I s" "\<not> w_halted s"
  shows "wp (alloc_fd p) (open_post fds I p) s"
proof -
  let ?s = "set_fd (w_next_fd s) p 0 (s\<lparr>w_next_fd := w_next_fd s + 1\<rparr>)"
  have "opened a b ?s" if "(a, b) \<in> set fds" for a b
    using assms(2) that by (auto simp: io_keep_def opened_def)
  moreover have "I ?s" using assms(1,2) by (auto simp: io_keep_def elim: io_invD)
  ultimately have "io_keep fds I ?s" by (auto simp: io_keep_def)
  moreover have "opened (w_next_fd s) p ?s" by (auto simp: opened_def)
  ultimately show ?thesis
    using assms(3) by (simp add: alloc_fd_def open_post_def io_keep_Cons)
qed

lemma wp_sys_open:
  assumes "io_inv I" "open_ok I p flags" "io_keep fds I s"
  shows "wp (sys_open p flags) (open_post fds I p) s"
proof -
  note simps = io_keep_simps [OF assms(1)]
  have trunc: "io_keep fds I (set_file p [] s)"
    if "O_CREAT \<in> set flags \<or> O_TRUNC \<in> set flags" "io_keep fds I s" for s
    using that assms(2) by (auto simp: open_ok_def io_keep_def)
  note al = wp_alloc_fd [OF assms(1)]
  have m1: "open_post fds I p (-1) s" if "io_keep fds I s" for s
    using that by (simp add: open_post_def)
  show ?thesis
    unfolding sys_open_def wp_bind using assms(3)
    by (intro wp_next_eventI)
      (auto split: io_event.split option.split intro!: m1 al trunc simps)
qed

lemma wp_ota_open:
  assumes "io_inv I" "open_ok I p flags" "io_keep fds I s"
  shows "wp (ota_open p flags) (open_post fds I p) s" "wp (ota_fopen p flags) (open_post fds I p) s"
proof -
  have "io_keep fds' I (s'\<lparr>filename_cache := c\<rparr>)" if "io_keep fds' I s'" for s' c fds'
    using that assms(1) by (auto simp: io_keep_def elim: io_invD)
  then have c: "open_post fds I p fd (if w_halted s' then s' else s'\<lparr>filename_cache := c\<rparr>)"
    if "open_post fds I p fd s'" for fd s' c
    using that unfolding open_post_def by (cases "w_halted s'") auto
  show "wp (ota_open p flags) (open_post fds I p) s" "wp (ota_fopen p flags) (open_post fds I p) s"
    unfolding ota_open_def ota_fopen_def wp_bind
    by (rule wp_mono [OF wp_sys_open [OF assms]], simp add: c)+
qed

lemma keep_open_bind:
  assumes "\<And>s. io_keep fds I s \<Longrightarrow> wp op (open_post fds I p) s"
    and "\<And>fd. keep (io_keep ((fd, p) # fds) I) (f fd)"
    and "keep (io_keep fds I) (f (-1))"
  shows "keep (io_keep fds I) (op \<bind> f)"
proof (rule keepI)
  fix s assume "io_keep fds I s"
  then have "wp op (open_post fds I p) s" by (rule assms(1))
  then show "wp (op \<bind> f) (\<lambda>_. io_keep fds I) s"
    unfolding wp_bind
  proof (rule wp_mono)
    fix fd s' assume post: "open_post fds I p fd s'"
    show "wp (f fd) (\<lambda>_. io_keep fds I) s'"
    proof (cases "fd = -1")
      case True
      with post assms(3) show ?thesis by (simp add: open_post_def keep_def)
    next
      case False
      with post assms(2) [of fd] have "wp (f fd) (\<lambda>_. io_keep ((fd, p) # fds) I) s'"
        by (simp add: open_post_def keep_def)
      then show ?thesis by (rule wp_mono) (simp add: io_keep_Cons)
    qed
  qed
qed

lemma wp_retry_open:
  assumes "\<And>s. io_keep fds I s \<Longrightarrow> wp op (open_post fds I p) s" "io_keep fds I s"
  shows "wp (TEMP_FAILURE_RETRY f op) (open_post fds I p) s"
proof -
  have "io_keep fds I s \<Longrightarrow> wp (retry_loop n f op) (open_post fds I p) s" for n
  proof (induction n arbitrary: s)
    case 0
    then show ?case by (simp add: assms(1))
  next
    case (Suc n)
    have "io_keep fds I s'" if "open_post fds I p fd s'" for fd s'
      using that by (simp add: open_post_def)
    with Suc.IH assms(1) [OF Suc.prems] show ?case
      unfolding retry_loop.simps wp_bind by (elim wp_mono) simp
  qed
  with assms(2) show ?thesis by (simp add: TEMP_FAILURE_RETRY_def)
qed

lemma keep_ota_open_bind [iok]:
  assumes "io_inv I" "open_ok I p flags"
    and "\<And>fd. keep (io_keep ((fd, p) # fds) I) (f fd)" "keep (io_keep fds I) (f (-1))"
  shows "keep (io_keep fds I) (ota_open p flags \<bind> f)"
    and "keep (io_keep fds I) (ota_fopen p flags \<bind> f)"
    and "keep (io_keep fds I) (TEMP_FAILURE_RETRY g (ota_open p flags) \<bind> f)"
    and "keep (io_keep fds I) (TEMP_FAILURE_RETRY g (sys_open p flags) \<bind> f)"
  by (rule keep_open_bind;
      (rule wp_ota_open [OF assms(1,2)] wp_retry_open [OF wp_ota_open(1) [OF assms(1,2)]]
        wp_retry_open [OF wp_sys_open [OF assms(1,2)]] assms(3,4)); assumption)+

lemma keep_open_if_gen:
  assumes "\<And>s. io_keep fds I s \<Longrightarrow> wp op (open_post fds I p) s"
    and "\<And>fd. keep (io_keep ((fd, p) # fds) I) (f fd)" "keep (io_keep fds I) m"
  shows "keep (io_keep fds I) (op \<bind> (\<lambda>fd. if fd = -1 then m else f fd))"
proof (rule keepI, rule wp_seq [OF assms(1)], assumption, rule wp_ifI)
  fix s fd s' assume "open_post fds I p fd s'"
  then show "wp m (\<lambda>_. io_keep fds I) s'"
    by (intro keep_wp [OF assms(3)]) (simp add: open_post_def)
next
  fix s fd s' assume "open_post fds I p fd s'" "fd \<noteq> -1"
  then have "wp (f fd) (\<lambda>_. io_keep ((fd, p) # fds) I) s'"
    by (intro keep_wp [OF assms(2)]) (simp add: open_post_def)
  then show "wp (f fd) (\<lambda>_. io_keep fds I) s'" by (rule wp_mono) (simp add: io_keep_Cons)
qed

lemma keep_open_if:
  assumes "io_inv I" "open_ok I p flags"
    and "\<And>fd. keep (io_keep ((fd, p) # fds) I) (f fd)" "keep (io_keep fds I) m"
  shows "keep (io_keep fds I) (ota_open p flags \<bind> (\<lambda>fd. if fd = -1 then m else f fd))"
    and "keep (io_keep fds I) (ota_fopen p flags \<bind> (\<lambda>fd. if fd = -1 then m else f fd))"
    and "keep (io_keep fds I) (TEMP_FAILURE_RETRY g (ota_open p flags) \<bind> (\<lambda>fd. if fd = -1 then m else f fd))"
    and "keep (io_keep fds I) (TEMP_FAILURE_RETRY g (sys_open p flags) \<bind> (\<lambda>fd. if fd = -1 then m else f fd))"
  by (rule keep_open_if_gen;
      (rule wp_ota_open [OF assms(1,2)] wp_retry_open [OF wp_ota_open(1) [OF assms(1,2)]]
        wp_retry_open [OF wp_sys_open [OF assms(1,2)]] assms(3,4)); assumption)+

section \<open>Reading and writing at a position\<close>

lemma wp_retry:
  assumes "\<And>s. P s \<Longrightarrow> wp call Q s"
    and "\<And>r s. Q r s \<Longrightarrow> failed r \<Longrightarrow> w_errno s = EINTR \<Longrightarrow> P s" and "P s"
  shows "wp (TEMP_FAILURE_RETRY failed call) Q s"
proof -
  have "P s \<Longrightarrow> wp (retry_loop n failed call) Q s" for n
  proof (induction n arbitrary: s)
    case 0
    then show ?case by (simp add: assms(1))
  next
    case (Suc n)
    show ?case unfolding retry_loop.simps wp_bind
      by (rule wp_mono [OF assms(1) [OF Suc.prems]]) (use assms(2) Suc.IH in auto)
  qed
  with assms(3) show ?thesis by (simp add: TEMP_FAILURE_RETRY_def)
qed

text \<open>Descriptor \<open>fd\<close> is open on \<open>p\<close> at offset \<open>pos\<close>, and \<open>p\<close> has the contents \<open>c\<close>.\<close>

definition at :: "int \<Rightarrow> string \<Rightarrow> nat \<Rightarrow> byte list \<Rightarrow> 'z world_scheme \<Rightarrow> bool" where
  "at fd p pos c s \<longleftrightarrow> fd_of s fd = Some (p, pos) \<and> file_of s p = Some c"

lemma at_simps [simp]:
  "at fd p pos c (s\<lparr>w_halted := h\<rparr>) = at fd p pos c s" "at fd p pos c (s\<lparr>w_oracle := evs\<rparr>) = at fd p pos c s"
  "at fd p pos c (s\<lparr>w_errno := er\<rparr>) = at fd p pos c s"
  by (simp_all add: at_def)

lemma at_ota_simps [simp]:
  "at fd p pos c (s\<lparr>should_inject_cache := sic\<rparr>) = at fd p pos c s"
  "at fd p pos c (s\<lparr>filename_cache := fc\<rparr>) = at fd p pos c s"
  "at fd p pos c (s\<lparr>read_fault_file_name := rf\<rparr>) = at fd p pos c s"
  "at fd p pos c (s\<lparr>write_fault_file_name := wff\<rparr>) = at fd p pos c s"
  "at fd p pos c (s\<lparr>fsync_fault_file_name := sf\<rparr>) = at fd p pos c s"
  "at fd p pos c (s\<lparr>have_eio_error := he\<rparr>) = at fd p pos c s"
  by (simp_all add: at_def fd_of_def file_of_def)

lemma overlay_Nil [simp]: "overlay pos [] c = c"
  by (simp add: overlay_def)

lemma length_overlay: "length (overlay pos xs c) = (if xs = [] then length c else max (length c) (pos + length xs))"
  by (auto simp: overlay_def)

lemma overlay_append:
  "overlay (pos + length xs) ys (overlay pos xs c) = overlay pos (xs @ ys) c"
proof (cases "xs = [] \<or> ys = []")
  case True
  then show ?thesis by (auto simp: overlay_def)
next
  case False
  let ?pre = "take pos (c @ replicate (pos - length c) 0)" and ?m = "pos + length xs"
  have pre: "length ?pre = pos" by simp
  have o: "overlay pos xs c = ?pre @ xs @ drop ?m c" using False by (simp add: overlay_def)
  have "overlay ?m ys (overlay pos xs c) =
      take ?m (overlay pos xs c) @ ys @ drop (?m + length ys) (overlay pos xs c)"
    using False by (simp add: overlay_def [of ?m] length_overlay)
  also have "take ?m (overlay pos xs c) = ?pre @ xs" unfolding o using pre by (simp del: length_take)
  also have "drop (?m + length ys) (overlay pos xs c) = drop (?m + length ys) c"
    unfolding o using pre by (simp del: length_take add: add.commute add.left_commute)
  finally show ?thesis using False by (simp add: overlay_def add.assoc)
qed

lemma overlay_take_step:
  assumes "k \<le> length (drop a d)"
  shows "overlay (pos + a) (take k (drop a d)) (overlay pos (take a d) c) = overlay pos (take (a + k) d) c"
proof -
  have "length (take a d) = a \<or> drop a d = []" by auto
  then show ?thesis
    using overlay_append [of pos "take a d" "take k (drop a d)" c] by (auto simp: take_add)
qed

lemma overlay_inside:
  "pos + length xs \<le> length c \<Longrightarrow> overlay pos xs c = take pos c @ xs @ drop (pos + length xs) c"
  by (simp add: overlay_def)

text \<open>
  The outcome of a write at any point of a run, failed and interrupted ones included: a prefix of
  the data has reached the file.
\<close>

definition wrote ::
  "int \<Rightarrow> string \<Rightarrow> nat \<Rightarrow> byte list \<Rightarrow> byte list \<Rightarrow> int \<Rightarrow> 'z world_scheme \<Rightarrow> bool" where
  "wrote fd p pos c xs r s \<longleftrightarrow> (\<exists>k \<le> length xs.
     file_of s p = Some (overlay pos (take k xs) c) \<and>
     (if r = -1 then w_errno s = EINTR \<longrightarrow> w_halted s \<or> k = 0 \<and> at fd p pos c s
      else r = int k \<and> (xs \<noteq> [] \<longrightarrow> 0 < k) \<and> at fd p (pos + k) (overlay pos (take k xs) c) s \<and> \<not> w_halted s))"

lemma wp_sys_write_wrote:
  assumes "at fd p pos c s"
  shows "wp (sys_write fd xs) (wrote fd p pos c xs) s"
proof (cases "fd < 0")
  case True
  then show ?thesis using assms by (auto simp: sys_write_def wrote_def errno_defs at_def)
next
  case False
  have f: "fd_of s fd = Some (p, pos)" "file_of s p = Some c" using assms by (simp_all add: at_def)
  have cap: "room p pos (length xs) s' \<le> length xs" for s' :: "'a world_scheme"
    by (simp add: room_def split: option.split)
  have put: "file_of s' p = Some c \<Longrightarrow> file_of (put_bytes p pos ys s') p = Some (overlay pos ys c)"
    for ys and s' :: "'a world_scheme"
    by (simp add: put_bytes_def)
  show ?thesis
    unfolding sys_write_def if_not_P [OF False] wp_bind
  proof (rule wp_next_eventI, goal_cases)
    case 1
    then show ?case using f by (auto simp: at_def wrote_def)
  next
    case (2 ev evs)
    let ?cap = "room p pos (length xs) (s\<lparr>w_oracle := evs\<rparr>)"
    have fin: "at fd p (pos + k) (overlay pos (take k xs) c)
        (set_fd fd p (pos + k) (put_bytes p pos (take k xs) (s\<lparr>w_oracle := evs\<rparr>)))" for k
      using f by (simp add: at_def put)
    have cont: "file_of (put_bytes p pos (take k xs) (s\<lparr>w_oracle := evs\<rparr>)) p = Some (overlay pos (take k xs) c)" for k
      using f by (simp add: put)
    show ?case
    proof (cases ev)
      case IoOk
      then show ?thesis using f 2 fin [of 0] fin [of ?cap] cont [of ?cap] cap [of "s\<lparr>w_oracle := evs\<rparr>"]
        by (auto simp: wrote_def errno_defs Let_def)
    next
      case (IoShort n)
      then show ?thesis
        using f 2 fin [of 0] fin [of "min ?cap (max 1 n)"] cont [of "min ?cap (max 1 n)"] cap [of "s\<lparr>w_oracle := evs\<rparr>"]
        by (auto simp: wrote_def errno_defs Let_def)
    next
      case (IoErr e n)
      then show ?thesis
        using f 2 cont [of 0] cont [of "min n ?cap"] cap [of "s\<lparr>w_oracle := evs\<rparr>"]
        by (auto simp: wrote_def at_def put intro!: exI [of _ 0] exI [of _ "min n ?cap"])
    next
      case (IoHalt n)
      then show ?thesis using f 2 cont [of "min n ?cap"] cap [of "s\<lparr>w_oracle := evs\<rparr>"]
        by (auto simp: wrote_def at_def intro!: exI [of _ "min n ?cap"])
    qed
  qed
qed

text \<open>Fault injection and the EIO flag do not touch files and positions.\<close>

lemma wp_inject_fault:
  assumes "P s" "\<And>s x. P s \<Longrightarrow> P (s\<lparr>should_inject_cache := x\<rparr>)" "\<And>s. P s \<Longrightarrow> P (clear s)"
    "\<And>s. P s \<Longrightarrow> P (s\<lparr>w_errno := EIO\<rparr>)" "\<And>s. P s \<Longrightarrow> P (s\<lparr>have_eio_error := True\<rparr>)"
    "\<And>s. P s \<Longrightarrow> P (s\<lparr>w_halted := True\<rparr>)"
  shows "wp (inject_fault t fname clear fd) (\<lambda>_. P) s"
proof -
  have "keep P (inject_fault t fname clear fd)"
    unfolding inject_fault_def get_hit_file_def should_hit_cache_def should_fault_inject_def
      CHECK_def halt_def
    by (intro keeps keep_upd assms(2-6))
  with assms(1) show ?thesis by (simp add: keep_def)
qed

lemma wp_note_eio:
  "P s \<Longrightarrow> (\<And>s. P s \<Longrightarrow> P (s\<lparr>have_eio_error := True\<rparr>)) \<Longrightarrow> wp (note_eio b) (\<lambda>_. P) s"
  by (simp add: note_eio_def)

text \<open>When a fault is injected, the error number is EIO.\<close>

lemma wp_inject_errno:
  "wp (inject_fault t fname clear fd) (\<lambda>hit s'. hit \<longrightarrow> w_halted s' \<or> w_errno s' = EIO) s"
  by (auto simp: inject_fault_def get_hit_file_def should_hit_cache_def should_fault_inject_def
      CHECK_def Let_def split: option.split)

lemma wp_injected:
  assumes "at fd p pos c s" "\<And>s. at fd p pos c s \<Longrightarrow> at fd p pos c (clear s)"
  shows "wp (inject_fault t fname clear fd')
    (\<lambda>hit s'. at fd p pos c s' \<and> (hit \<longrightarrow> w_halted s' \<or> w_errno s' = EIO)) s"
  using assms by (intro wp_conj wp_inject_fault wp_inject_errno) simp_all

lemma wp_sys_write_frozen: "w_halted s \<Longrightarrow> wp (sys_write fd xs) (\<lambda>r s'. r = -1 \<and> s' = s) s"
  by (auto simp: sys_write_def wp_next_event split: option.split)

lemma wp_ota_write_frozen:
  assumes "w_halted s \<and> file_of s p = x"
  shows "wp (ota_write fd xs) (\<lambda>r s'. r = -1 \<and> w_halted s' \<and> file_of s' p = x) s"
proof -
  have "wp (inject_fault OTAIO_WRITE write_fault_file_name (\<lambda>s. s\<lparr>write_fault_file_name := []\<rparr>) fd)
     (\<lambda>hit s. w_halted s \<and> file_of s p = x) s"
    using assms by (intro wp_inject_fault) (simp_all add: file_of_def)
  then show ?thesis
    unfolding ota_write_def wp_bind
    by (rule wp_mono) (auto intro!: wp_mono [OF wp_sys_write_frozen] simp: note_eio_def)
qed

lemma wp_ota_write_wrote:
  fixes s :: "'z ota_world_scheme"
  assumes "at fd p pos c s"
  shows "wp (ota_write fd xs) (wrote fd p pos c xs) s"
proof -
  have eio: "wrote fd p pos c xs r (s'\<lparr>have_eio_error := True\<rparr>)"
    if "wrote fd p pos c xs r s'" for r and s' :: "'z ota_world_scheme"
    using that by (auto simp: wrote_def file_of_def split: if_splits)
  have w: "wp (do { status \<leftarrow> sys_write fd xs; note_eio (status = -1); ret status })
      (wrote fd p pos c xs) s'" if "at fd p pos c s'" for s' :: "'z ota_world_scheme"
    using wp_sys_write_wrote [OF that, of xs] unfolding wp_bind
    by (rule wp_mono) (simp add: wp_mono [OF wp_note_eio] eio)
  have "wp (inject_fault OTAIO_WRITE write_fault_file_name (\<lambda>s. s\<lparr>write_fault_file_name := []\<rparr>) fd)
     (\<lambda>hit s'. at fd p pos c s' \<and> (hit \<longrightarrow> w_halted s' \<or> w_errno s' = EIO)) s"
    using assms by (intro wp_injected) simp_all
  then show ?thesis
    unfolding ota_write_def wp_bind
  proof (rule wp_mono)
    fix hit and s' :: "'z ota_world_scheme"
    assume h: "at fd p pos c s' \<and> (hit \<longrightarrow> w_halted s' \<or> w_errno s' = EIO)"
    show "wp (if hit then ret (-1)
        else do { status \<leftarrow> sys_write fd xs; note_eio (status = -1); ret status })
        (wrote fd p pos c xs) s'"
      using h w [of s'] by (auto simp: wrote_def at_def errno_defs)
  qed
qed

lemma wp_retry_wrote:
  assumes "at fd p pos c s"
  shows "wp (TEMP_FAILURE_RETRY (\<lambda>r. r = -1) (ota_write fd xs)) (wrote fd p pos c xs) s"
proof (rule wp_retry [where P = "\<lambda>s. at fd p pos c s \<or>
      w_halted s \<and> (\<exists>k \<le> length xs. file_of s p = Some (overlay pos (take k xs) c))"])
  fix s :: "'a ota_world_scheme"
  assume "at fd p pos c s \<or> w_halted s \<and> (\<exists>k \<le> length xs. file_of s p = Some (overlay pos (take k xs) c))"
  then show "wp (ota_write fd xs) (wrote fd p pos c xs) s"
  proof
    assume "w_halted s \<and> (\<exists>k \<le> length xs. file_of s p = Some (overlay pos (take k xs) c))"
    then obtain k where "k \<le> length xs" "w_halted s \<and> file_of s p = Some (overlay pos (take k xs) c)" by blast
    then show ?thesis
      by (intro wp_mono [OF wp_ota_write_frozen [of s p]]) (auto simp: wrote_def)
  qed (rule wp_ota_write_wrote)
qed (auto simp: wrote_def assms)

text \<open>The same outcome without what failed calls have written.\<close>

definition write_post ::
  "int \<Rightarrow> string \<Rightarrow> nat \<Rightarrow> byte list \<Rightarrow> byte list \<Rightarrow> int \<Rightarrow> 'z world_scheme \<Rightarrow> bool" where
  "write_post fd p pos c xs r s \<longleftrightarrow>
     (if r = -1 then w_errno s = EINTR \<longrightarrow> w_halted s \<or> at fd p pos c s
      else \<exists>k \<le> length xs. r = int k \<and> (xs \<noteq> [] \<longrightarrow> 0 < k) \<and>
        at fd p (pos + k) (overlay pos (take k xs) c) s)"

lemma wp_retry_write:
  assumes "at fd p pos c s"
  shows "wp (TEMP_FAILURE_RETRY (\<lambda>r. r = -1) (ota_write fd xs))
    (\<lambda>r s'. r \<noteq> -1 \<longrightarrow> write_post fd p pos c xs r s') s"
  by (rule wp_mono [OF wp_retry_wrote [OF assms]]) (auto simp: wrote_def write_post_def)

text \<open>Reads return what is there.\<close>

definition read_some :: "int \<Rightarrow> string \<Rightarrow> nat \<Rightarrow> byte list \<Rightarrow> nat \<Rightarrow> byte list \<Rightarrow> 'z world_scheme \<Rightarrow> bool" where
  "read_some fd p pos c n xs s \<longleftrightarrow>
     length xs \<le> n \<and> xs = take (length xs) (drop pos c) \<and> at fd p (pos + length xs) c s"

lemma read_some_eio [simp]:
  "read_some fd p pos c n xs (s\<lparr>have_eio_error := b\<rparr>) = read_some fd p pos c n xs s"
  by (simp add: read_some_def)

lemma read_some_take:
  assumes "at fd p pos c s"
  shows "read_some fd p pos c n (take (min n k) (drop pos c))
    (set_fd fd p (pos + length (take (min n k) (drop pos c))) (s\<lparr>w_oracle := evs\<rparr>))"
  using assms by (auto simp: read_some_def at_def min_def)

lemma read_some_Nil: "at fd p pos c s \<Longrightarrow> read_some fd p pos c n [] s"
  by (simp add: read_some_def)

lemma read_some_simps [simp]:
  "read_some fd p pos c n xs (s\<lparr>w_errno := er\<rparr>) = read_some fd p pos c n xs s"
  "read_some fd p pos c n xs (s\<lparr>w_halted := h\<rparr>) = read_some fd p pos c n xs s"
  "read_some fd p pos c n xs (s\<lparr>w_oracle := evs\<rparr>) = read_some fd p pos c n xs s"
  by (simp_all add: read_some_def)

lemma wp_sys_fread:
  assumes "at fd p pos c s"
  shows "wp (sys_fread fd n) (read_some fd p pos c n) s"
proof -
  have f: "fd_of s fd = Some (p, pos)" "file_of s p = Some c" using assms by (simp_all add: at_def)
  note t = read_some_take [OF assms]
  show ?thesis
    unfolding sys_fread_def wp_bind
  proof (rule wp_next_eventI, goal_cases)
    case 1
    then show ?case using f read_some_Nil [OF assms] by simp
  next
    case (2 ev evs)
    show ?case using f 2 t [of n n evs] t [of n _ evs] read_some_Nil [OF assms]
      by (cases ev) (simp_all add: Let_def)
  qed
qed

lemma wp_ota_fread:
  assumes "at fd p pos c s"
  shows "wp (ota_fread fd n) (read_some fd p pos c n) s"
  unfolding ota_fread_def wp_bind
  by (rule wp_mono [OF wp_injected [OF assms]])
    (auto simp: read_some_Nil intro!: wp_mono [OF wp_sys_fread] simp: note_eio_def)

definition read_post ::
  "int \<Rightarrow> string \<Rightarrow> nat \<Rightarrow> byte list \<Rightarrow> nat \<Rightarrow> byte list option \<Rightarrow> 'z world_scheme \<Rightarrow> bool" where
  "read_post fd p pos c n r s \<longleftrightarrow>
     (case r of
        None \<Rightarrow> at fd p pos c s
      | Some xs \<Rightarrow> read_some fd p pos c n xs s \<and> \<not> w_halted s)"

lemma wp_sys_read:
  assumes "at fd p pos c s"
  shows "wp (sys_read fd n) (read_post fd p pos c n) s"
proof -
  have f: "fd_of s fd = Some (p, pos)" "file_of s p = Some c" using assms by (simp_all add: at_def)
  show ?thesis
    unfolding sys_read_def wp_bind
  proof (rule wp_next_eventI, goal_cases)
    case 1
    then show ?case using f assms by (simp add: read_post_def)
  next
    case (2 ev evs)
    show ?case
      using f 2 assms read_some_take [OF assms, of n n evs] read_some_take [OF assms, of n "max 1 _" evs]
      by (cases ev) (simp_all add: Let_def read_post_def)
  qed
qed

lemma wp_ota_read:
  assumes "at fd p pos c s"
  shows "wp (ota_read fd n) (read_post fd p pos c n) s"
  unfolding ota_read_def wp_bind
  by (rule wp_mono [OF wp_injected [OF assms]])
    (auto simp: read_post_def note_eio_def intro!: wp_mono [OF wp_sys_read] split: option.splits)

lemma wp_retry_read:
  assumes "at fd p pos c s"
  shows "wp (TEMP_FAILURE_RETRY (\<lambda>r. r = None) (ota_read fd n)) (read_post fd p pos c n) s"
  by (rule wp_retry [where P = "at fd p pos c"]) (auto simp: assms wp_ota_read read_post_def)

lemma wp_sys_lseek:
  assumes "at fd p pos c s"
  shows "wp (sys_lseek fd off)
    (\<lambda>r s'. if r = -1 then at fd p pos c s' else at fd p off c s' \<and> \<not> w_halted s') s"
  using assms unfolding sys_lseek_def wp_bind
  by (intro wp_next_eventI) (auto simp: at_def split: io_event.split)

lemma wp_retry_lseek:
  assumes "at fd p pos c s"
  shows "wp (TEMP_FAILURE_RETRY (\<lambda>r. r = -1) (sys_lseek fd off))
    (\<lambda>r s'. if r = -1 then at fd p pos c s' else at fd p off c s' \<and> \<not> w_halted s') s"
  by (rule wp_retry [where P = "at fd p pos c"], rule wp_sys_lseek) (auto simp: assms)

text \<open>A call that reports success was not made after the end of the process.\<close>

definition alive :: "('z, int) ota \<Rightarrow> bool" where
  "alive m \<longleftrightarrow> (\<forall>s. wp m (\<lambda>r s'. r \<noteq> -1 \<longrightarrow> \<not> w_halted s \<and> \<not> w_halted s') s)"

lemma alive_sys_fsync: "alive (sys_fsync fd)"
  unfolding alive_def sys_fsync_def sys_plain_def wp_bind
  by (intro allI wp_next_eventI; simp split: io_event.split)

lemma alive_sys_close: "alive (sys_close fd)"
  unfolding alive_def sys_close_def wp_bind
  by (intro allI wp_next_eventI; simp split: io_event.split)

lemma wp_alloc_fd_live: "\<not> w_halted s \<Longrightarrow> wp (alloc_fd p) (\<lambda>r s'. r \<noteq> -1 \<longrightarrow> \<not> w_halted s') s"
  by (simp add: alloc_fd_def)

lemma alive_sys_open: "alive (sys_open p flags)"
  unfolding alive_def sys_open_def wp_bind
  by (intro allI wp_next_eventI)
    (auto split: io_event.split option.split intro!: wp_alloc_fd_live)

lemma aliveD: "alive m \<Longrightarrow> wp m (\<lambda>r s'. r \<noteq> -1 \<longrightarrow> \<not> w_halted s \<and> \<not> w_halted s') s"
  by (simp add: alive_def)

lemma aliveI: "(\<And>s. wp m (\<lambda>r s'. r \<noteq> -1 \<longrightarrow> \<not> w_halted s \<and> \<not> w_halted s') s) \<Longrightarrow> alive m"
  by (simp add: alive_def)

lemma alive_ota_fsync: "alive (ota_fsync fd)"
proof (rule aliveI)
  fix s :: "'a ota_world_scheme"
  have i: "wp (inject_fault OTAIO_FSYNC fsync_fault_file_name
      (\<lambda>s. s\<lparr>fsync_fault_file_name := []\<rparr>) fd) (\<lambda>_ s'. w_halted s \<longrightarrow> w_halted s') s"
    by (rule wp_inject_fault) simp_all
  show "wp (ota_fsync fd) (\<lambda>r s'. r \<noteq> -1 \<longrightarrow> \<not> w_halted s \<and> \<not> w_halted s') s"
    unfolding ota_fsync_def wp_bind
    by (rule wp_mono [OF i])
      (auto simp: note_eio_def intro!: wp_mono [OF aliveD [OF alive_sys_fsync]])
qed

lemma alive_ota_open: "alive (ota_open p flags)" "alive (ota_fopen p flags)"
  unfolding ota_open_def ota_fopen_def
  by (intro aliveI, unfold wp_bind, rule wp_mono [OF aliveD [OF alive_sys_open]], simp)+

lemma alive_ota_close: "alive (ota_close fd)" "alive (ota_fclose fd)"
  unfolding ota_close_def ota_fclose_def
  by (intro aliveI, unfold wp_bind wp_upd, rule wp_mono [OF aliveD [OF alive_sys_close]],
      simp split: if_splits)+

text \<open>What a successful open finds.\<close>

definition opened_contents :: "string \<Rightarrow> oflag list \<Rightarrow> 'z world_scheme \<Rightarrow> byte list" where
  "opened_contents p flags s =
     (case file_of s p of
        None \<Rightarrow> []
      | Some c \<Rightarrow> if O_TRUNC \<in> set flags \<and> p \<notin> set (w_dev s) then [] else c)"

lemma wp_alloc_fd_at:
  "\<not> w_halted s \<Longrightarrow> file_of s p = Some c \<Longrightarrow> wp (alloc_fd p) (\<lambda>fd s'. at fd p 0 c s' \<and> \<not> w_halted s') s"
  by (simp add: alloc_fd_def at_def)

lemma w_dev_simps [simp]:
  "w_dev (set_file p c s) = w_dev s" "w_dirs (set_file p c s) = w_dirs s"
  by (simp_all add: set_file_def)

lemma wp_sys_open_at:
  assumes "file_of s p \<noteq> None \<or> p \<notin> set (w_dirs s)"
  shows "wp (sys_open p flags)
    (\<lambda>fd s'. fd \<noteq> -1 \<longrightarrow> at fd p 0 (opened_contents p flags s) s' \<and> \<not> w_halted s') s"
proof -
  have al: "wp (alloc_fd p) (\<lambda>fd s'. fd \<noteq> -1 \<longrightarrow> at fd p 0 c s' \<and> \<not> w_halted s') s'"
    if "\<not> w_halted s'" "file_of s' p = Some c" for c and s' :: "'a world_scheme"
    by (rule wp_mono [OF wp_alloc_fd_at [OF that]]) simp
  show ?thesis
    using assms unfolding sys_open_def wp_bind
    by (intro wp_next_eventI)
      (auto simp: opened_contents_def split: io_event.split option.split intro!: al)
qed

lemma wp_ota_open_at:
  assumes "file_of s p \<noteq> None \<or> p \<notin> set (w_dirs s)"
  shows "wp (ota_open p flags)
      (\<lambda>fd s'. fd \<noteq> -1 \<longrightarrow> at fd p 0 (opened_contents p flags s) s' \<and> \<not> w_halted s') s"
    and "wp (ota_fopen p flags)
      (\<lambda>fd s'. fd \<noteq> -1 \<longrightarrow> at fd p 0 (opened_contents p flags s) s' \<and> \<not> w_halted s') s"
  unfolding ota_open_def ota_fopen_def wp_bind
  by (rule wp_mono [OF wp_sys_open_at [OF assms]], simp)+

end
