(* ===== verification/Edify.thy ===== *)
theory Edify
  imports Ota_Io
begin

text \<open>
  The evaluator of the updater's script language (\<^verbatim>\<open>edify/expr.cpp\<close>, \<^verbatim>\<open>edify/expr.h\<close>) and the
  error codes it reports (\<^verbatim>\<open>otautil/error_code.h\<close>).  An expression carries the function it
  calls; the functions that the updater registers are a parameter, so that the evaluator can be
  used with any of them.  A null \<^verbatim>\<open>Value*\<close> is \<open>None\<close>.

  A builtin receives its unevaluated arguments.  An argument is the run of the evaluator on the
  subexpression, with the span of its source text.  An access beyond the argument vector is
  undefined in the sources and ends the process here.

  The parser and the lexer are generated code and not modelled.
\<close>

section \<open>Values, state, expressions\<close>

datatype ErrorCode = kNoError | kLowBattery | kZipVerificationFailure | kZipOpenFailure
  | kBootreasonInBlacklist | kPackageCompatibilityFailure | kScriptExecutionFailure
  | kMapFileFailure | kForkUpdateBinaryFailure | kUpdateBinaryCommandFailure

datatype CauseCode = kNoCause | kArgsParsingFailure | kStashCreationFailure | kFileOpenFailure
  | kLseekFailure | kFreadFailure | kFwriteFailure | kFsyncFailure | kLibfecFailure
  | kFileGetPropFailure | kFileRenameFailure | kSymlinkFailure | kSetMetadataFailure
  | kTune2FsFailure | kRebootFailure | kPackageExtractFileFailure | kPatchApplicationFailure
  | kVendorFailure

datatype ValueType = VAL_INVALID | VAL_STRING | VAL_BLOB

record Value =
  v_type :: ValueType
  v_data :: string

record edify_state = ota_world +
  script :: string
  errmsg :: string
  error_code :: ErrorCode
  cause_code :: CauseCode
  st_is_retry :: bool

type_synonym ('z, 'a) ed = "('z edify_state_scheme, 'a) state"

datatype 's arg = Arg (arg_eval: "('s, Value option) state") (arg_start: int) (arg_end: int)

datatype Fn = Literal_id | ConcatFn_id | LogicalAndFn_id | LogicalOrFn_id | LogicalNotFn_id
  | SubstringFn_id | EqualityFn_id | InequalityFn_id | SequenceFn_id | IfElseFn_id | AssertFn_id
  | AbortFn_id | SleepFn_id | StdoutFn_id | LessThanIntFn_id | GreaterThanIntFn_id
  | UserFn string

datatype Expr = Expr (expr_fn: Fn) (expr_name: string) (expr_argv: "Expr list")
  (expr_start: int) (expr_end: int)

type_synonym 'z Function =
  "string \<Rightarrow> 'z edify_state_scheme arg list \<Rightarrow> ('z, Value option) ed"

section \<open>Helpers\<close>

text \<open>What is left of a string after it went through \<^verbatim>\<open>c_str()\<close>.\<close>

definition cstr :: "string \<Rightarrow> string" where
  "cstr s = takeWhile (\<lambda>c. c \<noteq> CHR 0x00) s"

definition BooleanString :: "string \<Rightarrow> bool" where
  "BooleanString s \<longleftrightarrow> s \<noteq> []"

definition StringValue :: "string \<Rightarrow> Value option" where
  "StringValue str = Some \<lparr>v_type = VAL_STRING, v_data = cstr str\<rparr>"

text \<open>The overload of \<^verbatim>\<open>ErrorAbort\<close> that takes a cause code.\<close>

definition ErrorAbort :: "android_base \<Rightarrow> CauseCode \<Rightarrow> string \<Rightarrow> ('z, Value option) ed" where
  "ErrorAbort ab cause err_message = do {
     upd (\<lambda>s. s\<lparr>errmsg := ab_trim ab err_message @ [CHR 0x0A], cause_code := cause\<rparr>);
     ret None }"

definition set_errmsg :: "string \<Rightarrow> ('z, Value option) ed" where
  "set_errmsg msg = do { upd (\<lambda>s. s\<lparr>errmsg := msg\<rparr>); ret None }"

definition type_string :: "ValueType \<Rightarrow> string" where
  "type_string t = (case t of VAL_INVALID \<Rightarrow> ''-1'' | VAL_STRING \<Rightarrow> ''1'' | VAL_BLOB \<Rightarrow> ''2'')"

definition Evaluate :: "android_base \<Rightarrow> 'z edify_state_scheme arg \<Rightarrow> ('z, string option) ed" where
  "Evaluate ab a = do {
     v \<leftarrow> arg_eval a;
     case v of
       None \<Rightarrow> ret None
     | Some v \<Rightarrow>
         if v_type v \<noteq> VAL_STRING then do {
           ErrorAbort ab kArgsParsingFailure
             (''expecting string, got value type '' @ type_string (v_type v));
           ret None }
         else ret (Some (v_data v)) }"

text \<open>\<^verbatim>\<open>argv[i]\<close>\<close>

definition arg_at :: "'s arg list \<Rightarrow> nat \<Rightarrow> 's arg option" where
  "arg_at argv i = (if i < length argv then Some (argv ! i) else None)"

definition with_arg ::
  "'z edify_state_scheme arg list \<Rightarrow> nat \<Rightarrow> ('z edify_state_scheme arg \<Rightarrow> ('z, 'a option) ed) \<Rightarrow>
     ('z, 'a option) ed" where
  "with_arg argv i k =
     (case arg_at argv i of None \<Rightarrow> do { CHECK False; ret None } | Some a \<Rightarrow> k a)"

definition EvaluateAt ::
  "android_base \<Rightarrow> 'z edify_state_scheme arg list \<Rightarrow> nat \<Rightarrow> (string \<Rightarrow> ('z, Value option) ed) \<Rightarrow>
     ('z, Value option) ed" where
  "EvaluateAt ab argv i k = with_arg argv i (\<lambda>a. do {
     r \<leftarrow> Evaluate ab a;
     case r of None \<Rightarrow> ret None | Some str \<Rightarrow> k str })"

section \<open>Reading argument lists\<close>

fun ReadArgs_loop ::
  "android_base \<Rightarrow> 'z edify_state_scheme arg list \<Rightarrow> string list \<Rightarrow> ('z, string list option) ed" where
  "ReadArgs_loop ab [] args = ret (Some args)"
| "ReadArgs_loop ab (a # as) args = do {
     r \<leftarrow> Evaluate ab a;
     case r of
       None \<Rightarrow> ret None
     | Some var \<Rightarrow> ReadArgs_loop ab as (args @ [var]) }"

definition ReadArgs_range ::
  "android_base \<Rightarrow> 'z edify_state_scheme arg list \<Rightarrow> nat \<Rightarrow> nat \<Rightarrow> ('z, string list option) ed" where
  "ReadArgs_range ab argv start len =
     (if length argv < size_add start len then ret None
      else ReadArgs_loop ab (take len (drop start argv)) [])"

definition ReadArgs :: "android_base \<Rightarrow> 'z edify_state_scheme arg list \<Rightarrow> ('z, string list option) ed"
where
  "ReadArgs ab argv = ReadArgs_range ab argv 0 (length argv)"

fun ReadValueArgs_loop ::
  "'z edify_state_scheme arg list \<Rightarrow> Value list \<Rightarrow> ('z, Value list option) ed" where
  "ReadValueArgs_loop [] args = ret (Some args)"
| "ReadValueArgs_loop (a # as) args = do {
     v \<leftarrow> arg_eval a;
     case v of
       None \<Rightarrow> ret None
     | Some v \<Rightarrow> ReadValueArgs_loop as (args @ [v]) }"

definition ReadValueArgs_range ::
  "'z edify_state_scheme arg list \<Rightarrow> nat \<Rightarrow> nat \<Rightarrow> ('z, Value list option) ed" where
  "ReadValueArgs_range argv start len =
     (if len = 0 \<or> length argv < size_add start len then ret None
      else ReadValueArgs_loop (take len (drop start argv)) [])"

definition ReadValueArgs :: "'z edify_state_scheme arg list \<Rightarrow> ('z, Value list option) ed" where
  "ReadValueArgs argv = ReadValueArgs_range argv 0 (length argv)"

section \<open>Builtin functions\<close>

fun ConcatFn_loop ::
  "android_base \<Rightarrow> 'z edify_state_scheme arg list \<Rightarrow> string \<Rightarrow> ('z, Value option) ed" where
  "ConcatFn_loop ab [] result = ret (StringValue result)"
| "ConcatFn_loop ab (a # as) result = do {
     r \<leftarrow> Evaluate ab a;
     case r of None \<Rightarrow> ret None | Some str \<Rightarrow> ConcatFn_loop ab as (result @ str) }"

definition ConcatFn :: "android_base \<Rightarrow> 'z Function" where
  "ConcatFn ab name argv =
     (if argv = [] then ret (StringValue []) else ConcatFn_loop ab argv [])"

definition IfElseFn :: "android_base \<Rightarrow> 'z Function" where
  "IfElseFn ab name argv =
     (if length argv \<noteq> 2 \<and> length argv \<noteq> 3 then set_errmsg ''ifelse expects 2 or 3 arguments''
      else EvaluateAt ab argv 0 (\<lambda>cond.
        if cond \<noteq> [] then with_arg argv 1 arg_eval
        else if length argv = 3 then with_arg argv 2 arg_eval
        else ret (StringValue [])))"

definition AbortFn :: "android_base \<Rightarrow> 'z Function" where
  "AbortFn ab name argv = do {
     msg \<leftarrow> (case argv of [] \<Rightarrow> ret None | a # _ \<Rightarrow> Evaluate ab a);
     upd (\<lambda>s. s\<lparr>errmsg := errmsg s @ (case msg of Some m \<Rightarrow> m | None \<Rightarrow> ''called abort()'')\<rparr>);
     ret None }"

text \<open>
  \<^verbatim>\<open>script.substr(start, len)\<close> with \<^verbatim>\<open>int\<close> arguments: a start beyond the end throws, a
  negative length means up to the end.
\<close>

definition substr :: "string \<Rightarrow> int \<Rightarrow> int \<Rightarrow> string option" where
  "substr str start len =
     (if start < 0 \<or> int (length str) < start then None
      else let rest = drop (nat start) str in Some (if len < 0 then rest else take (nat len) rest))"

fun AssertFn_loop ::
  "android_base \<Rightarrow> 'z edify_state_scheme arg list \<Rightarrow> ('z, Value option) ed" where
  "AssertFn_loop ab [] = ret (StringValue [])"
| "AssertFn_loop ab (a # as) = do {
     r \<leftarrow> Evaluate ab a;
     case r of
       None \<Rightarrow> ret None
     | Some result \<Rightarrow>
         if result = [] then do {
           scr \<leftarrow> gets script;
           case substr scr (arg_start a) (arg_end a - arg_start a) of
             None \<Rightarrow> do { CHECK False; ret None }
           | Some txt \<Rightarrow> set_errmsg (''assert failed: '' @ txt) }
         else AssertFn_loop ab as }"

definition AssertFn :: "android_base \<Rightarrow> 'z Function" where
  "AssertFn ab name argv = AssertFn_loop ab argv"

definition SleepFn :: "android_base \<Rightarrow> 'z Function" where
  "SleepFn ab name argv = EvaluateAt ab argv 0 (\<lambda>val.
     case ab_parse_int ab (cstr val) 0 (int INT_MAX) of
       None \<Rightarrow> ret None
     | Some v \<Rightarrow> ret (StringValue val))"

fun StdoutFn_loop ::
  "android_base \<Rightarrow> 'z edify_state_scheme arg list \<Rightarrow> ('z, Value option) ed" where
  "StdoutFn_loop ab [] = ret (StringValue [])"
| "StdoutFn_loop ab (a # as) = do {
     r \<leftarrow> Evaluate ab a;
     case r of
       None \<Rightarrow> ret None
     | Some v \<Rightarrow> do {
         upd (\<lambda>s. s\<lparr>w_stdout := w_stdout s @ cstr v\<rparr>);
         StdoutFn_loop ab as } }"

definition StdoutFn :: "android_base \<Rightarrow> 'z Function" where
  "StdoutFn ab name argv = StdoutFn_loop ab argv"

definition LogicalAndFn :: "android_base \<Rightarrow> 'z Function" where
  "LogicalAndFn ab name argv = EvaluateAt ab argv 0 (\<lambda>left.
     if BooleanString left then with_arg argv 1 arg_eval else ret (StringValue []))"

definition LogicalOrFn :: "android_base \<Rightarrow> 'z Function" where
  "LogicalOrFn ab name argv = EvaluateAt ab argv 0 (\<lambda>left.
     if \<not> BooleanString left then with_arg argv 1 arg_eval else ret (StringValue left))"

definition LogicalNotFn :: "android_base \<Rightarrow> 'z Function" where
  "LogicalNotFn ab name argv = EvaluateAt ab argv 0 (\<lambda>val.
     ret (StringValue (if BooleanString val then [] else ''t'')))"

definition SubstringFn :: "android_base \<Rightarrow> 'z Function" where
  "SubstringFn ab name argv = EvaluateAt ab argv 0 (\<lambda>needle.
     EvaluateAt ab argv 1 (\<lambda>haystack.
       ret (StringValue (if sublist needle haystack then ''t'' else []))))"

definition EqualityFn :: "android_base \<Rightarrow> 'z Function" where
  "EqualityFn ab name argv = EvaluateAt ab argv 0 (\<lambda>left.
     EvaluateAt ab argv 1 (\<lambda>right. ret (StringValue (if left = right then ''t'' else []))))"

definition InequalityFn :: "android_base \<Rightarrow> 'z Function" where
  "InequalityFn ab name argv = EvaluateAt ab argv 0 (\<lambda>left.
     EvaluateAt ab argv 1 (\<lambda>right. ret (StringValue (if left \<noteq> right then ''t'' else []))))"

definition SequenceFn :: "'z Function" where
  "SequenceFn name argv = with_arg argv 0 (\<lambda>a. do {
     left \<leftarrow> arg_eval a;
     case left of None \<Rightarrow> ret None | Some _ \<Rightarrow> with_arg argv 1 arg_eval })"

definition INT64_MIN :: int where "INT64_MIN = - (2 ^ 63)"
definition INT64_MAX :: int where "INT64_MAX = 2 ^ 63 - 1"

text \<open>The common body of the two integer comparisons; \<open>cmp\<close> is the comparison.\<close>

definition compare_ints ::
  "android_base \<Rightarrow> string \<Rightarrow> (int \<Rightarrow> int \<Rightarrow> bool) \<Rightarrow> 'z edify_state_scheme arg list \<Rightarrow>
     ('z, Value option) ed" where
  "compare_ints ab fname cmp argv =
     (if length argv \<noteq> 2 then set_errmsg (fname @ '' expects 2 arguments'')
      else do {
        args \<leftarrow> ReadArgs ab argv;
        case args of
          None \<Rightarrow> ret None
        | Some args \<Rightarrow>
            (case ab_parse_int ab (cstr (args ! 0)) INT64_MIN INT64_MAX of
               None \<Rightarrow> set_errmsg (''failed to parse int in '' @ args ! 0)
             | Some l_int \<Rightarrow>
                 (case ab_parse_int ab (cstr (args ! 1)) INT64_MIN INT64_MAX of
                    None \<Rightarrow> set_errmsg (''failed to parse int in '' @ args ! 1)
                  | Some r_int \<Rightarrow> ret (StringValue (if cmp l_int r_int then ''t'' else [])))) })"

definition LessThanIntFn :: "android_base \<Rightarrow> 'z Function" where
  "LessThanIntFn ab name argv = compare_ints ab ''less_than_int'' (<) argv"

definition GreaterThanIntFn :: "android_base \<Rightarrow> 'z Function" where
  "GreaterThanIntFn ab name argv = compare_ints ab ''greater_than_int'' (>) argv"

definition Literal :: "'z Function" where
  "Literal name argv = ret (StringValue name)"

section \<open>The function table and the evaluator\<close>

definition RegisterFunction :: "string \<Rightarrow> Fn \<Rightarrow> (string \<times> Fn) list \<Rightarrow> (string \<times> Fn) list" where
  "RegisterFunction name fn fn_table = AList.update name fn fn_table"

definition FindFunction :: "(string \<times> Fn) list \<Rightarrow> string \<Rightarrow> Fn option" where
  "FindFunction fn_table name = map_of fn_table name"

definition RegisterBuiltins :: "(string \<times> Fn) list \<Rightarrow> (string \<times> Fn) list" where
  "RegisterBuiltins =
     RegisterFunction ''greater_than_int'' GreaterThanIntFn_id \<circ>
     RegisterFunction ''less_than_int'' LessThanIntFn_id \<circ>
     RegisterFunction ''sleep'' SleepFn_id \<circ>
     RegisterFunction ''stdout'' StdoutFn_id \<circ>
     RegisterFunction ''is_substring'' SubstringFn_id \<circ>
     RegisterFunction ''concat'' ConcatFn_id \<circ>
     RegisterFunction ''assert'' AssertFn_id \<circ>
     RegisterFunction ''abort'' AbortFn_id \<circ>
     RegisterFunction ''ifelse'' IfElseFn_id"

text \<open>The call through the function pointer of an expression.\<close>

definition call_fn :: "android_base \<Rightarrow> (string \<Rightarrow> 'z Function) \<Rightarrow> Fn \<Rightarrow> 'z Function" where
  "call_fn ab user f =
     (case f of
        Literal_id \<Rightarrow> Literal | ConcatFn_id \<Rightarrow> ConcatFn ab | LogicalAndFn_id \<Rightarrow> LogicalAndFn ab
      | LogicalOrFn_id \<Rightarrow> LogicalOrFn ab | LogicalNotFn_id \<Rightarrow> LogicalNotFn ab
      | SubstringFn_id \<Rightarrow> SubstringFn ab | EqualityFn_id \<Rightarrow> EqualityFn ab
      | InequalityFn_id \<Rightarrow> InequalityFn ab | SequenceFn_id \<Rightarrow> SequenceFn
      | IfElseFn_id \<Rightarrow> IfElseFn ab | AssertFn_id \<Rightarrow> AssertFn ab | AbortFn_id \<Rightarrow> AbortFn ab
      | SleepFn_id \<Rightarrow> SleepFn ab | StdoutFn_id \<Rightarrow> StdoutFn ab
      | LessThanIntFn_id \<Rightarrow> LessThanIntFn ab | GreaterThanIntFn_id \<Rightarrow> GreaterThanIntFn ab
      | UserFn g \<Rightarrow> user g)"

fun EvaluateValue ::
  "android_base \<Rightarrow> (string \<Rightarrow> 'z Function) \<Rightarrow> Expr \<Rightarrow> ('z, Value option) ed" where
  "EvaluateValue ab user (Expr f name argv start fin) =
     call_fn ab user f name
       (map (\<lambda>e. Arg (EvaluateValue ab user e) (expr_start e) (expr_end e)) argv)"

definition expr_arg :: "android_base \<Rightarrow> (string \<Rightarrow> 'z Function) \<Rightarrow> Expr \<Rightarrow> 'z edify_state_scheme arg" where
  "expr_arg ab user e = Arg (EvaluateValue ab user e) (expr_start e) (expr_end e)"

section \<open>What a script can change\<close>

text \<open>
  An invariant that does not look at the error message, the cause code, the standard output
  and the end of the process.
\<close>

definition script_inv :: "('z edify_state_scheme \<Rightarrow> bool) \<Rightarrow> bool" where
  "script_inv I \<longleftrightarrow>
     (\<forall>s m. I s \<longrightarrow> I (s\<lparr>errmsg := m\<rparr>)) \<and> (\<forall>s c. I s \<longrightarrow> I (s\<lparr>cause_code := c\<rparr>)) \<and>
     (\<forall>s x. I s \<longrightarrow> I (s\<lparr>w_stdout := x\<rparr>)) \<and> (\<forall>s h. I s \<longrightarrow> I (s\<lparr>w_halted := h\<rparr>))"

lemma keep_CHECK: "script_inv I \<Longrightarrow> keep I (CHECK b)"
  by (auto simp: CHECK_def halt_def script_inv_def intro!: keeps keep_upd)

lemma keep_ErrorAbort: "script_inv I \<Longrightarrow> keep I (ErrorAbort ab c m)"
  by (auto simp: ErrorAbort_def script_inv_def intro!: keeps keep_upd)

lemma keep_set_errmsg: "script_inv I \<Longrightarrow> keep I (set_errmsg m)"
  by (auto simp: set_errmsg_def script_inv_def intro!: keeps keep_upd)

lemma keep_Evaluate: "script_inv I \<Longrightarrow> keep I (arg_eval a) \<Longrightarrow> keep I (Evaluate ab a)"
  unfolding Evaluate_def by (intro keeps keep_ErrorAbort)

definition args_keep :: "('z edify_state_scheme \<Rightarrow> bool) \<Rightarrow> 'z edify_state_scheme arg list \<Rightarrow> bool" where
  "args_keep I argv \<longleftrightarrow> (\<forall>a \<in> set argv. keep I (arg_eval a))"

lemma args_keep_Cons [simp]:
  "args_keep I (a # as) \<longleftrightarrow> keep I (arg_eval a) \<and> args_keep I as"
  by (simp add: args_keep_def)

lemma keep_with_arg:
  "script_inv I \<Longrightarrow> args_keep I argv \<Longrightarrow> (\<And>a. keep I (arg_eval a) \<Longrightarrow> keep I (k a)) \<Longrightarrow>
     keep I (with_arg argv i k)"
  unfolding with_arg_def
  by (auto simp: arg_at_def args_keep_def intro!: keep_option keep_bind keep_CHECK keep_ret
      split: if_splits)

lemma keep_EvaluateAt:
  "script_inv I \<Longrightarrow> args_keep I argv \<Longrightarrow> (\<And>x. keep I (k x)) \<Longrightarrow> keep I (EvaluateAt ab argv i k)"
  unfolding EvaluateAt_def by (intro keep_with_arg keeps keep_Evaluate)

lemma keep_ReadArgs_loop:
  "script_inv I \<Longrightarrow> args_keep I argv \<Longrightarrow> keep I (ReadArgs_loop ab argv acc)"
  by (induction argv arbitrary: acc) (auto intro!: keeps keep_Evaluate)

lemma keep_ReadArgs: "script_inv I \<Longrightarrow> args_keep I argv \<Longrightarrow> keep I (ReadArgs ab argv)"
  unfolding ReadArgs_def ReadArgs_range_def by (auto intro!: keeps keep_ReadArgs_loop)

lemma keep_ReadValueArgs_loop: "args_keep I argv \<Longrightarrow> keep I (ReadValueArgs_loop argv acc)"
  by (induction argv arbitrary: acc) (auto intro!: keeps)

lemma keep_ReadValueArgs: "args_keep I argv \<Longrightarrow> keep I (ReadValueArgs argv)"
  unfolding ReadValueArgs_def ReadValueArgs_range_def
  by (auto intro!: keeps keep_ReadValueArgs_loop)

lemma keep_ConcatFn: "script_inv I \<Longrightarrow> args_keep I argv \<Longrightarrow> keep I (ConcatFn ab name argv)"
proof -
  have "script_inv I \<Longrightarrow> args_keep I argv \<Longrightarrow> keep I (ConcatFn_loop ab argv acc)" for acc
    by (induction argv arbitrary: acc) (auto intro!: keeps keep_Evaluate)
  then show "script_inv I \<Longrightarrow> args_keep I argv \<Longrightarrow> keep I (ConcatFn ab name argv)"
    by (simp add: ConcatFn_def keep_ret)
qed

lemma keep_AssertFn: "script_inv I \<Longrightarrow> args_keep I argv \<Longrightarrow> keep I (AssertFn ab name argv)"
  unfolding AssertFn_def
  by (induction argv) (auto intro!: keeps keep_Evaluate keep_CHECK keep_set_errmsg)

lemma keep_StdoutFn: "script_inv I \<Longrightarrow> args_keep I argv \<Longrightarrow> keep I (StdoutFn ab name argv)"
  unfolding StdoutFn_def
  by (induction argv)
    (auto simp: script_inv_def intro!: keeps keep_Evaluate keep_upd)

lemma keep_AbortFn: "script_inv I \<Longrightarrow> args_keep I argv \<Longrightarrow> keep I (AbortFn ab name argv)"
  unfolding AbortFn_def
  by (cases argv) (auto simp: script_inv_def intro!: keeps keep_Evaluate keep_upd)

lemma keep_compare_ints: "script_inv I \<Longrightarrow> args_keep I argv \<Longrightarrow> keep I (compare_ints ab f r argv)"
  unfolding compare_ints_def by (intro keeps keep_set_errmsg keep_ReadArgs)

lemma keep_call_fn:
  assumes "script_inv I" "args_keep I argv"
    and "\<And>g. f = UserFn g \<Longrightarrow> keep I (user g name argv)"
  shows "keep I (call_fn ab user f name argv)"
proof (cases f)
  case (UserFn g)
  with assms(3) show ?thesis by (simp add: call_fn_def)
qed (use assms(1,2) in \<open>simp_all add: call_fn_def Literal_def keep_ret keep_ConcatFn keep_AssertFn
    keep_StdoutFn keep_AbortFn keep_compare_ints LessThanIntFn_def GreaterThanIntFn_def
    LogicalAndFn_def LogicalOrFn_def LogicalNotFn_def SubstringFn_def EqualityFn_def
    InequalityFn_def SequenceFn_def IfElseFn_def SleepFn_def
    keep_EvaluateAt keep_with_arg keep_set_errmsg keep_if keep_bind keep_option\<close>)

text \<open>
  C9.  A script changes the system only through the functions the updater registers: an
  invariant of the system state that ignores the script's own error message, cause code and
  standard output is preserved by the evaluation of every expression, provided every registered
  function preserves it whenever its arguments do.
\<close>

theorem EvaluateValue_keep:
  assumes "script_inv I"
    and "\<And>g name argv. args_keep I argv \<Longrightarrow> keep I (user g name argv)"
  shows "keep I (EvaluateValue ab user e)"
proof (induction e)
  case (Expr f name argv start fin)
  then have "args_keep I (map (\<lambda>e. Arg (EvaluateValue ab user e) (expr_start e) (expr_end e)) argv)"
    by (auto simp: args_keep_def)
  with assms show ?case by (simp add: keep_call_fn)
qed

section \<open>Reference semantics of the pure fragment\<close>

text \<open>
  The value of an expression without side effects, given the values of all its arguments:
  \<open>None\<close> is failure.  Operators are strict in the arguments they need and ignore failures of
  the arguments they do not need.
\<close>

definition opt_and :: "string option \<Rightarrow> (string \<Rightarrow> string option) \<Rightarrow> string option" where
  "opt_and x k = (case x of None \<Rightarrow> None | Some v \<Rightarrow> k v)"

definition truth :: "bool \<Rightarrow> string option" where
  "truth b = Some (if b then ''t'' else [])"

definition int_test :: "android_base \<Rightarrow> (int \<Rightarrow> int \<Rightarrow> bool) \<Rightarrow> string \<Rightarrow> string \<Rightarrow> string option" where
  "int_test ab r x y =
     (case (ab_parse_int ab x INT64_MIN INT64_MAX, ab_parse_int ab y INT64_MIN INT64_MAX) of
        (Some l, Some m) \<Rightarrow> truth (r l m)
      | _ \<Rightarrow> None)"

fun sem :: "android_base \<Rightarrow> Fn \<Rightarrow> string \<Rightarrow> string option list \<Rightarrow> string option" where
  "sem ab Literal_id name ds = Some (cstr name)"
| "sem ab ConcatFn_id name ds =
     (if None \<in> set ds then None else Some (concat (map the ds)))"
| "sem ab LogicalAndFn_id name (x # y # _) = opt_and x (\<lambda>v. if v \<noteq> [] then y else Some [])"
| "sem ab LogicalOrFn_id name (x # y # _) = opt_and x (\<lambda>v. if v = [] then y else Some v)"
| "sem ab LogicalNotFn_id name (x # _) = opt_and x (\<lambda>v. truth (v = []))"
| "sem ab SubstringFn_id name (x # y # _) =
     opt_and x (\<lambda>v. opt_and y (\<lambda>w. truth (sublist v w)))"
| "sem ab EqualityFn_id name (x # y # _) = opt_and x (\<lambda>v. opt_and y (\<lambda>w. truth (v = w)))"
| "sem ab InequalityFn_id name (x # y # _) = opt_and x (\<lambda>v. opt_and y (\<lambda>w. truth (v \<noteq> w)))"
| "sem ab SequenceFn_id name (x # y # _) = opt_and x (\<lambda>_. y)"
| "sem ab IfElseFn_id name [x, y] = opt_and x (\<lambda>v. if v \<noteq> [] then y else Some [])"
| "sem ab IfElseFn_id name [x, y, z] = opt_and x (\<lambda>v. if v \<noteq> [] then y else z)"
| "sem ab LessThanIntFn_id name [x, y] = opt_and x (\<lambda>v. opt_and y (\<lambda>w. int_test ab (<) v w))"
| "sem ab GreaterThanIntFn_id name [x, y] = opt_and x (\<lambda>v. opt_and y (\<lambda>w. int_test ab (>) v w))"
| "sem ab f name ds = None"

fun denote :: "android_base \<Rightarrow> Expr \<Rightarrow> string option" where
  "denote ab (Expr f name argv start fin) = sem ab f name (map (denote ab) argv)"

text \<open>The expressions of the fragment, with the argument counts that the parser guarantees for
  the operators and that a script has to respect for \<^verbatim>\<open>is_substring\<close>.\<close>

definition arity_ok :: "Fn \<Rightarrow> nat \<Rightarrow> bool" where
  "arity_ok f n \<longleftrightarrow>
     (case f of
        LogicalAndFn_id \<Rightarrow> 2 \<le> n | LogicalOrFn_id \<Rightarrow> 2 \<le> n | LogicalNotFn_id \<Rightarrow> 1 \<le> n
      | SubstringFn_id \<Rightarrow> 2 \<le> n | EqualityFn_id \<Rightarrow> 2 \<le> n | InequalityFn_id \<Rightarrow> 2 \<le> n
      | SequenceFn_id \<Rightarrow> 2 \<le> n | AssertFn_id \<Rightarrow> False | SleepFn_id \<Rightarrow> False
      | StdoutFn_id \<Rightarrow> False | AbortFn_id \<Rightarrow> False | UserFn _ \<Rightarrow> False | _ \<Rightarrow> True)"

fun pure_expr :: "Expr \<Rightarrow> bool" where
  "pure_expr (Expr f name argv start fin) \<longleftrightarrow>
     arity_ok f (length argv) \<and> list_all pure_expr argv"

definition no_nul :: "string \<Rightarrow> bool" where
  "no_nul s \<longleftrightarrow> CHR 0x00 \<notin> set s"

definition computes :: "('z, Value option) ed \<Rightarrow> string option \<Rightarrow> bool" where
  "computes m d \<longleftrightarrow> (\<forall>v. d = Some v \<longrightarrow> no_nul v) \<and>
     (\<forall>s. \<not> w_halted s \<longrightarrow>
        (\<exists>msg. run_state m s =
           (case d of
              None \<Rightarrow> (None, s\<lparr>errmsg := msg\<rparr>)
            | Some v \<Rightarrow> (Some \<lparr>v_type = VAL_STRING, v_data = v\<rparr>, s))))"

lemma cstr_no_nul [simp]: "no_nul v \<Longrightarrow> cstr v = v"
  by (auto simp: no_nul_def cstr_def takeWhile_eq_all_conv)

lemma no_nul_cstr [simp]: "no_nul (cstr v)"
  unfolding no_nul_def cstr_def by (metis (mono_tags, lifting) set_takeWhileD)

lemma no_nul_simps [simp]: "no_nul []" "no_nul ''t''" "no_nul (xs @ ys) \<longleftrightarrow> no_nul xs \<and> no_nul ys"
  by (auto simp: no_nul_def)

lemma computes_ret: "no_nul v \<Longrightarrow> computes (ret (StringValue v)) (Some v)"
  by (simp add: computes_def StringValue_def)

lemma computes_truth: "computes (ret (StringValue (if b then ''t'' else []))) (truth b)"
  by (simp add: truth_def computes_ret)

lemma computes_None: "computes (set_errmsg m) None"
  by (auto simp: computes_def set_errmsg_def)

lemma computes_ret_None: "computes (ret None) None"
proof -
  have "\<exists>msg. run_state (ret None) s = (None, s\<lparr>errmsg := msg\<rparr>)" for s :: "'a edify_state_scheme"
    by (rule exI [of _ "errmsg s"]) simp
  then show ?thesis by (simp add: computes_def)
qed

lemma computes_eval:
  assumes "computes (arg_eval a) d"
    and "\<And>v. d = Some v \<Longrightarrow> computes (k v) (h v)"
  shows "computes (do { r \<leftarrow> Evaluate ab a; case r of None \<Rightarrow> ret None | Some v \<Rightarrow> k v }) (opt_and d h)"
proof (cases d)
  case None
  have "\<exists>msg. run_state (do { r \<leftarrow> Evaluate ab a; case r of None \<Rightarrow> ret None | Some v \<Rightarrow> k v }) s =
      (None, s\<lparr>errmsg := msg\<rparr>)" if live: "\<not> w_halted s" for s
  proof -
    obtain msg where "run_state (arg_eval a) s = (None, s\<lparr>errmsg := msg\<rparr>)"
      using assms(1) None live unfolding computes_def by auto
    then show ?thesis by (auto simp: Evaluate_def)
  qed
  with None show ?thesis by (simp add: computes_def opt_and_def)
next
  case (Some v)
  with assms(2) have k: "computes (k v) (h v)" by blast
  have "run_state (Evaluate ab a) s = (Some v, s)" if "\<not> w_halted s" for s
  proof -
    have "run_state (arg_eval a) s = (Some \<lparr>v_type = VAL_STRING, v_data = v\<rparr>, s)"
      using assms(1) Some that unfolding computes_def by simp
    then show ?thesis by (simp add: Evaluate_def)
  qed
  with k Some show ?thesis by (simp add: computes_def opt_and_def)
qed

text \<open>Arguments that compute a list of denotations.\<close>

definition args_compute :: "'z edify_state_scheme arg list \<Rightarrow> string option list \<Rightarrow> bool" where
  "args_compute argv ds \<longleftrightarrow> list_all2 (\<lambda>a d. computes (arg_eval a) d) argv ds"

lemma args_compute_nth:
  "args_compute argv ds \<Longrightarrow> i < length ds \<Longrightarrow> computes (arg_eval (argv ! i)) (ds ! i)"
  by (simp add: args_compute_def list_all2_conv_all_nth)

lemma args_compute_length: "args_compute argv ds \<Longrightarrow> length argv = length ds"
  by (simp add: args_compute_def list_all2_lengthD)

lemma computes_EvaluateAt:
  assumes "args_compute argv ds" "i < length ds" "\<And>v. ds ! i = Some v \<Longrightarrow> computes (k v) (h v)"
  shows "computes (EvaluateAt ab argv i k) (opt_and (ds ! i) h)"
  using computes_eval [OF args_compute_nth [OF assms(1,2)], of k h ab] assms(2,3)
    args_compute_length [OF assms(1)]
  by (simp add: EvaluateAt_def with_arg_def arg_at_def)

lemma computes_with_arg:
  assumes "args_compute argv ds" "i < length ds"
  shows "computes (with_arg argv i arg_eval) (ds ! i)"
  using args_compute_nth [OF assms] assms(2) args_compute_length [OF assms(1)]
  by (simp add: with_arg_def arg_at_def)

lemma computes_concat:
  "args_compute argv ds \<Longrightarrow> no_nul acc \<Longrightarrow>
     computes (ConcatFn_loop ab argv acc)
       (if None \<in> set ds then None else Some (acc @ concat (map the ds)))"
proof (induction argv arbitrary: acc ds)
  case Nil
  then show ?case by (simp add: args_compute_def computes_ret)
next
  case (Cons a argv)
  then obtain d ds' where ds: "ds = d # ds'" "computes (arg_eval a) d" "args_compute argv ds'"
    by (auto simp: args_compute_def list_all2_Cons1)
  let ?h = "\<lambda>v. if None \<in> set ds' then None else Some ((acc @ v) @ concat (map the ds'))"
  have "computes (ConcatFn_loop ab (a # argv) acc) (opt_and d ?h)"
    unfolding ConcatFn_loop.simps
  proof (rule computes_eval [OF ds(2)])
    fix v assume "d = Some v"
    with ds(2) have "no_nul v" by (simp add: computes_def)
    then show "computes (ConcatFn_loop ab argv (acc @ v)) (?h v)"
      using Cons.IH [OF ds(3), of "acc @ v"] Cons.prems(2) by simp
  qed
  moreover have "opt_and d ?h = (if None \<in> set ds then None else Some (acc @ concat (map the ds)))"
    by (cases d) (auto simp: ds(1) opt_and_def)
  ultimately show ?case by simp
qed

lemma computes_compare_ints:
  fixes argv :: "'z edify_state_scheme arg list"
  assumes "args_compute argv ds" "ds = [x, y]"
  shows "computes (compare_ints ab fname r argv)
    (opt_and x (\<lambda>v. opt_and y (\<lambda>w. int_test ab r v w)))"
proof -
  obtain a b where ab: "argv = [a, b]" "computes (arg_eval a) x" "computes (arg_eval b) y"
    using assms by (auto simp: args_compute_def list_all2_Cons2)
  define k :: "string \<Rightarrow> string \<Rightarrow> ('z, Value option) ed" where "k v w = (case ab_parse_int ab (cstr v) INT64_MIN INT64_MAX of
      None \<Rightarrow> set_errmsg (''failed to parse int in '' @ v)
    | Some l_int \<Rightarrow> (case ab_parse_int ab (cstr w) INT64_MIN INT64_MAX of
        None \<Rightarrow> set_errmsg (''failed to parse int in '' @ w)
      | Some r_int \<Rightarrow> ret (StringValue (if r l_int r_int then ''t'' else []))))" for v w
  have k: "computes (k v w) (int_test ab r v w)" if "no_nul v" "no_nul w" for v w
    using that
    by (simp add: k_def int_test_def computes_None computes_truth split: option.split)
  have eq: "compare_ints ab fname r argv = do {
      ra \<leftarrow> Evaluate ab a;
      case ra of None \<Rightarrow> ret None | Some v \<Rightarrow> do {
        rb \<leftarrow> Evaluate ab b;
        case rb of None \<Rightarrow> ret None | Some w \<Rightarrow> k v w } }"
    unfolding compare_ints_def k_def ReadArgs_def ReadArgs_range_def ab(1)
    by (intro state_ext)
      (simp add: size_add_def split: prod.splits option.splits)
  have nn: "no_nul v" if "x = Some v" for v using ab(2) that by (simp add: computes_def)
  have nm: "no_nul w" if "y = Some w" for w using ab(3) that by (simp add: computes_def)
  show ?thesis
    unfolding eq by (intro computes_eval ab(2,3) k nn nm)
qed

lemma computes_seq:
  assumes "computes m d" "computes n e"
  shows "computes (do { left \<leftarrow> m; case left of None \<Rightarrow> ret None | Some _ \<Rightarrow> n }) (opt_and d (\<lambda>_. e))"
proof (cases d)
  case None
  have "\<exists>msg. run_state (do { left \<leftarrow> m; case left of None \<Rightarrow> ret None | Some _ \<Rightarrow> n }) s =
      (None, s\<lparr>errmsg := msg\<rparr>)" if live: "\<not> w_halted s" for s
  proof -
    obtain msg where "run_state m s = (None, s\<lparr>errmsg := msg\<rparr>)"
      using assms(1) None live unfolding computes_def by auto
    then show ?thesis by auto
  qed
  with None show ?thesis by (simp add: computes_def opt_and_def)
next
  case (Some v)
  with assms show ?thesis by (simp add: computes_def opt_and_def)
qed

text \<open>The operators with a fixed number of arguments.\<close>

lemma computes_operators:
  assumes "args_compute argv (x # y # ds)"
  shows "computes (LogicalAndFn ab name argv) (opt_and x (\<lambda>v. if v \<noteq> [] then y else Some []))"
    and "computes (LogicalOrFn ab name argv) (opt_and x (\<lambda>v. if v = [] then y else Some v))"
    and "computes (SubstringFn ab name argv) (opt_and x (\<lambda>v. opt_and y (\<lambda>w. truth (sublist v w))))"
    and "computes (EqualityFn ab name argv) (opt_and x (\<lambda>v. opt_and y (\<lambda>w. truth (v = w))))"
    and "computes (InequalityFn ab name argv) (opt_and x (\<lambda>v. opt_and y (\<lambda>w. truth (v \<noteq> w))))"
    and "computes (SequenceFn name argv) (opt_and x (\<lambda>_. y))"
    and "ds = [] \<Longrightarrow> computes (IfElseFn ab name argv) (opt_and x (\<lambda>v. if v \<noteq> [] then y else Some []))"
    and "ds = [z] \<Longrightarrow> computes (IfElseFn ab name argv) (opt_and x (\<lambda>v. if v \<noteq> [] then y else z))"
proof -
  have e0: "computes (EvaluateAt ab argv 0 k) (opt_and x h)"
    if "\<And>v. x = Some v \<Longrightarrow> computes (k v) (h v)" for k h
    using computes_EvaluateAt [OF assms, of 0 k h ab] that by simp
  have e1: "computes (EvaluateAt ab argv 1 k) (opt_and y h)"
    if "\<And>v. y = Some v \<Longrightarrow> computes (k v) (h v)" for k h
    using computes_EvaluateAt [OF assms, of 1 k h ab] that by simp
  have w: "computes (with_arg argv (Suc 0) arg_eval) y" "computes (with_arg argv 0 arg_eval) x"
    using computes_with_arg [OF assms, of "Suc 0"] computes_with_arg [OF assms, of 0] by simp_all
  have nn: "no_nul v" if "x = Some v" for v
    using args_compute_nth [OF assms, of 0] that by (simp add: computes_def)
  have len: "length argv = Suc (Suc (length ds))" using args_compute_length [OF assms] by simp
  show "computes (LogicalAndFn ab name argv) (opt_and x (\<lambda>v. if v \<noteq> [] then y else Some []))"
    unfolding LogicalAndFn_def by (intro e0) (simp add: w BooleanString_def computes_ret)
  show "computes (LogicalOrFn ab name argv) (opt_and x (\<lambda>v. if v = [] then y else Some v))"
    unfolding LogicalOrFn_def by (intro e0) (simp add: w BooleanString_def computes_ret nn)
  show "computes (SubstringFn ab name argv) (opt_and x (\<lambda>v. opt_and y (\<lambda>w. truth (sublist v w))))"
    unfolding SubstringFn_def by (intro e0 e1 computes_truth)
  show "computes (EqualityFn ab name argv) (opt_and x (\<lambda>v. opt_and y (\<lambda>w. truth (v = w))))"
    unfolding EqualityFn_def by (intro e0 e1 computes_truth)
  show "computes (InequalityFn ab name argv) (opt_and x (\<lambda>v. opt_and y (\<lambda>w. truth (v \<noteq> w))))"
    unfolding InequalityFn_def by (intro e0 e1 computes_truth)
  have "SequenceFn name argv = do { left \<leftarrow> with_arg argv 0 arg_eval;
      case left of None \<Rightarrow> ret None | Some _ \<Rightarrow> with_arg argv 1 arg_eval }"
    using len by (simp add: SequenceFn_def with_arg_def arg_at_def cong: option.case_cong)
  then show "computes (SequenceFn name argv) (opt_and x (\<lambda>_. y))"
    using computes_seq [OF w(2,1)] by (simp only: One_nat_def)
  show "computes (IfElseFn ab name argv) (opt_and x (\<lambda>v. if v \<noteq> [] then y else Some []))" if "ds = []"
    using that len unfolding IfElseFn_def by (simp, intro e0) (simp add: w computes_ret)
  show "computes (IfElseFn ab name argv) (opt_and x (\<lambda>v. if v \<noteq> [] then y else z))" if "ds = [z]"
  proof -
    have "computes (with_arg argv 2 arg_eval) z"
      using computes_with_arg [OF assms, of 2] that by simp
    then show ?thesis
      using that len unfolding IfElseFn_def by (simp, intro e0) (simp add: w computes_ret)
  qed
qed

lemma computes_call_fn:
  assumes "args_compute argv ds" "arity_ok f (length argv)"
  shows "computes (call_fn ab user f name argv) (sem ab f name ds)"
proof -
  note len = args_compute_length [OF assms(1)]
  have binary: ?thesis if f: "f \<in> {LogicalAndFn_id, LogicalOrFn_id, SubstringFn_id, EqualityFn_id,
      InequalityFn_id, SequenceFn_id}"
  proof -
    have "2 \<le> length ds" using f assms(2) len by (auto simp: arity_ok_def)
    then obtain x y zs where ds: "ds = x # y # zs" by (cases ds; cases "tl ds") auto
    note ops = computes_operators(1-6) [OF assms(1) [unfolded ds]]
    show ?thesis using f unfolding ds
      by (elim insertE emptyE) (simp_all only: call_fn_def sem.simps Fn.simps ops(1-5) ops(6))
  qed
  show ?thesis
  proof (cases f)
    case Literal_id
    then show ?thesis
      using computes_ret [of "cstr name"] by (simp add: call_fn_def Literal_def StringValue_def)
  next
    case ConcatFn_id
    with computes_concat [OF assms(1), of "[]" ab] len show ?thesis
      by (auto simp: call_fn_def ConcatFn_def computes_ret)
  next
    case LogicalNotFn_id
    with assms(2) len obtain x zs where ds: "ds = x # zs" by (cases ds) (auto simp: arity_ok_def)
    have "computes (LogicalNotFn ab name argv) (opt_and (ds ! 0) (\<lambda>v. truth (v = [])))"
      unfolding LogicalNotFn_def
      by (rule computes_EvaluateAt [OF assms(1)])
        (simp_all add: ds BooleanString_def truth_def computes_ret)
    with LogicalNotFn_id ds show ?thesis by (simp add: call_fn_def)
  next
    case IfElseFn_id
    show ?thesis
    proof (cases "length ds = 2 \<or> length ds = 3")
      case True
      then consider x y where "ds = [x, y]" | x y z where "ds = [x, y, z]"
        by (auto simp: numeral_eq_Suc length_Suc_conv)
      then show ?thesis
        using computes_operators(7) [OF _ refl] computes_operators(8) [OF _ refl] assms(1) IfElseFn_id
        by cases (auto simp: call_fn_def)
    next
      case False
      then have "sem ab f name ds = None"
        unfolding IfElseFn_id by (cases "(ab, IfElseFn_id, name, ds)" rule: sem.cases) auto
      with False len IfElseFn_id show ?thesis by (simp add: call_fn_def IfElseFn_def computes_None)
    qed
  next
    case LessThanIntFn_id
    show ?thesis
    proof (cases "length ds = 2")
      case True
      then obtain x y where "ds = [x, y]" by (auto simp: numeral_eq_Suc length_Suc_conv)
      with computes_compare_ints [OF assms(1)] LessThanIntFn_id show ?thesis
        by (simp add: call_fn_def LessThanIntFn_def)
    next
      case False
      then have "sem ab f name ds = None"
        unfolding LessThanIntFn_id by (cases "(ab, LessThanIntFn_id, name, ds)" rule: sem.cases) auto
      with False len LessThanIntFn_id show ?thesis
        by (simp add: call_fn_def LessThanIntFn_def compare_ints_def computes_None)
    qed
  next
    case GreaterThanIntFn_id
    show ?thesis
    proof (cases "length ds = 2")
      case True
      then obtain x y where "ds = [x, y]" by (auto simp: numeral_eq_Suc length_Suc_conv)
      with computes_compare_ints [OF assms(1)] GreaterThanIntFn_id show ?thesis
        by (simp add: call_fn_def GreaterThanIntFn_def)
    next
      case False
      then have "sem ab f name ds = None"
        unfolding GreaterThanIntFn_id
        by (cases "(ab, GreaterThanIntFn_id, name, ds)" rule: sem.cases) auto
      with False len GreaterThanIntFn_id show ?thesis
        by (simp add: call_fn_def GreaterThanIntFn_def compare_ints_def computes_None)
    qed
  qed (use assms(2) binary in \<open>simp_all add: arity_ok_def\<close>)
qed

lemma EvaluateValue_computes: "pure_expr e \<Longrightarrow> computes (EvaluateValue ab user e) (denote ab e)"
proof (induction e)
  case (Expr f name argv start fin)
  then have "args_compute
      (map (\<lambda>e. Arg (EvaluateValue ab user e) (expr_start e) (expr_end e)) argv)
      (map (denote ab) argv)"
    by (auto simp: args_compute_def list_all2_map1 list_all2_map2 list_all_iff
        intro!: list.rel_refl_strong)
  with Expr.prems show ?case by (simp add: computes_call_fn)
qed

text \<open>
  C8.  The evaluator implements the reference semantics of the side-effect-free fragment
  (literals, concatenation, the logical and comparison operators, substring test, sequencing,
  conditionals and integer comparisons).  When the reference semantics has a value, the
  evaluator returns exactly that string and leaves the whole state unchanged; when it has none,
  the evaluator returns a null value and has changed nothing but the error message.
\<close>

theorem EvaluateValue_denote:
  assumes "pure_expr e" "\<not> w_halted s"
  shows "\<exists>msg. run_state (EvaluateValue ab user e) s =
    (case denote ab e of
       None \<Rightarrow> (None, s\<lparr>errmsg := msg\<rparr>)
     | Some v \<Rightarrow> (Some \<lparr>v_type = VAL_STRING, v_data = v\<rparr>, s))"
  using EvaluateValue_computes [OF assms(1), of ab user] assms(2) by (simp add: computes_def)

definition sample_world :: edify_state where
  "sample_world =
     \<lparr>w_halted = False, w_files = [(''/f'', [1, 2])], w_dev = [], w_dirs = [], w_fds = [],
      w_next_fd = 3, w_oracle = [], w_errno = 0, w_stdout = [], archive = None, io_is_retry = False,
      should_inject_cache = [], filename_cache = [], read_fault_file_name = [],
      write_fault_file_name = [], fsync_fault_file_name = [], have_eio_error = False,
      script = [], errmsg = [], error_code = kNoError, cause_code = kNoCause, st_is_retry = False\<rparr>"

definition lit :: "string \<Rightarrow> Expr" where
  "lit x = Expr Literal_id x [] 0 0"

definition sample_expr :: Expr where
  "sample_expr = Expr IfElseFn_id ''ifelse''
     [Expr LessThanIntFn_id ''less_than_int'' [lit ''3'', lit ''12''] 0 0,
      Expr ConcatFn_id ''concat'' [lit ''a'', lit ''b''] 0 0,
      Expr LessThanIntFn_id ''less_than_int'' [] 0 0] 0 0"

lemma sample_expr_denote: "pure_expr sample_expr" "denote sample_base sample_expr = Some ''ab''"
  by (simp_all add: sample_expr_def lit_def arity_ok_def opt_and_def int_test_def sample_base_def
      read_int_def INT64_MIN_def INT64_MAX_def is_digit_def truth_def cstr_def)

theorem EvaluateValue_denote_witness:
  "pure_expr sample_expr \<and> \<not> w_halted sample_world \<and>
   run_state (EvaluateValue sample_base (\<lambda>_ _ _. ret None) sample_expr) sample_world =
     (Some \<lparr>v_type = VAL_STRING, v_data = ''ab''\<rparr>, sample_world)"
proof -
  have live: "\<not> w_halted sample_world" by (simp add: sample_world_def)
  show ?thesis
    using EvaluateValue_denote [OF sample_expr_denote(1) live, of sample_base "\<lambda>_ _ _. ret None"]
      sample_expr_denote live by simp
qed

theorem EvaluateValue_keep_witness:
  "keep (\<lambda>s :: edify_state. w_files s = [(''/f'', [1, 2])])
     (EvaluateValue sample_base (\<lambda>_ _ _. ret None) sample_expr)"
  by (rule EvaluateValue_keep) (simp_all add: script_inv_def keep_ret)

text \<open>
  \<^verbatim>\<open>is_substring\<close> is registered without an argument count check: called with a single
  argument that evaluates to a string, it accesses the argument vector beyond its end and the
  run of the updater ends there.
\<close>

lemma SubstringFn_missing_argument:
  assumes "pure_expr e" "denote ab e = Some v" "\<not> w_halted s"
  shows "w_halted (snd (run_state
    (EvaluateValue ab user (Expr SubstringFn_id ''is_substring'' [e] start fin)) s))"
proof -
  have "run_state (EvaluateValue ab user e) s = (Some \<lparr>v_type = VAL_STRING, v_data = v\<rparr>, s)"
    using EvaluateValue_computes [OF assms(1), of ab user] assms(2,3) by (simp add: computes_def)
  then show ?thesis
    using assms(3)
    by (simp add: call_fn_def SubstringFn_def EvaluateAt_def with_arg_def arg_at_def Evaluate_def
        CHECK_def halt_def)
qed

end
