(* ===== verification/Patching.thy ===== *)
theory Patching
  imports Edify Verifier
begin

text \<open>
  Applying binary patches to memory: \<^verbatim>\<open>applypatch/bspatch.cpp\<close>, \<^verbatim>\<open>applypatch/imgpatch.cpp\<close> and
  the hexadecimal printer of \<^verbatim>\<open>otautil/print_sha1.h\<close>.

  A sink receives the output in pieces and returns the number of bytes it took.  The SHA-1
  context and the local variables that the sinks capture live in the state record.  Not part of
  the repository, hence parameters: SHA-1, the bsdiff library (\<open>bspatch\<close>, a program that may call
  the sink any number of times) and zlib (\<open>z_deflate\<close> gives the result of the last call on a
  deflate stream from the list of all calls made on it).
\<close>

section \<open>State and parameters\<close>

record patch_world = edify_state +
  sha_ctx :: "byte list"
  memory_sink_str :: "byte list"
  z_calls :: "(byte list \<times> bool) list"
  z_ret :: int
  actual_target_length :: nat
  total_written :: nat

type_synonym ('z, 'a) pw = "('z patch_world_scheme, 'a) state"

type_synonym 'z SinkFn = "byte list \<Rightarrow> ('z, nat) pw"

type_synonym 'z bspatch_fn = "byte list \<Rightarrow> byte list \<Rightarrow> 'z SinkFn \<Rightarrow> ('z, int) pw"

record zlib =
  z_deflateInit2 :: "int list \<Rightarrow> int"
  z_deflate :: "int list \<Rightarrow> (byte list \<times> bool) list \<Rightarrow> int \<times> nat \<times> byte list"
  z_inflateInit2 :: int
  z_inflate :: "byte list \<Rightarrow> nat \<Rightarrow> int \<times> byte list"
  z_turns :: nat

definition Z_OK :: int where "Z_OK = 0"
definition Z_STREAM_END :: int where "Z_STREAM_END = 1"

text \<open>The contents of a \<^verbatim>\<open>std::string\<close> as bytes.\<close>

definition bytes_of :: "string \<Rightarrow> byte list" where
  "bytes_of s = map of_char s"

section \<open>Hexadecimal digests\<close>

definition hex_digit :: "nat \<Rightarrow> char" where
  "hex_digit n = ''0123456789abcdef'' ! n"

definition print_sha1 :: "byte list \<Rightarrow> string" where
  "print_sha1 sha1 =
     concat (map (\<lambda>b. [hex_digit (unat b div 16 mod 16), hex_digit (unat b mod 16)]) sha1)"

definition short_sha1 :: "byte list \<Rightarrow> string" where
  "short_sha1 sha1 = print_sha1 (take 4 sha1)"

text \<open>The value of the character at \<open>*ps\<close>; past the end the terminator is read.\<close>

definition hex_value :: "char \<Rightarrow> nat option" where
  "hex_value c =
     (let n = of_char c :: nat
      in if 48 \<le> n \<and> n \<le> 57 then Some (n - 48)
         else if 97 \<le> n \<and> n \<le> 102 then Some (n - 97 + 10)
         else if 65 \<le> n \<and> n \<le> 70 then Some (n - 65 + 10)
         else None)"

text \<open>Two digits at a time: the loop of \<^verbatim>\<open>ParseSha1\<close> with \<open>n\<close> bytes still to fill.\<close>

fun ParseSha1_loop :: "nat \<Rightarrow> string \<Rightarrow> byte list \<Rightarrow> byte list option" where
  "ParseSha1_loop 0 ps digest = (if ps = [] then Some digest else None)"
| "ParseSha1_loop (Suc n) (c # d # ps) digest =
     (case hex_value c of
        None \<Rightarrow> None
      | Some hi \<Rightarrow>
          (case hex_value d of
             None \<Rightarrow> None
           | Some lo \<Rightarrow> ParseSha1_loop n ps (digest @ [of_nat (hi * 16 + lo)])))"
| "ParseSha1_loop (Suc n) ps digest = None"

definition ParseSha1 :: "string \<Rightarrow> byte list option" where
  "ParseSha1 str = ParseSha1_loop 20 (cstr str) []"

lemma hex_value_digit: "n < 16 \<Longrightarrow> hex_value (hex_digit n) = Some n"
proof -
  assume "n < 16"
  then have "n \<in> set [0..<16]" by simp
  then show ?thesis
    by (simp add: upt_rec hex_digit_def hex_value_def Let_def) (elim disjE; simp)
qed

lemma ParseSha1_loop_print:
  "length sha1 = n \<Longrightarrow> ParseSha1_loop n (print_sha1 sha1) acc = Some (acc @ sha1)"
proof (induction sha1 arbitrary: n acc)
  case Nil
  then show ?case by (simp add: print_sha1_def)
next
  case (Cons b sha1)
  have b: "unat b < 256" using unsigned_less [of b, where 'a = nat] by simp
  then have "unat b div 16 mod 16 * 16 + unat b mod 16 = unat b"
    by (simp add: less_mult_imp_div_less)
  then have "(of_nat (unat b div 16 mod 16 * 16 + unat b mod 16) :: byte) = b" by simp
  moreover obtain m where "n = Suc m" "length sha1 = m" using Cons.prems by (cases n) auto
  ultimately show ?case
    using Cons.IH by (simp add: print_sha1_def hex_value_digit)
qed

text \<open>
  A printed digest is read back: for every 20-byte digest, \<^verbatim>\<open>ParseSha1\<close> of the output
  of \<^verbatim>\<open>print_sha1\<close> succeeds and returns the digest.
\<close>

lemma ParseSha1_print_sha1:
  assumes "length sha1 = 20"
  shows "ParseSha1 (print_sha1 sha1) = Some sha1"
proof -
  have d: "CHR 0x00 \<noteq> hex_digit (n mod 16)" for n
  proof -
    have "hex_value (CHR 0x00) = None" by (simp add: hex_value_def)
    then show ?thesis using hex_value_digit [of "n mod 16"] by auto
  qed
  have "no_nul (print_sha1 sha1)"
    using d by (auto simp: no_nul_def print_sha1_def)
  then show ?thesis
    using ParseSha1_loop_print [OF assms, of "[]"] by (simp add: ParseSha1_def)
qed

lemma ParseSha1_loop_length:
  "ParseSha1_loop n ps acc = Some d \<Longrightarrow> length d = length acc + n \<and> length ps = 2 * n"
  by (induction n ps acc rule: ParseSha1_loop.induct) (auto split: option.splits if_splits)

text \<open>
  \<^verbatim>\<open>ParseSha1\<close> accepts exactly the strings whose text is 40 hexadecimal digits: a
  success yields 20 bytes and nothing may follow the digits.
\<close>

lemma ParseSha1_exact:
  "(\<exists>d. ParseSha1 str = Some d) \<longleftrightarrow>
     length (cstr str) = 40 \<and> list_all (\<lambda>c. hex_value c \<noteq> None) (cstr str)"
proof -
  have "(\<exists>d. ParseSha1_loop n ps acc = Some d) \<longleftrightarrow>
      length ps = 2 * n \<and> list_all (\<lambda>c. hex_value c \<noteq> None) ps" for n ps acc
    by (induction n ps acc rule: ParseSha1_loop.induct) (auto split: option.splits)
  then show ?thesis by (simp add: ParseSha1_def)
qed

section \<open>bsdiff patches\<close>

text \<open>\<open>ctx\<close> tells whether the pointer to the SHA-1 context is non-null.\<close>

definition sha_update :: "bool \<Rightarrow> byte list \<Rightarrow> ('z, unit) pw" where
  "sha_update ctx data =
     (if ctx then upd (\<lambda>s. s\<lparr>sha_ctx := sha_ctx s @ data\<rparr>) else ret ())"

definition sha_sink :: "bool \<Rightarrow> 'z SinkFn \<Rightarrow> 'z SinkFn" where
  "sha_sink ctx sink data = do {
     len \<leftarrow> sink data;
     sha_update ctx (take len data);
     ret len }"

definition ApplyBSDiffPatch ::
  "'z bspatch_fn \<Rightarrow> byte list \<Rightarrow> byte list \<Rightarrow> nat \<Rightarrow> 'z SinkFn \<Rightarrow> bool \<Rightarrow> ('z, int) pw" where
  "ApplyBSDiffPatch bspatch old_data patch patch_offset sink ctx = do {
     CHECK (patch_offset \<le> length patch);
     bspatch old_data (drop patch_offset patch) (sha_sink ctx sink) }"

section \<open>imgdiff patches\<close>

definition CHUNK_NORMAL :: int where "CHUNK_NORMAL = 0"
definition CHUNK_DEFLATE :: int where "CHUNK_DEFLATE = 2"
definition CHUNK_RAW :: int where "CHUNK_RAW = 3"

fun le_nat :: "byte list \<Rightarrow> nat" where
  "le_nat [] = 0"
| "le_nat (b # bs) = unat b + 256 * le_nat bs"

definition Read8 :: "byte list \<Rightarrow> nat \<Rightarrow> int" where
  "Read8 data pos = (let n = int (le_nat (take 8 (drop pos data)))
                     in if n < 2 ^ 63 then n else n - 2 ^ 64)"

definition Read4 :: "byte list \<Rightarrow> nat \<Rightarrow> int" where
  "Read4 data pos = (let n = int (le_nat (take 4 (drop pos data)))
                     in if n < 2 ^ 31 then n else n - 2 ^ 32)"

text \<open>\<^verbatim>\<open>static_cast<size_t>\<close>\<close>

definition to_size :: "int \<Rightarrow> nat" where
  "to_size i = nat (i mod 2 ^ 64)"

definition buffer_size :: nat where "buffer_size = 32768"

text \<open>The output of one turn of \<^verbatim>\<open>compression_sink\<close> goes to the sink and into the hash.\<close>

definition emit :: "'z SinkFn \<Rightarrow> bool \<Rightarrow> byte list \<Rightarrow> ('z, bool) pw" where
  "emit sink ctx buffer = do {
     took \<leftarrow> sink buffer;
     if took \<noteq> length buffer then ret False
     else do { sha_update ctx buffer; ret True } }"

text \<open>
  The loop of \<^verbatim>\<open>compression_sink\<close>.  \<open>data\<close> is what is left of the input.  After \<open>z_turns\<close>
  turns without an end the run counts as not returning.
\<close>

fun deflate_loop ::
  "nat \<Rightarrow> zlib \<Rightarrow> int list \<Rightarrow> 'z SinkFn \<Rightarrow> bool \<Rightarrow> bool \<Rightarrow> byte list \<Rightarrow> ('z, bool) pw" where
  "deflate_loop 0 zl zparams sink ctx finish data = do { CHECK False; ret False }"
| "deflate_loop (Suc n) zl zparams sink ctx finish data = do {
     calls \<leftarrow> gets z_calls;
     let calls = calls @ [(data, finish)];
         (r, consumed, buffer) = z_deflate zl zparams calls;
         have = length buffer
     in do {
       upd (\<lambda>s. s\<lparr>z_calls := calls, z_ret := r\<rparr>);
       if r \<noteq> Z_OK \<and> r \<noteq> Z_STREAM_END then ret False
       else do {
         upd (\<lambda>s. s\<lparr>total_written := size_add (total_written s) have\<rparr>);
         ok \<leftarrow> emit sink ctx buffer;
         if \<not> ok then ret False
         else if (drop consumed data \<noteq> [] \<or> have = buffer_size) \<and> r \<noteq> Z_STREAM_END
         then deflate_loop n zl zparams sink ctx finish (drop consumed data)
         else ret True } } }"

definition compression_sink :: "zlib \<Rightarrow> int list \<Rightarrow> nat \<Rightarrow> 'z SinkFn \<Rightarrow> bool \<Rightarrow> 'z SinkFn" where
  "compression_sink zl zparams expected_target_length sink ctx data = do {
     actual \<leftarrow> gets actual_target_length;
     let finish = (expected_target_length \<le> size_add actual (length data))
     in do {
       ok \<leftarrow> deflate_loop (z_turns zl) zl zparams sink ctx finish data;
       if \<not> ok then ret 0
       else do {
         upd (\<lambda>s. s\<lparr>actual_target_length := size_add (actual_target_length s) (length data)\<rparr>);
         ret (length data) } } }"

definition ApplyBSDiffPatchAndStreamOutput ::
  "'z bspatch_fn \<Rightarrow> zlib \<Rightarrow> byte list \<Rightarrow> byte list \<Rightarrow> nat \<Rightarrow> nat \<Rightarrow> 'z SinkFn \<Rightarrow> bool \<Rightarrow> ('z, bool) pw"
where
  "ApplyBSDiffPatchAndStreamOutput bspatch zl src_data patch patch_offset deflate_header sink ctx =
     (let expected_target_length = to_size (Read8 patch (deflate_header + 32));
          zparams = map (\<lambda>i. Read4 patch (deflate_header + i)) [40, 44, 48, 52, 56];
          r = z_deflateInit2 zl zparams
      in if r \<noteq> Z_OK then ret False
         else do {
           upd (\<lambda>s. s\<lparr>z_calls := [], z_ret := r, actual_target_length := 0, total_written := 0\<rparr>);
           bspatch_result \<leftarrow> ApplyBSDiffPatch bspatch src_data patch patch_offset
             (compression_sink zl zparams expected_target_length sink ctx) False;
           if bspatch_result \<noteq> 0 then ret False
           else do {
             r \<leftarrow> gets z_ret;
             actual \<leftarrow> gets actual_target_length;
             if r \<noteq> Z_STREAM_END then ret False
             else if expected_target_length \<noteq> actual then ret False
             else ret True } })"

text \<open>
  One chunk of a patch whose record starts at \<open>pos\<close>: the position after it, or \<open>None\<close> for the
  result \<open>-1\<close>.  The sums of the range checks are sums of \<^verbatim>\<open>size_t\<close> values.  A check that passes
  although the range does not fit (because its sum wrapped) makes the code read outside the
  buffer, which ends the run here.
\<close>

definition normal_chunk ::
  "'z bspatch_fn \<Rightarrow> byte list \<Rightarrow> byte list \<Rightarrow> 'z SinkFn \<Rightarrow> bool \<Rightarrow> nat \<Rightarrow> ('z, nat option) pw" where
  "normal_chunk bspatch old_data patch sink ctx pos =
     (let normal_header = pos; pos = pos + 24
      in if length patch < pos then ret None
         else
           let src_start = to_size (Read8 patch normal_header);
               src_len = to_size (Read8 patch (normal_header + 8));
               patch_offset = to_size (Read8 patch (normal_header + 16))
           in if length old_data < size_add src_start src_len then ret None
              else do {
                CHECK (src_start + src_len \<le> length old_data);
                r \<leftarrow> ApplyBSDiffPatch bspatch (take src_len (drop src_start old_data)) patch
                  patch_offset sink ctx;
                if r \<noteq> 0 then ret None else ret (Some pos) })"

definition raw_chunk :: "byte list \<Rightarrow> 'z SinkFn \<Rightarrow> bool \<Rightarrow> nat \<Rightarrow> ('z, nat option) pw" where
  "raw_chunk patch sink ctx pos =
     (let raw_header = pos; pos = pos + 4
      in if length patch < pos then ret None
         else
           let data_len = to_size (Read4 patch raw_header)
           in if length patch < size_add pos data_len then ret None
              else do {
                CHECK (pos + data_len \<le> length patch);
                let data = take data_len (drop pos patch) in do {
                  took \<leftarrow> do { sha_update ctx data; sink data };
                  if took \<noteq> data_len then ret None else ret (Some (pos + data_len)) } })"

definition deflate_chunk ::
  "'z bspatch_fn \<Rightarrow> zlib \<Rightarrow> byte list \<Rightarrow> byte list \<Rightarrow> 'z SinkFn \<Rightarrow> bool \<Rightarrow> byte list option \<Rightarrow> nat \<Rightarrow>
     nat \<Rightarrow> ('z, nat option) pw" where
  "deflate_chunk bspatch zl old_data patch sink ctx bonus_data i pos =
     (let deflate_header = pos; pos = pos + 60
      in if length patch < pos then ret None
         else
           let src_start = to_size (Read8 patch deflate_header);
               src_len = to_size (Read8 patch (deflate_header + 8));
               patch_offset = to_size (Read8 patch (deflate_header + 16));
               expanded_len = to_size (Read8 patch (deflate_header + 24))
           in if length old_data < size_add src_start src_len then ret None
              else do {
                CHECK (src_start + src_len \<le> length old_data);
                let bonus = (case bonus_data of Some b \<Rightarrow> if i = 1 then b else [] | None \<Rightarrow> []);
                    (r, out) = z_inflate zl (take src_len (drop src_start old_data)) expanded_len;
                    avail_out = expanded_len - length out
                in if expanded_len \<noteq> 0 \<and>
                      (z_inflateInit2 zl \<noteq> Z_OK \<or> r \<noteq> Z_STREAM_END \<or> avail_out \<noteq> length bonus)
                   then ret None
                   else do {
                     ok \<leftarrow> ApplyBSDiffPatchAndStreamOutput bspatch zl
                       (if expanded_len = 0 then [] else out @ bonus) patch patch_offset
                       deflate_header sink ctx;
                     if \<not> ok then ret None else ret (Some pos) } })"

fun chunks_loop ::
  "'z bspatch_fn \<Rightarrow> zlib \<Rightarrow> byte list \<Rightarrow> byte list \<Rightarrow> 'z SinkFn \<Rightarrow> bool \<Rightarrow> byte list option \<Rightarrow>
     nat \<Rightarrow> nat \<Rightarrow> nat \<Rightarrow> ('z, int) pw" where
  "chunks_loop bspatch zl old_data patch sink ctx bonus_data 0 i pos = ret 0"
| "chunks_loop bspatch zl old_data patch sink ctx bonus_data (Suc n) i pos =
     (if length patch < pos + 4 then ret (-1)
      else
        let type = Read4 patch pos; pos = pos + 4
        in do {
          next \<leftarrow> (if type = CHUNK_NORMAL then normal_chunk bspatch old_data patch sink ctx pos
                  else if type = CHUNK_RAW then raw_chunk patch sink ctx pos
                  else if type = CHUNK_DEFLATE
                  then deflate_chunk bspatch zl old_data patch sink ctx bonus_data i pos
                  else ret None);
          case next of
            None \<Rightarrow> ret (-1)
          | Some pos \<Rightarrow> chunks_loop bspatch zl old_data patch sink ctx bonus_data n (i + 1) pos })"

definition ApplyImagePatch ::
  "'z bspatch_fn \<Rightarrow> zlib \<Rightarrow> byte list \<Rightarrow> byte list \<Rightarrow> 'z SinkFn \<Rightarrow> bool \<Rightarrow> byte list option \<Rightarrow>
     ('z, int) pw" where
  "ApplyImagePatch bspatch zl old_data patch sink ctx bonus_data =
     (if length patch < 12 then ret (-1)
      else if take 8 patch \<noteq> bytes_of ''IMGDIFF2'' then ret (-1)
      else chunks_loop bspatch zl old_data patch sink ctx bonus_data (nat (Read4 patch 8)) 0 12)"

section \<open>What a patch run can change\<close>

text \<open>
  Assumption on the bsdiff library: it acts on the state only by calling the sink.
\<close>

definition sink_client :: "'z bspatch_fn \<Rightarrow> bool" where
  "sink_client bspatch \<longleftrightarrow>
     (\<forall>I old patch sink. (\<forall>d. keep I (sink d)) \<longrightarrow> keep I (bspatch old patch sink))"

text \<open>Invariants that do not look at the variables of the patch code itself.\<close>

definition patch_inv :: "('z patch_world_scheme \<Rightarrow> bool) \<Rightarrow> bool" where
  "patch_inv I \<longleftrightarrow>
     (\<forall>s x. I s \<longrightarrow> I (s\<lparr>z_calls := x\<rparr>)) \<and> (\<forall>s x. I s \<longrightarrow> I (s\<lparr>z_ret := x\<rparr>)) \<and>
     (\<forall>s x. I s \<longrightarrow> I (s\<lparr>actual_target_length := x\<rparr>)) \<and>
     (\<forall>s x. I s \<longrightarrow> I (s\<lparr>total_written := x\<rparr>)) \<and> (\<forall>s h. I s \<longrightarrow> I (s\<lparr>w_halted := h\<rparr>))"

lemma keep_patch_CHECK: "patch_inv I \<Longrightarrow> keep I (CHECK b)"
  by (auto simp: CHECK_def halt_def patch_inv_def intro!: keeps keep_upd)

lemma sink_clientD:
  "sink_client bspatch \<Longrightarrow> (\<And>d. keep I (sink d)) \<Longrightarrow> keep I (bspatch old patch sink)"
  unfolding sink_client_def by (elim allE impE) auto

text \<open>
  \<open>emits I sink ctx\<close>: handing a piece to the sink and to the SHA-1 context preserves \<open>I\<close>, in
  each of the ways the patch code does it.
\<close>

definition emits :: "('z patch_world_scheme \<Rightarrow> bool) \<Rightarrow> 'z SinkFn \<Rightarrow> bool \<Rightarrow> bool" where
  "emits I sink ctx \<longleftrightarrow>
     patch_inv I \<and> (\<forall>d. keep I (sha_sink ctx sink d)) \<and> (\<forall>d. keep I (emit sink ctx d)) \<and>
     (\<forall>d. keep I (do { sha_update ctx d; sink d }))"

lemma emits_no_ctx: "patch_inv I \<Longrightarrow> (\<And>d. keep I (sink d)) \<Longrightarrow> emits I sink False"
  by (auto simp: emits_def sha_sink_def emit_def sha_update_def intro!: keeps)

lemma keep_ApplyBSDiffPatch:
  assumes "sink_client bspatch" "patch_inv I" "\<And>d. keep I (sha_sink ctx sink d)"
  shows "keep I (ApplyBSDiffPatch bspatch old patch off sink ctx)"
  unfolding ApplyBSDiffPatch_def
  by (intro keep_bind keep_patch_CHECK assms(2) sink_clientD [OF assms(1)] assms(3))

lemma keep_deflate_loop:
  assumes "emits I sink ctx"
  shows "keep I (deflate_loop n zl zp sink ctx fin data)"
proof (induction n arbitrary: data)
  case 0
  show ?case using assms by (auto simp: emits_def intro!: keeps keep_patch_CHECK)
next
  case (Suc n)
  have "keep I (upd (\<lambda>s. s\<lparr>z_calls := c, z_ret := r\<rparr>))" "keep I (upd (\<lambda>s. s\<lparr>total_written := f s\<rparr>))"
    "keep I (emit sink ctx b)" for c r f b
    using assms by (auto simp: emits_def patch_inv_def intro!: keep_upd)
  with Suc show ?case
    unfolding deflate_loop.simps by (intro keeps)
qed

lemma keep_compression_sink:
  assumes "emits I sink ctx"
  shows "keep I (compression_sink zl zp n sink ctx data)"
  unfolding compression_sink_def
  using assms by (intro keeps keep_deflate_loop keep_upd) (auto simp: emits_def patch_inv_def)

lemma keep_stream_output:
  assumes "sink_client bspatch" "emits I sink ctx"
  shows "keep I (ApplyBSDiffPatchAndStreamOutput bspatch zl src patch off h sink ctx)"
proof -
  have inv: "patch_inv I" using assms(2) by (simp add: emits_def)
  have "keep I (sha_sink False (compression_sink zl zp n sink ctx) d)" for zp n d
    unfolding sha_sink_def sha_update_def if_False by (intro keeps keep_compression_sink assms(2))
  note bs = keep_ApplyBSDiffPatch [OF assms(1) inv this]
  show ?thesis
    unfolding ApplyBSDiffPatchAndStreamOutput_def
    using inv by (intro keeps bs keep_upd) (auto simp: patch_inv_def)
qed

lemma keep_chunks:
  assumes "sink_client bspatch" "emits I sink ctx"
  shows "keep I (normal_chunk bspatch old patch sink ctx pos)"
    and "keep I (raw_chunk patch sink ctx pos)"
    and "keep I (deflate_chunk bspatch zl old patch sink ctx bonus i pos)"
proof -
  have inv: "patch_inv I" and e: "\<And>d. keep I (sha_sink ctx sink d)"
    "\<And>d. keep I (do { sha_update ctx d; sink d })"
    using assms(2) by (simp_all add: emits_def)
  show "keep I (normal_chunk bspatch old patch sink ctx pos)"
    unfolding normal_chunk_def
    by (intro keeps keep_patch_CHECK keep_ApplyBSDiffPatch inv e(1) assms(1))
  show "keep I (raw_chunk patch sink ctx pos)"
    unfolding raw_chunk_def Let_def
    by (rule keep_if [OF keep_ret], rule keep_if [OF keep_ret], rule keep_bind,
        rule keep_patch_CHECK [OF inv], rule keep_bind, rule e(2)) (intro keeps)
  show "keep I (deflate_chunk bspatch zl old patch sink ctx bonus i pos)"
    unfolding deflate_chunk_def
    by (intro keeps keep_patch_CHECK keep_stream_output inv assms)
qed

lemma keep_chunks_loop:
  assumes "sink_client bspatch" "emits I sink ctx"
  shows "keep I (chunks_loop bspatch zl old patch sink ctx bonus n i pos)"
proof (induction n arbitrary: i pos)
  case (Suc n)
  show ?case unfolding chunks_loop.simps by (intro keeps keep_chunks [OF assms] Suc)
qed (simp add: keep_ret)

lemma keep_ApplyImagePatch:
  assumes "sink_client bspatch" "emits I sink ctx"
  shows "keep I (ApplyImagePatch bspatch zl old patch sink ctx bonus)"
  unfolding ApplyImagePatch_def by (intro keeps keep_chunks_loop assms)

section \<open>The memory sink\<close>

text \<open>The sink of \<^verbatim>\<open>GenerateTarget\<close>, which appends to a string.\<close>

definition memory_sink :: "'z SinkFn" where
  "memory_sink data = do {
     upd (\<lambda>s. s\<lparr>memory_sink_str := memory_sink_str s @ data\<rparr>);
     ret (length data) }"

text \<open>The hash covers exactly what the sink has stored, and \<open>J\<close> holds of the rest.\<close>

definition hashed :: "('z patch_world_scheme \<Rightarrow> bool) \<Rightarrow> 'z patch_world_scheme \<Rightarrow> bool" where
  "hashed J s \<longleftrightarrow> sha_ctx s = memory_sink_str s \<and> J s"

lemma emits_memory_sink:
  assumes "patch_inv J"
    and "\<And>s x. J s \<Longrightarrow> J (s\<lparr>sha_ctx := x\<rparr>)" "\<And>s x. J s \<Longrightarrow> J (s\<lparr>memory_sink_str := x\<rparr>)"
  shows "emits (hashed J) memory_sink True"
  using assms
  by (simp add: emits_def patch_inv_def hashed_def keep_def sha_sink_def emit_def sha_update_def
      memory_sink_def)

text \<open>
  C10.  Whatever the patch contains, applying it to memory keeps the running SHA-1 context equal
  to the hash input of the output produced so far, under the assumption that the bsdiff library
  acts only through its sink: the digest that is checked at the end is the digest of the bytes
  that are then written.
\<close>

theorem ApplyImagePatch_hashes_output:
  fixes bspatch :: "'z bspatch_fn"
  assumes "sink_client bspatch" "sha_ctx s = memory_sink_str s"
    and "run_state (ApplyImagePatch bspatch zl old patch memory_sink True bonus) s = (r, s')"
  shows "sha_ctx s' = memory_sink_str s'"
proof -
  have "emits (hashed (\<lambda>_. True)) (memory_sink :: 'z SinkFn) True"
    by (rule emits_memory_sink) (simp_all add: patch_inv_def)
  from keep_ApplyImagePatch [OF assms(1) this] have
    "keep (hashed (\<lambda>_. True)) (ApplyImagePatch bspatch zl old patch memory_sink True bonus)" .
  from keepD [OF this, of s] assms(2,3) show ?thesis by (simp add: hashed_def)
qed


subsection \<open>Concrete instances\<close>

text \<open>A library that hands the old data to the sink in one piece.\<close>

definition copy_bspatch :: "'z bspatch_fn" where
  "copy_bspatch old patch sink = do { n \<leftarrow> sink old; ret (if n = length old then 0 else 1) }"

lemma copy_bspatch_client: "sink_client copy_bspatch"
  by (auto simp: sink_client_def copy_bspatch_def intro!: keeps)

definition sample_patch_world :: patch_world where
  "sample_patch_world = edify_state.extend sample_world
     \<lparr>sha_ctx = [], memory_sink_str = [], z_calls = [], z_ret = 0, actual_target_length = 0,
      total_written = 0\<rparr>"

lemma sample_patch_world_simps [simp]:
  "\<not> w_halted sample_patch_world" "sha_ctx sample_patch_world = []"
  "memory_sink_str sample_patch_world = []"
  by (simp_all add: sample_patch_world_def edify_state.extend_def sample_world_def)



definition sample_zlib :: zlib where
  "sample_zlib = \<lparr>z_deflateInit2 = (\<lambda>_. 0), z_deflate = (\<lambda>_ cs. (1, length (fst (last cs)), fst (last cs))),
     z_inflateInit2 = 0, z_inflate = (\<lambda>d n. (1, take n d)), z_turns = 10\<rparr>"

text \<open>A patch with one raw chunk that holds the byte 9.\<close>

definition raw_patch :: "byte list" where
  "raw_patch = bytes_of ''IMGDIFF2'' @ [1, 0, 0, 0] @ [3, 0, 0, 0] @ [1, 0, 0, 0] @ [9]"

theorem ApplyImagePatch_hashes_output_witness:
  "\<exists>r s'. run_state (ApplyImagePatch copy_bspatch sample_zlib [] raw_patch memory_sink True None)
       sample_patch_world = (r, s') \<and> sha_ctx s' = memory_sink_str s'"
  using ApplyImagePatch_hashes_output [OF copy_bspatch_client, of sample_patch_world]
  by (metis (no_types, lifting) prod.collapse sample_patch_world_simps(2,3))

end
