(* ===== verification/Apply_Patch.thy ===== *)
theory Apply_Patch
  imports Patching "HOL-Library.List_Lexorder" "HOL-Library.Char_ord" "HOL-Library.Product_Lexorder"
begin

text \<open>
  Patching a partition (\<^verbatim>\<open>applypatch/applypatch.cpp\<close>) and making room for the backup copy on the
  cache partition (\<^verbatim>\<open>applypatch/freecache.cpp\<close>, \<^verbatim>\<open>otautil/cache_location.cpp\<close>).

  Parameters: SHA-1 (\<open>sha1\<close>), the string functions of android-base, the bsdiff and zlib
  libraries, and the platform: the answer of \<^verbatim>\<open>statfs\<close> for the files present, and the list of
  files that processes have open (what \<^verbatim>\<open>/proc\<close> shows).  The messages printed on standard output
  are left out.
\<close>

section \<open>Parameters\<close>

record platform =
  pf_statfs :: "(string \<times> byte list) list \<Rightarrow> (nat \<times> nat) option"
  pf_open_files :: "string list option"

record cache_location =
  cache_temp_source :: string
  last_command_file :: string
  stash_directory_base :: string

definition default_cache_location :: cache_location where
  "default_cache_location =
     \<lparr>cache_temp_source = ''/cache/saved.file'', last_command_file = ''/cache/recovery/last_command'',
      stash_directory_base = ''/cache/recovery''\<rparr>"

record 'z env =
  e_ab :: android_base
  e_sha1 :: "byte list \<Rightarrow> byte list"
  e_bspatch :: "'z bspatch_fn"
  e_zlib :: zlib
  e_platform :: platform
  e_cache :: cache_location

record FileContents =
  f_sha1 :: "byte list"
  f_data :: "byte list"

section \<open>Making free space on the cache partition\<close>

definition FreeSpaceForFile :: "'z env \<Rightarrow> string \<Rightarrow> ('z, nat) pw" where
  "FreeSpaceForFile e filename = do {
     ev \<leftarrow> next_event;
     files \<leftarrow> gets w_files;
     case ev of
       IoErr er _ \<Rightarrow> do { fail er; ret SIZE_MAX }
     | IoHalt _ \<Rightarrow> do { halt; ret SIZE_MAX }
     | _ \<Rightarrow>
         (case pf_statfs (e_platform e) files of
            None \<Rightarrow> ret SIZE_MAX
          | Some (f_bsize, f_bavail) \<Rightarrow> ret (size_mul f_bsize f_bavail)) }"

text \<open>A \<^verbatim>\<open>std::set<std::string>\<close> is a strictly sorted list.\<close>

definition set_insert :: "string \<Rightarrow> string list \<Rightarrow> string list" where
  "set_insert x xs = (if x \<in> set xs then xs else insort x xs)"

definition EliminateOpenFiles :: "'z env \<Rightarrow> string list \<Rightarrow> ('z, (int \<times> string list)) pw" where
  "EliminateOpenFiles e files =
     (case pf_open_files (e_platform e) of
        None \<Rightarrow> ret (-1, files)
      | Some links \<Rightarrow>
          ret (0, filter (\<lambda>f. \<not> (f \<in> set links \<and> take 7 f = ''/cache/'')) files))"

fun expendable_loop :: "'z env \<Rightarrow> string \<Rightarrow> string list \<Rightarrow> string list \<Rightarrow> ('z, string list) pw" where
  "expendable_loop e dir [] files = ret files"
| "expendable_loop e dir (d_name # names) files =
     (let path = dir @ ''/'' @ d_name in
      if path = cache_temp_source (e_cache e) then expendable_loop e dir names files
      else do {
        st \<leftarrow> sys_stat path;
        expendable_loop e dir names (if st \<noteq> None then set_insert path files else files) })"

fun expendable_dirs :: "'z env \<Rightarrow> string list \<Rightarrow> string list \<Rightarrow> ('z, string list) pw" where
  "expendable_dirs e [] files = ret files"
| "expendable_dirs e (dir # dirs) files = do {
     d \<leftarrow> sys_listdir dir;
     case d of
       None \<Rightarrow> expendable_dirs e dirs files
     | Some names \<Rightarrow> do {
         files \<leftarrow> expendable_loop e dir names files;
         expendable_dirs e dirs files } }"

definition FindExpendableFiles :: "'z env \<Rightarrow> ('z, string list) pw" where
  "FindExpendableFiles e = do {
     files \<leftarrow> expendable_dirs e [''/cache'', ''/cache/recovery/otatest''] [];
     (r, files) \<leftarrow> EliminateOpenFiles e files;
     ret (if r < 0 then [] else files) }"

fun delete_loop :: "'z env \<Rightarrow> nat \<Rightarrow> string list \<Rightarrow> nat \<Rightarrow> ('z, nat) pw" where
  "delete_loop e bytes_needed [] free_now = ret free_now"
| "delete_loop e bytes_needed (file # files) free_now = do {
     sys_unlink file;
     free_now \<leftarrow> FreeSpaceForFile e ''/cache'';
     if free_now < bytes_needed then ret free_now
     else delete_loop e bytes_needed files free_now }"

definition MakeFreeSpaceOnCache :: "'z env \<Rightarrow> nat \<Rightarrow> ('z, int) pw" where
  "MakeFreeSpaceOnCache e bytes_needed = do {
     free_now \<leftarrow> FreeSpaceForFile e ''/cache'';
     if bytes_needed \<le> free_now then ret 0
     else do {
       files \<leftarrow> FindExpendableFiles e;
       if files = [] then ret (-1)
       else do {
         free_now \<leftarrow> delete_loop e bytes_needed files free_now;
         ret (if bytes_needed \<le> free_now then 0 else -1) } } }"

definition CacheSizeCheck :: "'z env \<Rightarrow> nat \<Rightarrow> ('z, int) pw" where
  "CacheSizeCheck e bytes = do {
     r \<leftarrow> MakeFreeSpaceOnCache e bytes;
     ret (if r < 0 then 1 else 0) }"

section \<open>Reading\<close>

definition starts_with :: "string \<Rightarrow> string \<Rightarrow> bool" where
  "starts_with pre s \<longleftrightarrow> take (length pre) s = pre"

text \<open>The (size, sha1) pairs of a partition name, from the list of pieces after the device.\<close>

fun parse_pairs :: "android_base \<Rightarrow> string list \<Rightarrow> (nat \<times> string) list option" where
  "parse_pairs ab (sz # hash # pieces) =
     (case ab_parse_uint ab sz SIZE_MAX of
        None \<Rightarrow> None
      | Some sz \<Rightarrow>
          if sz = 0 then None
          else map_option ((#) (sz, hash)) (parse_pairs ab pieces))"
| "parse_pairs ab pieces = Some []"

text \<open>
  The loop over the sorted pairs: \<open>buffer\<close> is what has been read so far and fed to the hash.
  \<open>None\<close> is the result \<open>-1\<close>.
\<close>

fun load_pairs :: "'z env \<Rightarrow> int \<Rightarrow> (nat \<times> string) list \<Rightarrow> byte list \<Rightarrow> ('z, byte list option) pw" where
  "load_pairs e dev [] buffer = ret None"
| "load_pairs e dev ((current_size, current_sha1) # pairs) buffer =
     (let next = current_size - length buffer in do {
        r \<leftarrow> (if 0 < next then do {
               xs \<leftarrow> ota_fread dev next;
               ret (if length xs \<noteq> next then None else Some (buffer @ xs)) }
             else ret (Some buffer));
        case r of
          None \<Rightarrow> ret None
        | Some buffer \<Rightarrow>
            (case ParseSha1 current_sha1 of
               None \<Rightarrow> ret None
             | Some parsed_sha \<Rightarrow>
                 if e_sha1 e buffer = parsed_sha then ret (Some buffer)
                 else load_pairs e dev pairs buffer) })"

definition LoadPartitionContents :: "'z env \<Rightarrow> string \<Rightarrow> ('z, FileContents option) pw" where
  "LoadPartitionContents e filename =
     (let pieces = ab_split (e_ab e) filename '':'' in
      if length pieces < 4 \<or> odd (length pieces) \<or> pieces ! 0 \<noteq> ''EMMC'' then ret None
      else
        case parse_pairs (e_ab e) (drop 2 pieces) of
          None \<Rightarrow> ret None
        | Some pairs \<Rightarrow> do {
            dev \<leftarrow> ota_fopen (cstr (pieces ! 1)) [O_RDONLY];
            if dev = -1 then ret None
            else do {
              r \<leftarrow> load_pairs e dev (sort pairs) [];
              ota_fclose dev;
              case r of
                None \<Rightarrow> ret None
              | Some buffer \<Rightarrow> ret (Some \<lparr>f_sha1 = e_sha1 e buffer, f_data = buffer\<rparr>) } })"

definition LoadFileContents :: "'z env \<Rightarrow> string \<Rightarrow> ('z, FileContents option) pw" where
  "LoadFileContents e filename =
     (if starts_with ''EMMC:'' filename then LoadPartitionContents e filename
      else do {
        sb \<leftarrow> sys_stat filename;
        case sb of
          None \<Rightarrow> ret None
        | Some st_size \<Rightarrow> do {
            f \<leftarrow> ota_fopen filename [O_RDONLY];
            if f = -1 then ret None
            else do {
              data \<leftarrow> ota_fread f st_size;
              ota_fclose f;
              if length data \<noteq> st_size then ret None
              else ret (Some \<lparr>f_sha1 = e_sha1 e data, f_data = data\<rparr>) } } })"

section \<open>Writing\<close>

text \<open>
  \<^verbatim>\<open>FileSink\<close>: the number of bytes written.  A successful write stores at least one byte of a
  non-empty buffer, so \<open>length data\<close> turns are enough; a write that stores nothing forever would
  not return.
\<close>

fun FileSink_loop :: "nat \<Rightarrow> int \<Rightarrow> byte list \<Rightarrow> nat \<Rightarrow> ('z, nat) pw" where
  "FileSink_loop 0 fd data so_far = do { CHECK (length data \<le> so_far); ret so_far }"
| "FileSink_loop (Suc n) fd data so_far =
     (if so_far < length data then do {
        wrote \<leftarrow> TEMP_FAILURE_RETRY (\<lambda>r. r = -1) (ota_write fd (drop so_far data));
        if wrote = -1 then ret so_far else FileSink_loop n fd data (so_far + nat wrote) }
      else ret so_far)"

definition FileSink :: "byte list \<Rightarrow> int \<Rightarrow> ('z, nat) pw" where
  "FileSink data fd = FileSink_loop (length data) fd data 0"

definition SaveFileContents :: "string \<Rightarrow> FileContents \<Rightarrow> ('z, int) pw" where
  "SaveFileContents filename file = do {
     fd \<leftarrow> ota_open filename [O_WRONLY, O_CREAT, O_TRUNC, O_SYNC];
     if fd = -1 then ret (-1)
     else do {
       bytes_written \<leftarrow> FileSink (f_data file) fd;
       if bytes_written \<noteq> length (f_data file) then do { ota_close fd; ret (-1) }
       else do {
         r \<leftarrow> ota_fsync fd;
         if r \<noteq> 0 then do { ota_close fd; ret (-1) }
         else do {
           r \<leftarrow> ota_close fd;
           ret (if r \<noteq> 0 then -1 else 0) } } } }"

text \<open>The write loop of one attempt: \<open>False\<close> is the result \<open>-1\<close>.\<close>

fun write_chunks :: "nat \<Rightarrow> int \<Rightarrow> byte list \<Rightarrow> nat \<Rightarrow> ('z, bool) pw" where
  "write_chunks 0 fd data start = do { CHECK (length data \<le> start); ret True }"
| "write_chunks (Suc n) fd data start =
     (if start < length data then do {
        written \<leftarrow> TEMP_FAILURE_RETRY (\<lambda>r. r = -1)
          (ota_write fd (take (min (length data - start) (2 ^ 20)) (drop start data)));
        if written = -1 then ret False else write_chunks n fd data (start + nat written) }
      else ret True)"

text \<open>Reading back \<open>n\<close> bytes in as many calls as it takes; \<open>None\<close> is the result \<open>-1\<close>.\<close>

fun read_back :: "nat \<Rightarrow> int \<Rightarrow> nat \<Rightarrow> byte list \<Rightarrow> ('z, byte list option) pw" where
  "read_back 0 fd to_read buffer =
     do { CHECK (to_read \<le> length buffer); ret (Some buffer) }"
| "read_back (Suc n) fd to_read buffer =
     (if length buffer < to_read then do {
        r \<leftarrow> TEMP_FAILURE_RETRY (\<lambda>r. r = None) (ota_read fd (to_read - length buffer));
        case r of
          None \<Rightarrow> ret None
        | Some xs \<Rightarrow>
            if xs = [] then ret None else read_back n fd to_read (buffer @ xs) }
      else ret (Some buffer))"

text \<open>
  The verification loop: the offset of the first 4096-byte piece that differs, or the length of
  the data; \<open>None\<close> is the result \<open>-1\<close>.
\<close>

function verify_loop :: "int \<Rightarrow> byte list \<Rightarrow> nat \<Rightarrow> ('z, nat option) pw" where
  "verify_loop fd data p =
     (if p < length data then
        let to_read = min (length data - p) 4096 in do {
          r \<leftarrow> read_back to_read fd to_read [];
          case r of
            None \<Rightarrow> ret None
          | Some buffer \<Rightarrow>
              if buffer \<noteq> take to_read (drop p data) then ret (Some p)
              else verify_loop fd data (p + 4096) }
      else ret (Some (length data)))"
  by pat_completeness auto
termination
  by (relation "measure (\<lambda>(_, data, p). length data - p)") auto

declare verify_loop.simps [simp del]

definition drop_caches :: "('z, unit) pw" where
  "drop_caches = do {
     dc \<leftarrow> ota_open ''/proc/sys/vm/drop_caches'' [O_WRONLY];
     TEMP_FAILURE_RETRY (\<lambda>r. r = -1) (ota_write dc [51, 10]);
     ota_close dc;
     ret () }"

text \<open>
  The first and the second half of an attempt: writing the data from \<open>start\<close> on, and reading it
  back from the beginning.  \<open>False\<close> and \<open>None\<close> stand for the result \<open>-1\<close>.
\<close>

definition write_attempt :: "int \<Rightarrow> byte list \<Rightarrow> nat \<Rightarrow> ('z, bool) pw" where
  "write_attempt fd data start = do {
     r \<leftarrow> TEMP_FAILURE_RETRY (\<lambda>r. r = -1) (sys_lseek fd start);
     if r = -1 then ret False
     else do {
       ok \<leftarrow> write_chunks (length data) fd data start;
       if \<not> ok then ret False
       else do {
         r \<leftarrow> ota_fsync fd;
         ret (r = 0) } } }"

definition verify_attempt :: "int \<Rightarrow> byte list \<Rightarrow> ('z, nat option) pw" where
  "verify_attempt fd data = do {
     drop_caches;
     r \<leftarrow> TEMP_FAILURE_RETRY (\<lambda>r. r = -1) (sys_lseek fd 0);
     if r = -1 then ret None else verify_loop fd data 0 }"

text \<open>
  The attempts to write and verify.  The result is \<open>None\<close> for the early return \<open>-1\<close> (which
  closes the descriptor), else whether the verification succeeded and the descriptor open then.
\<close>

fun partition_attempts ::
  "nat \<Rightarrow> string \<Rightarrow> int \<Rightarrow> byte list \<Rightarrow> nat \<Rightarrow> ('z, (bool \<times> int) option) pw" where
  "partition_attempts 0 part fd data start = ret (Some (False, fd))"
| "partition_attempts (Suc n) part fd data start = do {
     ok \<leftarrow> write_attempt fd data start;
     if \<not> ok then do { ota_close fd; ret None }
     else do {
       r \<leftarrow> ota_close fd;
       if r \<noteq> 0 then ret None
       else do {
         fd \<leftarrow> ota_open part [O_RDONLY];
         if fd = -1 then ret None
         else do {
           v \<leftarrow> verify_attempt fd data;
           case v of
             None \<Rightarrow> do { ota_close fd; ret None }
           | Some start \<Rightarrow>
               if start = length data then ret (Some (True, fd))
               else do {
                 r \<leftarrow> ota_close fd;
                 if r \<noteq> 0 then ret None
                 else do {
                   fd \<leftarrow> ota_open part [O_RDWR];
                   if fd = -1 then ret None
                   else partition_attempts n part fd data start } } } } } }"

text \<open>
  \<^verbatim>\<open>WriteToPartition(data, len, target)\<close>.  A length beyond the end of the buffer makes the
  writes read outside it.
\<close>

definition WriteToPartition :: "'z env \<Rightarrow> byte list \<Rightarrow> nat \<Rightarrow> string \<Rightarrow> ('z, int) pw" where
  "WriteToPartition e data len target =
     (let pieces = ab_split (e_ab e) target '':'' in
      if length pieces < 2 \<or> pieces ! 0 \<noteq> ''EMMC'' then ret (-1)
      else
        let part = cstr (pieces ! 1) in do {
          fd \<leftarrow> ota_open part [O_RDWR];
          if fd = -1 then ret (-1)
          else do {
            CHECK (len \<le> length data);
            r \<leftarrow> partition_attempts 2 part fd (take len data) 0;
            case r of
              None \<Rightarrow> ret (-1)
            | Some (success, fd) \<Rightarrow>
                if \<not> success then do { ota_close fd; ret (-1) }
                else do {
                  r \<leftarrow> ota_close fd;
                  ret (if r = -1 then -1 else 0) } } })"

section \<open>Checking and patching\<close>

fun FindMatchingPatch_loop :: "byte list \<Rightarrow> string list \<Rightarrow> nat \<Rightarrow> int" where
  "FindMatchingPatch_loop sha1 [] i = -1"
| "FindMatchingPatch_loop sha1 (str # strs) i =
     (if ParseSha1 str = Some sha1 then int i else FindMatchingPatch_loop sha1 strs (i + 1))"

definition FindMatchingPatch :: "byte list \<Rightarrow> string list \<Rightarrow> int" where
  "FindMatchingPatch sha1 patch_sha1_str = FindMatchingPatch_loop sha1 patch_sha1_str 0"

definition applypatch_check :: "'z env \<Rightarrow> string \<Rightarrow> string list \<Rightarrow> ('z, int) pw" where
  "applypatch_check e filename patch_sha1_str = do {
     file \<leftarrow> LoadFileContents e filename;
     if (case file of
           None \<Rightarrow> True
         | Some file \<Rightarrow>
             patch_sha1_str \<noteq> [] \<and> FindMatchingPatch (f_sha1 file) patch_sha1_str < 0)
     then do {
       file \<leftarrow> LoadFileContents e (cache_temp_source (e_cache e));
       case file of
         None \<Rightarrow> ret 1
       | Some file \<Rightarrow>
           ret (if FindMatchingPatch (f_sha1 file) patch_sha1_str < 0 then 1 else 0) }
     else ret 0 }"

definition GenerateTarget ::
  "'z env \<Rightarrow> FileContents \<Rightarrow> Value \<Rightarrow> string \<Rightarrow> byte list \<Rightarrow> Value option \<Rightarrow> ('z, int) pw" where
  "GenerateTarget e source_file patch target_filename target_sha1 bonus_data =
     (if v_type patch \<noteq> VAL_BLOB then ret 1
      else
        let header = v_data patch;
            patch_bytes = bytes_of (v_data patch);
            use_bsdiff = starts_with ''BSDIFF40'' header
        in if \<not> use_bsdiff \<and> \<not> starts_with ''IMGDIFF2'' header then ret 1
           else do {
             CHECK (starts_with ''EMMC:'' target_filename);
             r \<leftarrow> MakeFreeSpaceOnCache e (length (f_data source_file));
             if r < 0 then ret 1
             else do {
               r \<leftarrow> SaveFileContents (cache_temp_source (e_cache e)) source_file;
               if r < 0 then ret 1
               else do {
                 upd (\<lambda>s. s\<lparr>memory_sink_str := [], sha_ctx := []\<rparr>);
                 result \<leftarrow>
                   (if use_bsdiff
                    then ApplyBSDiffPatch (e_bspatch e) (f_data source_file) patch_bytes 0
                      memory_sink True
                    else ApplyImagePatch (e_bspatch e) (e_zlib e) (f_data source_file) patch_bytes
                      memory_sink True (map_option (\<lambda>v. bytes_of (v_data v)) bonus_data));
                 if result \<noteq> 0 then ret 1
                 else do {
                   ctx \<leftarrow> gets sha_ctx;
                   if e_sha1 e ctx \<noteq> target_sha1 then ret 1
                   else do {
                     out \<leftarrow> gets memory_sink_str;
                     r \<leftarrow> WriteToPartition e out (length out) target_filename;
                     if r \<noteq> 0 then ret 1
                     else do {
                       sys_unlink (cache_temp_source (e_cache e));
                       ret 0 } } } } } })"

text \<open>The part of \<^verbatim>\<open>applypatch\<close> that falls back to the copy on the cache partition.\<close>

definition applypatch_copy ::
  "'z env \<Rightarrow> string \<Rightarrow> byte list \<Rightarrow> string list \<Rightarrow> Value list \<Rightarrow> Value option \<Rightarrow> ('z, int) pw" where
  "applypatch_copy e target_filename target_sha1 patch_sha1_str patch_data bonus_data = do {
     copy_file \<leftarrow> LoadFileContents e (cache_temp_source (e_cache e));
     case copy_file of
       None \<Rightarrow> ret 1
     | Some f \<Rightarrow>
         let to_use = FindMatchingPatch (f_sha1 f) patch_sha1_str in
         if to_use = -1 then ret 1
         else do {
           CHECK (nat to_use < length patch_data);
           GenerateTarget e f (patch_data ! nat to_use) target_filename target_sha1 bonus_data } }"

definition applypatch ::
  "'z env \<Rightarrow> string \<Rightarrow> string \<Rightarrow> string \<Rightarrow> string list \<Rightarrow> Value list \<Rightarrow> Value option \<Rightarrow> ('z, int) pw" where
  "applypatch e source_filename target_filename target_sha1_str patch_sha1_str patch_data bonus_data =
     (let target_filename = (if target_filename = ''-'' then source_filename else target_filename)
      in if \<not> starts_with ''EMMC:'' target_filename then ret 1
         else case ParseSha1 target_sha1_str of
           None \<Rightarrow> ret 1
         | Some target_sha1 \<Rightarrow> do {
             tgt \<leftarrow> LoadFileContents e target_filename;
             if (case tgt of None \<Rightarrow> False | Some f \<Rightarrow> f_sha1 f = target_sha1) then ret 0
             else do {
               source_file \<leftarrow>
                 (if (case tgt of None \<Rightarrow> True | Some f \<Rightarrow> f_data f = []) \<or>
                     target_filename \<noteq> source_filename
                  then LoadFileContents e source_filename else ret tgt);
               let to_use = (case source_file of
                      None \<Rightarrow> -1
                    | Some f \<Rightarrow>
                        if f_data f = [] then -1 else FindMatchingPatch (f_sha1 f) patch_sha1_str)
               in case source_file of
                    Some f \<Rightarrow>
                      if to_use \<noteq> -1 then do {
                        CHECK (nat to_use < length patch_data);
                        GenerateTarget e f (patch_data ! nat to_use) target_filename target_sha1
                          bonus_data }
                      else applypatch_copy e target_filename target_sha1 patch_sha1_str patch_data
                        bonus_data
                  | None \<Rightarrow>
                      applypatch_copy e target_filename target_sha1 patch_sha1_str patch_data
                        bonus_data } })"

definition applypatch_flash :: "'z env \<Rightarrow> string \<Rightarrow> string \<Rightarrow> string \<Rightarrow> nat \<Rightarrow> ('z, int) pw" where
  "applypatch_flash e source_filename target_filename target_sha1_str tgt_size =
     (case ParseSha1 target_sha1_str of
        None \<Rightarrow> ret 1
      | Some target_sha1 \<Rightarrow>
          let pieces = ab_split (e_ab e) target_filename '':'' in
          if length pieces \<noteq> 2 \<or> pieces ! 0 \<noteq> ''EMMC'' then ret 1
          else
            let fullname = ab_join (e_ab e)
                  (pieces @ [to_string tgt_size, cstr target_sha1_str]) (CHR '':'')
            in do {
              tgt \<leftarrow> LoadPartitionContents e fullname;
              if (case tgt of None \<Rightarrow> False | Some f \<Rightarrow> f_sha1 f = target_sha1) then ret 0
              else do {
                src \<leftarrow> LoadFileContents e source_filename;
                if (case src of None \<Rightarrow> False | Some f \<Rightarrow> f_sha1 f \<noteq> target_sha1) then ret 1
                else do {
                  let data = (case src of
                        Some f \<Rightarrow> f_data f
                      | None \<Rightarrow> (case tgt of Some f \<Rightarrow> f_data f | None \<Rightarrow> []))
                  in do {
                    r \<leftarrow> WriteToPartition e data tgt_size target_filename;
                    ret (if r \<noteq> 0 then 1 else 0) } } } })"

section \<open>Reading changes nothing and returns what is there\<close>

text \<open>Every program below preserves each invariant that ignores the I/O bookkeeping, as far as the
  invariant survives the writes and deletions of that program.\<close>

lemma keep_load_pairs:
  assumes "io_inv I"
  shows "keep (io_keep fds I) (load_pairs e dev pairs buf)"
proof (induction pairs arbitrary: buf)
  case (Cons p pairs)
  show ?case
    by (cases p, simp only: load_pairs.simps) (intro keeps iok assms Cons)
qed (simp add: keep_ret)

lemma open_ok_plain [simp]: "open_ok I p [O_RDONLY]" "open_ok I p [O_RDWR]" "open_ok I p [O_WRONLY]"
  by (simp_all add: open_ok_def)

lemma keep_LoadPartitionContents:
  "io_inv I \<Longrightarrow> keep (io_keep fds I) (LoadPartitionContents e f)"
  unfolding LoadPartitionContents_def Let_def
  by (intro keep_if keep_option keep_ret keep_ota_open_bind open_ok_plain; (intro keeps iok keep_load_pairs)?; simp)

lemma keep_LoadFileContents: "io_inv I \<Longrightarrow> keep (io_keep fds I) (LoadFileContents e f)"
  unfolding LoadFileContents_def
  by (intro keep_if keep_LoadPartitionContents keep_bind keep_sys_stat keep_option keep_ret
      keep_ota_open_bind open_ok_plain; (intro keeps iok)?; simp)

lemma wp_load_pairs:
  fixes s :: "'z patch_world_scheme"
  assumes "at dev p (length buf) c s" "buf = take (length buf) c" "sorted (map fst pairs)"
    and "\<forall>(n, h) \<in> set pairs. length buf \<le> n"
  shows "wp (load_pairs e dev pairs buf)
    (\<lambda>r s'. \<forall>b. r = Some b \<longrightarrow>
       (\<exists>n h. (n, h) \<in> set pairs \<and> length b = n \<and> b = take n c \<and> ParseSha1 h = Some (e_sha1 e b))) s"
  using assms
proof (induction pairs arbitrary: buf s)
  case (Cons nh pairs)
  obtain n h where nh: "nh = (n, h)" by (cases nh)
  have le: "length buf \<le> n" using Cons.prems(4) by (simp add: nh)
  let ?Q = "\<lambda>r s'. \<forall>b. r = Some b \<longrightarrow> (\<exists>m g. (m, g) \<in> set (nh # pairs) \<and> length b = m \<and>
      b = take m c \<and> ParseSha1 g = Some (e_sha1 e b))"
  have rest: "wp (case ParseSha1 h of None \<Rightarrow> ret None | Some ps \<Rightarrow>
      if e_sha1 e b = ps then ret (Some b) else load_pairs e dev pairs b) ?Q s'"
    if "at dev p (length b) c s'" "b = take n c" "length b = n" for b s'
  proof -
    have sorted: "sorted (map fst pairs)" "\<forall>(m, g) \<in> set pairs. length b \<le> m"
      using Cons.prems(3) that(3) by (auto simp: nh)
    have "b = take (length b) c" using that by simp
    note ih = Cons.IH [OF that(1) this sorted]
    show ?thesis
    proof (cases "ParseSha1 h")
      case (Some ps)
      have "wp (load_pairs e dev pairs b) ?Q s'" by (rule wp_mono [OF ih]) auto
      then show ?thesis using Some that by (auto simp: nh)
    qed simp
  qed
  show ?case
  proof (cases "0 < n - length buf")
    case True
    have "wp (ota_fread dev (n - length buf)) (read_some dev p (length buf) c (n - length buf)) s"
      using Cons.prems(1) by (rule wp_ota_fread)
    then have "wp (ota_fread dev (n - length buf)) (\<lambda>xs s'. wp (
        case (if length xs \<noteq> n - length buf then None else Some (buf @ xs)) of
          None \<Rightarrow> ret None
        | Some b \<Rightarrow> (case ParseSha1 h of None \<Rightarrow> ret None | Some ps \<Rightarrow>
            if e_sha1 e b = ps then ret (Some b) else load_pairs e dev pairs b)) ?Q s') s"
    proof (rule wp_mono)
      fix xs and s' :: "'z patch_world_scheme"
      assume r: "read_some dev p (length buf) c (n - length buf) xs s'"
      show "wp (case (if length xs \<noteq> n - length buf then None else Some (buf @ xs)) of
          None \<Rightarrow> ret None
        | Some b \<Rightarrow> (case ParseSha1 h of None \<Rightarrow> ret None | Some ps \<Rightarrow>
            if e_sha1 e b = ps then ret (Some b) else load_pairs e dev pairs b)) ?Q s'"
      proof (cases "length xs = n - length buf")
        case True
        have "xs = take (n - length buf) (drop (length buf) c)"
          using r True by (simp add: read_some_def)
        then have a1: "buf @ xs = take n c"
          using Cons.prems(2) le take_add [of "length buf" "n - length buf" c] by simp
        have a2: "length (buf @ xs) = n" using True le by simp
        have a3: "at dev p (length (buf @ xs)) c s'" using r True le by (simp add: read_some_def)
        show ?thesis using rest [OF a3 a1 a2] True by simp
      qed simp
    qed
    with True show ?thesis by (simp add: nh Let_def)
  next
    case False
    then have "length buf = n" using le by simp
    with Cons.prems(2) have "buf = take n c" by simp
    with \<open>length buf = n\<close> have "wp (case ParseSha1 h of None \<Rightarrow> ret None | Some ps \<Rightarrow>
        if e_sha1 e buf = ps then ret (Some buf) else load_pairs e dev pairs buf) ?Q s"
      by (intro rest [OF Cons.prems(1)])
    with False show ?thesis by (simp add: nh Let_def)
  qed
qed simp

text \<open>The device that a partition name refers to.\<close>

definition partition_of :: "'z env \<Rightarrow> string \<Rightarrow> string" where
  "partition_of e filename = cstr (ab_split (e_ab e) filename '':'' ! 1)"

text \<open>What a successful load has found in a partition with the contents \<open>c\<close>.\<close>

definition loaded :: "'z env \<Rightarrow> string \<Rightarrow> byte list \<Rightarrow> FileContents \<Rightarrow> bool" where
  "loaded e filename c f \<longleftrightarrow>
     (\<exists>pairs n h. parse_pairs (e_ab e) (drop 2 (ab_split (e_ab e) filename '':'')) = Some pairs \<and>
        (n, h) \<in> set pairs \<and> n \<le> length c \<and> f_data f = take n c \<and>
        f_sha1 f = e_sha1 e (take n c) \<and> ParseSha1 h = Some (f_sha1 f))"

lemma wp_LoadPartitionContents:
  fixes s :: "'z patch_world_scheme"
  assumes fl: "file_of s (partition_of e filename) = Some c"
  shows "wp (LoadPartitionContents e filename) (\<lambda>r s'. \<forall>f. r = Some f \<longrightarrow> loaded e filename c f) s"
proof -
  let ?pieces = "ab_split (e_ab e) filename '':''"
  let ?p = "cstr (?pieces ! 1)"
  let ?Q = "\<lambda>pairs r. \<forall>b. r = Some b \<longrightarrow> (\<exists>n h. (n, h) \<in> set pairs \<and> length b = n \<and> b = take n c \<and>
      ParseSha1 h = Some (e_sha1 e b))"
  have oc: "opened_contents ?p [O_RDONLY] s = c" using fl [unfolded partition_of_def] by (simp add: opened_contents_def)
  have "file_of s ?p \<noteq> None \<or> ?p \<notin> set (w_dirs s)" using fl [unfolded partition_of_def] by simp
  note op = wp_ota_open_at(2) [OF this, of "[O_RDONLY]", unfolded oc]
  have ld: "wp (load_pairs e dev (sort pairs) []) (\<lambda>r s'. ?Q pairs r) s1"
    if "at dev ?p 0 c s1" for dev pairs and s1 :: "'z patch_world_scheme"
  proof -
    have "sorted (map fst (sort pairs))"
      by (rule sorted_map_mono [OF sorted_sort]) (auto simp: mono_on_def less_eq_prod_def)
    from wp_load_pairs [of dev ?p "[]" c s1 "sort pairs" e] this that show ?thesis by simp
  qed
  define R where "R pairs f \<longleftrightarrow> (\<exists>n h. (n, h) \<in> set pairs \<and> n \<le> length c \<and> f_data f = take n c \<and>
      f_sha1 f = e_sha1 e (take n c) \<and> ParseSha1 h = Some (f_sha1 f))" for pairs :: "(nat \<times> string) list" and f :: FileContents
  have Q: "R pairs \<lparr>f_sha1 = e_sha1 e b, f_data = b\<rparr>" if q: "?Q pairs (Some b)" for b pairs
  proof -
    obtain n h where "(n, h) \<in> set pairs" "length b = n" "b = take n c" "ParseSha1 h = Some (e_sha1 e b)"
      using q by blast
    moreover have "n \<le> length c" using \<open>length b = n\<close> \<open>b = take n c\<close> by (metis length_take min.cobounded1)
    ultimately show ?thesis unfolding R_def by (intro exI [of _ n] exI [of _ h]) simp
  qed
  let ?R = "\<lambda>r. \<forall>f. r = Some f \<longrightarrow>
      (\<exists>pairs. parse_pairs (e_ab e) (drop 2 ?pieces) = Some pairs \<and> R pairs f)"
  have "wp (LoadPartitionContents e filename) (\<lambda>r s'. ?R r) s"
  proof (cases "(length ?pieces < 4 \<or> odd (length ?pieces) \<or> ?pieces ! 0 \<noteq> ''EMMC'') \<or>
      parse_pairs (e_ab e) (drop 2 ?pieces) = None")
    case True
    then show ?thesis unfolding LoadPartitionContents_def Let_def by (elim disjE) simp_all
  next
    case False
    then obtain pairs where pairs: "parse_pairs (e_ab e) (drop 2 ?pieces) = Some pairs" by blast
    have tail: "wp (do { r \<leftarrow> load_pairs e dev (sort pairs) []; ota_fclose dev;
        case r of None \<Rightarrow> ret None
        | Some buffer \<Rightarrow> ret (Some \<lparr>f_sha1 = e_sha1 e buffer, f_data = buffer\<rparr>) }) (\<lambda>r s'. ?R r) s1"
      if "at dev ?p 0 c s1" for dev and s1 :: "'z patch_world_scheme"
      unfolding wp_bind
    proof (rule wp_mono [OF ld [OF that, of pairs]])
      fix r and s2 :: "'z patch_world_scheme"
      assume q: "?Q pairs r"
      show "wp (ota_fclose dev) (\<lambda>_. wp (case r of None \<Rightarrow> ret None
          | Some buffer \<Rightarrow> ret (Some \<lparr>f_sha1 = e_sha1 e buffer, f_data = buffer\<rparr>)) (\<lambda>r s'. ?R r)) s2"
        using Q [of _ pairs] q pairs by (cases r) simp_all
    qed
    have d: "LoadPartitionContents e filename = do {
        dev \<leftarrow> ota_fopen ?p [O_RDONLY];
        if dev = -1 then ret None
        else do { r \<leftarrow> load_pairs e dev (sort pairs) []; ota_fclose dev;
          case r of None \<Rightarrow> ret None
          | Some buffer \<Rightarrow> ret (Some \<lparr>f_sha1 = e_sha1 e buffer, f_data = buffer\<rparr>) } }"
      using False pairs by (simp add: LoadPartitionContents_def Let_def)
    show ?thesis
      unfolding d
    proof (subst wp_bind, rule wp_mono [OF op])
      fix dev and s1 :: "'z patch_world_scheme"
      assume a: "dev \<noteq> -1 \<longrightarrow> at dev ?p 0 c s1 \<and> \<not> w_halted s1"
      show "wp (if dev = -1 then ret None
        else do { r \<leftarrow> load_pairs e dev (sort pairs) []; ota_fclose dev;
          case r of None \<Rightarrow> ret None
          | Some buffer \<Rightarrow> ret (Some \<lparr>f_sha1 = e_sha1 e buffer, f_data = buffer\<rparr>) }) (\<lambda>r s'. ?R r) s1"
        using tail [of dev s1] a by (cases "dev = -1") simp_all
    qed
  qed
  then show ?thesis unfolding R_def loaded_def by (rule wp_mono) blast
qed

text \<open>
  When \<^verbatim>\<open>LoadPartitionContents\<close> succeeds, the data it returns is a prefix of the partition whose
  length is one of the sizes in the file name, the SHA-1 next to that size in the name is the
  digest of the data, and that digest is what is returned: on every schedule of I/O errors.
\<close>

lemma LoadPartitionContents_sound:
  assumes "run_state (LoadPartitionContents e filename) s = (Some f, s')"
    and "file_of s (cstr (ab_split (e_ab e) filename '':'' ! 1)) = Some c"
  shows "\<exists>pairs n h. parse_pairs (e_ab e) (drop 2 (ab_split (e_ab e) filename '':'')) = Some pairs \<and>
    (n, h) \<in> set pairs \<and> n \<le> length c \<and> f_data f = take n c \<and> f_sha1 f = e_sha1 e (take n c) \<and>
    ParseSha1 h = Some (f_sha1 f)"
  using wp_runD [OF wp_LoadPartitionContents assms(1)] assms(2)
  by (simp add: partition_of_def loaded_def)

section \<open>Writing\<close>

lemma wp_FileSink_loop:
  fixes s :: "'z patch_world_scheme"
  assumes "at fd p (pos + k) (overlay pos (take k data) c) s" "k \<le> length data"
  shows "wp (FileSink_loop n fd data k) (\<lambda>r s'. r = length data \<longrightarrow>
    w_halted s' \<or> at fd p (pos + length data) (overlay pos data c) s') s"
  using assms
proof (induction n arbitrary: k s)
  case 0
  then show ?case by (auto simp: CHECK_def halt_def)
next
  case (Suc n)
  show ?case
  proof (cases "k < length data")
    case True
    have "wp (TEMP_FAILURE_RETRY (\<lambda>r. r = -1) (ota_write fd (drop k data)))
        (\<lambda>wrote s'. wp (if wrote = -1 then ret k else FileSink_loop n fd data (k + nat wrote))
          (\<lambda>r s'. r = length data \<longrightarrow>
            w_halted s' \<or> at fd p (pos + length data) (overlay pos data c) s') s') s"
    proof (rule wp_mono [OF wp_retry_write [OF Suc.prems(1)]])
      fix wrote and s' :: "'z patch_world_scheme"
      assume w: "wrote \<noteq> -1 \<longrightarrow> write_post fd p (pos + k) (overlay pos (take k data) c)
        (drop k data) wrote s'"
      show "wp (if wrote = -1 then ret k else FileSink_loop n fd data (k + nat wrote))
          (\<lambda>r s'. r = length data \<longrightarrow>
            w_halted s' \<or> at fd p (pos + length data) (overlay pos data c) s') s'"
      proof (cases "wrote = -1")
        case True
        then show ?thesis using \<open>k < length data\<close> by simp
      next
        case False
        with w obtain j where j: "j \<le> length (drop k data)" "wrote = int j"
          "at fd p (pos + k + j) (overlay (pos + k) (take j (drop k data)) (overlay pos (take k data) c)) s'"
          by (auto simp: write_post_def)
        have "at fd p (pos + (k + j)) (overlay pos (take (k + j) data) c) s'"
          using j(3) overlay_take_step [OF j(1)] by (simp add: add.assoc)
        moreover have "k + j \<le> length data" using j(1) True by simp
        ultimately show ?thesis using Suc.IH [of "k + j" s'] j(2) False by simp
      qed
    qed
    with True show ?thesis by simp
  next
    case False
    with Suc.prems show ?thesis by simp
  qed
qed

lemma wp_FileSink:
  assumes "at fd p 0 [] s"
  shows "wp (FileSink data fd) (\<lambda>r s'. r = length data \<longrightarrow> w_halted s' \<or> file_of s' p = Some data) s"
proof -
  have "overlay 0 data [] = data" by (simp add: overlay_def)
  then show ?thesis
    unfolding FileSink_def
    using wp_FileSink_loop [of fd p 0 0 data "[]" s "length data"] assms
    by (auto simp: at_def elim!: wp_mono)
qed

lemma keep_FileSink_loop:
  assumes "io_inv I" "(fd, p) \<in> set fds" "write_closed I p"
  shows "keep (io_keep fds I) (FileSink_loop n fd data k)"
  by (induction n arbitrary: k)
    (simp_all only: FileSink_loop.simps, (intro keeps iok keep_ota_write [OF assms] assms(1) | assumption)+)

lemma keep_FileSink:
  "io_inv I \<Longrightarrow> (fd, p) \<in> set fds \<Longrightarrow> write_closed I p \<Longrightarrow> keep (io_keep fds I) (FileSink data fd)"
  unfolding FileSink_def by (rule keep_FileSink_loop)

lemma keep_SaveFileContents:
  assumes "io_inv I" "write_closed I p" "\<And>s. I s \<Longrightarrow> I (set_file p [] s)"
  shows "keep (io_keep fds I) (SaveFileContents p f)"
proof -
  have "open_ok I p fl" for fl using assms(3) by (simp add: open_ok_def)
  note o = this
  have sink: "keep (io_keep ((fd, p) # fds) I) (FileSink d fd)" for fd d
    using assms(1,2) by (intro keep_FileSink [where p = p]) simp_all
  show ?thesis
    unfolding SaveFileContents_def
  proof (rule keep_ota_open_bind(1) [OF assms(1) o], goal_cases)
    case (1 fd)
    show ?case by (intro keeps iok sink assms(1))
  qed (simp add: keep_ret)
qed

lemma io_inv_file: "io_inv (\<lambda>s. file_of s p = x)"
  by (auto simp: io_inv_def dest: core_file_of)

lemma keep_file:
  assumes "\<And>I fds. io_inv I \<Longrightarrow> keep (io_keep fds I) m" "file_of s p = x"
  shows "wp m (\<lambda>_ s. file_of s p = x) s"
  by (rule keep_wp [OF assms(1) [OF io_inv_file, of "[]", unfolded io_keep_Nil]]) (rule assms(2))

text \<open>
  A file that \<^verbatim>\<open>SaveFileContents\<close> reports as saved has exactly the given contents.
\<close>

lemma wp_SaveFileContents:
  fixes s :: "'z patch_world_scheme"
  assumes "p \<notin> set (w_dev s)" "p \<notin> set (w_dirs s)"
  shows "wp (SaveFileContents p f) (\<lambda>r s'. 0 \<le> r \<longrightarrow> file_of s' p = Some (f_data f) \<and> \<not> w_halted s') s"
proof -
  let ?fl = "[O_WRONLY, O_CREAT, O_TRUNC, O_SYNC]" and ?F = "\<lambda>s :: 'z patch_world_scheme. file_of s p = Some (f_data f)"
  let ?Q = "\<lambda>(r :: int) s'. 0 \<le> r \<longrightarrow> ?F s' \<and> \<not> w_halted s'"
  have oc: "opened_contents p ?fl s = []"
    using assms(1) by (simp add: opened_contents_def split: option.split)
  have "file_of s p \<noteq> None \<or> p \<notin> set (w_dirs s)" using assms(2) by simp
  note op = wp_ota_open_at(1) [OF this, of ?fl, unfolded oc]
  have close: "wp (do { r \<leftarrow> ota_close fd; ret (if r \<noteq> 0 then -1 else 0 :: int) }) ?Q s'"
    if "?F s'" for fd and s' :: "'z patch_world_scheme"
    by (rule wp_seq [OF wp_conj [OF keep_file [OF keep_ota_close(1) that] aliveD [OF alive_ota_close(1)]]]) auto
  have fin: "wp (do { r \<leftarrow> ota_fsync fd; if r \<noteq> 0 then do { ota_close fd; ret (-1) }
      else do { r \<leftarrow> ota_close fd; ret (if r \<noteq> 0 then -1 else 0 :: int) } }) ?Q s'"
    if "w_halted s' \<or> ?F s'" for fd and s' :: "'z patch_world_scheme"
  proof (rule wp_seq [where Q = "\<lambda>r s'. r \<noteq> 0 \<or> ?F s'"])
    show "wp (ota_fsync fd) (\<lambda>r s'. r \<noteq> 0 \<or> ?F s') s'"
    proof (cases "?F s'")
      case True
      show ?thesis by (rule wp_mono [OF keep_file [OF keep_ota_fsync True]]) simp_all
    next
      case False
      with that show ?thesis by (intro wp_mono [OF aliveD [OF alive_ota_fsync]]) auto
    qed
  next
    fix r :: int and s'' :: "'z patch_world_scheme"
    assume "r \<noteq> 0 \<or> ?F s''"
    then show "wp (if r \<noteq> 0 then do { ota_close fd; ret (-1) }
      else do { r \<leftarrow> ota_close fd; ret (if r \<noteq> 0 then -1 else 0) }) ?Q s''"
      using close [of s'' fd] by (cases "r = 0") simp_all
  qed
  show ?thesis
    unfolding SaveFileContents_def
  proof (rule wp_seq [OF op], rule wp_ifI)
    fix fd and s' :: "'z patch_world_scheme"
    assume "fd \<noteq> -1 \<longrightarrow> at fd p 0 [] s' \<and> \<not> w_halted s'" "fd \<noteq> -1"
    then have at: "at fd p 0 [] s'" by simp
    show "wp (do { bw \<leftarrow> FileSink (f_data f) fd;
      if bw \<noteq> length (f_data f) then do { ota_close fd; ret (-1) }
      else do { r \<leftarrow> ota_fsync fd; if r \<noteq> 0 then do { ota_close fd; ret (-1) }
        else do { r \<leftarrow> ota_close fd; ret (if r \<noteq> 0 then -1 else 0 :: int) } } }) ?Q s'"
      by (rule wp_seq [OF wp_FileSink [OF at]], rule wp_ifI, rule wp_tail, simp, rule fin, blast)
  qed simp
qed

text \<open>Reading back: all the bytes asked for, or a failure.\<close>

lemma wp_read_back:
  fixes s :: "'z patch_world_scheme"
  assumes "at fd p (pos + length buf) c s" "buf = take (length buf) (drop pos c)"
    "length buf \<le> m" "m \<le> length buf + n"
  shows "wp (read_back n fd m buf)
    (\<lambda>r s'. \<forall>b. r = Some b \<longrightarrow> length b = m \<and> b = take m (drop pos c) \<and> at fd p (pos + m) c s') s"
  using assms
proof (induction n arbitrary: buf s)
  case 0
  then have "length buf = m" by simp
  with 0 show ?case by (auto simp: CHECK_def)
next
  case (Suc n)
  let ?Q = "\<lambda>r s'. \<forall>b. r = Some b \<longrightarrow> length b = m \<and> b = take m (drop pos c) \<and> at fd p (pos + m) c s'"
  show ?case
  proof (cases "length buf < m")
    case True
    show ?thesis
      unfolding read_back.simps if_P [OF True]
    proof (rule wp_seq [OF wp_retry_read [OF Suc.prems(1)]], rule wp_optionI, simp, rule wp_ifI, simp)
      fix r xs and s' :: "'z patch_world_scheme"
      assume r: "read_post fd p (pos + length buf) c (m - length buf) r s'" "r = Some xs" "xs \<noteq> []"
      then have some: "read_some fd p (pos + length buf) c (m - length buf) xs s'"
        by (simp add: read_post_def)
      then have xs: "xs = take (length xs) (drop (length buf) (drop pos c))"
        by (simp add: read_some_def add.commute)
      have lens: "0 < length xs" "length xs \<le> m - length buf" "at fd p (pos + (length buf + length xs)) c s'"
        using some r(3) by (simp_all add: read_some_def add.assoc)
      have "buf @ xs = take (length (buf @ xs)) (drop pos c)"
        unfolding length_append take_add using Suc.prems(2) xs by simp
      moreover have "at fd p (pos + length (buf @ xs)) c s'" "length (buf @ xs) \<le> m"
        "m \<le> length (buf @ xs) + n"
        using lens(2,3) True Suc.prems(4) lens(1) [folded Suc_le_eq] by (simp_all del: length_greater_0_conv)
      ultimately show "wp (read_back n fd m (buf @ xs)) ?Q s'" by (intro Suc.IH)
    qed
  next
    case False
    with Suc.prems have "length buf = m" by simp
    with False Suc.prems show ?thesis by simp
  qed
qed

lemma wp_verify_loop:
  fixes s :: "'z patch_world_scheme"
  assumes "at fd p q c s" "take q data = take q c"
  shows "wp (verify_loop fd data q) (\<lambda>r s'. r = Some (length data) \<longrightarrow>
    take (length data) c = data \<and> file_of s' p = Some c) s"
  using assms
proof (induction fd data q arbitrary: s rule: verify_loop.induct)
  case (1 fd data q)
  let ?m = "min (length data - q) 4096"
  show ?case
  proof (cases "q < length data")
    case True
    have a: "at fd p (q + length ([] :: byte list)) c s" using 1(2) by simp
    note rb = wp_read_back [OF a, of ?m ?m, simplified]
    show ?thesis
      unfolding verify_loop.simps [of fd data q] if_P [OF True] Let_def
    proof (rule wp_seq [OF rb], rule wp_optionI, simp, rule wp_ifI)
      fix r b and s' :: "'z patch_world_scheme"
      assume r: "\<forall>b. r = Some b \<longrightarrow> length b = ?m \<and> b = take ?m (drop q c) \<and> at fd p (q + ?m) c s'"
        "r = Some b" "\<not> b \<noteq> take ?m (drop q data)"
      then have eq: "take (q + ?m) data = take (q + ?m) c" using 1(3) by (simp add: take_add)
      show "wp (verify_loop fd data (q + 4096)) (\<lambda>r s'. r = Some (length data) \<longrightarrow>
          take (length data) c = data \<and> file_of s' p = Some c) s'"
      proof (cases "4096 \<le> length data - q")
        case True
        then show ?thesis using 1(1) [OF \<open>q < length data\<close> refl] r eq by simp
      next
        case False
        then show ?thesis
          using r eq \<open>q < length data\<close> by (subst verify_loop.simps) (auto simp: at_def)
      qed
    qed (use True in auto)
  next
    case False
    then have d: "data = take q c" using 1(3) by simp
    have "take (length data) c = data" unfolding d by (simp add: min_def)
    with 1(2) False show ?thesis by (subst verify_loop.simps) (simp add: at_def)
  qed
qed


lemma keep_write_chunks:
  assumes "io_inv I" "(fd, p) \<in> set fds" "write_closed I p"
  shows "keep (io_keep fds I) (write_chunks n fd data start)"
  by (induction n arbitrary: start)
    (simp_all only: write_chunks.simps, (intro keeps iok keep_ota_write [OF assms] assms(1) | assumption)+)

lemma keep_read_back: "io_inv I \<Longrightarrow> keep (io_keep fds I) (read_back n fd m buf)"
proof (induction n arbitrary: buf)
  case (Suc n)
  show ?case unfolding read_back.simps by (intro keeps iok Suc)
qed (simp only: read_back.simps, intro keeps iok)

lemma keep_verify_loop: "io_inv I \<Longrightarrow> keep (io_keep fds I) (verify_loop fd data q)"
proof (induction fd data q rule: verify_loop.induct)
  case (1 fd data q)
  let ?m = "min (length data - q) 4096"
  have "keep (io_keep fds I) (if b \<noteq> take ?m (drop q data) then ret (Some q)
      else verify_loop fd data (q + 4096))" if "q < length data" for b
    using 1(1) [OF that refl _ 1(2), of b] by (simp add: keep_ret)
  then show ?case
    by (subst verify_loop.simps, unfold Let_def, cases "q < length data")
      (simp_all add: keep_ret keep_bind keep_option keep_read_back 1(2))
qed

text \<open>The file in which the kernel is told to drop its caches.\<close>

definition drop_caches_file :: string where
  "drop_caches_file = ''/proc/sys/vm/drop_caches''"

lemma keep_drop_caches:
  assumes "io_inv I" "write_closed I drop_caches_file"
  shows "keep (io_keep fds I) drop_caches"
  unfolding drop_caches_def drop_caches_file_def [symmetric]
proof (rule keep_ota_open_bind(1) [OF assms(1)], goal_cases)
  case (2 fd)
  have "keep (io_keep ((fd, drop_caches_file) # fds) I) (ota_write fd xs)" for xs
    by (rule keep_ota_write [OF assms(1) _ assms(2)]) simp
  then show ?case by (intro keeps iok assms(1))
next
  case 3
  show ?case by (intro keeps iok assms(1))
qed simp


lemma wp_lseek_opened:
  fixes s :: "'z patch_world_scheme"
  assumes "opened fd p s" "file_of s p \<noteq> None"
  shows "wp (TEMP_FAILURE_RETRY (\<lambda>r. r = -1) (sys_lseek fd off)) (\<lambda>r s'. r \<noteq> -1 \<longrightarrow> (\<exists>c. at fd p off c s')) s"
proof (rule wp_retry [where P = "\<lambda>s. opened fd p s \<and> file_of s p \<noteq> None" and
      Q = "\<lambda>r s'. opened fd p s' \<and> file_of s' p \<noteq> None \<and> (r \<noteq> -1 \<longrightarrow> (\<exists>c. at fd p off c s'))", THEN wp_mono])
  fix s :: "'z patch_world_scheme"
  assume s: "opened fd p s \<and> file_of s p \<noteq> None"
  show "wp (sys_lseek fd off) (\<lambda>r s'. opened fd p s' \<and> file_of s' p \<noteq> None \<and>
      (r \<noteq> -1 \<longrightarrow> (\<exists>c. at fd p off c s'))) s"
    unfolding sys_lseek_def wp_bind
    by (rule wp_next_eventI)
      (use s in \<open>auto simp: at_def split: option.split prod.split io_event.split
        intro: opened_set_fd dest: opened_path\<close>)
qed (use assms in auto)

lemma keep_write_attempt:
  assumes "io_inv I" "(fd, p) \<in> set fds" "write_closed I p"
  shows "keep (io_keep fds I) (write_attempt fd data start)"
  unfolding write_attempt_def
  by (intro keep_bind keep_if keep_ret keep_retry keep_sys_lseek keep_ota_fsync keep_write_chunks [OF assms] assms(1))

lemma keep_verify_attempt:
  assumes "io_inv I" "write_closed I drop_caches_file"
  shows "keep (io_keep fds I) (verify_attempt fd data)"
  unfolding verify_attempt_def
  by (intro keep_bind keep_if keep_ret keep_retry keep_sys_lseek keep_drop_caches [OF assms]
      keep_verify_loop assms(1))

lemma keep_partition_attempts:
  assumes "io_inv I" "write_closed I p" "write_closed I drop_caches_file" "(fd, p) \<in> set fds"
  shows "keep (io_keep fds I) (partition_attempts n p fd data start)"
  using assms(4)
proof (induction n arbitrary: fd fds start)
  case (Suc n)
  note w = keep_write_attempt [OF assms(1) Suc.prems assms(2)]
  show ?case
    unfolding partition_attempts.simps
    by (rule keep_open_if(1) keep_bind keep_if keep_option keep_ret w keep_verify_attempt
        open_ok_plain assms(1,3) keep_ota_close Suc.IH list.set_intros)+
qed (simp add: keep_ret)

text \<open>
  The bytes on the partition after a write that was verified.
\<close>

definition holds_data :: "string \<Rightarrow> byte list \<Rightarrow> 'z world_scheme \<Rightarrow> bool" where
  "holds_data p data s \<longleftrightarrow> (\<exists>c. file_of s p = Some c \<and> take (length data) c = data)"

lemma io_inv_file_of: "io_inv (\<lambda>s. P (file_of s p))"
  unfolding io_inv_def by (metis core_file_of)

lemma io_inv_holds_data: "io_inv (holds_data p data)"
  unfolding holds_data_def by (rule io_inv_file_of)

lemma write_closed_present: "write_closed (\<lambda>s. file_of s p \<noteq> None) q"
  by (auto simp: write_closed_def put_bytes_def split: option.split)

lemma wp_verify_attempt:
  fixes s :: "'z patch_world_scheme"
  assumes "io_keep [(fd, p)] (\<lambda>s. file_of s p \<noteq> None) s"
  shows "wp (verify_attempt fd data) (\<lambda>v s'. v = Some (length data) \<longrightarrow> holds_data p data s') s"
  unfolding verify_attempt_def
proof (rule wp_seq [OF keep_wp [OF keep_drop_caches [OF io_inv_file_of write_closed_present] assms]],
    rule wp_seq [OF wp_lseek_opened [where p = p]], goal_cases)
  case (3 u s1 r s2)
  show ?case
  proof (rule wp_ifI, simp)
    assume "r \<noteq> -1"
    with 3 obtain c where "at fd p 0 c s2" by blast
    from wp_verify_loop [OF this, of data]
    show "wp (verify_loop fd data 0) (\<lambda>v s'. v = Some (length data) \<longrightarrow> holds_data p data s') s2"
      by (rule wp_mono) (auto simp: holds_data_def)
  qed
qed (auto simp: io_keep_def)

text \<open>Every step before the verification keeps the file and the descriptor.\<close>

lemma wp_partition_attempts:
  fixes s :: "'z patch_world_scheme"
  assumes "io_keep [(fd, p)] (\<lambda>s. file_of s p \<noteq> None) s"
  shows "wp (partition_attempts n p fd data start)
    (\<lambda>r s'. \<forall>fd'. r = Some (True, fd') \<longrightarrow> holds_data p data s') s"
  using assms
proof (induction n arbitrary: fd start s)
  case (Suc n)
  let ?E = "\<lambda>s :: 'z patch_world_scheme. file_of s p \<noteq> None"
  let ?Q = "\<lambda>r s'. \<forall>fd'. r = Some (True, fd') \<longrightarrow> holds_data p data s'"
  have inv: "io_inv ?E" by (rule io_inv_file_of)
  have wc: "write_closed ?E q" for q by (rule write_closed_present)
  note ks = keep_wp [where I = "io_keep _ ?E"]
  have cl: "wp (ota_close fd) (\<lambda>_. io_keep [] ?E) s'" if "io_keep fds ?E s'"
    for fd fds and s' :: "'z patch_world_scheme"
    using that by (intro ks [OF keep_ota_close(1) [OF inv]]) (simp add: io_keep_def)
  have again: "wp (case v of None \<Rightarrow> do { ota_close fd; ret None }
      | Some start \<Rightarrow> if start = length data then ret (Some (True, fd))
        else do { r \<leftarrow> ota_close fd;
          if r \<noteq> 0 then ret None
          else do { fd \<leftarrow> ota_open p [O_RDWR];
            if fd = -1 then ret None else partition_attempts n p fd data start } }) ?Q s'"
    if v: "v = Some (length data) \<longrightarrow> holds_data p data s'" "io_keep [(fd, p)] ?E s'"
    for fd v and s' :: "'z patch_world_scheme"
  proof (rule wp_optionI, rule wp_tail, simp, rule wp_ifI)
    fix start assume "v = Some start" "start = length data"
    with v show "wp (ret (Some (True, fd))) ?Q s'" by simp
  next
    fix start
    show "wp (do { r \<leftarrow> ota_close fd;
          if r \<noteq> 0 then ret None
          else do { fd \<leftarrow> ota_open p [O_RDWR];
            if fd = -1 then ret None else partition_attempts n p fd data start } }) ?Q s'"
    proof (rule wp_seq [OF cl [OF v(2)]], rule wp_ifI, simp,
        rule wp_seq [OF wp_ota_open(1) [OF inv open_ok_plain(2)]], assumption, rule wp_ifI, simp)
      fix fd' and s'' :: "'z patch_world_scheme"
      assume "open_post [] ?E p fd' s''" "fd' \<noteq> -1"
      then show "wp (partition_attempts n p fd' data start) ?Q s''"
        by (intro Suc.IH) (simp add: open_post_def)
    qed
  qed
  show ?case
    unfolding partition_attempts.simps
  proof (rule wp_seq [OF ks [OF keep_write_attempt [OF inv _ wc] Suc.prems]], simp, rule wp_ifI,
      rule wp_tail, simp, rule wp_seq [OF cl], assumption, rule wp_ifI, simp,
      rule wp_seq [OF wp_ota_open(1) [OF inv open_ok_plain(1)]], assumption, rule wp_ifI, simp)
    fix fd' and s' :: "'z patch_world_scheme"
    assume "open_post [] ?E p fd' s'" "fd' \<noteq> -1"
    then have k: "io_keep [(fd', p)] ?E s'" by (simp add: open_post_def)
    note v = wp_conj [OF wp_verify_attempt [OF k] ks [OF keep_verify_attempt [OF inv wc] k], of data]
    show "wp (do { v \<leftarrow> verify_attempt fd' data; case v of None \<Rightarrow> do { ota_close fd'; ret None }
      | Some start \<Rightarrow> if start = length data then ret (Some (True, fd'))
        else do { r \<leftarrow> ota_close fd';
          if r \<noteq> 0 then ret None
          else do { fd \<leftarrow> ota_open p [O_RDWR];
            if fd = -1 then ret None else partition_attempts n p fd data start } } }) ?Q s'"
      by (rule wp_seq [OF v]) (rule again; blast)
  qed
qed simp


lemma wp_WriteToPartition:
  fixes s :: "'z patch_world_scheme"
  assumes "file_of s (partition_of e tgt) \<noteq> None"
  shows "wp (WriteToPartition e data len tgt)
    (\<lambda>r s'. r = 0 \<longrightarrow> holds_data (partition_of e tgt) (take len data) s') s"
proof -
  let ?p = "partition_of e tgt"
  let ?E = "\<lambda>s :: 'z patch_world_scheme. file_of s ?p \<noteq> None"
  let ?Q = "\<lambda>(r :: int) s'. r = 0 \<longrightarrow> holds_data ?p (take len data) s'"
  let ?pieces = "ab_split (e_ab e) tgt '':''"
  have inv: "io_inv ?E" by (rule io_inv_file_of)
  have k0: "io_keep [] ?E s" using assms by simp
  have fin: "wp (case r of None \<Rightarrow> ret (-1) | Some (success, fd) \<Rightarrow>
      if \<not> success then do { ota_close fd; ret (-1) }
      else do { r \<leftarrow> ota_close fd; ret (if r = -1 then -1 else 0) }) ?Q s'"
    if r: "\<forall>fd. r = Some (True, fd) \<longrightarrow> holds_data ?p (take len data) s'"
    for r and s' :: "'z patch_world_scheme"
  proof (cases "\<exists>fd. r = Some (True, fd)")
    case True
    with r have h: "io_keep [] (holds_data ?p (take len data)) s'" by auto
    show ?thesis using True
      by (elim exE, simp del: wp_bind)
        (rule wp_seq [OF keep_wp [OF keep_ota_close(1) [OF io_inv_holds_data] h]], simp)
  next
    case False
    then show ?thesis by (cases r) (auto simp del: wp_bind intro!: wp_tail)
  qed
  show ?thesis
    unfolding WriteToPartition_def Let_def partition_of_def [symmetric]
  proof (rule wp_ifI, simp, rule wp_seq [OF wp_ota_open(1) [OF inv open_ok_plain(2) k0]], rule wp_ifI, simp)
    fix fd and s' :: "'z patch_world_scheme"
    assume "open_post [] ?E ?p fd s'" "fd \<noteq> -1"
    then have k: "io_keep [(fd, ?p)] ?E s'" by (simp add: open_post_def)
    show "wp (do { CHECK (len \<le> length data);
        r \<leftarrow> partition_attempts 2 ?p fd (take len data) 0;
        case r of None \<Rightarrow> ret (-1) | Some (success, fd) \<Rightarrow>
          if \<not> success then do { ota_close fd; ret (-1) }
          else do { r \<leftarrow> ota_close fd; ret (if r = -1 then -1 else 0) } }) ?Q s'"
      by (rule wp_seq [OF keep_wp [OF keep_CHECK_io [OF inv] k]],
          rule wp_seq [OF wp_partition_attempts], assumption, rule fin)
  qed
qed

lemma keep_WriteToPartition:
  assumes "io_inv I" "write_closed I (partition_of e tgt)" "write_closed I drop_caches_file"
  shows "keep (io_keep fds I) (WriteToPartition e data len tgt)"
  unfolding WriteToPartition_def Let_def partition_of_def [symmetric]
  by (rule keep_open_if(1) keep_bind keep_if keep_option keep_prod keep_ret keep_CHECK_io
      open_ok_plain assms keep_ota_close keep_partition_attempts list.set_intros)+

text \<open>
  C14.  When \<^verbatim>\<open>WriteToPartition\<close> reports success, the partition starts with the data, on every
  schedule of short writes, I/O errors and interruptions: the data was read back from the device.
\<close>

theorem WriteToPartition_verified:
  assumes "run_state (WriteToPartition e data len tgt) s = (0, s')"
    and "file_of s (cstr (ab_split (e_ab e) tgt '':'' ! 1)) = Some c"
  shows "\<exists>c'. file_of s' (cstr (ab_split (e_ab e) tgt '':'' ! 1)) = Some c' \<and>
    take (length (take len data)) c' = take len data"
  using wp_runD [OF wp_WriteToPartition assms(1)] assms(2)
  by (simp add: partition_of_def holds_data_def)


section \<open>Patching a partition\<close>

text \<open>Only files below \<^verbatim>\<open>/cache/\<close> other than the backup copy are ever deleted to make room.\<close>

definition expendable :: "'z env \<Rightarrow> string \<Rightarrow> bool" where
  "expendable e q \<longleftrightarrow> starts_with ''/cache/'' q \<and> q \<noteq> cache_temp_source (e_cache e)"

lemma set_set_insert [simp]: "set (set_insert x xs) = insert x (set xs)"
  by (auto simp: set_insert_def set_insort_key)

lemma starts_with_append: "starts_with pre s \<Longrightarrow> starts_with pre (s @ t)"
  unfolding starts_with_def
  by (metis append_take_drop_id append_eq_append_conv_if append_assoc append_eq_conv_conj)

lemma wp_expendable_loop:
  fixes s :: "'z patch_world_scheme"
  assumes "starts_with ''/cache/'' (dir @ ''/'')" "\<forall>f \<in> set files. expendable e f"
  shows "wp (expendable_loop e dir names files) (\<lambda>r s'. \<forall>f \<in> set r. expendable e f) s"
  using assms(2)
proof (induction names arbitrary: files s)
  case (Cons d names)
  have p: "starts_with ''/cache/'' (dir @ ''/'' @ d)" using starts_with_append [OF assms(1), of d] by simp
  show ?case
    unfolding expendable_loop.simps Let_def
    by (rule wp_ifI, rule Cons, rule Cons.prems, rule wp_seq [OF wp_any [of "\<lambda>_ _. True"]], simp, rule Cons.IH)
      (use p Cons.prems in \<open>auto simp: expendable_def\<close>)
qed simp

lemma wp_expendable_dirs:
  fixes s :: "'z patch_world_scheme"
  assumes "\<forall>d \<in> set dirs. starts_with ''/cache/'' (d @ ''/'')" "\<forall>f \<in> set files. expendable e f"
  shows "wp (expendable_dirs e dirs files) (\<lambda>r s'. \<forall>f \<in> set r. expendable e f) s"
  using assms
proof (induction dirs arbitrary: files s)
  case (Cons d dirs)
  show ?case
    unfolding expendable_dirs.simps
    by (rule wp_seq [OF wp_any [of "\<lambda>_ _. True"]], simp, rule wp_optionI, rule Cons.IH,
        use Cons.prems in simp, rule Cons.prems, rule wp_seq [OF wp_expendable_loop], 
        use Cons.prems in simp, rule Cons.prems, rule Cons.IH, use Cons.prems in simp)
qed simp

lemma wp_FindExpendableFiles:
  "wp (FindExpendableFiles e) (\<lambda>r s'. \<forall>f \<in> set r. expendable e f) s"
  unfolding FindExpendableFiles_def EliminateOpenFiles_def
  by (rule wp_seq [OF wp_expendable_dirs]) (auto simp: starts_with_def split: option.split)

lemma keep_expendable:
  assumes "io_inv I"
  shows "keep (io_keep fds I) (FreeSpaceForFile e d)" "keep (io_keep fds I) (expendable_loop e d names files)"
    "keep (io_keep fds I) (expendable_dirs e dirs files)" "keep (io_keep fds I) (FindExpendableFiles e)"
proof -
  show "keep (io_keep fds I) (FreeSpaceForFile e d)"
    unfolding FreeSpaceForFile_def by (intro keeps iok assms)
  show l: "keep (io_keep fds I) (expendable_loop e d names files)" for d names files
    by (induction names arbitrary: files) (auto simp: Let_def keep_ret assms intro!: keep_bind keep_sys_stat)
  show "keep (io_keep fds I) (expendable_dirs e dirs files)" for dirs files
    by (induction dirs arbitrary: files)
      (auto simp: keep_ret assms intro!: keep_bind keep_sys_listdir keep_option l)
  then show "keep (io_keep fds I) (FindExpendableFiles e)"
    unfolding FindExpendableFiles_def EliminateOpenFiles_def by (intro keeps)
qed

lemma keep_delete_loop:
  assumes "io_inv I" "\<And>q s. q \<in> set files \<Longrightarrow> I s \<Longrightarrow> I (del_file q s)"
  shows "keep (io_keep fds I) (delete_loop e n files free_now)"
  using assms(2)
proof (induction files arbitrary: free_now)
  case (Cons f files)
  show ?case
    unfolding delete_loop.simps
    by (intro keep_bind keep_if keep_ret keep_sys_unlink keep_expendable(1) assms(1) Cons.IH Cons.prems)
      simp_all
qed (simp add: keep_ret)

lemma keep_MakeFreeSpaceOnCache:
  assumes "io_inv I" "\<And>q s. expendable e q \<Longrightarrow> I s \<Longrightarrow> I (del_file q s)"
  shows "keep (io_keep fds I) (MakeFreeSpaceOnCache e n)"
proof (rule keepI)
  fix s :: "'a patch_world_scheme"
  assume k: "io_keep fds I s"
  note ks = keep_wp [where I = "io_keep fds I"]
  show "wp (MakeFreeSpaceOnCache e n) (\<lambda>_. io_keep fds I) s"
    unfolding MakeFreeSpaceOnCache_def
  proof (rule wp_seq [OF ks [OF keep_expendable(1) [OF assms(1)] k]], rule wp_ifI, simp,
      rule wp_seq [OF wp_conj [OF wp_FindExpendableFiles ks [OF keep_expendable(4) [OF assms(1)]]]],
      assumption, rule wp_ifI, simp)
    fix free_now files and s' :: "'a patch_world_scheme"
    assume f: "(\<forall>f \<in> set files. expendable e f) \<and> io_keep fds I s'"
    then have "keep (io_keep fds I) (do { free_now \<leftarrow> delete_loop e n files free_now;
         ret (if n \<le> free_now then 0 else - 1 :: int) })"
      by (intro keep_bind keep_ret keep_delete_loop assms) auto
    with f show "wp (do { free_now \<leftarrow> delete_loop e n files free_now;
         ret (if n \<le> free_now then 0 else - 1 :: int) }) (\<lambda>_. io_keep fds I) s'"
      by (intro ks) auto
  qed
qed


text \<open>The partition starts with data that has the given digest.\<close>

definition patched :: "'z env \<Rightarrow> string \<Rightarrow> byte list \<Rightarrow> 'y world_scheme \<Rightarrow> bool" where
  "patched e p sha1 s \<longleftrightarrow> (\<exists>c n. file_of s p = Some c \<and> n \<le> length c \<and> e_sha1 e (take n c) = sha1)"

lemma holds_data_patched: "holds_data p data s \<Longrightarrow> e_sha1 e data = sha1 \<Longrightarrow> patched e p sha1 s"
  unfolding holds_data_def patched_def
  by (metis length_take min.cobounded1)

lemma io_inv_patched: "io_inv (patched e p sha1)"
  unfolding patched_def by (rule io_inv_file_of)

text \<open>
  What is left on the device however the run ends: the partition as it was, or the backup copy,
  or the partition with the target contents.
\<close>

definition recoverable ::
  "'z env \<Rightarrow> string \<Rightarrow> byte list \<Rightarrow> byte list \<Rightarrow> byte list \<Rightarrow> 'y world_scheme \<Rightarrow> bool" where
  "recoverable e p c0 src sha1 s \<longleftrightarrow>
     file_of s p = Some c0 \<or> file_of s (cache_temp_source (e_cache e)) = Some src \<or> patched e p sha1 s"

text \<open>The target partition is none of the files that the cache code handles.\<close>

definition separate :: "'z env \<Rightarrow> string \<Rightarrow> bool" where
  "separate e p \<longleftrightarrow>
     p \<noteq> cache_temp_source (e_cache e) \<and> \<not> starts_with ''/cache/'' p \<and> p \<noteq> drop_caches_file \<and>
     cache_temp_source (e_cache e) \<noteq> drop_caches_file"

definition before_write :: "'z env \<Rightarrow> string \<Rightarrow> byte list \<Rightarrow> 'y world_scheme \<Rightarrow> bool" where
  "before_write e p c0 s \<longleftrightarrow> file_of s p = Some c0 \<and>
     cache_temp_source (e_cache e) \<notin> set (w_dev s) \<and> cache_temp_source (e_cache e) \<notin> set (w_dirs s)"

lemma io_inv_before_write: "io_inv (before_write e p c0)"
  unfolding io_inv_def before_write_def by (metis file_of_core(1,2,4))

lemma write_closed_file: "p \<noteq> q \<Longrightarrow> write_closed (\<lambda>s. P (file_of s p)) q"
  by (auto simp: write_closed_def put_bytes_def split: option.split)

lemma before_write_other:
  assumes "separate e p" "before_write e p c0 s"
  shows "before_write e p c0 (set_file (cache_temp_source (e_cache e)) c s)"
    "before_write e p c0 (put_bytes (cache_temp_source (e_cache e)) pos c s)"
    "expendable e q \<Longrightarrow> before_write e p c0 (del_file q s)"
  using assms
  by (auto simp: before_write_def separate_def expendable_def put_bytes_def set_file_def [of _ _ s]
      file_of_def update_conv' del_file_def delete_conv' split: option.split)

lemma wp_patch_to_memory:
  fixes s :: "'z patch_world_scheme"
  assumes "sink_client (e_bspatch e)" "patch_inv J"
    "\<forall>s x. J s \<longrightarrow> J (s\<lparr>sha_ctx := x\<rparr>)" "\<forall>s x. J s \<longrightarrow> J (s\<lparr>memory_sink_str := x\<rparr>)" "J s"
    "sha_ctx s = memory_sink_str s"
  shows "wp (if b then ApplyBSDiffPatch (e_bspatch e) old patch 0 memory_sink True
             else ApplyImagePatch (e_bspatch e) zl old patch memory_sink True bonus)
    (\<lambda>_. hashed J) s"
proof -
  have em: "emits (hashed J) memory_sink True"
    by (rule emits_memory_sink [OF assms(2)]) (use assms(3,4) in simp_all)
  have "patch_inv (hashed J)" "keep (hashed J) (sha_sink True memory_sink d)" for d
    using em by (simp_all add: emits_def)
  then have "keep (hashed J) (if b then ApplyBSDiffPatch (e_bspatch e) old patch 0 memory_sink True
      else ApplyImagePatch (e_bspatch e) zl old patch memory_sink True bonus)"
    by (intro keep_if keep_ApplyBSDiffPatch keep_ApplyImagePatch assms(1) em)
  then show ?thesis by (rule keep_wp) (simp add: hashed_def assms)
qed


lemma wp_GenerateTarget:
  fixes s :: "'z patch_world_scheme"
  assumes sep: "separate e (partition_of e tgt)" and client: "sink_client (e_bspatch e)"
    and s: "before_write e (partition_of e tgt) c0 s"
  shows "wp (GenerateTarget e f patch tgt sha1 bonus) (\<lambda>r s'.
    recoverable e (partition_of e tgt) c0 (f_data f) sha1 s' \<and>
    (r = 0 \<longrightarrow> patched e (partition_of e tgt) sha1 s')) s"
proof -
  let ?p = "partition_of e tgt" and ?tmp = "cache_temp_source (e_cache e)"
  let ?B = "before_write e ?p c0 :: 'z patch_world_scheme \<Rightarrow> bool"
  let ?Q = "\<lambda>(r :: int) (s' :: 'z patch_world_scheme). recoverable e ?p c0 (f_data f) sha1 s' \<and> (r = 0 \<longrightarrow> patched e ?p sha1 s')"
  let ?J = "\<lambda>s :: 'z patch_world_scheme. ?B s \<and> file_of s ?tmp = Some (f_data f)"
  have inv: "io_inv ?B" by (rule io_inv_before_write)
  have fail: "?Q 1 s'" if "?B s'" for s' using that by (simp add: recoverable_def before_write_def)
  have J: "patch_inv ?J" "\<forall>s x. ?J s \<longrightarrow> ?J (s\<lparr>sha_ctx := x\<rparr>)" "\<forall>s x. ?J s \<longrightarrow> ?J (s\<lparr>memory_sink_str := x\<rparr>)"
    by (simp_all add: patch_inv_def before_write_def file_of_def)
  have unlink: "wp (do { sys_unlink ?tmp; ret 0 }) ?Q s'" if "patched e ?p sha1 s'" for s' :: "'z patch_world_scheme"
    by (rule wp_seq [OF keep_wp [OF keep_sys_unlink [OF io_inv_patched, where fds = "[]", unfolded io_keep_Nil] that]])
      (use that sep in \<open>auto simp: patched_def separate_def recoverable_def\<close>)
  have wr: "wp (do { r \<leftarrow> WriteToPartition e out (length out) tgt;
      if r \<noteq> 0 then ret 1 else do { sys_unlink ?tmp; ret 0 } }) ?Q s'"
    if out: "e_sha1 e out = sha1" "?J s'" for out and s' :: "'z patch_world_scheme"
  proof -
    let ?T = "\<lambda>s :: 'z patch_world_scheme. file_of s ?tmp = Some (f_data f)"
    have "?tmp \<noteq> ?p" "?tmp \<noteq> drop_caches_file" using sep by (auto simp: separate_def)
    then have "keep (io_keep [] ?T) (WriteToPartition e out (length out) tgt)"
      by (intro keep_WriteToPartition io_inv_file write_closed_file)
    then have "wp (WriteToPartition e out (length out) tgt) (\<lambda>_. ?T) s'"
      using out(2) by (intro keep_wp [where I = ?T]) simp_all
    moreover have "file_of s' ?p \<noteq> None" using out(2) by (simp add: before_write_def)
    ultimately have "wp (WriteToPartition e out (length out) tgt)
        (\<lambda>r s'. (r = 0 \<longrightarrow> holds_data ?p (take (length out) out) s') \<and> ?T s') s'"
      by (intro wp_conj wp_WriteToPartition)
    then show ?thesis
      by (rule wp_seq, intro wp_ifI unlink)
        (auto simp: recoverable_def intro: holds_data_patched [OF _ out(1)])
  qed
  have memory: "wp (do { upd (\<lambda>s. s\<lparr>memory_sink_str := [], sha_ctx := []\<rparr>);
      result \<leftarrow> (if b then ApplyBSDiffPatch (e_bspatch e) (f_data f) pb 0 memory_sink True
        else ApplyImagePatch (e_bspatch e) (e_zlib e) (f_data f) pb memory_sink True bd);
      if result \<noteq> 0 then ret 1
      else do { ctx \<leftarrow> gets sha_ctx;
        if e_sha1 e ctx \<noteq> sha1 then ret 1
        else do { out \<leftarrow> gets memory_sink_str; r \<leftarrow> WriteToPartition e out (length out) tgt;
          if r \<noteq> 0 then ret 1 else do { sys_unlink ?tmp; ret 0 } } } }) ?Q s'"
    if "?J s'" "\<not> w_halted s'" for b pb bd and s' :: "'z patch_world_scheme"
  proof -
    let ?s = "s'\<lparr>memory_sink_str := [], sha_ctx := []\<rparr>"
    have "?J ?s" "sha_ctx ?s = memory_sink_str ?s" using that J(2,3) by simp_all
    then have pm: "wp (if b then ApplyBSDiffPatch (e_bspatch e) (f_data f) pb 0 memory_sink True
        else ApplyImagePatch (e_bspatch e) (e_zlib e) (f_data f) pb memory_sink True bd) (\<lambda>_. hashed ?J) ?s"
      by (rule wp_patch_to_memory [OF client J])
    show ?thesis
      unfolding wp_bind [of "upd _"] wp_upd if_not_P [OF that(2)]
      by (rule wp_seq [OF pm], intro wp_ifI)
        (use wr fail in \<open>auto simp: hashed_def simp del: wp_bind simp add: wp_bind [of "gets _"]\<close>)
  qed
  have ks: "wp m (\<lambda>_. ?B) s'" if "keep (io_keep [] ?B) m" "?B s'" for m :: "('z, int) pw" and s'
    using that by (simp add: keep_wp)
  have free: "keep (io_keep [] ?B) (MakeFreeSpaceOnCache e n)" for n
    by (intro keep_MakeFreeSpaceOnCache inv before_write_other(3) [OF sep])
  have save: "wp (SaveFileContents ?tmp f)
      (\<lambda>r s'. (0 \<le> r \<longrightarrow> file_of s' ?tmp = Some (f_data f) \<and> \<not> w_halted s') \<and> ?B s') s'"
    if "?B s'" for s' :: "'z patch_world_scheme"
  proof -
    have "keep (io_keep [] ?B) (SaveFileContents ?tmp f)"
      by (intro keep_SaveFileContents inv) (simp_all add: write_closed_def before_write_other [OF sep])
    with that show ?thesis
      by (intro wp_conj wp_SaveFileContents ks) (simp_all add: before_write_def)
  qed
  show ?thesis
    unfolding GenerateTarget_def Let_def
  proof (intro wp_ifI, simp add: fail [OF s], simp add: fail [OF s],
      rule wp_seq [OF keep_wp [OF keep_CHECK_io [OF inv], where fds1 = "[]", unfolded io_keep_Nil, OF s]],
      rule wp_seq [OF ks [OF free]], assumption, rule wp_ifI, simp add: fail,
      rule wp_seq [OF save], assumption, rule wp_ifI, simp add: fail, rule memory)
  qed auto
qed


text \<open>What is loaded comes with its own digest.\<close>

definition digested :: "'z env \<Rightarrow> FileContents option \<Rightarrow> bool" where
  "digested e r \<longleftrightarrow> (\<forall>f. r = Some f \<longrightarrow> f_sha1 f = e_sha1 e (f_data f))"

lemma wp_LoadFileContents_digest:
  fixes s :: "'z patch_world_scheme"
  shows "wp (LoadFileContents e filename) (\<lambda>r s'. digested e r) s"
proof -
  have "wp (LoadPartitionContents e fn) (\<lambda>r s'. digested e r) s'" for fn and s' :: "'z patch_world_scheme"
    unfolding LoadPartitionContents_def Let_def
    by (intro wp_ifI wp_optionI wp_seq [OF wp_any [of "\<lambda>_ _. True"]]) (auto simp: digested_def)
  then show ?thesis
    unfolding LoadFileContents_def
    by (intro wp_ifI wp_optionI wp_seq [OF wp_any [of "\<lambda>_ _. True"]]) (auto simp: digested_def)
qed

text \<open>
  After any run of \<^verbatim>\<open>applypatch\<close> the update can still be completed: the partition is as it was, or
  the backup copy is a source for one of the patches, or the partition has the target contents.
\<close>

definition resumable ::
  "'z env \<Rightarrow> string \<Rightarrow> byte list \<Rightarrow> string list \<Rightarrow> byte list \<Rightarrow> 'y world_scheme \<Rightarrow> bool" where
  "resumable e p c0 patch_sha1_str sha1 s \<longleftrightarrow>
     file_of s p = Some c0 \<or>
     (\<exists>src. file_of s (cache_temp_source (e_cache e)) = Some src \<and>
        FindMatchingPatch (e_sha1 e src) patch_sha1_str \<noteq> -1) \<or>
     patched e p sha1 s"

lemma wp_applypatch:
  fixes s :: "'z patch_world_scheme" and e :: "'z env"
  assumes tf: "tf = (if target_filename = ''-'' then source_filename else target_filename)"
    and sep: "separate e (partition_of e tf)" and client: "sink_client (e_bspatch e)"
    and s: "before_write e (partition_of e tf) c0 s" and sha: "ParseSha1 target_sha1_str = Some sha1"
  shows "wp (applypatch e source_filename target_filename target_sha1_str strs patch_data bonus) (\<lambda>r s'.
    resumable e (partition_of e tf) c0 strs sha1 s' \<and> (r = 0 \<longrightarrow> patched e (partition_of e tf) sha1 s')) s"
proof -
  let ?p = "partition_of e tf"
  let ?B = "before_write e ?p c0 :: 'z patch_world_scheme \<Rightarrow> bool"
  let ?Q = "\<lambda>(r :: int) (s' :: 'z patch_world_scheme). resumable e ?p c0 strs sha1 s' \<and> (r = 0 \<longrightarrow> patched e ?p sha1 s')"
  have inv: "io_inv ?B" by (rule io_inv_before_write)
  have fail: "?Q 1 s'" if "?B s'" for s' using that by (simp add: resumable_def before_write_def)
  have load: "wp (LoadFileContents e fn) (\<lambda>r s'. digested e r \<and> ?B s') s'" if "?B s'"
    for fn and s' :: "'z patch_world_scheme"
    by (intro wp_conj wp_LoadFileContents_digest keep_wp [where I = ?B])
      (use keep_LoadFileContents [OF inv, of "[]"] that in simp_all)
  have gen: "wp (do { CHECK c; GenerateTarget e f patch tf sha1 bonus }) ?Q s'"
    if "?B s'" "digested e (Some f)" "FindMatchingPatch (f_sha1 f) strs \<noteq> -1" for f patch c and s' :: "'z patch_world_scheme"
  proof -
    have k: "wp (CHECK c) (\<lambda>_. ?B) s'"
      using keep_CHECK_io [OF inv, of "[]" c] that(1) by (intro keep_wp) simp_all
    show ?thesis
      by (rule wp_seq [OF k], rule wp_mono [OF wp_GenerateTarget [OF sep client]], assumption)
        (use that(2,3) in \<open>auto simp: recoverable_def resumable_def digested_def\<close>)
  qed
  have copy: "wp (applypatch_copy e tf sha1 strs patch_data bonus) ?Q s'" if "?B s'" for s'
    unfolding applypatch_copy_def
    by (rule wp_seq [OF load [OF that]], rule wp_optionI)
      (auto simp: fail Let_def simp del: wp_bind intro!: gen wp_ifI)
  have early: "wp (LoadFileContents e tf) (\<lambda>r s'. (digested e r \<and> ?B s') \<and>
      (\<forall>f. r = Some f \<and> f_sha1 f = sha1 \<longrightarrow> patched e ?p sha1 s')) s" if "starts_with ''EMMC:'' tf"
  proof -
    have "file_of s ?p = Some c0" using s by (simp add: before_write_def)
    with that have "wp (LoadFileContents e tf) (\<lambda>r s'. \<forall>f. r = Some f \<longrightarrow> loaded e tf c0 f) s"
      by (simp add: LoadFileContents_def wp_LoadPartitionContents)
    from wp_conj [OF load [OF s] this] show ?thesis
      by (rule wp_mono) (auto simp: loaded_def patched_def before_write_def, blast)
  qed
  have source: "wp (let to_use = (case sf of None \<Rightarrow> -1
        | Some f \<Rightarrow> if f_data f = [] then -1 else FindMatchingPatch (f_sha1 f) strs)
      in case sf of
           Some f \<Rightarrow>
             if to_use \<noteq> -1 then do {
               CHECK (nat to_use < length patch_data);
               GenerateTarget e f (patch_data ! nat to_use) tf sha1 bonus }
             else applypatch_copy e tf sha1 strs patch_data bonus
         | None \<Rightarrow> applypatch_copy e tf sha1 strs patch_data bonus) ?Q s'"
    if "digested e sf \<and> ?B s'" for sf s'
    using that by (cases sf) (auto simp: Let_def copy gen simp del: wp_bind)
  have tgt: "wp (if (case tgt of None \<Rightarrow> False | Some f \<Rightarrow> f_sha1 f = sha1) then ret 0
      else do {
        source_file \<leftarrow> (if b then LoadFileContents e source_filename else ret tgt);
        let to_use = (case source_file of None \<Rightarrow> -1
          | Some f \<Rightarrow> if f_data f = [] then -1 else FindMatchingPatch (f_sha1 f) strs)
        in case source_file of
           Some f \<Rightarrow>
             if to_use \<noteq> -1 then do {
               CHECK (nat to_use < length patch_data);
               GenerateTarget e f (patch_data ! nat to_use) tf sha1 bonus }
             else applypatch_copy e tf sha1 strs patch_data bonus
         | None \<Rightarrow> applypatch_copy e tf sha1 strs patch_data bonus }) ?Q s'"
    if "(digested e tgt \<and> ?B s') \<and> (\<forall>f. tgt = Some f \<and> f_sha1 f = sha1 \<longrightarrow> patched e ?p sha1 s')" for tgt b s'
  proof (rule wp_ifI)
    assume "case tgt of None \<Rightarrow> False | Some f \<Rightarrow> f_sha1 f = sha1"
    then show "wp (ret 0) ?Q s'" using that by (auto simp: resumable_def split: option.splits)
  qed (rule wp_seq [OF _ source], rule wp_ifI, use load that in simp_all)
  show ?thesis
    unfolding applypatch_def Let_def tf [symmetric] sha option.case
    by (rule wp_ifI, simp add: fail [OF s], rule wp_seq [OF early], simp, rule tgt [unfolded Let_def])
qed

text \<open>
  C12.  When \<^verbatim>\<open>applypatch\<close> returns 0, the target partition starts with data whose SHA-1 is the one
  asked for, whatever I/O errors occurred: whether the partition was patched in this run or had
  been patched before.  Assumptions: the target name parses, the partition is none of the files
  the cache code handles, and the bsdiff library acts only through its sink.
\<close>

theorem applypatch_sound:
  assumes "run_state (applypatch e src tgt target_sha1_str strs patch_data bonus) s = (0, s')"
    and "tgt \<noteq> ''-''" "separate e (partition_of e tgt)" "sink_client (e_bspatch e)"
    and "before_write e (partition_of e tgt) c0 s" "ParseSha1 target_sha1_str = Some sha1"
  shows "\<exists>c n. file_of s' (partition_of e tgt) = Some c \<and> n \<le> length c \<and> e_sha1 e (take n c) = sha1"
  using wp_runD [OF wp_applypatch [where tf = tgt] assms(1)] assms(2-6)
  by (simp add: patched_def)



text \<open>
  The loop that deletes files until there is enough space stops in the wrong case: when the
  space is still insufficient after the first deletion, the loop ends, however many expendable
  files are left.
\<close>

lemma delete_loop_gives_up:
  fixes s :: "'z patch_world_scheme"
  assumes "\<not> w_halted s" "w_oracle s = []" "file_of s f \<noteq> None"
    and "pf_statfs (e_platform e) (w_files (del_file f s)) = Some (f_bsize, f_bavail)"
    and "size_mul f_bsize f_bavail < bytes_needed"
  shows "run_state (delete_loop e bytes_needed (f # files) free_now) s =
    (size_mul f_bsize f_bavail, del_file f s)"
proof -
  obtain c where "file_of s f = Some c" using assms(3) by blast
  with assms show ?thesis
    by (simp add: sys_unlink_def sys_atomic_def FreeSpaceForFile_def next_event_def run_upd del_file_def)
qed

subsection \<open>Concrete instances\<close>

definition sample_sha1 :: "byte list \<Rightarrow> byte list" where
  "sample_sha1 d = take 20 (d @ replicate 20 0)"

definition sample_env :: "unit env" where
  "sample_env = \<lparr>e_ab = sample_base, e_sha1 = sample_sha1, e_bspatch = copy_bspatch, e_zlib = sample_zlib,
     e_platform = \<lparr>pf_statfs = (\<lambda>_. Some (4096, 100)), pf_open_files = Some []\<rparr>,
     e_cache = default_cache_location\<rparr>"

text \<open>A device with a partition of three bytes.\<close>

definition sample_disk :: patch_world where
  "sample_disk = sample_patch_world
     \<lparr>w_files := [(''/p'', [1, 2, 3])], w_dev := [''/p''], w_dirs := [''/cache'']\<rparr>"

definition sample_pieces :: "string list" where
  "sample_pieces = [''EMMC'', ''/p'', ''3'', ''0102030000000000000000000000000000000000'']"

definition sample_name :: string where
  "sample_name = join_with (CHR '':'') sample_pieces"


lemma sample_split: "ab_split (e_ab sample_env) sample_name '':'' = sample_pieces"
proof -
  have "split_at_chars [CHR '':''] (join_with (CHR '':'') sample_pieces) = sample_pieces"
    by (rule split_join_with) (auto simp: sample_pieces_def)
  then show ?thesis by (simp add: sample_env_def sample_base_def sample_name_def)
qed

lemma sample_parse_sha:
  "ParseSha1 ''0102030000000000000000000000000000000000'' = Some ([1, 2, 3] @ replicate 17 0)"
  "ParseSha1 ''0900000000000000000000000000000000000000'' = Some (9 # replicate 19 0)"
  by (simp_all add: ParseSha1_def cstr_def hex_value_def eval_nat_numeral)

lemma sample_uint: "ab_parse_uint (e_ab sample_env) ''3'' SIZE_MAX = Some 3"
  by (simp add: sample_env_def sample_base_def read_uint_def is_digit_def SIZE_MAX_def)

lemma sample_env_simps [simp]:
  "e_sha1 sample_env = sample_sha1" "e_bspatch sample_env = copy_bspatch" "e_zlib sample_env = sample_zlib"
  "e_cache sample_env = default_cache_location" "pf_statfs (e_platform sample_env) fs = Some (4096, 100)"
  by (simp_all add: sample_env_def)

lemmas [run_eval] = write_chunks.simps read_back.simps FileSink_loop.simps load_pairs.simps
   partition_attempts.simps write_attempt_def verify_attempt_def
   drop_caches_def verify_loop.simps
   LoadPartitionContents_def WriteToPartition_def
   LoadFileContents_def 
   FileSink_def SaveFileContents_def 
   MakeFreeSpaceOnCache_def FreeSpaceForFile_def 
   GenerateTarget_def applypatch_def 
   ApplyImagePatch_def 
   chunks_loop.simps 
lemma attempts_2: "partition_attempts 2 = partition_attempts (Suc (Suc 0))"
  by (simp only: numeral_2_eq_2)
lemmas sample_defs = sample_disk_def sample_patch_world_def sample_world_def edify_state.extend_def
  file_defs cstr_def sample_sha1_def sample_split sample_pieces_def sample_uint sample_parse_sha


lemma sample_load:
  "fst (run_state (LoadPartitionContents sample_env sample_name) sample_disk) =
     Some \<lparr>f_sha1 = [1, 2, 3] @ replicate 17 0, f_data = [1, 2, 3]\<rparr>"
  by (simp add: run_eval sample_defs Let_def cong: bind_weak_cong let_weak_cong)

lemma sample_partition: "partition_of sample_env sample_name = ''/p''"
  by (simp add: partition_of_def sample_split sample_pieces_def cstr_def)

lemma sample_piece: "cstr (ab_split (e_ab sample_env) sample_name '':'' ! 1) = ''/p''"
  using sample_partition by (simp add: partition_of_def)

lemma sample_disk_file [simp]: "file_of sample_disk ''/p'' = Some [1, 2, 3]"
  by (simp add: sample_disk_def file_of_def)

lemma sample_write: "fst (run_state (WriteToPartition sample_env [7, 8] 2 sample_name) sample_disk) = 0"
  by (simp add: run_eval Let_def sample_defs attempts_2 cong: bind_weak_cong let_weak_cong)

theorem WriteToPartition_verified_witness:
  "\<exists>s' c'. run_state (WriteToPartition sample_env [7, 8] 2 sample_name) sample_disk = (0, s') \<and>
     file_of s' ''/p'' = Some c' \<and> take 2 c' = [7, 8]"
proof -
  obtain s' where s': "run_state (WriteToPartition sample_env [7, 8] 2 sample_name) sample_disk = (0, s')"
    using sample_write by (metis prod.collapse)
  have "file_of sample_disk (cstr (ab_split (e_ab sample_env) sample_name '':'' ! 1)) = Some [1, 2, 3]"
    unfolding sample_piece by simp
  from WriteToPartition_verified [OF s' this, unfolded sample_piece] s' show ?thesis by (simp add: numeral_2_eq_2)
qed

lemma sample_separate: "separate sample_env ''/p''" "before_write sample_env ''/p'' [1, 2, 3] sample_disk"
  by (simp_all add: separate_def before_write_def starts_with_def drop_caches_file_def
      default_cache_location_def sample_disk_def file_of_def)

lemma sample_name_emmc: "starts_with ''EMMC:'' sample_name" "sample_name \<noteq> ''-''"
  by (simp_all add: starts_with_def sample_name_def sample_pieces_def)

theorem applypatch_sound_witness:
  "\<exists>s' c n. run_state (applypatch sample_env sample_name sample_name
       ''0102030000000000000000000000000000000000'' [] [] None) sample_disk = (0, s') \<and>
     file_of s' ''/p'' = Some c \<and> sample_sha1 (take n c) = [1, 2, 3] @ replicate 17 0"
proof -
  let ?run = "run_state (applypatch sample_env sample_name sample_name
       ''0102030000000000000000000000000000000000'' [] [] None) sample_disk"
  obtain s1 where "run_state (LoadPartitionContents sample_env sample_name) sample_disk =
      (Some \<lparr>f_sha1 = [1, 2, 3] @ replicate 17 0, f_data = [1, 2, 3]\<rparr>, s1)"
    using sample_load by (metis prod.collapse)
  then have "fst ?run = 0"
    by (simp add: applypatch_def Let_def sample_name_emmc LoadFileContents_def sample_parse_sha)
  then obtain s' where s': "?run = (0, s')" by (metis prod.collapse)
  from applypatch_sound [OF s' sample_name_emmc(2), unfolded sample_partition sample_env_simps,
      OF sample_separate(1) copy_bspatch_client sample_separate(2) sample_parse_sha(1)] s'
  show ?thesis by auto
qed


end
