(* ===== verification/Block_Io.thy ===== *)
theory Block_Io
  imports Apply_Patch Range_Sets
begin

text \<open>
  The lower half of \<^verbatim>\<open>updater/blockimg.cpp\<close>: the last-command file, reading and writing
  blocks of the device, the range sink, the stash files and the rearranging of blocks.

  Parameters (\<open>block_env\<close>): what the patch code needs, the file helpers of android-base, what a
  discarded range reads as, the brotli decoder and \<^verbatim>\<open>strerror\<close>.
\<close>

section \<open>State\<close>

text \<open>
  \<^verbatim>\<open>RangeSinkWriter\<close>: the descriptor and the ranges are fixed when it is created.
\<close>

record RangeSinkWriter =
  rw_fd :: int
  rw_tgt :: RangeSet
  rw_next_range :: nat
  rw_current_range_left :: nat
  rw_bytes_written :: nat

text \<open>
  The file-scope variables of blockimg.cpp, then the fields of \<^verbatim>\<open>CommandParameters\<close> that change
  while commands run, then \<^verbatim>\<open>NewThreadInfo\<close>: \<open>nti_chunks\<close> is the data that the new-data thread
  has still to deliver and \<open>nti_brotli\<close> the calls of the decoder so far.  \<open>diff_writer\<close> is the
  local writer of \<^verbatim>\<open>PerformCommandDiff\<close>.
\<close>

record block_world = patch_world +
  failure_type :: CauseCode
  is_retry :: bool
  stash_map :: "(string \<times> RangeSet) list"
  p_cpos :: nat
  p_freestash :: string
  p_foundwrites :: bool
  p_isunresumable :: bool
  p_written :: nat
  p_stashed :: nat
  p_buffer :: "byte list"
  p_target_verified :: bool
  nti_writer :: "RangeSinkWriter option"
  nti_receiver_available :: bool
  nti_chunks :: "byte list list"
  nti_brotli :: "(byte list \<times> nat) list"
  diff_writer :: "RangeSinkWriter option"

type_synonym ('z, 'a) bw = "('z block_world_scheme, 'a) state"

text \<open>The brotli decoder: error, input consumed and output of a call; whether output is pending.\<close>

record brotli =
  br_step :: "(byte list \<times> nat) list \<Rightarrow> byte list \<Rightarrow> nat \<Rightarrow> bool \<times> nat \<times> byte list"
  br_more :: "(byte list \<times> nat) list \<Rightarrow> bool"
  br_turns :: nat

record 'z block_env =
  be_env :: "'z block_world_ext env"
  be_ReadFdToString :: "int \<Rightarrow> ('z, string option) bw"
  be_WriteStringToFd :: "string \<Rightarrow> int \<Rightarrow> ('z, bool) bw"
  be_Dirname :: "string \<Rightarrow> string"
  be_discard :: "nat \<Rightarrow> byte list \<Rightarrow> byte list"
  be_brotli :: brotli
  be_strerror :: "int \<Rightarrow> string"

abbreviation be_ab :: "'z block_env \<Rightarrow> android_base" where
  "be_ab e \<equiv> e_ab (be_env e)"

abbreviation be_sha1 :: "'z block_env \<Rightarrow> byte list \<Rightarrow> byte list" where
  "be_sha1 e \<equiv> e_sha1 (be_env e)"

abbreviation be_cache :: "'z block_env \<Rightarrow> cache_location" where
  "be_cache e \<equiv> e_cache (be_env e)"

text \<open>A descriptor owned by a \<^verbatim>\<open>unique_fd\<close>, which is closed when the block is left.\<close>

definition closing :: "int \<Rightarrow> ('z, 'a) io \<Rightarrow> ('z, 'a) io" where
  "closing fd m = do { r \<leftarrow> m; sys_close fd; ret r }"

definition BLOCKSIZE :: nat where "BLOCKSIZE = 4096"

definition ENOTSUP :: int where "ENOTSUP = 95"
definition ENOTDIR :: int where "ENOTDIR = 20"

definition fail_with :: "CauseCode \<Rightarrow> ('z, unit) bw" where
  "fail_with c = upd (\<lambda>s. s\<lparr>failure_type := c\<rparr>)"

section \<open>The last-command file\<close>

definition DeleteLastCommandFile :: "'z block_env \<Rightarrow> ('z, unit) bw" where
  "DeleteLastCommandFile e = do { sys_unlink (last_command_file (be_cache e)); ret () }"

definition ParseLastCommandFile :: "'z block_env \<Rightarrow> ('z, int option) bw" where
  "ParseLastCommandFile e = do {
     fd \<leftarrow> TEMP_FAILURE_RETRY (\<lambda>r. r = -1) (sys_open (last_command_file (be_cache e)) [O_RDONLY]);
     if fd = -1 then ret None
     else closing fd (do {
       content \<leftarrow> be_ReadFdToString e fd;
       case content of
         None \<Rightarrow> ret None
       | Some content \<Rightarrow>
           let lines = ab_split (be_ab e) (ab_trim (be_ab e) content) [CHR 0x0A]
           in if length lines \<noteq> 2 then ret None
              else ret (ab_parse_int (be_ab e) (lines ! 0) (- (2 ^ 31)) (2 ^ 31 - 1)) }) }"

definition UpdateLastCommandIndex :: "'z block_env \<Rightarrow> int \<Rightarrow> string \<Rightarrow> ('z, bool) bw" where
  "UpdateLastCommandIndex e command_index command_string =
     (let last_command_file = last_command_file (be_cache e);
          last_command_tmp = last_command_file @ ''.tmp'';
          content = int_to_string command_index @ [CHR 0x0A] @ command_string
      in do {
        wfd \<leftarrow> TEMP_FAILURE_RETRY (\<lambda>r. r = -1)
          (sys_open last_command_tmp [O_WRONLY, O_CREAT, O_TRUNC]);
        if wfd = -1 then ret False
        else closing wfd (do {
          ok \<leftarrow> be_WriteStringToFd e content wfd;
          if \<not> ok then ret False
          else do {
            r \<leftarrow> sys_fsync wfd;
            if r = -1 then ret False
            else do {
              r \<leftarrow> sys_chown last_command_tmp;
              if r = -1 then ret False
              else do {
                r \<leftarrow> sys_rename last_command_tmp last_command_file;
                if r = -1 then ret False
                else do {
                  dfd \<leftarrow> TEMP_FAILURE_RETRY (\<lambda>r. r = -1)
                    (ota_open (be_Dirname e last_command_file) [O_RDONLY, O_DIRECTORY]);
                  if dfd = -1 then ret False
                  else closing dfd (do {
                    r \<leftarrow> sys_fsync dfd;
                    ret (r \<noteq> -1) }) } } } } }) })"

section \<open>Reading and writing\<close>

text \<open>
  \<^verbatim>\<open>read_all(fd, buffer.data() + off, size)\<close>: the result and the buffer.  Each successful read
  returns at least one byte, so \<open>size\<close> turns are enough.
\<close>

fun read_all_loop :: "nat \<Rightarrow> int \<Rightarrow> byte list \<Rightarrow> nat \<Rightarrow> nat \<Rightarrow> nat \<Rightarrow> ('z, int \<times> byte list) bw" where
  "read_all_loop 0 fd buf off sz so_far = do { CHECK (sz \<le> so_far); ret (0, buf) }"
| "read_all_loop (Suc n) fd buf off sz so_far =
     (if so_far < sz then do {
        CHECK (off + sz \<le> length buf);
        r \<leftarrow> TEMP_FAILURE_RETRY (\<lambda>r. r = None) (ota_read fd (sz - so_far));
        case r of
          None \<Rightarrow> do { fail_with kFreadFailure; ret (-1, buf) }
        | Some xs \<Rightarrow>
            if xs = [] then do { fail_with kFreadFailure; ret (-1, buf) }
            else read_all_loop n fd (overlay (off + so_far) xs buf) off sz (so_far + length xs) }
      else ret (0, buf))"

definition read_all :: "int \<Rightarrow> byte list \<Rightarrow> nat \<Rightarrow> nat \<Rightarrow> ('z, int \<times> byte list) bw" where
  "read_all fd buf off sz = read_all_loop sz fd buf off sz 0"

fun write_all_loop :: "nat \<Rightarrow> int \<Rightarrow> byte list \<Rightarrow> nat \<Rightarrow> ('z, int) bw" where
  "write_all_loop 0 fd data so_far = do { CHECK (length data \<le> so_far); ret 0 }"
| "write_all_loop (Suc n) fd data so_far =
     (if so_far < length data then do {
        w \<leftarrow> TEMP_FAILURE_RETRY (\<lambda>r. r = -1) (ota_write fd (drop so_far data));
        if w = -1 then do { fail_with kFwriteFailure; ret (-1) }
        else write_all_loop n fd data (so_far + nat w) }
      else ret 0)"

definition write_all :: "int \<Rightarrow> byte list \<Rightarrow> nat \<Rightarrow> nat \<Rightarrow> ('z, int) bw" where
  "write_all fd buf off sz = do {
     CHECK (sz = 0 \<or> off + sz \<le> length buf);
     write_all_loop sz fd (take sz (drop off buf)) 0 }"

text \<open>
  \<^verbatim>\<open>ioctl(fd, BLKDISCARD, args)\<close>: afterwards the discarded bytes of a block device are whatever
  the device returns for them.
\<close>

definition discarded :: "'z block_env \<Rightarrow> nat \<Rightarrow> nat \<Rightarrow> byte list \<Rightarrow> byte list" where
  "discarded e off sz c =
     (let old = take sz (drop off c)
      in overlay off (take (length old) (be_discard e off old @ old)) c)"

definition blkdiscard :: "'z block_env \<Rightarrow> int \<Rightarrow> nat \<Rightarrow> nat \<Rightarrow> ('z, int) bw" where
  "blkdiscard e fd off sz = do {
     ev \<leftarrow> next_event;
     at \<leftarrow> gets (\<lambda>s. fd_of s fd);
     case at of
       None \<Rightarrow> fail EBADF
     | Some (p, _) \<Rightarrow> do {
         c \<leftarrow> gets (\<lambda>s. if p \<in> set (w_dev s) then file_of s p else None);
         case (ev, c) of
           (IoErr er _, _) \<Rightarrow> fail er
         | (_, None) \<Rightarrow> fail ENOTSUP
         | (IoHalt _, Some c) \<Rightarrow> do { upd (set_file p (discarded e off sz c)); halt; ret (-1) }
         | (_, Some c) \<Rightarrow> do { upd (set_file p (discarded e off sz c)); ret 0 } } }"

definition discard_ok :: "'z block_env \<Rightarrow> int \<Rightarrow> nat \<Rightarrow> nat \<Rightarrow> ('z, bool) bw" where
  "discard_ok e fd off sz = do {
     r \<leftarrow> blkdiscard e fd off sz;
     errno \<leftarrow> gets w_errno;
     ret (\<not> (r = -1 \<and> errno \<noteq> ENOTSUP)) }"

definition discard_blocks :: "'z block_env \<Rightarrow> int \<Rightarrow> nat \<Rightarrow> nat \<Rightarrow> ('z, bool) bw" where
  "discard_blocks e fd off sz = do {
     retry \<leftarrow> gets is_retry;
     if \<not> retry then ret True else discard_ok e fd off sz }"

text \<open>\<^verbatim>\<open>lseek64\<close> takes a signed offset.\<close>

definition check_lseek :: "int \<Rightarrow> nat \<Rightarrow> ('z, bool) bw" where
  "check_lseek fd offset = do {
     rc \<leftarrow> (if 2 ^ 63 \<le> offset then fail EINVAL
           else TEMP_FAILURE_RETRY (\<lambda>r. r = -1) (sys_lseek fd offset));
     if rc = -1 then do { fail_with kLseekFailure; ret False } else ret True }"

definition allocate :: "nat \<Rightarrow> byte list \<Rightarrow> byte list" where
  "allocate sz buf = (if sz \<le> length buf then buf else buf @ replicate (sz - length buf) 0)"

section \<open>The range sink\<close>

definition RangeSinkWriter_new :: "int \<Rightarrow> RangeSet \<Rightarrow> ('z, RangeSinkWriter) bw" where
  "RangeSinkWriter_new fd tgt = do {
     CHECK (rs_ranges tgt \<noteq> []);
     ret \<lparr>rw_fd = fd, rw_tgt = tgt, rw_next_range = 0, rw_current_range_left = 0, rw_bytes_written = 0\<rparr> }"

definition Finished :: "RangeSinkWriter \<Rightarrow> bool" where
  "Finished w \<longleftrightarrow> rw_next_range w = length (rs_ranges (rw_tgt w)) \<and> rw_current_range_left w = 0"

definition AvailableSpace :: "RangeSinkWriter \<Rightarrow> nat" where
  "AvailableSpace w = size_sub (size_mul (rs_blocks (rw_tgt w)) BLOCKSIZE) (rw_bytes_written w)"

definition SeekToOutputRange :: "'z block_env \<Rightarrow> RangeSinkWriter \<Rightarrow> ('z, bool \<times> RangeSinkWriter) bw" where
  "SeekToOutputRange e w =
     (if rw_current_range_left w \<noteq> 0 then ret (True, w)
      else if length (rs_ranges (rw_tgt w)) \<le> rw_next_range w then ret (False, w)
      else
        let rng = rs_ranges (rw_tgt w) ! rw_next_range w;
            offset = size_mul (range_first rng) BLOCKSIZE;
            left = size_mul (range_size rng) BLOCKSIZE;
            w' = w\<lparr>rw_current_range_left := left, rw_next_range := rw_next_range w + 1\<rparr>
        in do {
          ok \<leftarrow> discard_blocks e (rw_fd w) offset left;
          if \<not> ok then ret (False, w')
          else do {
            ok \<leftarrow> check_lseek (rw_fd w) offset;
            ret (ok, w') } })"

text \<open>
  The loop of \<^verbatim>\<open>Write\<close>.  A turn writes at least one byte or moves to a new range or ends, so the
  bytes to write plus the ranges bound the number of turns.
\<close>

fun Write_loop ::
  "nat \<Rightarrow> 'z block_env \<Rightarrow> RangeSinkWriter \<Rightarrow> byte list \<Rightarrow> nat \<Rightarrow> ('z, nat \<times> RangeSinkWriter) bw" where
  "Write_loop 0 e w data so_far = do { CHECK (data = []); ret (so_far, w) }"
| "Write_loop (Suc n) e w data so_far =
     (if data = [] then ret (so_far, w)
      else do {
        (ok, w) \<leftarrow> SeekToOutputRange e w;
        if \<not> ok then ret (so_far, w)
        else
          let write_now = min (length data) (rw_current_range_left w) in do {
            r \<leftarrow> write_all (rw_fd w) data 0 write_now;
            if r = -1 then ret (so_far, w)
            else Write_loop n e
              (w\<lparr>rw_current_range_left := rw_current_range_left w - write_now\<rparr>)
              (drop write_now data) (so_far + write_now) } })"

definition Write :: "'z block_env \<Rightarrow> RangeSinkWriter \<Rightarrow> byte list \<Rightarrow> ('z, nat \<times> RangeSinkWriter) bw" where
  "Write e w data =
     (if Finished w then ret (0, w)
      else do {
        (n, w) \<leftarrow> Write_loop (length data + length (rs_ranges (rw_tgt w))) e w data 0;
        ret (n, w\<lparr>rw_bytes_written := size_add (rw_bytes_written w) n\<rparr>) })"

section \<open>The new-data thread\<close>

text \<open>
  The thread that expands the new data hands it on piece by piece.  It and the main thread never
  run at the same time: while \<^verbatim>\<open>writer\<close> is null the thread waits for one, and while it is set the
  main thread waits for it to disappear.  So a run of the thread is a function call that ends when
  the callback has returned true (\<open>Received\<close>) or false (\<open>Refused\<close>) or waits for a writer with data
  left to hand on (\<open>Waiting\<close>).  A callback that goes round without consuming data never returns,
  which is an ended process here.
\<close>

datatype receipt = Received | Refused | Waiting "byte list"

definition writer_done :: "RangeSinkWriter \<Rightarrow> ('z, unit) bw" where
  "writer_done w = upd (\<lambda>s. s\<lparr>nti_writer := (if Finished w then None else Some w)\<rparr>)"

fun receive_new_data :: "nat \<Rightarrow> 'z block_env \<Rightarrow> byte list \<Rightarrow> ('z, receipt) bw" where
  "receive_new_data 0 e data = do { CHECK (data = []); ret Received }"
| "receive_new_data (Suc n) e data =
     (if data = [] then ret Received
      else do {
        writer \<leftarrow> gets nti_writer;
        case writer of
          None \<Rightarrow> ret (Waiting data)
        | Some w \<Rightarrow>
            let write_now = min (length data) (AvailableSpace w) in do {
              (k, w) \<leftarrow> Write e w (take write_now data);
              if k \<noteq> write_now then do { upd (\<lambda>s. s\<lparr>nti_writer := Some w\<rparr>); ret Refused }
              else do {
                writer_done w;
                receive_new_data n e (drop write_now data) } } })"

fun receive_brotli_new_data :: "nat \<Rightarrow> 'z block_env \<Rightarrow> byte list \<Rightarrow> ('z, receipt) bw" where
  "receive_brotli_new_data 0 e data = do { CHECK False; ret Received }"
| "receive_brotli_new_data (Suc n) e data = do {
     calls \<leftarrow> gets nti_brotli;
     if data = [] \<and> \<not> br_more (be_brotli e) calls then ret Received
     else do {
       writer \<leftarrow> gets nti_writer;
       case writer of
         None \<Rightarrow> ret (Waiting data)
       | Some w \<Rightarrow>
           let buffer_size = min 32768 (AvailableSpace w) in
           if buffer_size = 0 then ret Refused
           else
             let (err, consumed, out) = br_step (be_brotli e) calls data buffer_size in do {
               upd (\<lambda>s. s\<lparr>nti_brotli := calls @ [(data, buffer_size)]\<rparr>);
               if err then ret Refused
               else do {
                 (k, w) \<leftarrow> Write e w out;
                 if k \<noteq> length out then do { upd (\<lambda>s. s\<lparr>nti_writer := Some w\<rparr>); ret Refused }
                 else do {
                   writer_done w;
                   receive_brotli_new_data n e (drop consumed data) } } } } }"

text \<open>The rest of \<^verbatim>\<open>unzip_new_data\<close> from the point where the thread waits.\<close>

fun unzip_new_data :: "'z block_env \<Rightarrow> bool \<Rightarrow> byte list list \<Rightarrow> ('z, unit) bw" where
  "unzip_new_data e brotli [] = upd (\<lambda>s. s\<lparr>nti_receiver_available := False, nti_chunks := []\<rparr>)"
| "unzip_new_data e brotli (data # chunks) = do {
     r \<leftarrow> (if brotli then receive_brotli_new_data (br_turns (be_brotli e)) e data
          else receive_new_data (length data + 1) e data);
     case r of
       Refused \<Rightarrow> upd (\<lambda>s. s\<lparr>nti_receiver_available := False, nti_chunks := []\<rparr>)
     | Received \<Rightarrow> unzip_new_data e brotli chunks
     | Waiting rest \<Rightarrow> upd (\<lambda>s. s\<lparr>nti_chunks := rest # chunks\<rparr>) }"

section \<open>Blocks\<close>

fun ReadBlocks_loop :: "int \<Rightarrow> range list \<Rightarrow> byte list \<Rightarrow> nat \<Rightarrow> ('z, int \<times> byte list) bw" where
  "ReadBlocks_loop fd [] buf p = ret (0, buf)"
| "ReadBlocks_loop fd (rng # rngs) buf p = do {
     ok \<leftarrow> check_lseek fd (size_mul (range_first rng) BLOCKSIZE);
     if \<not> ok then ret (-1, buf)
     else
       let sz = size_mul (range_size rng) BLOCKSIZE in do {
         (r, buf) \<leftarrow> read_all fd buf p sz;
         if r = -1 then ret (-1, buf) else ReadBlocks_loop fd rngs buf (size_add p sz) } }"

definition ReadBlocks :: "RangeSet \<Rightarrow> byte list \<Rightarrow> int \<Rightarrow> ('z, int \<times> byte list) bw" where
  "ReadBlocks src buf fd = ReadBlocks_loop fd (rs_ranges src) buf 0"

fun WriteBlocks_loop :: "'z block_env \<Rightarrow> int \<Rightarrow> range list \<Rightarrow> byte list \<Rightarrow> nat \<Rightarrow> ('z, int) bw" where
  "WriteBlocks_loop e fd [] buf so_far = ret 0"
| "WriteBlocks_loop e fd (rng # rngs) buf so_far =
     (let offset = size_mul (range_first rng) BLOCKSIZE;
          sz = size_mul (range_size rng) BLOCKSIZE
      in do {
        ok \<leftarrow> discard_blocks e fd offset sz;
        if \<not> ok then ret (-1)
        else do {
          ok \<leftarrow> check_lseek fd offset;
          if \<not> ok then ret (-1)
          else do {
            r \<leftarrow> write_all fd buf so_far sz;
            if r = -1 then ret (-1)
            else WriteBlocks_loop e fd rngs buf (size_add so_far sz) } } })"

definition WriteBlocks :: "'z block_env \<Rightarrow> RangeSet \<Rightarrow> byte list \<Rightarrow> int \<Rightarrow> ('z, int) bw" where
  "WriteBlocks e tgt buf fd = WriteBlocks_loop e fd (rs_ranges tgt) buf 0"

text \<open>The functions that print digests: what they check and read; the log itself is left out.\<close>

definition block_in :: "RangeSet \<Rightarrow> byte list \<Rightarrow> nat \<Rightarrow> bool" where
  "block_in locs buf i =
     (case GetBlockNumber locs i of
        None \<Rightarrow> False
      | Some b \<Rightarrow> size_mul (size_add b 1) BLOCKSIZE \<le> length buf)"

definition PrintHashForCorruptedSourceBlocks ::
  "'z block_env \<Rightarrow> string list \<Rightarrow> byte list \<Rightarrow> ('z, unit) bw" where
  "PrintHashForCorruptedSourceBlocks e tokens buf = do {
     CHECK (tokens \<noteq> [] \<and> hd tokens \<in> {''move'', ''bsdiff'', ''imgdiff''});
     let pos = (if hd tokens = ''move'' then 4 else 7) in
     if length tokens < pos + 1 then ret ()
     else if tokens ! pos = ''-'' then ret ()
     else
       let src = Parse (be_ab e) (tokens ! pos) in
       if rs_ranges src = [] then ret ()
       else do {
         locs \<leftarrow>
           (if pos + 1 = length tokens then ret (RangeSet_ctor [Range 0 (rs_blocks src)])
            else
              let locs = Parse (be_ab e) (tokens ! (pos + 1)) in do {
                CHECK (rs_blocks src = rs_blocks locs);
                ret locs });
         CHECK (list_all (block_in locs buf) [0..<rs_blocks src]) } }"

definition PrintHashForCorruptedStashedBlocks ::
  "string \<Rightarrow> byte list \<Rightarrow> RangeSet \<Rightarrow> ('z, unit) bw" where
  "PrintHashForCorruptedStashedBlocks sid buf src =
     CHECK (size_mul (rs_blocks src) BLOCKSIZE = length buf)"

definition PrintHashForMissingStashedBlocks :: "string \<Rightarrow> int \<Rightarrow> ('z, unit) bw" where
  "PrintHashForMissingStashedBlocks sid fd = do {
     m \<leftarrow> gets stash_map;
     case map_of m sid of
       None \<Rightarrow> ret ()
     | Some src \<Rightarrow> do {
         (r, buf) \<leftarrow> ReadBlocks src (replicate (size_mul (rs_blocks src) BLOCKSIZE) 0) fd;
         if r = -1 then ret () else PrintHashForCorruptedStashedBlocks sid buf src } }"

text \<open>\<^verbatim>\<open>VerifyBlocks\<close> reads \<open>blocks * BLOCKSIZE\<close> bytes of the buffer.\<close>

definition VerifyBlocks :: "'z block_env \<Rightarrow> string \<Rightarrow> byte list \<Rightarrow> nat \<Rightarrow> ('z, int) bw" where
  "VerifyBlocks e expected buf blocks = do {
     CHECK (size_mul blocks BLOCKSIZE \<le> length buf);
     ret (if print_sha1 (be_sha1 e (take (size_mul blocks BLOCKSIZE) buf)) \<noteq> expected then -1 else 0) }"

section \<open>Stash files\<close>

definition GetStashFileName :: "'z block_env \<Rightarrow> string \<Rightarrow> string \<Rightarrow> string \<Rightarrow> string" where
  "GetStashFileName e base sid postfix =
     (if base = [] then []
      else stash_directory_base (be_cache e) @ ''/'' @ base @ ''/'' @ sid @ postfix)"

text \<open>The kernel ignores repeated and trailing slashes in a path.\<close>

fun squeeze_slashes :: "string \<Rightarrow> string" where
  "squeeze_slashes (a # b # p) =
     (if a = CHR ''/'' \<and> b = CHR ''/'' then squeeze_slashes (b # p) else a # squeeze_slashes (b # p))"
| "squeeze_slashes p = p"

definition norm_path :: "string \<Rightarrow> string" where
  "norm_path p =
     (let q = squeeze_slashes p
      in if 1 < length q \<and> last q = CHR ''/'' then butlast q else q)"

fun for_each :: "(string \<Rightarrow> ('z, unit) bw) \<Rightarrow> string list \<Rightarrow> ('z, unit) bw" where
  "for_each f [] = ret ()"
| "for_each f (x # xs) = do { f x; for_each f xs }"

definition EnumerateStash :: "string \<Rightarrow> (string \<Rightarrow> ('z, unit) bw) \<Rightarrow> ('z, unit) bw" where
  "EnumerateStash dirname callback =
     (if dirname = [] then ret ()
      else do {
        names \<leftarrow> sys_listdir (norm_path dirname);
        case names of
          None \<Rightarrow> ret ()
        | Some names \<Rightarrow> for_each (\<lambda>d_name. callback (dirname @ ''/'' @ d_name)) names })"

definition DeleteFile :: "string \<Rightarrow> ('z, unit) bw" where
  "DeleteFile fn = (if fn = [] then ret () else do { sys_unlink (norm_path fn); ret () })"

definition DeleteStash :: "'z block_env \<Rightarrow> string \<Rightarrow> ('z, unit) bw" where
  "DeleteStash e base =
     (if base = [] then ret ()
      else
        let dirname = GetStashFileName e base [] [] in do {
          EnumerateStash dirname DeleteFile;
          sys_rmdir (norm_path dirname);
          ret () })"

text \<open>\<^verbatim>\<open>LoadStash\<close>: the result and the buffer.\<close>

definition LoadStash ::
  "'z block_env \<Rightarrow> bool \<Rightarrow> string \<Rightarrow> int \<Rightarrow> string \<Rightarrow> bool \<Rightarrow> byte list \<Rightarrow> bool \<Rightarrow> ('z, int \<times> byte list) bw" where
  "LoadStash e canwrite stashbase dev sid verify buf printnoent = do {
     m \<leftarrow> gets stash_map;
     case (canwrite, map_of m sid) of
       (False, Some src) \<Rightarrow> do {
         (r, buf) \<leftarrow> ReadBlocks src (allocate (size_mul (rs_blocks src) BLOCKSIZE) buf) dev;
         if r = -1 then ret (-1, buf)
         else do {
           v \<leftarrow> VerifyBlocks e sid buf (rs_blocks src);
           if v \<noteq> 0 then do { PrintHashForCorruptedStashedBlocks sid buf src; ret (-1, buf) }
           else ret (0, buf) } }
     | _ \<Rightarrow>
         let fn = GetStashFileName e stashbase sid [] in do {
           sb \<leftarrow> sys_stat fn;
           case sb of
             None \<Rightarrow> do {
               errno \<leftarrow> gets w_errno;
               (if errno \<noteq> ENOENT \<or> printnoent then PrintHashForMissingStashedBlocks sid dev else ret ());
               ret (-1, buf) }
           | Some st_size \<Rightarrow>
               if st_size mod BLOCKSIZE \<noteq> 0 then ret (-1, buf)
               else do {
                 fd \<leftarrow> TEMP_FAILURE_RETRY (\<lambda>r. r = -1) (ota_open fn [O_RDONLY]);
                 if fd = -1 then ret (-1, buf)
                 else closing fd (do {
                   (r, buf) \<leftarrow> read_all fd (allocate st_size buf) 0 st_size;
                   if r = -1 then ret (-1, buf)
                   else do {
                     v \<leftarrow> (if verify then VerifyBlocks e sid buf (st_size div BLOCKSIZE) else ret 0);
                     if v \<noteq> 0 then do {
                       m \<leftarrow> gets stash_map;
                       (case map_of m sid of
                          None \<Rightarrow> ret ()
                        | Some src \<Rightarrow> PrintHashForCorruptedStashedBlocks sid buf src);
                       DeleteFile fn;
                       ret (-1, buf) }
                     else ret (0, buf) } }) } } }"

text \<open>\<^verbatim>\<open>static_cast<int>\<close> of a \<^verbatim>\<open>size_t\<close>, and back.\<close>

definition to_int :: "nat \<Rightarrow> int" where
  "to_int n = (let k = int n mod 2 ^ 32 in if k < 2 ^ 31 then k else k - 2 ^ 32)"

text \<open>
  \<^verbatim>\<open>WriteStash\<close> with its two uses of \<^verbatim>\<open>exists\<close>: \<open>use_exists\<close> tells whether the pointer is set,
  and the second result is what it points to.
\<close>

definition WriteStash ::
  "'z block_env \<Rightarrow> string \<Rightarrow> string \<Rightarrow> int \<Rightarrow> byte list \<Rightarrow> bool \<Rightarrow> bool \<Rightarrow> ('z, int \<times> bool) bw" where
  "WriteStash e base sid blocks buf checkspace use_exists =
     (if base = [] then ret (-1, False)
      else
        let sz = size_mul (to_size blocks) BLOCKSIZE;
            fn = GetStashFileName e base sid ''.partial'';
            cn = GetStashFileName e base sid []
        in do {
          room \<leftarrow> (if checkspace then CacheSizeCheck (be_env e) sz else ret 0);
          if room \<noteq> 0 then ret (-1, False)
          else do {
            st \<leftarrow> (if use_exists then sys_stat cn else ret None);
            if st \<noteq> None then ret (0, True)
            else do {
              fd \<leftarrow> TEMP_FAILURE_RETRY (\<lambda>r. r = -1) (ota_open fn [O_WRONLY, O_CREAT, O_TRUNC]);
              if fd = -1 then ret (-1, False)
              else closing fd (do {
                r \<leftarrow> sys_chown fn;
                if r \<noteq> 0 then ret (-1, False)
                else do {
                  r \<leftarrow> write_all fd buf 0 sz;
                  if r = -1 then ret (-1, False)
                  else do {
                    r \<leftarrow> ota_fsync fd;
                    if r = -1 then do { fail_with kFsyncFailure; ret (-1, False) }
                    else do {
                      r \<leftarrow> sys_rename fn cn;
                      if r = -1 then ret (-1, False)
                      else do {
                        dfd \<leftarrow> TEMP_FAILURE_RETRY (\<lambda>r. r = -1)
                          (ota_open (norm_path (GetStashFileName e base [] [])) [O_RDONLY, O_DIRECTORY]);
                        if dfd = -1 then do { fail_with kFileOpenFailure; ret (-1, False) }
                        else closing dfd (do {
                          r \<leftarrow> ota_fsync dfd;
                          if r = -1 then do { fail_with kFsyncFailure; ret (-1, False) }
                          else ret (0, False) }) } } } } }) } } })"

definition FreeStash :: "'z block_env \<Rightarrow> string \<Rightarrow> string \<Rightarrow> ('z, int) bw" where
  "FreeStash e base sid =
     (if base = [] \<or> sid = [] then ret (-1)
      else do { DeleteFile (GetStashFileName e base sid []); ret 0 })"

definition ends_with :: "string \<Rightarrow> string \<Rightarrow> bool" where
  "ends_with suf s \<longleftrightarrow> length suf \<le> length s \<and> drop (length s - length suf) s = suf"

fun existing_size :: "string list \<Rightarrow> nat \<Rightarrow> ('z, nat) bw" where
  "existing_size [] existing = ret existing"
| "existing_size (fn # fns) existing = do {
     sb \<leftarrow> sys_stat (norm_path fn);
     existing_size fns (case sb of None \<Rightarrow> existing | Some st_size \<Rightarrow> size_add existing st_size) }"

definition stash_creation_failure :: "'z block_env \<Rightarrow> string \<Rightarrow> string \<Rightarrow> ('z, unit) bw" where
  "stash_creation_failure e what dirname = do {
     errno \<leftarrow> gets w_errno;
     ErrorAbort (be_ab e) kStashCreationFailure
       (what @ [CHR 0x22] @ dirname @ [CHR 0x22] @ '' failed: '' @ be_strerror e errno);
     ret () }"

text \<open>\<^verbatim>\<open>CreateStash\<close>: the result and the base directory.\<close>

definition CreateStash :: "'z block_env \<Rightarrow> nat \<Rightarrow> string \<Rightarrow> ('z, int \<times> string) bw" where
  "CreateStash e maxblocks blockdev =
     (if blockdev = [] then ret (-1, [])
      else
        let base = print_sha1 (be_sha1 e (bytes_of blockdev));
            dirname = GetStashFileName e base [] [];
            max_stash_size = size_mul maxblocks BLOCKSIZE
        in do {
          res \<leftarrow> sys_stat (norm_path dirname);
          errno \<leftarrow> gets w_errno;
          if res = None \<and> errno \<noteq> ENOENT then do {
            stash_creation_failure e ''stat '' dirname; ret (-1, base) }
          else if res = None then do {
            res \<leftarrow> sys_mkdir (norm_path dirname);
            if res \<noteq> 0 then do { stash_creation_failure e ''mkdir '' dirname; ret (-1, base) }
            else do {
              r \<leftarrow> sys_chown dirname;
              if r \<noteq> 0 then do { stash_creation_failure e ''chown '' dirname; ret (-1, base) }
              else do {
                r \<leftarrow> CacheSizeCheck (be_env e) max_stash_size;
                if r \<noteq> 0 then do {
                  ErrorAbort (be_ab e) kStashCreationFailure
                    (''not enough space for stash ('' @ to_string max_stash_size @ '' needed)'');
                  ret (-1, base) }
                else ret (1, base) } } }
          else do {
            EnumerateStash dirname (\<lambda>fn. if ends_with ''.partial'' fn then DeleteFile fn else ret ());
            names \<leftarrow> sys_listdir (norm_path dirname);
            existing \<leftarrow> existing_size
              (map (\<lambda>d_name. dirname @ ''/'' @ d_name) (case names of None \<Rightarrow> [] | Some ns \<Rightarrow> ns)) 0;
            if existing < max_stash_size then do {
              r \<leftarrow> CacheSizeCheck (be_env e) (max_stash_size - existing);
              if r \<noteq> 0 then do {
                ErrorAbort (be_ab e) kStashCreationFailure
                  (''not enough space for stash ('' @ to_string (max_stash_size - existing) @ '' more needed)'');
                ret (-1, base) }
              else ret (0, base) }
            else ret (0, base) } })"

section \<open>Moving blocks within a buffer\<close>

text \<open>
  \<^verbatim>\<open>MoveRange\<close>.  \<open>src\<close> is \<open>None\<close> when source and destination are the same buffer.  The result
  \<open>None\<close> stands for a copy that leaves one of the buffers.
\<close>

fun MoveRange_loop :: "range list \<Rightarrow> nat \<Rightarrow> byte list option \<Rightarrow> byte list \<Rightarrow> byte list option" where
  "MoveRange_loop [] start src dest = Some dest"
| "MoveRange_loop (rng # rngs) start src dest =
     (let blocks = range_size rng;
          start = size_sub start blocks;
          from = (case src of None \<Rightarrow> dest | Some x \<Rightarrow> x);
          n = blocks * BLOCKSIZE
      in if range_first rng * BLOCKSIZE + n \<le> length dest \<and> start * BLOCKSIZE + n \<le> length from
         then MoveRange_loop rngs start src
           (overlay (range_first rng * BLOCKSIZE) (take n (drop (start * BLOCKSIZE) from)) dest)
         else None)"

definition MoveRange :: "byte list \<Rightarrow> RangeSet \<Rightarrow> byte list option \<Rightarrow> byte list option" where
  "MoveRange dest locs src = MoveRange_loop (rev (rs_ranges locs)) (rs_blocks locs) src dest"

section \<open>Which files can change\<close>

text \<open>The writer writes to the file its descriptor was opened on.\<close>

definition on_dev :: "(int \<times> string) list \<Rightarrow> string \<Rightarrow> RangeSinkWriter \<Rightarrow> bool" where
  "on_dev D q w \<longleftrightarrow> (\<exists>p. (rw_fd w, p) \<in> set D \<and> p \<noteq> q)"

lemma on_dev_simps [simp]:
  "on_dev D q (w\<lparr>rw_current_range_left := l\<rparr>) = on_dev D q w"
  "on_dev D q (w\<lparr>rw_next_range := n\<rparr>) = on_dev D q w"
  "on_dev D q (w\<lparr>rw_bytes_written := m\<rparr>) = on_dev D q w"
  by (simp_all add: on_dev_def)

text \<open>
  \<open>unch D q x\<close>: the file \<open>q\<close> is \<open>x\<close>, and the range sinks that exist write to one of the
  descriptors in \<open>D\<close>, to another file.  A function preserves this as long as \<open>q\<close> is none of the
  files that it writes, renames or deletes.
\<close>

definition unch ::
  "(int \<times> string) list \<Rightarrow> string \<Rightarrow> byte list option \<Rightarrow> 'z block_world_scheme \<Rightarrow> bool" where
  "unch D q x s \<longleftrightarrow>
     file_of s q = x \<and> (\<forall>w. nti_writer s = Some w \<or> diff_writer s = Some w \<longrightarrow> on_dev D q w)"

lemma io_inv_unch: "io_inv (unch D q x)"
proof -
  have "nti_writer (core s) = nti_writer s \<and> diff_writer (core s) = diff_writer s" for s :: "'a block_world_scheme"
    by (simp add: core_def)
  then show ?thesis unfolding io_inv_def unch_def by (metis core_file_of)
qed

lemma writers_files [simp]:
  "nti_writer (put_bytes p pos ys s) = nti_writer s" "nti_writer (set_file p c s) = nti_writer s"
  "nti_writer (del_file p s) = nti_writer s" "diff_writer (put_bytes p pos ys s) = diff_writer s"
  "diff_writer (set_file p c s) = diff_writer s" "diff_writer (del_file p s) = diff_writer s"
  by (simp_all add: put_bytes_def set_file_def del_file_def split: option.split)

lemma unch_files [simp]:
  "p \<noteq> q \<Longrightarrow> unch D q x (put_bytes p pos ys s) = unch D q x s"
  "p \<noteq> q \<Longrightarrow> unch D q x (set_file p c s) = unch D q x s"
  "p \<noteq> q \<Longrightarrow> unch D q x (del_file p s) = unch D q x s"
  by (auto simp: unch_def put_bytes_def split: option.split)

lemma write_closed_unch: "p \<noteq> q \<Longrightarrow> write_closed (unch D q x) p"
  by (simp add: write_closed_def)

lemma open_ok_unch: "p \<noteq> q \<Longrightarrow> open_ok (unch D q x) p flags"
  by (simp add: open_ok_def)

named_theorems unchs "functions that keep a file"

lemmas unch_iok = keep_sys_read [OF io_inv_unch] keep_sys_lseek [OF io_inv_unch] keep_sys_plain [OF io_inv_unch]
  keep_sys_stat [OF io_inv_unch] keep_sys_listdir [OF io_inv_unch] keep_sys_close [OF io_inv_unch]
  keep_ota_read [OF io_inv_unch] keep_ota_fsync [OF io_inv_unch] keep_CHECK_io [OF io_inv_unch]
  keep_halt [OF io_inv_unch] keep_fail [OF io_inv_unch] keep_next_event [OF io_inv_unch]

declare unch_iok [unchs]

lemmas keep_steps = keep_bind keep_if keep_let keep_option keep_prod keep_ret keep_gets keep_retry

text \<open>Assignments to the variables of the updater.\<close>

lemma unchD: "unch D q x s \<Longrightarrow> nti_writer s = Some w \<Longrightarrow> on_dev D q w"
  "unch D q x s \<Longrightarrow> diff_writer s = Some w \<Longrightarrow> on_dev D q w"
  by (auto simp: unch_def)

lemma keep_assign:
  assumes "\<And>s. w_files (f s) = w_files s" "\<And>s. w_fds (f s) = w_fds s" "\<And>s. w_next_fd (f s) = w_next_fd s"
    and "\<And>s w. unch D q x s \<Longrightarrow> nti_writer (f s) = Some w \<Longrightarrow> on_dev D q w"
    and "\<And>s w. unch D q x s \<Longrightarrow> diff_writer (f s) = Some w \<Longrightarrow> on_dev D q w"
  shows "keep (io_keep fds (unch D q x)) (upd f)"
proof (rule keep_upd)
  fix s :: "'a block_world_scheme"
  assume k: "io_keep fds (unch D q x) s"
  then have u: "unch D q x s" by (simp add: io_keep_def)
  then have "unch D q x (f s)"
    using assms(4,5) [OF u] unfolding unch_def file_of_def assms(1) by blast
  moreover have "opened fd p (f s) = opened fd p s" for fd p
    unfolding opened_def fd_of_def assms(2,3) by (rule refl)
  ultimately show "io_keep fds (unch D q x) (f s)" using k by (simp add: io_keep_def)
qed

lemma keep_fail_with [unchs]: "keep (io_keep fds (unch D q x)) (fail_with c)"
  unfolding fail_with_def by (rule keep_assign) (auto dest: unchD)

lemma keep_closing [unchs]: "keep (io_keep fds (unch D q x)) m \<Longrightarrow> keep (io_keep fds (unch D q x)) (closing fd m)"
  unfolding closing_def by (intro keeps unchs)

lemma keep_unlink_unch [unchs]: "p \<noteq> q \<Longrightarrow> keep (io_keep fds (unch D q x)) (sys_unlink p)"
  by (rule keep_sys_unlink [OF io_inv_unch]) simp

lemma keep_rename_unch [unchs]:
  "p \<noteq> q \<Longrightarrow> p' \<noteq> q \<Longrightarrow> keep (io_keep fds (unch D q x)) (sys_rename p p')"
  unfolding sys_rename_def
  by (rule keep_sys_atomic [OF io_inv_unch]) (auto split: option.split)

lemma keep_dirs_unch [unchs]:
  "keep (io_keep fds (unch D q x)) (sys_mkdir d)" "keep (io_keep fds (unch D q x)) (sys_rmdir d)"
  unfolding sys_mkdir_def sys_rmdir_def
  by (rule keep_sys_atomic [OF io_inv_unch]; simp add: unch_def)+

lemma keep_write_unch:
  "(fd, p) \<in> set fds \<Longrightarrow> p \<noteq> q \<Longrightarrow> keep (io_keep fds (unch D q x)) (ota_write fd xs)"
  by (rule keep_ota_write [OF io_inv_unch _ write_closed_unch])

lemma keep_open_unch:
  assumes "p \<noteq> q \<or> O_CREAT \<notin> set flags \<and> O_TRUNC \<notin> set flags"
    "\<And>fd. keep (io_keep ((fd, p) # fds) (unch D q x)) (f fd)" "keep (io_keep fds (unch D q x)) m"
  shows "keep (io_keep fds (unch D q x)) (ota_open p flags \<bind> (\<lambda>fd. if fd = -1 then m else f fd))"
    "keep (io_keep fds (unch D q x)) (TEMP_FAILURE_RETRY g (ota_open p flags) \<bind> (\<lambda>fd. if fd = -1 then m else f fd))"
    "keep (io_keep fds (unch D q x)) (TEMP_FAILURE_RETRY g (sys_open p flags) \<bind> (\<lambda>fd. if fd = -1 then m else f fd))"
proof -
  have "open_ok (unch D q x) p flags" using assms(1) by (auto simp: open_ok_def)
  note o = keep_open_if [OF io_inv_unch this assms(2,3)]
  show "keep (io_keep fds (unch D q x)) (ota_open p flags \<bind> (\<lambda>fd. if fd = -1 then m else f fd))"
    "keep (io_keep fds (unch D q x)) (TEMP_FAILURE_RETRY g (ota_open p flags) \<bind> (\<lambda>fd. if fd = -1 then m else f fd))"
    "keep (io_keep fds (unch D q x)) (TEMP_FAILURE_RETRY g (sys_open p flags) \<bind> (\<lambda>fd. if fd = -1 then m else f fd))"
    by (rule o)+
qed

lemma keep_read_all [unchs]: "keep (io_keep fds (unch D q x)) (read_all fd buf off sz)"
proof -
  have "keep (io_keep fds (unch D q x)) (read_all_loop n fd buf off sz k)" for n k buf
  proof (induction n arbitrary: buf k)
    case (Suc n)
    show ?case unfolding read_all_loop.simps by (intro keeps unchs Suc)
  qed (simp only: read_all_loop.simps, intro keeps unchs)
  then show ?thesis by (simp add: read_all_def)
qed

lemma keep_write_all:
  assumes "(fd, p) \<in> set fds" "p \<noteq> q"
  shows "keep (io_keep fds (unch D q x)) (write_all fd buf off sz)"
proof -
  have "keep (io_keep fds (unch D q x)) (write_all_loop n fd data k)" for n k data
  proof (induction n arbitrary: k)
    case (Suc n)
    show ?case unfolding write_all_loop.simps by (intro keeps unchs keep_write_unch [OF assms] Suc)
  qed (simp only: write_all_loop.simps, intro keeps unchs)
  then show ?thesis unfolding write_all_def by (intro keeps unchs)
qed

lemma keep_check_lseek [unchs]: "keep (io_keep fds (unch D q x)) (check_lseek fd off)"
  unfolding check_lseek_def by (intro keeps unchs)

lemma keep_blkdiscard:
  assumes "(fd, p) \<in> set fds" "p \<noteq> q"
  shows "keep (io_keep fds (unch D q x)) (blkdiscard e fd off sz)"
proof (rule keepI)
  fix s :: "'a block_world_scheme"
  assume k: "io_keep fds (unch D q x) s"
  note simps = io_keep_simps [OF io_inv_unch]
  have "io_keep fds (unch D q x) (set_file p c s')" if "io_keep fds (unch D q x) s'" for c and s' :: "'a block_world_scheme"
    using that assms(2) by (auto simp: io_keep_def)
  moreover have "p' = p" if "fd_of s fd = Some (p', pos)" for p' pos
    using that k assms(1) by (auto simp: io_keep_def opened_def)
  ultimately show "wp (blkdiscard e fd off sz) (\<lambda>_. io_keep fds (unch D q x)) s"
    unfolding blkdiscard_def wp_bind using k
    by (intro wp_next_eventI) (auto split: option.split prod.split io_event.split intro!: simps)
qed

lemma keep_discard:
  assumes "(fd, p) \<in> set fds" "p \<noteq> q"
  shows "keep (io_keep fds (unch D q x)) (discard_ok e fd off sz)"
    "keep (io_keep fds (unch D q x)) (discard_blocks e fd off sz)"
  unfolding discard_blocks_def discard_ok_def
  by (intro keep_bind keep_if keep_ret keep_gets keep_blkdiscard [OF assms])+

lemma keep_ReadBlocks [unchs]: "keep (io_keep fds (unch D q x)) (ReadBlocks src buf fd)"
proof -
  have "keep (io_keep fds (unch D q x)) (ReadBlocks_loop fd rs buf p)" for rs buf p
  proof (induction rs arbitrary: buf p)
    case (Cons r rs)
    show ?case unfolding ReadBlocks_loop.simps by (intro keeps unchs Cons)
  qed (simp add: keep_ret)
  then show ?thesis by (simp add: ReadBlocks_def)
qed

lemma keep_WriteBlocks:
  assumes "(fd, p) \<in> set fds" "p \<noteq> q"
  shows "keep (io_keep fds (unch D q x)) (WriteBlocks e tgt buf fd)"
proof -
  have "keep (io_keep fds (unch D q x)) (WriteBlocks_loop e fd rs buf k)" for rs k
  proof (induction rs arbitrary: k)
    case (Cons r rs)
    show ?case unfolding WriteBlocks_loop.simps
      by (intro keeps unchs Cons keep_discard [OF assms] keep_write_all [OF assms])
  qed (simp add: keep_ret)
  then show ?thesis by (simp add: WriteBlocks_def)
qed

lemma keep_VerifyBlocks [unchs]: "keep (io_keep fds (unch D q x)) (VerifyBlocks e h buf n)"
  unfolding VerifyBlocks_def by (intro keeps unchs)

lemma keep_print [unchs]:
  "keep (io_keep fds (unch D q x)) (PrintHashForCorruptedSourceBlocks e toks buf)"
  "keep (io_keep fds (unch D q x)) (PrintHashForCorruptedStashedBlocks sid buf src)"
  "keep (io_keep fds (unch D q x)) (PrintHashForMissingStashedBlocks sid fd)"
  unfolding PrintHashForCorruptedSourceBlocks_def PrintHashForMissingStashedBlocks_def
    PrintHashForCorruptedStashedBlocks_def
  by (intro keeps unchs)+



lemma wp_SeekToOutputRange_keep:
  assumes "on_dev D q w" "set D \<subseteq> set fds" "io_keep fds (unch D q x) s"
  shows "wp (SeekToOutputRange e w) (\<lambda>(ok, w') s'. io_keep fds (unch D q x) s' \<and> on_dev D q w') s"
proof -
  obtain p where p: "(rw_fd w, p) \<in> set fds" "p \<noteq> q" using assms(1,2) by (auto simp: on_dev_def)
  note ks = keep_wp [where I = "io_keep fds (unch D q x)"]
  show ?thesis
    unfolding SeekToOutputRange_def Let_def
    by (intro wp_ifI wp_seq [OF ks [OF keep_discard(2) [OF p]]] wp_seq [OF ks [OF keep_check_lseek]])
      (use assms in simp_all)
qed

lemma wp_Write_loop_keep:
  assumes "on_dev D q w" "set D \<subseteq> set fds" "io_keep fds (unch D q x) s"
  shows "wp (Write_loop n e w data k) (\<lambda>(m, w') s'. io_keep fds (unch D q x) s' \<and> on_dev D q w') s"
  using assms(1,3)
proof (induction n arbitrary: w data k s)
  case 0
  have "wp (CHECK (data = [])) (\<lambda>_. io_keep fds (unch D q x)) s"
    using 0 by (intro keep_wp [OF keep_CHECK_io [OF io_inv_unch]])
  with 0 show ?case by (auto elim!: wp_mono)
next
  case (Suc n)
  show ?case
    unfolding Write_loop.simps
  proof (rule wp_ifI, use Suc.prems in simp,
      rule wp_seq [OF wp_SeekToOutputRange_keep [OF Suc.prems(1) assms(2) Suc.prems(2)]], goal_cases)
    case (1 okw s')
    obtain ok w' where okw: "okw = (ok, w')" by (cases okw)
    then have k: "on_dev D q w'" "io_keep fds (unch D q x) s'" using 1 by simp_all
    obtain p where p: "(rw_fd w', p) \<in> set fds" "p \<noteq> q" using k(1) assms(2) by (auto simp: on_dev_def)
    show ?case
      unfolding okw prod.case Let_def
      by (rule wp_ifI, use k in simp, rule wp_seq [OF keep_wp [OF keep_write_all [OF p] k(2)]],
          rule wp_ifI, use k in simp, rule Suc.IH) (use k in simp_all)
  qed
qed

lemma wp_Write_keep:
  assumes "on_dev D q w" "set D \<subseteq> set fds" "io_keep fds (unch D q x) s"
  shows "wp (Write e w data) (\<lambda>(m, w') s'. io_keep fds (unch D q x) s' \<and> on_dev D q w') s"
  unfolding Write_def
  by (rule wp_ifI, use assms in simp, rule wp_seq [OF wp_Write_loop_keep [OF assms]], auto)

lemma keep_set_writer:
  "on_dev D q w \<Longrightarrow> keep (io_keep fds (unch D q x)) (upd (\<lambda>s. s\<lparr>nti_writer := Some w\<rparr>))"
  "on_dev D q w \<Longrightarrow> keep (io_keep fds (unch D q x)) (upd (\<lambda>s. s\<lparr>diff_writer := Some w\<rparr>))"
  "on_dev D q w \<Longrightarrow> keep (io_keep fds (unch D q x)) (writer_done w)"
  unfolding writer_done_def by (rule keep_assign; auto dest: unchD split: if_splits)+

text \<open>A step that uses the current writer and stores it back.\<close>

lemma keep_with_writer:
  assumes "set D \<subseteq> set fds"
    and "\<And>s w. g s = Some w \<Longrightarrow> unch D q x s \<Longrightarrow> on_dev D q w"
    and "keep (io_keep fds (unch D q x)) m"
    and "\<And>w k w'. on_dev D q w' \<Longrightarrow> keep (io_keep fds (unch D q x)) (f w (k, w'))"
  shows "keep (io_keep fds (unch D q x)) (gets g \<bind> (\<lambda>writer. case writer of None \<Rightarrow> m
    | Some w \<Rightarrow> Write e w (data w) \<bind> f w))"
proof (rule keepI, rule wp_seq [where Q = "\<lambda>a s'. a = g s' \<and> io_keep fds (unch D q x) s'"], simp, rule wp_optionI)
  fix s writer s' assume "io_keep fds (unch D q x) s" "writer = g s' \<and> io_keep fds (unch D q x) s'"
  then show "wp m (\<lambda>_. io_keep fds (unch D q x)) s'" by (intro keep_wp [OF assms(3)]) simp
next
  fix s writer s' w assume "writer = g s' \<and> io_keep fds (unch D q x) s'" "writer = Some w"
  then have k: "io_keep fds (unch D q x) s'" "on_dev D q w"
    using assms(2) [of s' w] by (auto simp: io_keep_def)
  show "wp (Write e w (data w) \<bind> f w) (\<lambda>_. io_keep fds (unch D q x)) s'"
    by (rule wp_seq [OF wp_Write_keep [OF k(2) assms(1) k(1)]]) (auto intro: keep_wp assms(4))
qed

lemma keep_receive_new_data:
  assumes "set D \<subseteq> set fds"
  shows "keep (io_keep fds (unch D q x)) (receive_new_data n e data)"
proof (induction n arbitrary: data)
  case (Suc n)
  show ?case
    unfolding receive_new_data.simps Let_def
    by (intro keep_if keep_with_writer assms keep_ret)
      (auto intro!: keeps keep_set_writer Suc dest: unchD)
qed (simp only: receive_new_data.simps, intro keeps unchs)

lemma keep_receive_brotli:
  assumes "set D \<subseteq> set fds"
  shows "keep (io_keep fds (unch D q x)) (receive_brotli_new_data n e data)"
proof (induction n arbitrary: data)
  case (Suc n)
  have w: "wp (Write e w out \<bind> (\<lambda>(k, w). if k \<noteq> length out
      then do { upd (\<lambda>s. s\<lparr>nti_writer := Some w\<rparr>); ret Refused }
      else do { writer_done w; receive_brotli_new_data n e d })) (\<lambda>_. io_keep fds (unch D q x)) s"
    if "io_keep fds (unch D q x) s" "on_dev D q w" for w out d s
    by (rule wp_seq [OF wp_Write_keep [OF that(2) assms that(1)]])
      (auto simp del: wp_bind intro!: keep_wp [where I = "io_keep fds (unch D q x)"] keeps keep_set_writer Suc)
  have assign: "keep (io_keep fds (unch D q x)) (upd (\<lambda>s. s\<lparr>nti_brotli := c\<rparr>))" for c
    by (rule keep_assign) (auto dest: unchD)
  show ?case
  proof (rule keepI)
    fix s :: "'a block_world_scheme"
    assume k: "io_keep fds (unch D q x) s"
    then have on: "on_dev D q w" if "nti_writer s = Some w" for w
      using that by (auto simp: io_keep_def dest: unchD)
    show "wp (receive_brotli_new_data (Suc n) e data) (\<lambda>_. io_keep fds (unch D q x)) s"
      unfolding receive_brotli_new_data.simps wp_bind [of "gets _"] wp_gets
    proof (rule wp_ifI, simp add: k, unfold wp_bind [of "gets _"] wp_gets, rule wp_optionI, simp add: k,
        unfold Let_def, rule wp_ifI, simp add: k, goal_cases)
      case (1 w)
      obtain err consumed out where st: "br_step (be_brotli e) (nti_brotli s) data
          (min 32768 (AvailableSpace w)) = (err, consumed, out)" by (metis prod_cases3)
      show ?case
        unfolding st prod.case
        by (rule wp_seq [OF keep_wp [OF assign k]], rule wp_ifI, simp, rule w, assumption, rule on, rule 1)
    qed
  qed
qed (simp only: receive_brotli_new_data.simps, intro keeps unchs)


lemma keep_unzip_new_data:
  assumes "set D \<subseteq> set fds"
  shows "keep (io_keep fds (unch D q x)) (unzip_new_data e brotli chunks)"
proof (induction chunks)
  case Nil
  show ?case unfolding unzip_new_data.simps by (rule keep_assign) (auto dest: unchD)
next
  case (Cons data chunks)
  have assign: "keep (io_keep fds (unch D q x)) (upd (\<lambda>s. s\<lparr>nti_receiver_available := a, nti_chunks := c\<rparr>))"
    "keep (io_keep fds (unch D q x)) (upd (\<lambda>s. s\<lparr>nti_chunks := c\<rparr>))" for a c
    by (rule keep_assign; auto dest: unchD)+
  have "keep (io_keep fds (unch D q x)) (case r of
       Refused \<Rightarrow> upd (\<lambda>s. s\<lparr>nti_receiver_available := False, nti_chunks := []\<rparr>)
     | Received \<Rightarrow> unzip_new_data e brotli chunks
     | Waiting rest \<Rightarrow> upd (\<lambda>s. s\<lparr>nti_chunks := rest # chunks\<rparr>))" for r
    using assign Cons by (cases r) simp_all
  then show ?case
    unfolding unzip_new_data.simps
    by (intro keep_bind keep_if keep_receive_new_data keep_receive_brotli assms)
qed

section \<open>Files outside the cache\<close>

text \<open>
  A file that is neither a stash file, nor the last-command file, nor anything else on the cache
  partition, nor the kernel file of the patch code.
\<close>

definition off_cache :: "'z block_env \<Rightarrow> string \<Rightarrow> bool" where
  "off_cache e q \<longleftrightarrow>
     (\<forall>base sid postfix. base \<noteq> [] \<longrightarrow> GetStashFileName e base sid postfix \<noteq> q \<and>
        norm_path (GetStashFileName e base sid postfix) \<noteq> q) \<and>
     last_command_file (be_cache e) \<noteq> q \<and> last_command_file (be_cache e) @ ''.tmp'' \<noteq> q \<and>
     \<not> starts_with ''/cache/'' q"

text \<open>
  The file helpers of android-base act on the descriptor they are given and on nothing else.
\<close>

definition helpers_ok :: "'z block_env \<Rightarrow> bool" where
  "helpers_ok e \<longleftrightarrow>
     (\<forall>I fds fd. io_inv I \<longrightarrow> keep (io_keep fds I) (be_ReadFdToString e fd)) \<and>
     (\<forall>I fds fd p str. io_inv I \<and> (fd, p) \<in> set fds \<and> write_closed I p \<longrightarrow>
        keep (io_keep fds I) (be_WriteStringToFd e str fd))"

lemma off_cacheD:
  assumes "off_cache e q"
  shows "base \<noteq> [] \<Longrightarrow> GetStashFileName e base sid postfix \<noteq> q"
    "base \<noteq> [] \<Longrightarrow> norm_path (GetStashFileName e base sid postfix) \<noteq> q"
    "last_command_file (be_cache e) \<noteq> q" "last_command_file (be_cache e) @ ''.tmp'' \<noteq> q"
    "expendable (be_env e) p \<Longrightarrow> p \<noteq> q"
  using assms by (auto simp: off_cache_def expendable_def)

lemma keep_last_command:
  assumes "helpers_ok e" "off_cache e q"
  shows "keep (io_keep fds (unch D q x)) (DeleteLastCommandFile e)"
    "keep (io_keep fds (unch D q x)) (ParseLastCommandFile e)"
    "keep (io_keep fds (unch D q x)) (UpdateLastCommandIndex e i line)"
proof -
  note o = off_cacheD [OF assms(2)]
  have rd: "keep (io_keep fds (unch D q x)) (be_ReadFdToString e fd)" for fds fd
    using assms(1) io_inv_unch unfolding helpers_ok_def by blast
  have wr: "keep (io_keep ((fd, last_command_file (be_cache e) @ ''.tmp'') # fds) (unch D q x)) (be_WriteStringToFd e str fd)" for fds fd str
  proof -
    have "write_closed (unch D q x) (last_command_file (be_cache e) @ ''.tmp'')"
      by (rule write_closed_unch [OF o(4)])
    then show ?thesis using assms(1) io_inv_unch unfolding helpers_ok_def
      by (metis list.set_intros(1))
  qed
  show "keep (io_keep fds (unch D q x)) (DeleteLastCommandFile e)"
    unfolding DeleteLastCommandFile_def by (intro keep_bind keep_ret keep_unlink_unch o)
  show "keep (io_keep fds (unch D q x)) (ParseLastCommandFile e)"
    unfolding ParseLastCommandFile_def Let_def
    by (rule keep_open_unch, simp) (intro keeps unchs rd)+
  show "keep (io_keep fds (unch D q x)) (UpdateLastCommandIndex e i line)"
    unfolding UpdateLastCommandIndex_def Let_def
    by (rule keep_open_unch keep_closing keep_bind keep_if keep_ret wr unchs o disjI1 disjI2 [of _ "_ \<noteq> q"] | simp)+
qed


lemma keep_CacheSizeCheck:
  assumes "off_cache e q"
  shows "keep (io_keep fds (unch D q x)) (CacheSizeCheck (be_env e) n)"
  unfolding CacheSizeCheck_def
  by (intro keep_bind keep_ret keep_MakeFreeSpaceOnCache io_inv_unch)
    (simp add: off_cacheD(5) [OF assms])

lemma keep_DeleteFile:
  "fn = [] \<or> norm_path fn \<noteq> q \<Longrightarrow> keep (io_keep fds (unch D q x)) (DeleteFile fn)"
  unfolding DeleteFile_def by (auto intro!: keeps unchs)

lemma keep_for_each:
  "(\<And>y. keep I (f y)) \<Longrightarrow> keep I (for_each f ys)"
  by (induction ys) (auto intro!: keeps)

lemma keep_EnumerateStash:
  assumes "\<And>n. keep (io_keep fds (unch D q x)) (f (d @ ''/'' @ n))"
  shows "keep (io_keep fds (unch D q x)) (EnumerateStash d f)"
  unfolding EnumerateStash_def by (intro keeps unchs keep_for_each) (use assms in simp)

text \<open>The entries that \<^verbatim>\<open>EnumerateStash\<close> reports are stash file names too.\<close>

lemma stash_entry:
  "base \<noteq> [] \<Longrightarrow> GetStashFileName e base [] [] @ ''/'' @ n = GetStashFileName e base (''/'' @ n) []"
  by (simp add: GetStashFileName_def)

lemma keep_stash_entry:
  assumes "off_cache e q" "base \<noteq> []"
  shows "keep (io_keep fds (unch D q x)) (DeleteFile (GetStashFileName e base [] [] @ ''/'' @ n))"
  using off_cacheD(2) [OF assms] unfolding stash_entry [OF assms(2)] by (intro keep_DeleteFile) simp

lemma keep_DeleteStash:
  assumes "off_cache e q"
  shows "keep (io_keep fds (unch D q x)) (DeleteStash e base)"
  unfolding DeleteStash_def Let_def
  by (cases "base = []") (auto intro!: keeps unchs keep_EnumerateStash keep_stash_entry assms)

lemma keep_FreeStash:
  assumes "off_cache e q"
  shows "keep (io_keep fds (unch D q x)) (FreeStash e base sid)"
  unfolding FreeStash_def
  by (auto intro!: keeps keep_DeleteFile off_cacheD(2) [OF assms])

lemma GetStashFileName_Nil [simp]: "GetStashFileName e [] sid postfix = []"
  by (simp add: GetStashFileName_def)

lemma keep_LoadStash:
  assumes "off_cache e q"
  shows "keep (io_keep fds (unch D q x)) (LoadStash e cw base dev sid vfy buf pn)"
proof -
  have del: "keep (io_keep fds (unch D q x)) (DeleteFile (GetStashFileName e base sid []))" for fds
    by (rule keep_DeleteFile) (cases "base = []"; use off_cacheD(2) [OF assms] in simp)
  show ?thesis
    unfolding LoadStash_def Let_def
    by (cases cw; rule keep_bind, rule keep_gets, simp only: prod.case bool.case;
        (rule keep_open_unch keep_closing keep_bind keep_if keep_option keep_prod keep_ret keep_gets
          keep_retry del unchs | simp)+)
qed

lemma keep_WriteStash:
  assumes "off_cache e q"
  shows "keep (io_keep fds (unch D q x)) (WriteStash e base sid n buf cs ue)"
proof (cases "base = []")
  case False
  note o = off_cacheD(1) [OF assms False]
  have wr: "keep (io_keep ((fd, GetStashFileName e base sid ''.partial'') # fds) (unch D q x)) (write_all fd buf off sz)"
    for fd fds off sz
    by (rule keep_write_all [OF list.set_intros(1) o])
  show ?thesis
    unfolding WriteStash_def Let_def if_not_P [OF False]
    by (rule keep_open_unch keep_closing keep_bind keep_if keep_ret wr keep_CacheSizeCheck [OF assms]
        unchs o off_cacheD(2) [OF assms False] disjI1 | simp)+
qed (simp add: WriteStash_def keep_ret)

lemma keep_existing_size [unchs]: "keep (io_keep fds (unch D q x)) (existing_size fns k)"
  by (induction fns arbitrary: k) (auto intro!: keeps unchs)

lemma keep_ErrorAbort_unch [unchs]: "keep (io_keep fds (unch D q x)) (ErrorAbort ab c msg)"
  unfolding ErrorAbort_def by (intro keeps keep_assign) (auto dest: unchD)

lemma keep_CreateStash:
  assumes "off_cache e q"
  shows "keep (io_keep fds (unch D q x)) (CreateStash e n dev)"
proof -
  have fail: "keep (io_keep fds (unch D q x)) (stash_creation_failure e w d)" for w d
    unfolding stash_creation_failure_def by (intro keeps unchs)
  have enum: "keep (io_keep fds (unch D q x)) (EnumerateStash (GetStashFileName e b [] [])
      (\<lambda>fn. if ends_with ''.partial'' fn then DeleteFile fn else ret ()))" for b
    by (cases "b = []")
      (auto simp: EnumerateStash_def [of "[]"] keep_ret intro!: keep_EnumerateStash keep_if keep_stash_entry assms)
  show ?thesis
    unfolding CreateStash_def Let_def
    by (intro keep_bind keep_if keep_ret keep_gets fail enum keep_CacheSizeCheck [OF assms] unchs)
qed

end
