(* ===== verification/Block_Img.thy ===== *)
theory Block_Img
  imports Block_Io
begin

text \<open>
  The transfer list commands and their driver (\<^verbatim>\<open>updater/blockimg.cpp\<close>).

  The fields of \<^verbatim>\<open>CommandParameters\<close> that are fixed while a command runs are the record
  \<open>CommandParameters\<close>; the others are in the state (\<open>Block_Io\<close>).  The descriptor \<open>fd\<close> of the
  device is open during the whole run.  Progress lines for the recovery process are left out.
\<close>

section \<open>Commands\<close>

record CommandParameters =
  tokens :: "string list"
  cmdindex :: int
  cmdname :: string
  cmdline :: string
  stashbase :: string
  canwrite :: bool
  createdstash :: int
  dev_fd :: int
  brotli_compressed :: bool
  patch_start :: "byte list"

definition set_buffer :: "byte list \<Rightarrow> ('z, unit) bw" where
  "set_buffer buf = upd (\<lambda>s. s\<lparr>p_buffer := buf\<rparr>)"

text \<open>\<^verbatim>\<open>params.tokens[params.cpos++]\<close>\<close>

definition next_token :: "CommandParameters \<Rightarrow> ('z, string) bw" where
  "next_token k = do {
     i \<leftarrow> gets p_cpos;
     CHECK (i < length (tokens k));
     upd (\<lambda>s. s\<lparr>p_cpos := i + 1\<rparr>);
     ret (if i < length (tokens k) then tokens k ! i else []) }"

definition tokens_left :: "CommandParameters \<Rightarrow> nat \<Rightarrow> ('z, bool) bw" where
  "tokens_left k n = gets (\<lambda>s. p_cpos s + n < length (tokens k))"

definition parse_ranges :: "'z block_env \<Rightarrow> string \<Rightarrow> ('z, RangeSet) bw" where
  "parse_ranges e text = do {
     CHECK (rs_ranges (Parse (be_ab e) text) \<noteq> []);
     ret (Parse (be_ab e) text) }"

definition move_range :: "RangeSet \<Rightarrow> byte list option \<Rightarrow> ('z, unit) bw" where
  "move_range locs src = do {
     buf \<leftarrow> gets p_buffer;
     case MoveRange buf locs src of
       None \<Rightarrow> halt
     | Some buf \<Rightarrow> set_buffer buf }"

text \<open>The loop over the stashes of \<^verbatim>\<open>LoadSourceBlocks\<close>.\<close>

fun load_stashes :: "'z block_env \<Rightarrow> CommandParameters \<Rightarrow> string list \<Rightarrow> ('z, int) bw" where
  "load_stashes e k [] = ret 0"
| "load_stashes e k (word # words) = do {
     upd (\<lambda>s. s\<lparr>p_cpos := p_cpos s + 1\<rparr>);
     let pieces = ab_split (be_ab e) word '':'' in
     if length pieces \<noteq> 2 then ret (-1)
     else do {
       (r, stash) \<leftarrow> LoadStash e (canwrite k) (stashbase k) (dev_fd k) (pieces ! 0) False [] True;
       if r = -1 then load_stashes e k words
       else do {
         locs \<leftarrow> parse_ranges e (pieces ! 1);
         move_range locs (Some stash);
         load_stashes e k words } } }"

text \<open>\<^verbatim>\<open>LoadSourceBlocks\<close>: the result, the number of source blocks and the overlap.\<close>

definition LoadSourceBlocks ::
  "'z block_env \<Rightarrow> CommandParameters \<Rightarrow> RangeSet \<Rightarrow> ('z, int \<times> nat \<times> bool) bw" where
  "LoadSourceBlocks e k tgt = do {
     token \<leftarrow> next_token k;
     case ab_parse_uint (be_ab e) token SIZE_MAX of
       None \<Rightarrow> ret (-1, 0, False)
     | Some src_blocks \<Rightarrow> do {
         buf \<leftarrow> gets p_buffer;
         set_buffer (allocate (size_mul src_blocks BLOCKSIZE) buf);
         token \<leftarrow> next_token k;
         if token = ''-'' then do {
           words \<leftarrow> gets (\<lambda>s. drop (p_cpos s) (tokens k));
           r \<leftarrow> load_stashes e k words;
           ret (r, src_blocks, False) }
         else do {
           src \<leftarrow> parse_ranges e token;
           buf \<leftarrow> gets p_buffer;
           (r, buf) \<leftarrow> ReadBlocks src buf (dev_fd k);
           set_buffer buf;
           if r = -1 then ret (-1, src_blocks, Overlaps src tgt)
           else do {
             more \<leftarrow> tokens_left k 0;
             if \<not> more then ret (0, src_blocks, Overlaps src tgt)
             else do {
               token \<leftarrow> next_token k;
               locs \<leftarrow> parse_ranges e token;
               move_range locs None;
               words \<leftarrow> gets (\<lambda>s. drop (p_cpos s) (tokens k));
               r \<leftarrow> load_stashes e k words;
               ret (r, src_blocks, Overlaps src tgt) } } } } }"

text \<open>The part of \<^verbatim>\<open>LoadSrcTgtVersion3\<close> that stashes overlapping source blocks.\<close>

definition stash_overlap ::
  "'z block_env \<Rightarrow> CommandParameters \<Rightarrow> string \<Rightarrow> nat \<Rightarrow> ('z, int) bw" where
  "stash_overlap e k srchash src_blocks = do {
     buf \<leftarrow> gets p_buffer;
     (r, stash_exists) \<leftarrow> WriteStash e (stashbase k) srchash (to_int src_blocks) buf True True;
     if r \<noteq> 0 then ret (-1)
     else do {
       UpdateLastCommandIndex e (cmdindex k) (cmdline k);
       upd (\<lambda>s. s\<lparr>p_stashed := size_add (p_stashed s) src_blocks\<rparr>);
       (if \<not> stash_exists then upd (\<lambda>s. s\<lparr>p_freestash := srchash\<rparr>) else ret ());
       ret 0 } }"

text \<open>
  \<^verbatim>\<open>LoadSrcTgtVersion3\<close>: the status, the target ranges and the number of source blocks.
\<close>

definition load_src ::
  "'z block_env \<Rightarrow> CommandParameters \<Rightarrow> string \<Rightarrow> RangeSet \<Rightarrow> ('z, int \<times> nat) bw" where
  "load_src e k srchash tgt = do {
     (r, src_blocks, overlap) \<leftarrow> LoadSourceBlocks e k tgt;
     if r = -1 then ret (-1, src_blocks)
     else do {
       buf \<leftarrow> gets p_buffer;
       v \<leftarrow> VerifyBlocks e srchash buf src_blocks;
       if v = 0 then
         (if overlap \<and> canwrite k then do {
            r \<leftarrow> stash_overlap e k srchash src_blocks;
            ret (r, src_blocks) }
          else ret (0, src_blocks))
       else do {
         r \<leftarrow> (if overlap then do {
                (r, buf) \<leftarrow> LoadStash e (canwrite k) (stashbase k) (dev_fd k) srchash True buf True;
                set_buffer buf;
                ret r }
              else ret (-1));
         if r = 0 then ret (0, src_blocks)
         else do {
           buf \<leftarrow> gets p_buffer;
           PrintHashForCorruptedSourceBlocks e (tokens k) buf;
           upd (\<lambda>s. s\<lparr>p_isunresumable := True\<rparr>);
           ret (-1, src_blocks) } } } }"

definition LoadSrcTgtVersion3 ::
  "'z block_env \<Rightarrow> CommandParameters \<Rightarrow> bool \<Rightarrow> ('z, int \<times> RangeSet \<times> nat) bw" where
  "LoadSrcTgtVersion3 e k onehash = do {
     more \<leftarrow> tokens_left k 0;
     if \<not> more then ret (-1, RangeSet_empty, 0)
     else do {
       srchash \<leftarrow> next_token k;
       more \<leftarrow> tokens_left k 0;
       if \<not> onehash \<and> \<not> more then ret (-1, RangeSet_empty, 0)
       else do {
         tgthash \<leftarrow> (if onehash then ret srchash else next_token k);
         more \<leftarrow> tokens_left k 2;
         if \<not> more then ret (-1, RangeSet_empty, 0)
         else do {
           token \<leftarrow> next_token k;
           tgt \<leftarrow> parse_ranges e token;
           (r, tgtbuffer) \<leftarrow>
             ReadBlocks tgt (replicate (size_mul (rs_blocks tgt) BLOCKSIZE) 0) (dev_fd k);
           if r = -1 then ret (-1, tgt, 0)
           else do {
             v \<leftarrow> VerifyBlocks e tgthash tgtbuffer (rs_blocks tgt);
             if v = 0 then ret (1, tgt, 0)
             else do {
               (r, src_blocks) \<leftarrow> load_src e k srchash tgt;
               ret (r, tgt, src_blocks) } } } } } }"

text \<open>What \<^verbatim>\<open>move\<close> and the diff commands do with the status, and how they end.\<close>

definition note_status :: "int \<Rightarrow> ('z, unit) bw" where
  "note_status status =
     (if status = 0 then upd (\<lambda>s. s\<lparr>p_foundwrites := True\<rparr>)
      else upd (\<lambda>s. s\<lparr>p_target_verified := True\<rparr>))"

definition command_done :: "'z block_env \<Rightarrow> CommandParameters \<Rightarrow> RangeSet \<Rightarrow> ('z, int) bw" where
  "command_done e k tgt = do {
     freestash \<leftarrow> gets p_freestash;
     (if freestash \<noteq> [] then do {
        FreeStash e (stashbase k) freestash;
        upd (\<lambda>s. s\<lparr>p_freestash := []\<rparr>) }
      else ret ());
     upd (\<lambda>s. s\<lparr>p_written := size_add (p_written s) (rs_blocks tgt)\<rparr>);
     ret 0 }"

definition PerformCommandMove :: "'z block_env \<Rightarrow> CommandParameters \<Rightarrow> ('z, int) bw" where
  "PerformCommandMove e k = do {
     (status, tgt, blocks) \<leftarrow> LoadSrcTgtVersion3 e k True;
     if status = -1 then ret (-1)
     else do {
       note_status status;
       r \<leftarrow> (if canwrite k \<and> status = 0 then do {
              buf \<leftarrow> gets p_buffer;
              WriteBlocks e tgt buf (dev_fd k) }
            else ret 0);
       if r = -1 then ret (-1) else command_done e k tgt } }"

definition PerformCommandStash :: "'z block_env \<Rightarrow> CommandParameters \<Rightarrow> ('z, int) bw" where
  "PerformCommandStash e k = do {
     more \<leftarrow> tokens_left k 1;
     if \<not> more then ret (-1)
     else do {
       sid \<leftarrow> next_token k;
       buf \<leftarrow> gets p_buffer;
       (r, buf) \<leftarrow> LoadStash e (canwrite k) (stashbase k) (dev_fd k) sid True buf False;
       set_buffer buf;
       if r = 0 then ret 0
       else do {
         token \<leftarrow> next_token k;
         src \<leftarrow> parse_ranges e token;
         buf \<leftarrow> gets p_buffer;
         (r, buf) \<leftarrow> ReadBlocks src (allocate (size_mul (rs_blocks src) BLOCKSIZE) buf) (dev_fd k);
         set_buffer buf;
         if r = -1 then ret (-1)
         else do {
           upd (\<lambda>s. s\<lparr>stash_map := AList.update sid src (stash_map s)\<rparr>);
           v \<leftarrow> VerifyBlocks e sid buf (rs_blocks src);
           if v \<noteq> 0 then ret 0
           else if \<not> canwrite k then ret 0
           else do {
             (result, _) \<leftarrow> WriteStash e (stashbase k) sid (to_int (rs_blocks src)) buf False False;
             (if result = 0 then do {
                UpdateLastCommandIndex e (cmdindex k) (cmdline k);
                upd (\<lambda>s. s\<lparr>p_stashed := size_add (p_stashed s) (rs_blocks src)\<rparr>) }
              else ret ());
             ret result } } } } }"

definition PerformCommandFree :: "'z block_env \<Rightarrow> CommandParameters \<Rightarrow> ('z, int) bw" where
  "PerformCommandFree e k = do {
     more \<leftarrow> tokens_left k 0;
     if \<not> more then ret (-1)
     else do {
       sid \<leftarrow> next_token k;
       upd (\<lambda>s. s\<lparr>stash_map := AList.delete sid (stash_map s)\<rparr>);
       if createdstash k \<noteq> 0 \<or> canwrite k then FreeStash e (stashbase k) sid else ret 0 } }"

text \<open>One block of zeros after the other; \<open>False\<close> is the result \<open>-1\<close>.\<close>

fun zero_blocks :: "int \<Rightarrow> byte list \<Rightarrow> nat \<Rightarrow> ('z, bool) bw" where
  "zero_blocks fd buf 0 = ret True"
| "zero_blocks fd buf (Suc n) = do {
     r \<leftarrow> write_all fd buf 0 BLOCKSIZE;
     if r = -1 then ret False else zero_blocks fd buf n }"

fun zero_ranges :: "'z block_env \<Rightarrow> int \<Rightarrow> byte list \<Rightarrow> range list \<Rightarrow> ('z, bool) bw" where
  "zero_ranges e fd buf [] = ret True"
| "zero_ranges e fd buf (rng # rngs) =
     (let offset = size_mul (range_first rng) BLOCKSIZE;
          sz = size_mul (range_size rng) BLOCKSIZE
      in do {
        ok \<leftarrow> discard_blocks e fd offset sz;
        if \<not> ok then ret False
        else do {
          ok \<leftarrow> check_lseek fd offset;
          if \<not> ok then ret False
          else do {
            ok \<leftarrow> zero_blocks fd buf (range_second rng - range_first rng);
            if \<not> ok then ret False else zero_ranges e fd buf rngs } } })"

definition PerformCommandZero :: "'z block_env \<Rightarrow> CommandParameters \<Rightarrow> ('z, int) bw" where
  "PerformCommandZero e k = do {
     more \<leftarrow> tokens_left k 0;
     if \<not> more then ret (-1)
     else do {
       token \<leftarrow> next_token k;
       tgt \<leftarrow> parse_ranges e token;
       buf \<leftarrow> gets (\<lambda>s. overlay 0 (replicate BLOCKSIZE 0) (allocate BLOCKSIZE (p_buffer s)));
       set_buffer buf;
       ok \<leftarrow> (if canwrite k then zero_ranges e (dev_fd k) buf (rs_ranges tgt) else ret True);
       if \<not> ok then ret (-1)
       else do {
         (if take 1 (cmdname k) = ''z''
          then upd (\<lambda>s. s\<lparr>p_written := size_add (p_written s) (rs_blocks tgt)\<rparr>) else ret ());
         ret 0 } } }"

definition PerformCommandNew :: "'z block_env \<Rightarrow> CommandParameters \<Rightarrow> ('z, int) bw" where
  "PerformCommandNew e k = do {
     more \<leftarrow> tokens_left k 0;
     if \<not> more then ret (-1)
     else do {
       token \<leftarrow> next_token k;
       tgt \<leftarrow> parse_ranges e token;
       missing \<leftarrow> (if canwrite k then do {
           w \<leftarrow> RangeSinkWriter_new (dev_fd k) tgt;
           upd (\<lambda>s. s\<lparr>nti_writer := Some w\<rparr>);
           available \<leftarrow> gets nti_receiver_available;
           chunks \<leftarrow> gets nti_chunks;
           (if available then unzip_new_data e (brotli_compressed k) chunks else ret ());
           gets (\<lambda>s. nti_writer s \<noteq> None) }
         else ret False);
       if missing then ret (-1)
       else do {
         upd (\<lambda>s. s\<lparr>p_written := size_add (p_written s) (rs_blocks tgt)\<rparr>);
         ret 0 } } }"

text \<open>\<^verbatim>\<open>std::bind(&RangeSinkWriter::Write, &writer, _1, _2)\<close>\<close>

definition writer_sink :: "'z block_env \<Rightarrow> 'z block_world_ext SinkFn" where
  "writer_sink e data = do {
     w \<leftarrow> gets diff_writer;
     case w of
       None \<Rightarrow> do { halt; ret 0 }
     | Some w \<Rightarrow> do {
         (n, w) \<leftarrow> Write e w data;
         upd (\<lambda>s. s\<lparr>diff_writer := Some w\<rparr>);
         ret n } }"

definition PerformCommandDiff :: "'z block_env \<Rightarrow> CommandParameters \<Rightarrow> ('z, int) bw" where
  "PerformCommandDiff e k = do {
     more \<leftarrow> tokens_left k 1;
     if \<not> more then ret (-1)
     else do {
       token \<leftarrow> next_token k;
       case ab_parse_uint (be_ab e) token SIZE_MAX of
         None \<Rightarrow> ret (-1)
       | Some offset \<Rightarrow> do {
           token \<leftarrow> next_token k;
           case ab_parse_uint (be_ab e) token SIZE_MAX of
             None \<Rightarrow> ret (-1)
           | Some len \<Rightarrow> do {
               (status, tgt, blocks) \<leftarrow> LoadSrcTgtVersion3 e k False;
               if status = -1 then ret (-1)
               else do {
                 note_status status;
                 r \<leftarrow> (if canwrite k \<and> status = 0 then do {
                     CHECK (offset + len \<le> length (patch_start k));
                     let patch_value = take len (drop offset (patch_start k));
                         sz = size_mul blocks BLOCKSIZE
                     in do {
                       w \<leftarrow> RangeSinkWriter_new (dev_fd k) tgt;
                       upd (\<lambda>s. s\<lparr>diff_writer := Some w\<rparr>);
                       buf \<leftarrow> gets p_buffer;
                       CHECK (sz \<le> length buf);
                       r \<leftarrow> (if take 1 (cmdname k) = ''i''
                            then ApplyImagePatch (e_bspatch (be_env e)) (e_zlib (be_env e)) (take sz buf)
                              patch_value (writer_sink e) False None
                            else ApplyBSDiffPatch (e_bspatch (be_env e)) (take sz buf) patch_value 0
                              (writer_sink e) False);
                       upd (\<lambda>s. s\<lparr>diff_writer := None\<rparr>);
                       if r \<noteq> 0 then do { fail_with kPatchApplicationFailure; ret (-1) }
                       else ret (0 :: int) } }
                   else ret 0);
                 if r = -1 then ret (-1) else command_done e k tgt } } } } }"

fun erase_ranges :: "'z block_env \<Rightarrow> int \<Rightarrow> range list \<Rightarrow> ('z, int) bw" where
  "erase_ranges e fd [] = ret 0"
| "erase_ranges e fd (rng # rngs) = do {
     ok \<leftarrow> discard_ok e fd (size_mul (range_first rng) BLOCKSIZE) (size_mul (range_size rng) BLOCKSIZE);
     if \<not> ok then ret (-1) else erase_ranges e fd rngs }"

definition PerformCommandErase :: "'z block_env \<Rightarrow> CommandParameters \<Rightarrow> ('z, int) bw" where
  "PerformCommandErase e k = do {
     r \<leftarrow> sys_plain;
     if r = -1 then ret (-1)
     else do {
       blk \<leftarrow> gets (\<lambda>s. case fd_of s (dev_fd k) of None \<Rightarrow> False | Some (p, _) \<Rightarrow> p \<in> set (w_dev s));
       if \<not> blk then ret (-1)
       else do {
         more \<leftarrow> tokens_left k 0;
         if \<not> more then ret (-1)
         else do {
           token \<leftarrow> next_token k;
           tgt \<leftarrow> parse_ranges e token;
           if canwrite k then erase_ranges e (dev_fd k) (rs_ranges tgt) else ret 0 } } } }"

section \<open>The driver\<close>

datatype CommandFunction = cPerformCommandDiff | cPerformCommandErase | cPerformCommandFree
  | cPerformCommandMove | cPerformCommandNew | cPerformCommandStash | cPerformCommandZero

type_synonym Command = "string \<times> CommandFunction option"

definition run_command :: "'z block_env \<Rightarrow> CommandParameters \<Rightarrow> CommandFunction \<Rightarrow> ('z, int) bw" where
  "run_command e k f =
     (case f of
        cPerformCommandDiff \<Rightarrow> PerformCommandDiff e k
      | cPerformCommandErase \<Rightarrow> PerformCommandErase e k
      | cPerformCommandFree \<Rightarrow> PerformCommandFree e k
      | cPerformCommandMove \<Rightarrow> PerformCommandMove e k
      | cPerformCommandNew \<Rightarrow> PerformCommandNew e k
      | cPerformCommandStash \<Rightarrow> PerformCommandStash e k
      | cPerformCommandZero \<Rightarrow> PerformCommandZero e k)"

text \<open>The state of the updater the functions are called from, and the package.\<close>

record package =
  pk_cookie :: "(bool \<times> bool) option"
  pk_FindEntry :: "string \<Rightarrow> nat option"
  pk_addr :: "byte list"
  pk_chunks :: "nat \<Rightarrow> byte list list"

text \<open>One turn of the command loop, from the point where the command has been found.\<close>

definition command_index :: "nat \<Rightarrow> int" where
  "command_index i = (if i > 2147483647 then -1 else int i)"

definition line_parameters :: "'z block_env \<Rightarrow> CommandParameters \<Rightarrow> nat \<Rightarrow> string \<Rightarrow> CommandParameters" where
  "line_parameters e k i line =
     (let toks = ab_split (be_ab e) line '' ''
      in k\<lparr>tokens := toks, cmdindex := command_index i, cmdname := cstr (hd toks), cmdline := cstr line\<rparr>)"

definition skips :: "CommandParameters \<Rightarrow> int \<Rightarrow> bool" where
  "skips k saved \<longleftrightarrow> canwrite k \<and> cmdindex k \<noteq> -1 \<and> cmdindex k \<le> saved"

text \<open>
  In verify mode: the last-command file is given up when a command up to the saved index has not
  produced its target blocks.
\<close>

definition check_saved :: "'z block_env \<Rightarrow> CommandParameters \<Rightarrow> int \<Rightarrow> ('z, int) bw" where
  "check_saved e k saved =
     (if \<not> canwrite k \<and> saved \<noteq> -1 \<and> cmdindex k \<noteq> -1 \<and> cmdindex k \<le> saved then do {
        verified \<leftarrow> gets p_target_verified;
        if cmdname k \<in> {''move'', ''bsdiff'', ''imgdiff''} \<and> \<not> verified then do {
          DeleteLastCommandFile e;
          ret (-1) }
        else ret saved }
      else ret saved)"

text \<open>The command loop: the value of \<^verbatim>\<open>rc\<close> at its end.\<close>

fun command_loop ::
  "'z block_env \<Rightarrow> Command list \<Rightarrow> CommandParameters \<Rightarrow> int \<Rightarrow> nat \<Rightarrow> string list \<Rightarrow> ('z, int) bw" where
  "command_loop e commands k saved i [] = ret 0"
| "command_loop e commands k saved i (line # lines) =
     (if line = [] then command_loop e commands k saved (i + 1) lines
      else
        let k' = line_parameters e k i line in do {
          CHECK (tokens k' \<noteq> []);
          upd (\<lambda>s. s\<lparr>p_cpos := 1, p_target_verified := False\<rparr>);
          case map_of commands (cmdname k') of
            None \<Rightarrow> ret (-1)
          | Some None \<Rightarrow> command_loop e commands k saved (i + 1) lines
          | Some (Some f) \<Rightarrow>
              if skips k' saved then command_loop e commands k saved (i + 1) lines
              else do {
                r \<leftarrow> run_command e k' f;
                if r = -1 then ret (-1)
                else do {
                  saved \<leftarrow> check_saved e k' saved;
                  r \<leftarrow> (if canwrite k then ota_fsync (dev_fd k) else ret 0);
                  if r = -1 then do { fail_with kFsyncFailure; ret (-1) }
                  else command_loop e commands k saved (i + 1) lines } } })"

text \<open>From the label \<^verbatim>\<open>pbiudone\<close> on.\<close>

definition finish_update :: "'z block_env \<Rightarrow> CommandParameters \<Rightarrow> int \<Rightarrow> ('z, Value option) bw" where
  "finish_update e k rc = do {
     (if canwrite k then do {
        upd (\<lambda>s. s\<lparr>nti_receiver_available := False\<rparr>);
        (if rc = 0 then do {
           DeleteStash e (stashbase k);
           DeleteLastCommandFile e }
         else ret ()) }
      else ret ());
     r \<leftarrow> ota_fsync (dev_fd k);
     (if r = -1 then fail_with kFsyncFailure else ret ());
     unresumable \<leftarrow> gets p_isunresumable;
     (if unresumable then DeleteLastCommandFile e else ret ());
     (if unresumable \<or> (\<not> canwrite k \<and> createdstash k \<noteq> 0) then DeleteStash e (stashbase k) else ret ());
     failure \<leftarrow> gets failure_type;
     cause \<leftarrow> gets cause_code;
     (if failure \<noteq> kNoCause \<and> cause = kNoCause
      then upd (\<lambda>s. s\<lparr>cause_code := failure\<rparr>) else ret ());
     ret (StringValue (if rc = 0 then ''t'' else [])) }"

definition args_failure :: "'z block_env \<Rightarrow> string \<Rightarrow> ('z, Value option) bw" where
  "args_failure e msg = do {
     ErrorAbort (be_ab e) kArgsParsingFailure msg;
     ret (StringValue []) }"

text \<open>The part of \<^verbatim>\<open>PerformBlockImageUpdate\<close> that handles the transfer list.\<close>

definition transfer ::
  "'z block_env \<Rightarrow> Command list \<Rightarrow> CommandParameters \<Rightarrow> string \<Rightarrow> string \<Rightarrow> ('z, Value option) bw" where
  "transfer e commands k blockdev_filename transfer_list =
     (let lines = ab_split (be_ab e) transfer_list [CHR 0x0A] in
      if length lines < 2 then
        args_failure e (''too few lines in the transfer list ['' @ to_string (length lines) @ '']'')
      else case ab_parse_int (be_ab e) (lines ! 0) 3 4 of
        None \<Rightarrow> ret (StringValue [])
      | Some version \<Rightarrow>
          (case ab_parse_uint (be_ab e) (lines ! 1) SIZE_MAX of
             None \<Rightarrow> args_failure e (''unexpected block count ['' @ lines ! 1 @ '']'')
           | Some total_blocks \<Rightarrow>
               if total_blocks = 0 then ret (StringValue ''t'')
               else if length lines < 4 then
                 args_failure e (''too few lines in the transfer list ['' @ to_string (length lines) @ '']'')
               else case ab_parse_uint (be_ab e) (lines ! 3) SIZE_MAX of
                 None \<Rightarrow> args_failure e (''unexpected maximum stash blocks ['' @ lines ! 3 @ '']'')
               | Some stash_max_blocks \<Rightarrow> do {
                   (res, base) \<leftarrow> CreateStash e stash_max_blocks blockdev_filename;
                   if res = -1 then ret (StringValue [])
                   else do {
                     saved \<leftarrow> ParseLastCommandFile e;
                     saved \<leftarrow> (case saved of
                        None \<Rightarrow> do { DeleteLastCommandFile e; ret (-1) }
                      | Some i \<Rightarrow> ret i);
                     if \<not> distinct (map fst commands) then ret (StringValue [])
                     else
                       let k = k\<lparr>stashbase := base, createdstash := res\<rparr> in do {
                         rc \<leftarrow> command_loop e commands k saved 0 (drop 4 lines);
                         finish_update e k rc } } }))"

text \<open>\<^verbatim>\<open>CommandParameters params = {}\<close>\<close>

definition init_params :: "('z, unit) bw" where
  "init_params = upd (\<lambda>s. s\<lparr>p_cpos := 0, p_freestash := [], p_foundwrites := False,
     p_isunresumable := False, p_written := 0, p_stashed := 0, p_buffer := [],
     p_target_verified := False, nti_writer := None, nti_receiver_available := False,
     nti_chunks := [], nti_brotli := [], diff_writer := None\<rparr>)"

definition PerformBlockImageUpdate ::
  "'z block_env \<Rightarrow> package \<Rightarrow> string \<Rightarrow> 'z block_world_scheme arg list \<Rightarrow> Command list \<Rightarrow> bool \<Rightarrow>
     ('z, Value option) bw" where
  "PerformBlockImageUpdate e pk name argv commands dryrun = do {
     init_params;
     retry \<leftarrow> gets st_is_retry;
     (if retry then upd (\<lambda>s. s\<lparr>is_retry := True\<rparr>) else ret ());
     if length argv \<noteq> 4 then
       args_failure e (''block_image_update expects 4 arguments, got '' @ to_string (length argv))
     else do {
       args \<leftarrow> ReadValueArgs argv;
       case args of
         None \<Rightarrow> ret None
       | Some args \<Rightarrow>
           let blockdev_filename = args ! 0; transfer_list_value = args ! 1;
               new_data_fn = args ! 2; patch_data_fn = args ! 3
           in
           if v_type blockdev_filename \<noteq> VAL_STRING then
             args_failure e (''blockdev_filename argument to '' @ name @ '' must be string'')
           else if v_type transfer_list_value \<noteq> VAL_BLOB then
             args_failure e (''transfer_list argument to '' @ name @ '' must be blob'')
           else if v_type new_data_fn \<noteq> VAL_STRING then
             args_failure e (''new_data_fn argument to '' @ name @ '' must be string'')
           else if v_type patch_data_fn \<noteq> VAL_STRING then
             args_failure e (''patch_data_fn argument to '' @ name @ '' must be string'')
           else if pk_cookie pk \<noteq> Some (True, True) then ret (StringValue [])
           else case pk_FindEntry pk (cstr (v_data patch_data_fn)) of
             None \<Rightarrow> ret (StringValue [])
           | Some patch_offset \<Rightarrow>
               (case pk_FindEntry pk (cstr (v_data new_data_fn)) of
                  None \<Rightarrow> ret (StringValue [])
                | Some new_entry \<Rightarrow> do {
                    fd \<leftarrow> TEMP_FAILURE_RETRY (\<lambda>r. r = -1)
                      (ota_open (cstr (v_data blockdev_filename)) [O_RDWR]);
                    if fd = -1 then ret (StringValue [])
                    else closing fd (do {
                      created \<leftarrow> (if \<not> dryrun then do {
                          upd (\<lambda>s. s\<lparr>nti_receiver_available := True, nti_chunks := pk_chunks pk new_entry\<rparr>);
                          sys_plain }
                        else ret 0);
                      if created \<noteq> 0 then ret (StringValue [])
                      else
                        transfer e commands
                          \<lparr>tokens = [], cmdindex = 0, cmdname = [], cmdline = [], stashbase = [],
                           canwrite = \<not> dryrun, createdstash = 0, dev_fd = fd,
                           brotli_compressed = ends_with ''.br'' (v_data new_data_fn),
                           patch_start = drop patch_offset (pk_addr pk)\<rparr>
                          (v_data blockdev_filename) (v_data transfer_list_value) }) }) } }"

definition verify_commands :: "Command list" where
  "verify_commands = [(''bsdiff'', Some cPerformCommandDiff), (''erase'', None),
     (''free'', Some cPerformCommandFree), (''imgdiff'', Some cPerformCommandDiff),
     (''move'', Some cPerformCommandMove), (''new'', None), (''stash'', Some cPerformCommandStash),
     (''zero'', None)]"

definition BlockImageVerifyFn ::
  "'z block_env \<Rightarrow> package \<Rightarrow> string \<Rightarrow> 'z block_world_scheme arg list \<Rightarrow> ('z, Value option) bw" where
  "BlockImageVerifyFn e pk name argv = PerformBlockImageUpdate e pk name argv verify_commands True"

definition update_commands :: "Command list" where
  "update_commands = [(''bsdiff'', Some cPerformCommandDiff), (''erase'', Some cPerformCommandErase),
     (''free'', Some cPerformCommandFree), (''imgdiff'', Some cPerformCommandDiff),
     (''move'', Some cPerformCommandMove), (''new'', Some cPerformCommandNew),
     (''stash'', Some cPerformCommandStash), (''zero'', Some cPerformCommandZero)]"

definition BlockImageUpdateFn ::
  "'z block_env \<Rightarrow> package \<Rightarrow> string \<Rightarrow> 'z block_world_scheme arg list \<Rightarrow> ('z, Value option) bw" where
  "BlockImageUpdateFn e pk name argv = PerformBlockImageUpdate e pk name argv update_commands False"

section \<open>The other functions of the file\<close>

definition file_failure :: "'z block_env \<Rightarrow> CauseCode \<Rightarrow> string \<Rightarrow> ('z, Value option) bw" where
  "file_failure e cause what = do {
     errno \<leftarrow> gets w_errno;
     ErrorAbort (be_ab e) cause (what @ '': '' @ be_strerror e errno);
     ret (StringValue []) }"

definition open_message :: "string \<Rightarrow> string \<Rightarrow> string" where
  "open_message what filename = what @ '' '' @ [CHR 0x22] @ filename @ [CHR 0x22] @ '' failed''"

text \<open>The blocks of one range, hashed one after the other: \<open>None\<close> is a read failure.\<close>

fun hash_blocks :: "int \<Rightarrow> nat \<Rightarrow> byte list \<Rightarrow> byte list \<Rightarrow> ('z, (byte list \<times> byte list) option) bw" where
  "hash_blocks fd 0 buf ctx = ret (Some (buf, ctx))"
| "hash_blocks fd (Suc n) buf ctx = do {
     (r, buf) \<leftarrow> read_all fd buf 0 BLOCKSIZE;
     if r = -1 then ret None else hash_blocks fd n buf (ctx @ take BLOCKSIZE buf) }"

fun hash_ranges ::
  "'z block_env \<Rightarrow> int \<Rightarrow> string \<Rightarrow> range list \<Rightarrow> byte list \<Rightarrow> byte list \<Rightarrow> ('z, Value option) bw" where
  "hash_ranges e fd filename [] buf ctx = ret (StringValue (print_sha1 (be_sha1 e ctx)))"
| "hash_ranges e fd filename (rng # rngs) buf ctx = do {
     ok \<leftarrow> check_lseek fd (size_mul (range_first rng) BLOCKSIZE);
     if \<not> ok then file_failure e kLseekFailure (''failed to seek '' @ filename)
     else do {
       r \<leftarrow> hash_blocks fd (range_second rng - range_first rng) buf ctx;
       case r of
         None \<Rightarrow> file_failure e kFreadFailure (''failed to read '' @ filename)
       | Some (buf, ctx) \<Rightarrow> hash_ranges e fd filename rngs buf ctx } }"

definition RangeSha1Fn ::
  "'z block_env \<Rightarrow> string \<Rightarrow> 'z block_world_scheme arg list \<Rightarrow> ('z, Value option) bw" where
  "RangeSha1Fn e name argv =
     (if length argv \<noteq> 2 then
        args_failure e (''range_sha1 expects 2 arguments, got '' @ to_string (length argv))
      else do {
        args \<leftarrow> ReadValueArgs argv;
        case args of
          None \<Rightarrow> ret None
        | Some args \<Rightarrow>
            let blockdev_filename = args ! 0; ranges = args ! 1 in
            if v_type blockdev_filename \<noteq> VAL_STRING then
              args_failure e (''blockdev_filename argument to '' @ name @ '' must be string'')
            else if v_type ranges \<noteq> VAL_STRING then
              args_failure e (''ranges argument to '' @ name @ '' must be string'')
            else do {
              fd \<leftarrow> ota_open (cstr (v_data blockdev_filename)) [O_RDWR];
              if fd = -1 then
                file_failure e kFileOpenFailure (open_message ''open'' (cstr (v_data blockdev_filename)))
              else closing fd (do {
                rs \<leftarrow> parse_ranges e (v_data ranges);
                hash_ranges e fd (cstr (v_data blockdev_filename)) (rs_ranges rs)
                  (replicate BLOCKSIZE 0) [] }) } })"

text \<open>The message about remounts is left out, since its text depends on \<^verbatim>\<open>ctime\<close>.\<close>

definition CheckFirstBlockFn ::
  "'z block_env \<Rightarrow> string \<Rightarrow> 'z block_world_scheme arg list \<Rightarrow> ('z, Value option) bw" where
  "CheckFirstBlockFn e name argv =
     (if length argv \<noteq> 1 then
        args_failure e (''check_first_block expects 1 argument, got '' @ to_string (length argv))
      else do {
        args \<leftarrow> ReadValueArgs argv;
        case args of
          None \<Rightarrow> ret None
        | Some args \<Rightarrow>
            if v_type (args ! 0) \<noteq> VAL_STRING then
              args_failure e (''filename argument to '' @ name @ '' must be string'')
            else do {
              fd \<leftarrow> ota_open (cstr (v_data (args ! 0))) [O_RDONLY];
              if fd = -1 then file_failure e kFileOpenFailure (open_message ''open'' (cstr (v_data (args ! 0))))
              else closing fd (do {
                (r, block0_buffer) \<leftarrow>
                  ReadBlocks (RangeSet_ctor [Range 0 1]) (replicate BLOCKSIZE 0) fd;
                if r = -1 then
                  file_failure e kFreadFailure (''failed to read '' @ cstr (v_data (args ! 0)))
                else ret (StringValue ''t'') }) } })"

text \<open>libfec, which corrects blocks as they are read, is a parameter.\<close>

record 'z fec =
  fec_open :: "string \<Rightarrow> ('z, bool) bw"
  fec_has_metadata :: "string \<Rightarrow> bool"
  fec_data_size :: "string \<Rightarrow> nat option"
  fec_pread :: "string \<Rightarrow> nat \<Rightarrow> ('z, bool) bw"

fun recover_blocks :: "'z fec \<Rightarrow> string \<Rightarrow> nat \<Rightarrow> nat list \<Rightarrow> ('z, nat option) bw" where
  "recover_blocks fec filename data_size [] = ret None"
| "recover_blocks fec filename data_size (j # js) =
     (if data_size \<le> size_mul j BLOCKSIZE then recover_blocks fec filename data_size js
      else do {
        ok \<leftarrow> fec_pread fec filename (size_mul j BLOCKSIZE);
        if \<not> ok then ret (Some j) else recover_blocks fec filename data_size js })"

definition BlockImageRecoverFn ::
  "'z block_env \<Rightarrow> 'z fec \<Rightarrow> string \<Rightarrow> 'z block_world_scheme arg list \<Rightarrow> ('z, Value option) bw" where
  "BlockImageRecoverFn e fec name argv =
     (if length argv \<noteq> 2 then
        args_failure e (''block_image_recover expects 2 arguments, got '' @ to_string (length argv))
      else do {
        args \<leftarrow> ReadValueArgs argv;
        case args of
          None \<Rightarrow> ret None
        | Some args \<Rightarrow>
            let filename = args ! 0; ranges = args ! 1 in
            if v_type filename \<noteq> VAL_STRING then
              args_failure e (''filename argument to '' @ name @ '' must be string'')
            else if v_type ranges \<noteq> VAL_STRING then
              args_failure e (''ranges argument to '' @ name @ '' must be string'')
            else
              let rs = Parse (be_ab e) (v_data ranges) in
              if rs_ranges rs = [] then
                args_failure e (''failed to parse ranges: '' @ cstr (v_data ranges))
              else do {
                ok \<leftarrow> fec_open fec (v_data filename);
                if \<not> ok then file_failure e kLibfecFailure (open_message ''fec_open'' (cstr (v_data filename)))
                else if \<not> fec_has_metadata fec (v_data filename) then do {
                  ErrorAbort (be_ab e) kLibfecFailure ''unable to use metadata to correct errors'';
                  ret (StringValue []) }
                else case fec_data_size fec (v_data filename) of
                  None \<Rightarrow> do {
                    ErrorAbort (be_ab e) kLibfecFailure ''failed to read FEC status'';
                    ret (StringValue []) }
                | Some data_size \<Rightarrow> do {
                    r \<leftarrow> recover_blocks fec (v_data filename) data_size (blocks_of rs);
                    case r of
                      None \<Rightarrow> ret (StringValue ''t'')
                    | Some j \<Rightarrow>
                        file_failure e kLibfecFailure (''failed to recover '' @ cstr (v_data filename) @
                          '' (block '' @ to_string j @ '')'') } } })"

section \<open>What a run can change\<close>

lemma keep_set [unchs]:
  "keep (io_keep fds (unch D q x)) (set_buffer buf)" "keep (io_keep fds (unch D q x)) (next_token k)"
  "keep (io_keep fds (unch D q x)) (tokens_left k n)" "keep (io_keep fds (unch D q x)) (parse_ranges e t)"
  "keep (io_keep fds (unch D q x)) (note_status st)"
  unfolding set_buffer_def next_token_def tokens_left_def parse_ranges_def note_status_def
  by (intro keeps unchs keep_assign; auto dest: unchD)+

lemma keep_move_range [unchs]: "keep (io_keep fds (unch D q x)) (move_range locs src)"
  unfolding move_range_def by (intro keeps unchs)

lemma keep_count [unchs]:
  "keep (io_keep fds (unch D q x)) (upd (\<lambda>s. s\<lparr>p_cpos := c s\<rparr>))"
  "keep (io_keep fds (unch D q x)) (upd (\<lambda>s. s\<lparr>p_stashed := n s\<rparr>))"
  "keep (io_keep fds (unch D q x)) (upd (\<lambda>s. s\<lparr>p_written := n s\<rparr>))"
  "keep (io_keep fds (unch D q x)) (upd (\<lambda>s. s\<lparr>p_freestash := f\<rparr>))"
  "keep (io_keep fds (unch D q x)) (upd (\<lambda>s. s\<lparr>p_isunresumable := b\<rparr>))"
  "keep (io_keep fds (unch D q x)) (upd (\<lambda>s. s\<lparr>stash_map := g s\<rparr>))"
  "keep (io_keep fds (unch D q x)) (upd (\<lambda>s. s\<lparr>diff_writer := None\<rparr>))"
  by (rule keep_assign; auto dest: unchD)+

lemma keep_load_stashes:
  assumes "off_cache e q"
  shows "keep (io_keep fds (unch D q x)) (load_stashes e k words)"
proof (induction words)
  case (Cons w ws)
  show ?case
    unfolding load_stashes.simps Let_def by (intro keeps unchs keep_LoadStash assms Cons)
qed (simp add: keep_ret)

lemma keep_LoadSourceBlocks:
  "off_cache e q \<Longrightarrow> keep (io_keep fds (unch D q x)) (LoadSourceBlocks e k tgt)"
  unfolding LoadSourceBlocks_def by (intro keeps unchs keep_load_stashes)

lemma keep_stash_overlap:
  "off_cache e q \<Longrightarrow> helpers_ok e \<Longrightarrow> keep (io_keep fds (unch D q x)) (stash_overlap e k h n)"
  unfolding stash_overlap_def by (intro keeps unchs keep_WriteStash keep_last_command)

lemma keep_load_src:
  "off_cache e q \<Longrightarrow> helpers_ok e \<Longrightarrow> keep (io_keep fds (unch D q x)) (load_src e k h tgt)"
  unfolding load_src_def by (intro keeps unchs keep_LoadSourceBlocks keep_stash_overlap keep_LoadStash)

lemma keep_LoadSrcTgt:
  "off_cache e q \<Longrightarrow> helpers_ok e \<Longrightarrow> keep (io_keep fds (unch D q x)) (LoadSrcTgtVersion3 e k h)"
  unfolding LoadSrcTgtVersion3_def by (intro keeps unchs keep_load_src)

lemma keep_command_done: "off_cache e q \<Longrightarrow> keep (io_keep fds (unch D q x)) (command_done e k tgt)"
  unfolding command_done_def by (intro keeps unchs keep_FreeStash)

text \<open>
  The setting of a command: the device is open, and it is not the file \<open>q\<close> when the command may
  write.
\<close>

definition cmd_ok ::
  "'z block_env \<Rightarrow> CommandParameters \<Rightarrow> (int \<times> string) list \<Rightarrow> (int \<times> string) list \<Rightarrow> string \<Rightarrow> bool" where
  "cmd_ok e k D fds q \<longleftrightarrow> off_cache e q \<and> helpers_ok e \<and> sink_client (e_bspatch (be_env e)) \<and>
     set D \<subseteq> set fds \<and> (canwrite k \<longrightarrow> (\<exists>p. (dev_fd k, p) \<in> set D \<and> p \<noteq> q))"

lemma keep_Move:
  assumes "cmd_ok e k D fds q"
  shows "keep (io_keep fds (unch D q x)) (PerformCommandMove e k)"
proof -
  have a: "off_cache e q" "helpers_ok e" using assms by (simp_all add: cmd_ok_def)
  have "keep (io_keep fds (unch D q x)) (WriteBlocks e tgt buf (dev_fd k))" if "canwrite k" for tgt buf
    using assms that by (auto simp: cmd_ok_def intro!: keep_WriteBlocks)
  then have w: "keep (io_keep fds (unch D q x)) (if canwrite k \<and> st = 0
      then do { buf \<leftarrow> gets p_buffer; WriteBlocks e tgt buf (dev_fd k) } else ret 0)" for st :: int and tgt
    by (auto intro!: keeps)
  show ?thesis
    unfolding PerformCommandMove_def by (rule w keep_LoadSrcTgt keep_command_done a keep_steps unchs)+
qed

lemma keep_Stash:
  assumes "cmd_ok e k D fds q"
  shows "keep (io_keep fds (unch D q x)) (PerformCommandStash e k)"
proof -
  have a: "off_cache e q" "helpers_ok e" using assms by (simp_all add: cmd_ok_def)
  show ?thesis
    unfolding PerformCommandStash_def
    by (intro keeps unchs keep_LoadStash keep_WriteStash keep_last_command a)
qed

lemma keep_Free: "cmd_ok e k D fds q \<Longrightarrow> keep (io_keep fds (unch D q x)) (PerformCommandFree e k)"
  unfolding PerformCommandFree_def by (intro keeps unchs keep_FreeStash) (simp add: cmd_ok_def)

lemma keep_zero:
  assumes "(fd, p) \<in> set fds" "p \<noteq> q"
  shows "keep (io_keep fds (unch D q x)) (zero_ranges e fd buf rs)"
proof -
  have "keep (io_keep fds (unch D q x)) (zero_blocks fd buf n)" for n
    by (induction n) (auto intro!: keeps keep_write_all [OF assms])
  then show ?thesis
    by (induction rs) (auto simp: Let_def keep_ret intro!: keeps unchs keep_discard [OF assms])
qed

lemma keep_Zero:
  assumes "cmd_ok e k D fds q"
  shows "keep (io_keep fds (unch D q x)) (PerformCommandZero e k)"
proof -
  have w: "keep (io_keep fds (unch D q x)) (if canwrite k then zero_ranges e (dev_fd k) buf rs else ret True)" for buf rs
    using assms by (auto simp: cmd_ok_def keep_ret intro!: keep_zero)
  show ?thesis unfolding PerformCommandZero_def by (rule w keep_steps unchs)+
qed

lemma keep_Erase:
  assumes "cmd_ok e k D fds q"
  shows "keep (io_keep fds (unch D q x)) (PerformCommandErase e k)"
proof -
  have w: "keep (io_keep fds (unch D q x)) (if canwrite k then erase_ranges e (dev_fd k) rs else ret 0)" for rs
    using assms by (induction rs) (auto simp: cmd_ok_def keep_ret intro!: keeps keep_discard)
  show ?thesis unfolding PerformCommandErase_def by (rule w keep_steps unchs)+
qed

lemma keep_new_writer:
  assumes "cmd_ok e k D fds q" "canwrite k" "\<And>w. on_dev D q w \<Longrightarrow> keep (io_keep fds (unch D q x)) (f w)"
  shows "keep (io_keep fds (unch D q x)) (RangeSinkWriter_new (dev_fd k) tgt \<bind> f)"
proof -
  have "on_dev D q \<lparr>rw_fd = dev_fd k, rw_tgt = tgt, rw_next_range = 0, rw_current_range_left = 0, rw_bytes_written = 0\<rparr>"
    using assms(1,2) by (auto simp: cmd_ok_def on_dev_def)
  then show ?thesis
    unfolding RangeSinkWriter_new_def
    using assms(3) keep_CHECK_io [OF io_inv_unch] by (simp add: keep_def) (blast intro: wp_mono)
qed

lemma keep_New:
  assumes "cmd_ok e k D fds q"
  shows "keep (io_keep fds (unch D q x)) (PerformCommandNew e k)"
proof -
  let ?I = "io_keep fds (unch D q x)"
  have D: "set D \<subseteq> set fds" using assms by (simp add: cmd_ok_def)
  have w: "keep ?I (if canwrite k then do {
           w \<leftarrow> RangeSinkWriter_new (dev_fd k) tgt;
           upd (\<lambda>s. s\<lparr>nti_writer := Some w\<rparr>);
           available \<leftarrow> gets nti_receiver_available;
           chunks \<leftarrow> gets nti_chunks;
           (if available then unzip_new_data e (brotli_compressed k) chunks else ret ());
           gets (\<lambda>s. nti_writer s \<noteq> None) }
         else ret False)" for tgt
  proof (cases "canwrite k")
    case True
    show ?thesis
      unfolding if_P [OF True]
      by (rule keep_new_writer [OF assms True] keep_set_writer keep_unzip_new_data D keep_steps | assumption)+
  qed (simp add: keep_ret)
  show ?thesis unfolding PerformCommandNew_def by (rule w keep_steps unchs)+
qed

lemma keep_writer_sink:
  assumes "set D \<subseteq> set fds"
  shows "keep (io_keep fds (unch D q x)) (writer_sink e data)"
  unfolding writer_sink_def
  by (rule keep_with_writer [OF assms])
    (auto dest: unchD intro!: keeps unchs keep_set_writer)

lemma patch_inv_unch: "patch_inv (io_keep fds (unch D q x))"
  by (simp add: patch_inv_def io_keep_def unch_def file_of_def opened_def fd_of_def)

lemma keep_Diff:
  assumes "cmd_ok e k D fds q"
  shows "keep (io_keep fds (unch D q x)) (PerformCommandDiff e k)"
proof -
  let ?I = "io_keep fds (unch D q x)"
  have a: "off_cache e q" "helpers_ok e" and c: "sink_client (e_bspatch (be_env e))"
    and D: "set D \<subseteq> set fds"
    using assms by (simp_all add: cmd_ok_def)
  have em: "emits ?I (writer_sink e) False"
    by (rule emits_no_ctx [OF patch_inv_unch keep_writer_sink [OF D]])
  then have sha: "keep ?I (sha_sink False (writer_sink e) d)" for d by (simp add: emits_def)
  note patch = keep_ApplyImagePatch [OF c em] keep_ApplyBSDiffPatch [OF c patch_inv_unch sha]
  have w: "keep ?I (if canwrite k \<and> (st :: int) = 0 then do {
                     CHECK (offset + len \<le> length (patch_start k));
                     let patch_value = take len (drop offset (patch_start k));
                         sz = size_mul blocks BLOCKSIZE
                     in do {
                       w \<leftarrow> RangeSinkWriter_new (dev_fd k) tgt;
                       upd (\<lambda>s. s\<lparr>diff_writer := Some w\<rparr>);
                       buf \<leftarrow> gets p_buffer;
                       CHECK (sz \<le> length buf);
                       r \<leftarrow> (if take 1 (cmdname k) = ''i''
                            then ApplyImagePatch (e_bspatch (be_env e)) (e_zlib (be_env e)) (take sz buf)
                              patch_value (writer_sink e) False None
                            else ApplyBSDiffPatch (e_bspatch (be_env e)) (take sz buf) patch_value 0
                              (writer_sink e) False);
                       upd (\<lambda>s. s\<lparr>diff_writer := None\<rparr>);
                       if r \<noteq> 0 then do { fail_with kPatchApplicationFailure; ret (-1) }
                       else ret (0 :: int) } }
                   else ret 0)" for st offset len blocks tgt
  proof (cases "canwrite k \<and> st = 0")
    case True
    show ?thesis
      unfolding if_P [OF True] Let_def
      by (rule keep_new_writer [OF assms conjunct1 [OF True]] keep_set_writer patch keep_steps unchs | assumption)+
  next
    case False
    show ?thesis unfolding if_not_P [OF False] by (rule keep_ret)
  qed
  show ?thesis
    unfolding PerformCommandDiff_def by (rule w keep_LoadSrcTgt keep_command_done a keep_steps unchs)+
qed

lemma keep_run_command:
  "cmd_ok e k D fds q \<Longrightarrow> keep (io_keep fds (unch D q x)) (run_command e k f)"
  unfolding run_command_def
  by (cases f) (simp_all add: keep_Diff keep_Erase keep_Free keep_Move keep_New keep_Stash keep_Zero)

lemma cmd_ok_line [simp]: "cmd_ok e (line_parameters e k i line) D fds q = cmd_ok e k D fds q"
  by (simp add: cmd_ok_def line_parameters_def Let_def)

lemma keep_reset [unchs]:
  "keep (io_keep fds (unch D q x)) (upd (\<lambda>s. s\<lparr>p_cpos := 1, p_target_verified := False\<rparr>))"
  "keep (io_keep fds (unch D q x)) (upd (\<lambda>s. s\<lparr>nti_receiver_available := b\<rparr>))"
  "keep (io_keep fds (unch D q x)) (upd (\<lambda>s. s\<lparr>nti_receiver_available := b, nti_chunks := c\<rparr>))"
  "keep (io_keep fds (unch D q x)) (upd (\<lambda>s. s\<lparr>cause_code := cc\<rparr>))"
  "keep (io_keep fds (unch D q x)) (upd (\<lambda>s. s\<lparr>is_retry := b\<rparr>))"
  by (rule keep_assign; auto dest: unchD)+

lemma keep_command_loop:
  assumes "cmd_ok e k D fds q"
  shows "keep (io_keep fds (unch D q x)) (command_loop e commands k saved i lines)"
proof (induction lines arbitrary: saved i)
  case (Cons line lines)
  have a: "off_cache e q" "helpers_ok e" using assms by (simp_all add: cmd_ok_def)
  have "keep (io_keep fds (unch D q x)) (check_saved e k' sv)" for k' sv
    unfolding check_saved_def by (intro keeps unchs keep_last_command a)
  moreover have "keep (io_keep fds (unch D q x)) (run_command e (line_parameters e k i line) f)" for f
    using assms by (intro keep_run_command) simp
  ultimately show ?case
    unfolding command_loop.simps by (intro keeps unchs Cons)
qed (simp add: keep_ret)

lemma keep_finish_update:
  "off_cache e q \<Longrightarrow> helpers_ok e \<Longrightarrow> keep (io_keep fds (unch D q x)) (finish_update e k rc)"
  unfolding finish_update_def by (intro keeps unchs keep_DeleteStash keep_last_command)

lemma keep_args_failure [unchs]: "keep (io_keep fds (unch D q x)) (args_failure e msg)"
  unfolding args_failure_def by (intro keeps unchs)

lemma keep_transfer:
  assumes "cmd_ok e k D fds q"
  shows "keep (io_keep fds (unch D q x)) (transfer e commands k dev text)"
proof -
  have a: "off_cache e q" "helpers_ok e" using assms by (simp_all add: cmd_ok_def)
  have "cmd_ok e (k\<lparr>stashbase := b, createdstash := r\<rparr>) D fds q" for b r
    using assms by (simp add: cmd_ok_def)
  note loop = keep_command_loop [OF this]
  show ?thesis
    unfolding transfer_def
    by (intro keeps unchs keep_CreateStash keep_last_command loop keep_finish_update a)
qed

text \<open>From \<open>P\<close> the program ends in a state with \<open>Q\<close>.\<close>

definition leads :: "('s \<Rightarrow> bool) \<Rightarrow> ('s, 'a) state \<Rightarrow> ('s \<Rightarrow> bool) \<Rightarrow> bool" where
  "leads P m Q \<longleftrightarrow> (\<forall>s. P s \<longrightarrow> wp m (\<lambda>_. Q) s)"

lemma leadsD: "leads P m Q \<Longrightarrow> P s \<Longrightarrow> wp m (\<lambda>_. Q) s"
  by (simp add: leads_def)

lemma leads_bind: "keep P m \<Longrightarrow> (\<And>a. leads P (f a) Q) \<Longrightarrow> leads P (m \<bind> f) Q"
  unfolding leads_def keep_def by (simp, blast intro: wp_mono)

lemma leads_cases:
  "leads P m Q \<Longrightarrow> leads P n Q \<Longrightarrow> leads P (if b then m else n) Q"
  "leads P (g y) Q \<Longrightarrow> leads P (Let y g) Q"
  "leads P m Q \<Longrightarrow> (\<And>y. leads P (h y) Q) \<Longrightarrow> leads P (case z of None \<Rightarrow> m | Some y \<Rightarrow> h y) Q"
  by (simp_all split: option.split)

lemma leads_keep: "keep P m \<Longrightarrow> (\<And>s. P s \<Longrightarrow> Q s) \<Longrightarrow> leads P m Q"
  unfolding leads_def keep_def by (blast intro: wp_mono)

lemma unch_Nil: "unch [] q x s \<longleftrightarrow> file_of s q = x \<and> nti_writer s = None \<and> diff_writer s = None"
  by (cases "nti_writer s"; cases "diff_writer s") (auto simp: unch_def on_dev_def)

lemma leads_open_dev:
  fixes m :: "('z, 'a) bw"
  assumes "\<And>fd. keep (io_keep [(fd, p)] (unch (D fd) q x)) (f fd)"
    and "keep (unch [] q x) m" and "O_CREAT \<notin> set flags" "O_TRUNC \<notin> set flags"
  shows "leads (unch [] q x) (TEMP_FAILURE_RETRY g (ota_open p flags) \<bind> (\<lambda>fd. if fd = -1 then m else f fd))
    (\<lambda>s. file_of s q = x)"
  unfolding leads_def
proof (intro allI impI)
  fix s :: "'z block_world_scheme"
  assume s: "unch [] q x s"
  have "open_ok (unch [] q x :: 'z block_world_scheme \<Rightarrow> bool) p flags" using assms(3,4) by (simp add: open_ok_def)
  note o = wp_retry_open [OF wp_ota_open(1) [OF io_inv_unch this], of "[]" s g]
  show "wp (TEMP_FAILURE_RETRY g (ota_open p flags) \<bind> (\<lambda>fd. if fd = -1 then m else f fd))
    (\<lambda>_ s. file_of s q = x) s"
  proof (rule wp_seq [OF o], simp, simp add: s, rule wp_ifI)
    fix fd and s' :: "'z block_world_scheme" assume "open_post [] (unch [] q x) p fd s'"
    then show "wp m (\<lambda>_ s. file_of s q = x) s'"
      by (intro wp_mono [OF keep_wp [OF assms(2)]]) (simp_all add: open_post_def unch_def)
  next
    fix fd and s' :: "'z block_world_scheme" assume "open_post [] (unch [] q x) p fd s'" "fd \<noteq> -1"
    then have "io_keep [(fd, p)] (unch (D fd) q x) s'"
      by (simp add: open_post_def io_keep_Cons unch_Nil) (simp add: unch_def)
    from keep_wp [OF assms(1) this] show "wp (f fd) (\<lambda>_ s. file_of s q = x) s'"
      by (rule wp_mono) (simp add: io_keep_def unch_def)
  qed
qed

text \<open>
  The device of a call: the value of the first argument, in whatever state it is computed.
\<close>

definition names_device :: "'z block_world_scheme arg list \<Rightarrow> string \<Rightarrow> bool" where
  "names_device argv dev \<longleftrightarrow>
     (\<forall>s args s'. run_state (ReadValueArgs argv) s = (Some args, s') \<longrightarrow> cstr (v_data (args ! 0)) = dev)"

lemma leads_args:
  assumes "args_keep P argv" "leads P m Q"
    and "\<And>args. \<exists>s s'. run_state (ReadValueArgs argv) s = (Some args, s') \<Longrightarrow> leads P (f args) Q"
  shows "leads P (ReadValueArgs argv \<bind> (\<lambda>args. case args of None \<Rightarrow> m | Some args \<Rightarrow> f args)) Q"
  unfolding leads_def wp_bind
proof (intro allI impI)
  fix s assume "P s"
  then have P: "P (snd (run_state (ReadValueArgs argv) s))"
    by (rule keepD [OF keep_ReadValueArgs [OF assms(1)]])
  obtain r s' where r: "run_state (ReadValueArgs argv) s = (r, s')" by fastforce
  show "wp (ReadValueArgs argv) (\<lambda>a. wp (case a of None \<Rightarrow> m | Some args \<Rightarrow> f args) (\<lambda>_. Q)) s"
    using P assms(2,3) r unfolding wp_run [of "ReadValueArgs argv"] leads_def by (cases r) auto
qed

lemma keep_created:
  "keep (io_keep fds (unch D q x)) (if \<not> dryrun then do {
     upd (\<lambda>s. s\<lparr>nti_receiver_available := True, nti_chunks := c\<rparr>); sys_plain } else ret 0)"
  by (intro keeps unchs)

text \<open>
  What a call of the driver cannot change: any file outside the cache, except the device in update
  mode.
\<close>

lemma PerformBlockImageUpdate_file:
  assumes "\<not> w_halted s" "file_of s q = x" "args_keep (unch [] q x) argv"
    and "off_cache e q" "helpers_ok e" "sink_client (e_bspatch (be_env e))"
    and "dryrun \<or> names_device argv dev \<and> dev \<noteq> q"
  shows "wp (PerformBlockImageUpdate e pk name argv commands dryrun) (\<lambda>_ s'. file_of s' q = x) s"
proof -
  let ?P = "unch [] q x" and ?Q = "\<lambda>s. file_of s q = x"
  let ?D = "\<lambda>p fd. if dryrun then [] else [(fd, p)]"
  have init: "wp init_params (\<lambda>_. ?P) s"
    using assms(1,2) by (simp add: init_params_def unch_Nil file_of_def)
  have R: "keep ?P (upd (\<lambda>s. s\<lparr>is_retry := b\<rparr>))" for b
    using keep_reset(5) [of "[]"] by simp
  have leaf: "leads ?P (ret v) ?Q" "leads ?P (args_failure e msg) ?Q" for v :: "Value option" and msg
    using keep_args_failure [of "[]"] by (auto simp: unch_def intro!: leads_keep keep_ret)
  have body: "keep (io_keep [(fd, p)] (unch (?D p fd) q x)) (closing fd (do {
      created \<leftarrow> (if \<not> dryrun then do {
          upd (\<lambda>s. s\<lparr>nti_receiver_available := True, nti_chunks := c\<rparr>);
          sys_plain }
        else ret 0);
      if created \<noteq> 0 then ret (StringValue [])
      else transfer e commands (k fd) dn tl }))"
    if "dryrun \<or> p \<noteq> q" "\<And>fd. canwrite (k fd) = (\<not> dryrun)" "\<And>fd. dev_fd (k fd) = fd" for fd p c k dn tl
    using that assms(4-6) by (intro keeps unchs keep_created keep_transfer) (auto simp: cmd_ok_def)
  have dev: "dryrun \<or> cstr (v_data (args ! 0)) \<noteq> q"
    if "\<exists>s s'. run_state (ReadValueArgs argv) s = (Some args, s')" for args
    using that assms(7) by (auto simp: names_device_def)
  show ?thesis
    unfolding PerformBlockImageUpdate_def
    unfolding Let_def
    by (rule wp_seq [OF init], erule leadsD [rotated], rule leads_bind [OF keep_gets], rule leads_bind,
        (intro keeps R)[1], rule leads_cases, rule leaf, rule leads_args [OF assms(3)], rule leaf,
        (rule leads_cases leaf)+, rule leads_open_dev, rule body [OF dev]) (simp_all add: keep_ret)
qed

end
