(* ===== verification/Block_Contents.thy ===== *)
theory Block_Contents
  imports Block_Io
begin

text \<open>
  What the transfers of \<^verbatim>\<open>updater/blockimg.cpp\<close> do to the contents of the device: reading and writing
  of block ranges, for every schedule of faults, rearranging blocks in a buffer, and success of
  transfers when nothing fails.
\<close>

section \<open>Blocks of a device\<close>

definition block :: "byte list \<Rightarrow> nat \<Rightarrow> byte list" where
  "block c b = take BLOCKSIZE (drop (b * BLOCKSIZE) c)"

lemma BLOCKSIZE_pos [simp]: "0 < BLOCKSIZE" "BLOCKSIZE \<noteq> 0"
  by (simp_all add: BLOCKSIZE_def)

lemma length_block: "(b + 1) * BLOCKSIZE \<le> length c \<Longrightarrow> length (block c b) = BLOCKSIZE"
  by (simp add: block_def)

text \<open>Writing whole blocks changes these blocks and no others.\<close>

lemma take_overlay: "a + n \<le> pos \<Longrightarrow> pos \<le> length c \<Longrightarrow> take n (drop a (overlay pos xs c)) = take n (drop a c)"
  by (auto simp: overlay_def drop_take min_def)

lemma drop_overlay: "pos + length xs \<le> a \<Longrightarrow> pos \<le> length c \<Longrightarrow> drop a (overlay pos xs c) = drop a c"
  by (auto simp: overlay_def)

lemma overlay_at: "pos \<le> length c \<Longrightarrow> k + n \<le> length xs \<Longrightarrow>
    take n (drop (pos + k) (overlay pos xs c)) = take n (drop k xs)"
  by (auto simp: overlay_def)

lemma block_overlay_other:
  assumes "(f + m) * BLOCKSIZE \<le> length c" "length xs \<le> m * BLOCKSIZE" "b < f \<or> f + m \<le> b"
  shows "block (overlay (f * BLOCKSIZE) xs c) b = block c b"
proof -
  have f: "f * BLOCKSIZE \<le> length c" using assms(1) by (simp add: add_mult_distrib)
  from assms(3) show ?thesis
  proof
    assume "b < f"
    then have "(b + 1) * BLOCKSIZE \<le> f * BLOCKSIZE" by (intro mult_le_mono1) simp
    then show ?thesis unfolding block_def by (intro take_overlay f) simp
  next
    assume "f + m \<le> b"
    then have "(f + m) * BLOCKSIZE \<le> b * BLOCKSIZE" by (rule mult_le_mono1)
    then show ?thesis
      unfolding block_def using assms(2) by (simp add: drop_overlay [OF _ f] add_mult_distrib)
  qed
qed

lemma block_overlay_in:
  assumes "f * BLOCKSIZE \<le> length c" "length xs = m * BLOCKSIZE" "j < m"
  shows "block (overlay (f * BLOCKSIZE) xs c) (f + j) = block xs j"
proof -
  have "(j + 1) * BLOCKSIZE \<le> m * BLOCKSIZE" using assms(3) by (intro mult_le_mono1) simp
  then show ?thesis
    unfolding block_def add_mult_distrib by (intro overlay_at) (use assms in simp_all)
qed

lemma block_take_drop:
  "(k + j + 1) * BLOCKSIZE \<le> k * BLOCKSIZE + n \<Longrightarrow> block (take n (drop (k * BLOCKSIZE) d)) j = block d (k + j)"
  by (simp add: block_def add_mult_distrib drop_take min_def add.commute)

section \<open>Writing at a position\<close>

text \<open>\<^verbatim>\<open>write_all\<close>: a prefix has been written, all of it when the result is \<open>0\<close>.\<close>

definition wrote_all ::
  "int \<Rightarrow> string \<Rightarrow> nat \<Rightarrow> byte list \<Rightarrow> byte list \<Rightarrow> int \<Rightarrow> 'z world_scheme \<Rightarrow> bool" where
  "wrote_all fd p pos c xs r s \<longleftrightarrow>
     (\<exists>k \<le> length xs. file_of s p = Some (overlay pos (take k xs) c)) \<and>
     (r \<noteq> -1 \<longrightarrow> r = 0 \<and> at fd p (pos + length xs) (overlay pos xs c) s \<and> (xs \<noteq> [] \<longrightarrow> \<not> w_halted s))"

lemma wp_write_all_loop:
  fixes s :: "'z block_world_scheme"
  assumes "at fd p (pos + a) (overlay pos (take a xs) c) s" "a \<le> length xs" "length xs \<le> a + n"
    "0 < a \<longrightarrow> \<not> w_halted s"
  shows "wp (write_all_loop n fd xs a) (wrote_all fd p pos c xs) s"
  using assms
proof (induction n arbitrary: a s)
  case 0
  then show ?case by (auto simp: CHECK_def wrote_all_def at_def intro!: exI [of _ a])
next
  case (Suc n)
  have "wp (if a < length xs then do {
        w \<leftarrow> TEMP_FAILURE_RETRY (\<lambda>r. r = -1) (ota_write fd (drop a xs));
        if w = -1 then do { fail_with kFwriteFailure; ret (-1) }
        else write_all_loop n fd xs (a + nat w) }
      else ret 0) (wrote_all fd p pos c xs) s"
  proof (rule wp_ifI, rule wp_seq [OF wp_retry_wrote [OF Suc.prems(1)]])
    fix w and s' :: "'z block_world_scheme"
    assume w: "wrote fd p (pos + a) (overlay pos (take a xs) c) (drop a xs) w s'" and a: "a < length xs"
    from w obtain k where "k \<le> length (drop a xs)"
      "file_of s' p = Some (overlay (pos + a) (take k (drop a xs)) (overlay pos (take a xs) c))"
      "if w = -1 then w_errno s' = EINTR \<longrightarrow> w_halted s' \<or> k = 0 \<and> at fd p (pos + a) (overlay pos (take a xs) c) s'
       else w = int k \<and> (drop a xs \<noteq> [] \<longrightarrow> 0 < k) \<and>
         at fd p (pos + a + k) (overlay (pos + a) (take k (drop a xs)) (overlay pos (take a xs) c)) s' \<and> \<not> w_halted s'"
      unfolding wrote_def by blast
    with a have k: "k \<le> length xs - a" "file_of s' p = Some (overlay pos (take (a + k) xs) c)"
      "w \<noteq> -1 \<Longrightarrow> w = int k \<and> 0 < k \<and> at fd p (pos + (a + k)) (overlay pos (take (a + k) xs) c) s' \<and> \<not> w_halted s'"
      by (simp_all add: overlay_take_step add.assoc)
    show "wp (if w = -1 then do { fail_with kFwriteFailure; ret (-1) } else write_all_loop n fd xs (a + nat w))
       (wrote_all fd p pos c xs) s'"
    proof (rule wp_ifI)
      assume "w = -1"
      then show "wp (do { fail_with kFwriteFailure; ret (-1) }) (wrote_all fd p pos c xs) s'"
        using k(1,2) a by (auto simp: fail_with_def wrote_all_def file_of_def intro!: exI [of _ "a + k"])
    next
      assume "w \<noteq> -1"
      with k(3) show "wp (write_all_loop n fd xs (a + nat w)) (wrote_all fd p pos c xs) s'"
        using k(1) Suc.prems(3) a by (auto intro!: Suc.IH)
    qed
  next
    assume "\<not> a < length xs"
    with Suc.prems show "wp (ret 0) (wrote_all fd p pos c xs) s"
      by (auto simp: wrote_all_def at_def intro!: exI [of _ a])
  qed
  then show ?case by simp
qed

lemma wp_write_all:
  fixes s :: "'z block_world_scheme"
  assumes "at fd p pos c s" "off + sz \<le> length buf"
  shows "wp (write_all fd buf off sz) (wrote_all fd p pos c (take sz (drop off buf))) s"
  unfolding write_all_def CHECK_def using assms
  by (simp, intro wp_write_all_loop) (simp_all add: overlay_def)

section \<open>Writing blocks\<close>

text \<open>\<open>c'\<close> differs from \<open>c\<close> in blocks of \<open>B\<close> only.\<close>

definition same_except :: "nat set \<Rightarrow> byte list \<Rightarrow> byte list \<Rightarrow> bool" where
  "same_except B c c' \<longleftrightarrow> length c' = length c \<and> (\<forall>b. b \<notin> B \<longrightarrow> block c' b = block c b)"

lemma same_except_refl [simp]: "same_except B c c"
  by (simp add: same_except_def)

lemma same_except_trans: "same_except A c c1 \<Longrightarrow> same_except B c1 c2 \<Longrightarrow> A \<subseteq> C \<Longrightarrow> B \<subseteq> C \<Longrightarrow> same_except C c c2"
  unfolding same_except_def by (metis subsetD)

lemma same_except_overlay:
  assumes "range_ok r" "range_second r * BLOCKSIZE \<le> length c" "length xs \<le> (range_second r - range_first r) * BLOCKSIZE"
  shows "same_except (set (range_blocks r)) c (overlay (range_first r * BLOCKSIZE) xs c)"
proof -
  let ?f = "range_first r" and ?m = "range_second r - range_first r"
  have fm: "?f + ?m = range_second r" using assms(1) by (simp add: range_ok_def)
  have "?f * BLOCKSIZE + length xs \<le> range_second r * BLOCKSIZE"
    using assms(3) by (subst fm [symmetric]) (simp add: add_mult_distrib)
  then have "length (overlay (?f * BLOCKSIZE) xs c) = length c"
    using assms(2) by (simp add: length_overlay)
  moreover have "block (overlay (?f * BLOCKSIZE) xs c) b = block c b" if "b \<notin> set (range_blocks r)" for b
    using that assms(2,3) fm by (intro block_overlay_other [of _ ?m]) (auto simp: set_range_blocks)
  ultimately show ?thesis by (simp add: same_except_def)
qed

lemma same_except_discarded:
  assumes "range_ok r" "range_second r * BLOCKSIZE \<le> length c"
  shows "same_except (set (range_blocks r)) c
    (discarded e (range_first r * BLOCKSIZE) ((range_second r - range_first r) * BLOCKSIZE) c)"
proof -
  have le: "length (take (length y) z) \<le> n" if "length y \<le> n" for y z :: "byte list" and n using that by simp
  show ?thesis
    unfolding discarded_def Let_def by (intro same_except_overlay assms le) simp
qed

text \<open>If descriptor \<open>fd\<close> is open, it is open on \<open>p\<close>; the contents of \<open>p\<close> are \<open>c\<close>.\<close>

definition dev_at :: "int \<Rightarrow> string \<Rightarrow> byte list \<Rightarrow> 'z world_scheme \<Rightarrow> bool" where
  "dev_at fd p c s \<longleftrightarrow> file_of s p = Some c \<and> (\<forall>q pos. fd_of s fd = Some (q, pos) \<longrightarrow> q = p)"

lemma at_dev: "at fd p pos c s \<Longrightarrow> dev_at fd p c s"
  by (simp add: at_def dev_at_def)

lemma dev_file: "dev_at fd p c s \<Longrightarrow> file_of s p = Some c"
  by (simp add: dev_at_def)

lemma dev_failure_type [simp]:
  "dev_at fd p c (s\<lparr>failure_type := x\<rparr>) = dev_at fd p c s" "at fd p pos c (s\<lparr>failure_type := x\<rparr>) = at fd p pos c s"
  by (simp_all add: at_def dev_at_def fd_of_def file_of_def)

lemma wp_sys_lseek_dev:
  assumes "dev_at fd p c s"
  shows "wp (sys_lseek fd off) (\<lambda>r s'. dev_at fd p c s' \<and> (r \<noteq> -1 \<longrightarrow> at fd p off c s' \<and> \<not> w_halted s')) s"
  using assms unfolding sys_lseek_def wp_bind
  by (intro wp_next_eventI) (auto simp: at_def dev_at_def split: io_event.split option.split)

lemma wp_check_lseek:
  assumes "dev_at fd p c s" "off < 2 ^ 63"
  shows "wp (check_lseek fd off) (\<lambda>ok s'. dev_at fd p c s' \<and> (ok \<longrightarrow> at fd p off c s' \<and> \<not> w_halted s')) s"
proof -
  have "\<not> 2 ^ 63 \<le> off" using assms(2) by simp
  note small = if_not_P [OF this]
  show ?thesis
    unfolding check_lseek_def small
    by (rule wp_seq [OF wp_retry [where P = "dev_at fd p c", OF wp_sys_lseek_dev]]) (auto simp: assms(1) fail_with_def)
qed

lemma fd_of_set_file: "fd_of (set_file p c s) fd = fd_of s fd"
  by (simp add: set_file_def fd_of_def)

lemma wp_discard:
  fixes s :: "'z block_world_scheme"
  assumes "dev_at fd p c s"
  shows "wp (discard_ok e fd off sz) (\<lambda>ok s'. \<exists>c'. dev_at fd p c' s' \<and> (c' = c \<or> c' = discarded e off sz c)) s"
    and "wp (discard_blocks e fd off sz) (\<lambda>ok s'. \<exists>c'. dev_at fd p c' s' \<and> (c' = c \<or> c' = discarded e off sz c)) s"
proof -
  have "wp (blkdiscard e fd off sz) (\<lambda>r s'. \<exists>c'. dev_at fd p c' s' \<and> (c' = c \<or> c' = discarded e off sz c)) s"
    using assms unfolding blkdiscard_def wp_bind
    by (intro wp_next_eventI) (auto simp: dev_at_def fd_of_set_file split: io_event.split option.split)
  then show "wp (discard_ok e fd off sz) (\<lambda>ok s'. \<exists>c'. dev_at fd p c' s' \<and> (c' = c \<or> c' = discarded e off sz c)) s"
    by (simp add: discard_ok_def)
  then show "wp (discard_blocks e fd off sz) (\<lambda>ok s'. \<exists>c'. dev_at fd p c' s' \<and> (c' = c \<or> c' = discarded e off sz c)) s"
    using assms unfolding discard_blocks_def by auto
qed

text \<open>The ranges lie on the device.\<close>

definition on_device :: "range list \<Rightarrow> byte list \<Rightarrow> bool" where
  "on_device rs c \<longleftrightarrow>
     (\<forall>r \<in> set rs. range_ok r \<and> range_second r * BLOCKSIZE \<le> length c) \<and> length c < 2 ^ 63"

lemma on_device_sizes:
  assumes "on_device rs c" "r \<in> set rs"
  shows "size_mul (range_first r) BLOCKSIZE = range_first r * BLOCKSIZE"
    and "size_mul (range_size r) BLOCKSIZE = (range_second r - range_first r) * BLOCKSIZE"
    and "range_first r * BLOCKSIZE < 2 ^ 63"
proof -
  have r: "range_ok r" "range_second r * BLOCKSIZE < 2 ^ 63" using assms by (auto simp: on_device_def)
  have "range_first r * BLOCKSIZE \<le> range_second r * BLOCKSIZE"
    "(range_second r - range_first r) * BLOCKSIZE \<le> range_second r * BLOCKSIZE"
    using r(1) by (intro mult_le_mono1; simp add: range_ok_def)+
  with r(2) have b: "range_first r * BLOCKSIZE < 2 ^ 63" "(range_second r - range_first r) * BLOCKSIZE < 2 ^ 63"
    by linarith+
  then show "range_first r * BLOCKSIZE < 2 ^ 63" by simp
  show "size_mul (range_first r) BLOCKSIZE = range_first r * BLOCKSIZE"
    using b by (intro size_mul_small) (simp add: SIZE_MAX_def)
  show "size_mul (range_size r) BLOCKSIZE = (range_second r - range_first r) * BLOCKSIZE"
    unfolding range_size_ok [OF r(1)] using b by (intro size_mul_small) (simp add: SIZE_MAX_def)
qed

lemma on_device_same: "on_device rs c \<Longrightarrow> length c' = length c \<Longrightarrow> on_device rs c'"
  by (simp add: on_device_def)

abbreviation range_list_blocks :: "range list \<Rightarrow> nat list" where
  "range_list_blocks rs \<equiv> concat (map range_blocks rs)"

text \<open>
  What a call to write the blocks of \<open>rs\<close> leaves on the device: other blocks are as before, and when
  it reports success the blocks are those of the buffer from block \<open>j\<close> on.
\<close>

definition blocks_written ::
  "int \<Rightarrow> string \<Rightarrow> byte list \<Rightarrow> nat list \<Rightarrow> byte list \<Rightarrow> nat \<Rightarrow> int \<Rightarrow> 'z world_scheme \<Rightarrow> bool" where
  "blocks_written fd p c bs buf j r s \<longleftrightarrow> (\<exists>c'. file_of s p = Some c' \<and> same_except (set bs) c c' \<and>
     (r \<noteq> -1 \<longrightarrow> r = 0 \<and> dev_at fd p c' s \<and> (\<forall>i < length bs. block c' (bs ! i) = block buf (j + i))))"

lemma blocks_written_step:
  assumes r: "range_ok r" "range_second r * BLOCKSIZE \<le> length c"
    and "same_except (set (range_blocks r)) c c1"
    and m: "m = range_second r - range_first r" and xs: "length xs = m * BLOCKSIZE"
    and blk: "\<And>i. i < m \<Longrightarrow> block xs i = block buf (j + i)"
    and dist: "distinct (range_blocks r @ bs)"
    and rest: "blocks_written fd p (overlay (range_first r * BLOCKSIZE) xs c1) bs buf (j + m) res s"
  shows "blocks_written fd p c (range_blocks r @ bs) buf j res s"
proof -
  let ?f = "range_first r" and ?c2 = "overlay (range_first r * BLOCKSIZE) xs c1"
  have l1: "length c1 = length c" using assms(3) by (simp add: same_except_def)
  have f: "?f * BLOCKSIZE \<le> length c1"
    unfolding l1 by (rule le_trans [OF mult_le_mono1 r(2)]) (use r(1) in \<open>simp add: range_ok_def\<close>)
  from rest obtain c' where c': "file_of s p = Some c'" "same_except (set bs) ?c2 c'"
    "res \<noteq> -1 \<longrightarrow> res = 0 \<and> dev_at fd p c' s \<and> (\<forall>i < length bs. block c' (bs ! i) = block buf (j + m + i))"
    unfolding blocks_written_def by blast
  have "same_except (set (range_blocks r)) c1 ?c2"
    using r xs m by (intro same_except_overlay) (simp_all add: l1)
  from same_except_trans [OF same_except_trans [OF assms(3) this subset_refl subset_refl] c'(2)]
  have frame: "same_except (set (range_blocks r @ bs)) c c'" by simp
  have len: "length (range_blocks r) = m" using r(1) m by (simp add: length_range_blocks range_size_ok)
  have "block c' ((range_blocks r @ bs) ! i) = block buf (j + i)" if "res \<noteq> -1" "i < length (range_blocks r @ bs)" for i
  proof (cases "i < m")
    case True
    then have i: "(range_blocks r @ bs) ! i = ?f + i" using len m by (simp add: nth_append range_blocks_def)
    have "?f + i \<in> set (range_blocks r)" using True m by (auto simp: set_range_blocks)
    then have "?f + i \<notin> set bs" using dist by auto
    then have "block c' (?f + i) = block ?c2 (?f + i)" using c'(2) by (simp add: same_except_def)
    then show ?thesis using block_overlay_in [OF f xs True] blk [OF True] i by simp
  next
    case False
    then show ?thesis using that c'(3) len by (simp add: nth_append)
  qed
  with c'(1,3) frame show ?thesis unfolding blocks_written_def by blast
qed

text \<open>One range: discard, seek and write, with the early returns of the callers.\<close>

lemma wp_write_range:
  fixes s :: "'z block_world_scheme" and m :: "('z, int) bw"
  assumes n_def: "n = (range_second r - range_first r) * BLOCKSIZE" and f_def: "f = range_first r * BLOCKSIZE"
    and a: "dev_at fd p c s" and r: "range_ok r" "range_second r * BLOCKSIZE \<le> length c" and f: "f < 2 ^ 63"
    and room: "off + n \<le> length buf"
    and early: "\<And>s' c'. file_of s' p = Some c' \<Longrightarrow> same_except (set (range_blocks r)) c c' \<Longrightarrow> Q (-1) s'"
    and rest: "\<And>s' c1. same_except (set (range_blocks r)) c c1 \<Longrightarrow>
      at fd p (f + n) (overlay f (take n (drop off buf)) c1) s' \<Longrightarrow> wp m Q s'"
  shows "wp (do {
      ok \<leftarrow> discard_blocks e fd f n;
      if \<not> ok then ret (-1)
      else do {
        ok \<leftarrow> check_lseek fd f;
        if \<not> ok then ret (-1)
        else do {
          w \<leftarrow> write_all fd buf off n;
          if w = -1 then ret (-1) else m } } }) Q s"
proof (rule wp_seq [OF wp_discard(2) [OF a]], elim exE conjE, rule wp_ifI)
  fix ok c1 and s1 :: "'z block_world_scheme"
  assume 1: "dev_at fd p c1 s1" "c1 = c \<or> c1 = discarded e f n c"
  then have s1: "same_except (set (range_blocks r)) c c1"
    using same_except_discarded [OF r] by (auto simp: n_def f_def)
  then have l1: "length c1 = length c" by (simp add: same_except_def)
  have over: "same_except (set (range_blocks r)) c (overlay f ys c1)" if "length ys \<le> n" for ys
    using same_except_trans [OF s1 same_except_overlay [OF r(1)] subset_refl subset_refl] r(2) that
    by (simp add: n_def f_def l1)
  show "wp (ret (-1)) Q s1" using early [OF dev_file [OF 1(1)] s1] by simp
  show "wp (do {
        ok \<leftarrow> check_lseek fd f;
        if \<not> ok then ret (-1)
        else do {
          w \<leftarrow> write_all fd buf off n;
          if w = -1 then ret (-1) else m } }) Q s1"
  proof (rule wp_seq [OF wp_check_lseek [OF 1(1) f]], elim conjE, rule wp_ifI)
    fix ok and s2 :: "'z block_world_scheme"
    assume 2: "dev_at fd p c1 s2" "ok \<longrightarrow> at fd p f c1 s2 \<and> \<not> w_halted s2"
    show "wp (ret (-1)) Q s2" using early [OF dev_file [OF 2(1)] s1] by simp
    assume "\<not> \<not> ok"
    with 2 have "at fd p f c1 s2" by simp
    then show "wp (do { w \<leftarrow> write_all fd buf off n; if w = -1 then ret (-1) else m }) Q s2"
    proof (rule wp_seq [OF wp_write_all [OF _ room]], intro wp_ifI)
      fix w and s3 :: "'z block_world_scheme"
      assume w: "wrote_all fd p f c1 (take n (drop off buf)) w s3"
      then obtain k where "file_of s3 p = Some (overlay f (take k (take n (drop off buf))) c1)"
        unfolding wrote_all_def by blast
      from early [OF this over] show "wp (ret (-1)) Q s3" by simp
      show "w \<noteq> -1 \<Longrightarrow> wp m Q s3" using w room by (intro rest [OF s1]) (simp add: wrote_all_def)
    qed
  qed
qed

lemma wp_WriteBlocks_loop:
  fixes s :: "'z block_world_scheme"
  assumes "dev_at fd p c s" "on_device rs c" "distinct (range_list_blocks rs)"
    and "(j + length (range_list_blocks rs)) * BLOCKSIZE \<le> length buf"
    and "(j + length (range_list_blocks rs)) * BLOCKSIZE \<le> SIZE_MAX"
  shows "wp (WriteBlocks_loop e fd rs buf (j * BLOCKSIZE)) (blocks_written fd p c (range_list_blocks rs) buf j) s"
  using assms
proof (induction rs arbitrary: c s j)
  case Nil
  then show ?case by (auto simp: blocks_written_def dev_at_def)
next
  case (Cons r rs)
  let ?f = "range_first r" and ?m = "range_second r - range_first r"
  let ?bs = "range_list_blocks rs" and ?xs = "take (?m * BLOCKSIZE) (drop (j * BLOCKSIZE) buf)"
  have r: "range_ok r" "range_second r * BLOCKSIZE \<le> length c" using Cons.prems(2) by (auto simp: on_device_def)
  have len: "length (range_blocks r) = ?m" using r(1) by (simp add: length_range_blocks range_size_ok)
  have room: "j * BLOCKSIZE + ?m * BLOCKSIZE \<le> length buf" "(j + ?m + length ?bs) * BLOCKSIZE \<le> length buf"
    "(j + ?m + length ?bs) * BLOCKSIZE \<le> SIZE_MAX" "j * BLOCKSIZE + ?m * BLOCKSIZE \<le> SIZE_MAX"
    using Cons.prems(4,5) len by (simp_all add: add_mult_distrib)
  note sizes = on_device_sizes [OF Cons.prems(2) list.set_intros(1)]
  have xs: "length ?xs = ?m * BLOCKSIZE" using room by simp
  have blk: "block ?xs i = block buf (j + i)" if "i < ?m" for i
    using mult_le_mono1 [of "i + 1" ?m BLOCKSIZE] that by (intro block_take_drop) (simp add: add_mult_distrib)
  have next_pos: "size_add (j * BLOCKSIZE) (?m * BLOCKSIZE) = (j + ?m) * BLOCKSIZE"
    using room(4) by (simp add: size_add_small add_mult_distrib)
  show ?case
    unfolding WriteBlocks_loop.simps Let_def sizes(1,2) next_pos
  proof (rule wp_write_range [OF refl refl Cons.prems(1) r sizes(3) room(1)])
    fix s' :: "'z block_world_scheme" and c'
    assume "file_of s' p = Some c'" "same_except (set (range_blocks r)) c c'"
    then show "blocks_written fd p c (range_list_blocks (r # rs)) buf j (-1) s'"
      by (auto simp: blocks_written_def same_except_def)
  next
    fix s3 :: "'z block_world_scheme" and c1
    assume s1: "same_except (set (range_blocks r)) c c1"
      and a: "at fd p (?f * BLOCKSIZE + ?m * BLOCKSIZE) (overlay (?f * BLOCKSIZE) ?xs c1) s3"
    then have "same_except (set (range_blocks r)) c1 (overlay (?f * BLOCKSIZE) ?xs c1)"
      using r xs by (intro same_except_overlay) (simp_all add: same_except_def)
    with s1 have l2: "length (overlay (?f * BLOCKSIZE) ?xs c1) = length c" by (simp add: same_except_def)
    have "wp (WriteBlocks_loop e fd rs buf ((j + ?m) * BLOCKSIZE))
        (blocks_written fd p (overlay (?f * BLOCKSIZE) ?xs c1) ?bs buf (j + ?m)) s3"
      using Cons.prems l2 room by (intro Cons.IH [OF at_dev [OF a]]) (auto simp: on_device_def)
    then show "wp (WriteBlocks_loop e fd rs buf ((j + ?m) * BLOCKSIZE))
        (blocks_written fd p c (range_list_blocks (r # rs)) buf j) s3"
      by (rule wp_mono) (use Cons.prems(3) in \<open>auto intro!: blocks_written_step [OF r s1 refl xs blk]\<close>)
  qed
qed

lemma blocks_on_device:
  assumes "on_device rs c" "b \<in> set (range_list_blocks rs)"
  shows "(b + 1) * BLOCKSIZE \<le> length c"
proof -
  obtain r where r: "r \<in> set rs" "b + 1 \<le> range_second r" using assms(2) by (auto simp: set_range_blocks)
  then have "range_second r * BLOCKSIZE \<le> length c" using assms(1) by (simp add: on_device_def)
  then show ?thesis by (rule le_trans [OF mult_le_mono1 [OF r(2)]])
qed

lemma distinct_on_device:
  assumes "on_device rs c" "distinct (range_list_blocks rs)"
  shows "length (range_list_blocks rs) * BLOCKSIZE \<le> length c"
proof -
  have "Suc b \<le> length c div BLOCKSIZE" if "b \<in> set (range_list_blocks rs)" for b
    using blocks_on_device [OF assms(1) that] by (simp add: less_eq_div_iff_mult_less_eq)
  then have "set (range_list_blocks rs) \<subseteq> {..<length c div BLOCKSIZE}" by (auto simp: Suc_le_eq)
  then have "card (set (range_list_blocks rs)) \<le> length c div BLOCKSIZE"
    using card_mono [OF finite_lessThan] by (metis card_lessThan)
  then have "length (range_list_blocks rs) \<le> length c div BLOCKSIZE"
    unfolding distinct_card [OF assms(2)] .
  then show ?thesis by (simp add: less_eq_div_iff_mult_less_eq)
qed

lemma wp_WriteBlocks:
  fixes s :: "'z block_world_scheme"
  assumes "dev_at fd p c s" "on_device (rs_ranges tgt) c" "distinct (blocks_of tgt)"
    and "length (blocks_of tgt) * BLOCKSIZE \<le> length buf"
  shows "wp (WriteBlocks e tgt buf fd) (blocks_written fd p c (blocks_of tgt) buf 0) s"
proof -
  have "length (blocks_of tgt) * BLOCKSIZE \<le> SIZE_MAX"
    using distinct_on_device [OF assms(2)] assms(2,3) by (simp add: on_device_def blocks_of_def SIZE_MAX_def)
  then show ?thesis
    using wp_WriteBlocks_loop [of fd p c s "rs_ranges tgt" 0 buf e] assms
    by (simp add: WriteBlocks_def blocks_of_def)
qed

section \<open>Reading blocks\<close>

definition read_part ::
  "int \<Rightarrow> string \<Rightarrow> nat \<Rightarrow> byte list \<Rightarrow> byte list \<Rightarrow> nat \<Rightarrow> nat \<Rightarrow> int \<times> byte list \<Rightarrow> 'z world_scheme \<Rightarrow> bool" where
  "read_part fd p pos c buf off sz res s \<longleftrightarrow>
     (\<exists>a \<le> sz. a \<le> length (drop pos c) \<and> snd res = overlay off (take a (drop pos c)) buf \<and>
       (fst res \<noteq> -1 \<longrightarrow> fst res = 0 \<and> a = sz \<and> at fd p (pos + sz) c s)) \<and>
     (\<exists>pos'. at fd p pos' c s)"

lemma wp_read_all_loop:
  fixes s :: "'z block_world_scheme"
  assumes "at fd p (pos + a) c s" "off + sz \<le> length buf" "a \<le> sz" "sz \<le> a + n" "a \<le> length (drop pos c)"
  shows "wp (read_all_loop n fd (overlay off (take a (drop pos c)) buf) off sz a) (read_part fd p pos c buf off sz) s"
  using assms
proof (induction n arbitrary: a s)
  case 0
  then show ?case by (auto simp: CHECK_def read_part_def)
next
  case (Suc n)
  let ?b = "\<lambda>a. overlay off (take a (drop pos c)) buf"
  have part: "read_part fd p pos c buf off sz (-1, ?b a) s'" if "at fd p k c s'" for k and s' :: "'z block_world_scheme"
    using that Suc.prems by (auto simp: read_part_def)
  have len: "off + sz \<le> length (?b a)" using Suc.prems(2,3,5) by (auto simp: length_overlay)
  show ?case
    unfolding read_all_loop.simps CHECK_def if_P [OF len]
  proof (rule wp_ifI, unfold wp_bind [of "ret ()"] wp_ret, rule wp_seq [OF wp_retry_read [OF Suc.prems(1)]], rule wp_optionI)
    fix r and s' :: "'z block_world_scheme"
    assume "read_post fd p (pos + a) c (sz - a) r s'" "r = None"
    then show "wp (do { fail_with kFreadFailure; ret (-1, ?b a) }) (read_part fd p pos c buf off sz) s'"
      by (auto simp: read_post_def fail_with_def intro!: part)
  next
    fix r xs and s' :: "'z block_world_scheme"
    assume "a < sz" "read_post fd p (pos + a) c (sz - a) r s'" "r = Some xs"
    then have xs: "length xs \<le> sz - a" "xs = take (length xs) (drop a (drop pos c))" "at fd p (pos + (a + length xs)) c s'"
      by (simp_all add: read_post_def read_some_def add.commute add.left_commute)
    then have k: "length xs \<le> length (drop a (drop pos c))" by (metis length_take min.cobounded1)
    show "wp (if xs = [] then do { fail_with kFreadFailure; ret (-1, ?b a) }
        else read_all_loop n fd (overlay (off + a) xs (?b a)) off sz (a + length xs)) (read_part fd p pos c buf off sz) s'"
    proof (rule wp_ifI)
      show "wp (do { fail_with kFreadFailure; ret (-1, ?b a) }) (read_part fd p pos c buf off sz) s'"
        using xs(3) by (auto simp: fail_with_def intro!: part)
      assume "xs \<noteq> []"
      have "overlay (off + a) xs (?b a) = ?b (a + length xs)"
        using overlay_take_step [OF k, of off buf] xs(2) by simp
      then show "wp (read_all_loop n fd (overlay (off + a) xs (?b a)) off sz (a + length xs)) (read_part fd p pos c buf off sz) s'"
        using Suc.IH [OF xs(3)] Suc.prems xs(1) k \<open>xs \<noteq> []\<close> \<open>a < sz\<close> by (cases xs) simp_all
    qed
  next
    assume "\<not> a < sz"
    with Suc.prems show "read_part fd p pos c buf off sz (0, ?b a) s" by (auto simp: read_part_def)
  qed
qed

lemma wp_read_all:
  fixes s :: "'z block_world_scheme"
  assumes "at fd p pos c s" "off + sz \<le> length buf"
  shows "wp (read_all fd buf off sz) (read_part fd p pos c buf off sz) s"
  using wp_read_all_loop [of fd p pos 0 c s off sz buf sz] assms by (simp add: read_all_def)

text \<open>
  What a call to read the blocks \<open>bs\<close> leaves in the buffer: blocks before \<open>j\<close> are as before, and
  after success those from \<open>j\<close> on are the blocks of the device.
\<close>

definition blocks_read ::
  "int \<Rightarrow> string \<Rightarrow> byte list \<Rightarrow> nat list \<Rightarrow> byte list \<Rightarrow> nat \<Rightarrow> int \<times> byte list \<Rightarrow> 'z world_scheme \<Rightarrow> bool" where
  "blocks_read fd p c bs buf j res s \<longleftrightarrow>
     length (snd res) = length buf \<and> dev_at fd p c s \<and> (\<forall>i < j. block (snd res) i = block buf i) \<and>
     (fst res \<noteq> -1 \<longrightarrow> fst res = 0 \<and> (\<forall>i < length bs. block (snd res) (j + i) = block c (bs ! i)))"

lemma blocks_read_step:
  assumes r: "range_ok r" "range_second r * BLOCKSIZE \<le> length c" and m: "m = range_second r - range_first r"
    and room: "(j + m) * BLOCKSIZE \<le> length buf"
    and rest: "blocks_read fd p c bs (overlay (j * BLOCKSIZE) (take (m * BLOCKSIZE) (drop (range_first r * BLOCKSIZE) c)) buf)
      (j + m) res s"
  shows "blocks_read fd p c (range_blocks r @ bs) buf j res s"
proof -
  let ?f = "range_first r" and ?xs = "take (m * BLOCKSIZE) (drop (range_first r * BLOCKSIZE) c)"
  let ?b = "overlay (j * BLOCKSIZE) ?xs buf"
  have "(?f + m) * BLOCKSIZE \<le> length c" using r m by (simp add: range_ok_def)
  then have xs: "length ?xs = m * BLOCKSIZE" by (simp add: add_mult_distrib)
  have len: "length (range_blocks r) = m" using r(1) m by (simp add: length_range_blocks range_size_ok)
  have lb: "length ?b = length buf" using room xs by (auto simp: length_overlay add_mult_distrib)
  have before: "block ?b i = block buf i" if "i < j" for i
    using that room xs by (intro block_overlay_other [of _ m]) simp_all
  have blk: "block ?b (j + i) = block c (?f + i)" if "i < m" for i
  proof -
    have "block ?b (j + i) = block ?xs i" using room that xs by (intro block_overlay_in) (simp_all add: add_mult_distrib)
    also have "\<dots> = block c (?f + i)"
      using mult_le_mono1 [of "i + 1" m BLOCKSIZE] that by (intro block_take_drop) (simp add: add_mult_distrib)
    finally show ?thesis .
  qed
  have R: "length (snd res) = length buf" "dev_at fd p c s" "\<forall>i < j + m. block (snd res) i = block ?b i"
    "fst res \<noteq> -1 \<longrightarrow> fst res = 0 \<and> (\<forall>i < length bs. block (snd res) (j + m + i) = block c (bs ! i))"
    using rest lb by (simp_all add: blocks_read_def)
  have "block (snd res) (j + i) = block c ((range_blocks r @ bs) ! i)" if "fst res \<noteq> -1" "i < length (range_blocks r @ bs)" for i
  proof (cases "i < m")
    case True
    then have "(range_blocks r @ bs) ! i = ?f + i" using len m by (simp add: nth_append range_blocks_def)
    then show ?thesis using R(3) True blk by simp
  next
    case False
    then show ?thesis using that R(4) [rule_format, THEN conjunct2, rule_format, of "i - m"] len by (simp add: nth_append)
  qed
  with R before show ?thesis unfolding blocks_read_def by simp
qed

lemma wp_ReadBlocks_loop:
  fixes s :: "'z block_world_scheme"
  assumes "dev_at fd p c s" "on_device rs c"
    and "(j + length (range_list_blocks rs)) * BLOCKSIZE \<le> length buf"
    and "(j + length (range_list_blocks rs)) * BLOCKSIZE \<le> SIZE_MAX"
  shows "wp (ReadBlocks_loop fd rs buf (j * BLOCKSIZE)) (blocks_read fd p c (range_list_blocks rs) buf j) s"
  using assms
proof (induction rs arbitrary: s j buf)
  case Nil
  then show ?case by (auto simp: blocks_read_def)
next
  case (Cons r rs)
  let ?f = "range_first r" and ?m = "range_second r - range_first r"
  let ?bs = "range_list_blocks rs" and ?Q = "blocks_read fd p c (range_list_blocks (r # rs)) buf j"
  let ?b = "\<lambda>a. overlay (j * BLOCKSIZE) (take a (drop (?f * BLOCKSIZE) c)) buf"
  have r: "range_ok r" "range_second r * BLOCKSIZE \<le> length c" using Cons.prems(2) by (auto simp: on_device_def)
  have len: "length (range_blocks r) = ?m" using r(1) by (simp add: length_range_blocks range_size_ok)
  have room: "j * BLOCKSIZE + ?m * BLOCKSIZE \<le> length buf" "(j + ?m + length ?bs) * BLOCKSIZE \<le> length buf"
    "(j + ?m + length ?bs) * BLOCKSIZE \<le> SIZE_MAX" "j * BLOCKSIZE + ?m * BLOCKSIZE \<le> SIZE_MAX"
    using Cons.prems(3,4) len by (simp_all add: add_mult_distrib)
  note sizes = on_device_sizes [OF Cons.prems(2) list.set_intros(1)]
  have next_pos: "size_add (j * BLOCKSIZE) (?m * BLOCKSIZE) = (j + ?m) * BLOCKSIZE"
    using room(4) by (simp add: size_add_small add_mult_distrib)
  have early: "?Q (-1, ?b a) s'" if "dev_at fd p c s'" "a \<le> ?m * BLOCKSIZE" for a and s' :: "'z block_world_scheme"
  proof -
    have "block (?b a) i = block buf i" if "i < j" for i
      using that room \<open>a \<le> ?m * BLOCKSIZE\<close> by (intro block_overlay_other [of _ ?m]) (auto simp: add_mult_distrib)
    moreover have "length (?b a) = length buf" using room \<open>a \<le> ?m * BLOCKSIZE\<close> by (auto simp: length_overlay)
    ultimately show ?thesis using that(1) by (auto simp: blocks_read_def)
  qed
  show ?case
    unfolding ReadBlocks_loop.simps Let_def sizes(1,2) next_pos
  proof (rule wp_seq [OF wp_check_lseek [OF Cons.prems(1) sizes(3)]], elim conjE, rule wp_ifI)
    fix ok and s1 :: "'z block_world_scheme"
    assume 1: "dev_at fd p c s1" "ok \<longrightarrow> at fd p (?f * BLOCKSIZE) c s1 \<and> \<not> w_halted s1"
    show "wp (ret (-1, buf)) ?Q s1" using early [OF 1(1), of 0] by simp
    assume "\<not> \<not> ok"
    with 1 have "at fd p (?f * BLOCKSIZE) c s1" by simp
    then show "wp (do {
         (x, buf) \<leftarrow> read_all fd buf (j * BLOCKSIZE) (?m * BLOCKSIZE);
         if x = -1 then ret (-1, buf) else ReadBlocks_loop fd rs buf ((j + ?m) * BLOCKSIZE) }) ?Q s1"
    proof (rule wp_seq [OF wp_read_all [OF _ room(1)]], simp only: case_prod_beta, intro wp_ifI)
      fix res and s2 :: "'z block_world_scheme"
      assume res: "read_part fd p (?f * BLOCKSIZE) c buf (j * BLOCKSIZE) (?m * BLOCKSIZE) res s2"
      then obtain a where "a \<le> ?m * BLOCKSIZE" "snd res = ?b a" "dev_at fd p c s2"
        by (auto simp: read_part_def dest: at_dev)
      with early [of s2 a] show "wp (ret (-1, snd res)) ?Q s2" by simp
      assume ok: "fst res \<noteq> -1"
      then have a: "at fd p (?f * BLOCKSIZE + ?m * BLOCKSIZE) c s2" and b: "snd res = ?b (?m * BLOCKSIZE)"
        using res by (auto simp: read_part_def)
      have "length (?b (?m * BLOCKSIZE)) = length buf" using room by (auto simp: length_overlay)
      then have "wp (ReadBlocks_loop fd rs (snd res) ((j + ?m) * BLOCKSIZE)) (blocks_read fd p c ?bs (snd res) (j + ?m)) s2"
        using Cons.prems room unfolding b by (intro Cons.IH [OF at_dev [OF a]]) (auto simp: on_device_def)
      then show "wp (ReadBlocks_loop fd rs (snd res) ((j + ?m) * BLOCKSIZE)) ?Q s2"
        unfolding b
        by (rule wp_mono) (use room in \<open>auto intro!: blocks_read_step [OF r refl] simp: add_mult_distrib\<close>)
    qed
  qed
qed

lemma wp_ReadBlocks:
  fixes s :: "'z block_world_scheme"
  assumes "dev_at fd p c s" "on_device (rs_ranges src) c"
    and "length (blocks_of src) * BLOCKSIZE \<le> length buf" "length (blocks_of src) * BLOCKSIZE \<le> SIZE_MAX"
  shows "wp (ReadBlocks src buf fd) (blocks_read fd p c (blocks_of src) buf 0) s"
  using wp_ReadBlocks_loop [of fd p c s "rs_ranges src" 0 buf] assms
  by (simp add: ReadBlocks_def blocks_of_def)

text \<open>The bytes of a list of blocks.\<close>

definition device_blocks :: "byte list \<Rightarrow> nat list \<Rightarrow> byte list" where
  "device_blocks c bs = concat (map (block c) bs)"

lemma device_blocks_upt: "device_blocks d [0..<n] = take (n * BLOCKSIZE) d"
  by (induction n) (simp_all add: device_blocks_def block_def add.commute flip: take_add)

lemma device_blocks_eq:
  assumes "\<forall>i < length bs. block d i = block c (bs ! i)"
  shows "take (length bs * BLOCKSIZE) d = device_blocks c bs"
proof -
  have "map (block d) [0..<length bs] = map (block c) bs" using assms by (intro nth_equalityI) simp_all
  then show ?thesis by (simp add: device_blocks_def flip: device_blocks_upt)
qed

lemma wp_ReadBlocks_device:
  fixes s :: "'z block_world_scheme"
  assumes "dev_at fd p c s" "on_device (rs_ranges src) c" "distinct (blocks_of src)"
    and "length (blocks_of src) * BLOCKSIZE \<le> length buf"
  shows "wp (ReadBlocks src buf fd) (\<lambda>res s'. dev_at fd p c s' \<and> length (snd res) = length buf \<and>
    (fst res \<noteq> -1 \<longrightarrow> take (length (blocks_of src) * BLOCKSIZE) (snd res) = device_blocks c (blocks_of src))) s"
proof -
  have "length (blocks_of src) * BLOCKSIZE \<le> SIZE_MAX"
    using distinct_on_device [OF assms(2)] assms(2,3) by (simp add: on_device_def blocks_of_def SIZE_MAX_def)
  from wp_ReadBlocks [OF assms(1,2,4) this] show ?thesis
    by (rule wp_mono) (auto simp: blocks_read_def intro!: device_blocks_eq)
qed

section \<open>Rearranging blocks\<close>

definition ascending :: "range list \<Rightarrow> bool" where
  "ascending rs \<longleftrightarrow> (\<forall>r \<in> set rs. range_ok r) \<and> sorted_wrt (\<lambda>a b. range_second a \<le> range_first b) rs"

lemma ascending_snoc:
  "ascending (rs @ [r]) \<longleftrightarrow> ascending rs \<and> range_ok r \<and> (\<forall>a \<in> set rs. range_second a \<le> range_first r)"
  by (auto simp: ascending_def sorted_wrt_append)

lemma ascending_sizes: "ascending (rs @ [r]) \<Longrightarrow> sum_list (map range_size rs) \<le> range_first r"
proof (induction rs arbitrary: r rule: rev_induct)
  case (snoc a rs)
  then have a: "ascending (rs @ [a])" "range_ok a" "range_second a \<le> range_first r"
    using ascending_snoc [of "rs @ [a]" r] by (simp_all add: ascending_snoc)
  from snoc.IH [OF a(1)] a(2,3) show ?case by (simp add: range_size_ok range_ok_def)
qed simp

lemma ascending_distinct: "ascending rs \<Longrightarrow> distinct (range_list_blocks rs)"
proof (induction rs rule: rev_induct)
  case (snoc r rs)
  then have "b < range_first r" if "b \<in> set (range_list_blocks rs)" for b
    using that by (fastforce simp: ascending_snoc set_range_blocks)
  then have "set (range_list_blocks rs) \<inter> set (range_blocks r) = {}"
    unfolding set_range_blocks by (metis atLeastLessThan_iff disjoint_iff not_less)
  moreover have "distinct (range_blocks r)" by (simp add: range_blocks_def)
  moreover have "distinct (range_list_blocks rs)" using snoc by (simp add: ascending_snoc)
  ultimately show ?case by (simp only: map_append concat_append distinct_append list.map concat.simps append_Nil2)
qed simp

text \<open>
  \<^verbatim>\<open>MoveRange\<close> on one buffer: going backward, each range is read before it is overwritten, so
  the result is that of a copy from another buffer with the same contents.
\<close>

lemma MoveRange_in_place:
  assumes "ascending rs" "length d' = length d" "n = sum_list (map range_size rs)"
    and "take (n * BLOCKSIZE) d' = take (n * BLOCKSIZE) d"
  shows "MoveRange_loop (rev rs) n None d' = MoveRange_loop (rev rs) n (Some d) d'"
  using assms
proof (induction rs arbitrary: n d' rule: rev_induct)
  case (snoc r rs)
  let ?k = "sum_list (map range_size rs)" and ?m = "range_size r" and ?f = "range_first r"
  have asc: "ascending rs" "?k \<le> ?f" using snoc.prems(1) ascending_sizes by (auto simp: ascending_snoc)
  have n: "size_sub n ?m = ?k" using snoc.prems(3) by (simp add: size_sub_small)
  have "take (?m * BLOCKSIZE) (drop (?k * BLOCKSIZE) (take (n * BLOCKSIZE) x)) = take (?m * BLOCKSIZE) (drop (?k * BLOCKSIZE) x)" for x :: "byte list"
    using snoc.prems(3) by (simp add: drop_take add_mult_distrib)
  then have src: "take (?m * BLOCKSIZE) (drop (?k * BLOCKSIZE) d') = take (?m * BLOCKSIZE) (drop (?k * BLOCKSIZE) d)"
    using snoc.prems(4) by metis
  have pre: "take (?k * BLOCKSIZE) d' = take (?k * BLOCKSIZE) d"
    using arg_cong [OF snoc.prems(4), of "take (?k * BLOCKSIZE)"] snoc.prems(3)
    by (simp add: min_absorb1 add_mult_distrib)
  let ?d = "overlay (?f * BLOCKSIZE) (take (?m * BLOCKSIZE) (drop (?k * BLOCKSIZE) d)) d'"
  have "MoveRange_loop (rev rs) ?k None ?d = MoveRange_loop (rev rs) ?k (Some d) ?d"
    if fit: "?f * BLOCKSIZE + ?m * BLOCKSIZE \<le> length d'"
  proof (rule snoc.IH [OF asc(1) _ refl])
    show "length ?d = length d" using fit snoc.prems(2) by (auto simp: length_overlay)
    have "?k * BLOCKSIZE \<le> ?f * BLOCKSIZE" using asc(2) by (rule mult_le_mono1)
    then show "take (?k * BLOCKSIZE) ?d = take (?k * BLOCKSIZE) d"
      using take_overlay [of 0 "?k * BLOCKSIZE" "?f * BLOCKSIZE" d'] fit pre by simp
  qed
  then show ?case using snoc.prems(2) src by (simp add: Let_def n)
qed simp

text \<open>From another buffer: block \<open>i\<close> of the source ends up as the block at the \<open>i\<close>-th location.\<close>

lemma MoveRange_copy:
  assumes "ascending rs" "\<forall>r \<in> set rs. range_second r * BLOCKSIZE \<le> length d'"
    and "n = sum_list (map range_size rs)" "n * BLOCKSIZE \<le> length d"
  shows "\<exists>d''. MoveRange_loop (rev rs) n (Some d) d' = Some d'' \<and> same_except (set (range_list_blocks rs)) d' d'' \<and>
    (\<forall>i < n. block d'' (range_list_blocks rs ! i) = block d i)"
  using assms
proof (induction rs arbitrary: n d' rule: rev_induct)
  case (snoc r rs)
  let ?k = "sum_list (map range_size rs)" and ?m = "range_size r" and ?f = "range_first r"
  let ?xs = "take (?m * BLOCKSIZE) (drop (?k * BLOCKSIZE) d)" and ?bs = "range_list_blocks rs"
  let ?d = "overlay (?f * BLOCKSIZE) ?xs d'"
  have asc: "ascending rs" "range_ok r" using snoc.prems(1) by (simp_all add: ascending_snoc)
  have r: "range_second r * BLOCKSIZE \<le> length d'" using snoc.prems(2) by simp
  have m: "?m = range_second r - ?f" "?f + ?m = range_second r" using asc(2) by (simp_all add: range_size_ok range_ok_def)
  have n: "n = ?k + ?m" "size_sub n ?m = ?k" using snoc.prems(3) by (simp_all add: size_sub_small)
  have fit: "?f * BLOCKSIZE + ?m * BLOCKSIZE \<le> length d'" using r by (simp flip: m(2) add: add_mult_distrib)
  have src: "?k * BLOCKSIZE + ?m * BLOCKSIZE \<le> length d" using snoc.prems(4) n(1) by (simp add: add_mult_distrib)
  then have xs: "length ?xs = ?m * BLOCKSIZE" by simp
  have one: "same_except (set (range_blocks r)) d' ?d"
    using xs m(1) by (intro same_except_overlay asc r) simp
  then have "length ?d = length d'" by (simp add: same_except_def)
  then obtain d'' where d'': "MoveRange_loop (rev rs) ?k (Some d) ?d = Some d''" "same_except (set ?bs) ?d d''"
    "\<forall>i < ?k. block d'' (?bs ! i) = block d i"
    using snoc.IH [OF asc(1) _ refl, of ?d] snoc.prems(2) src by auto
  have dist: "distinct (?bs @ range_blocks r)" using ascending_distinct [OF snoc.prems(1)] by simp
  have len: "length ?bs = ?k" using asc(1) length_concat_range_blocks [of rs] by (simp add: ascending_def)
  have "block d'' ((?bs @ range_blocks r) ! i) = block d i" if "i < n" for i
  proof (cases "i < ?k")
    case True
    then show ?thesis using d''(3) len by (simp add: nth_append)
  next
    case False
    then have i: "(?bs @ range_blocks r) ! i = ?f + (i - ?k)" "i - ?k < ?m"
      using that n(1) len m(2) by (simp_all add: nth_append range_blocks_def)
    then have "?f + (i - ?k) \<in> set (range_blocks r)" using m(2) by (auto simp: set_range_blocks)
    then have "block d'' (?f + (i - ?k)) = block ?d (?f + (i - ?k))"
      using d''(2) dist by (auto simp: same_except_def)
    also have "\<dots> = block ?xs (i - ?k)" using fit i(2) xs by (intro block_overlay_in) simp_all
    also have "\<dots> = block d (?k + (i - ?k))"
      using mult_le_mono1 [of "i - ?k + 1" ?m BLOCKSIZE] i(2) by (intro block_take_drop) (simp add: add_mult_distrib)
    finally show ?thesis using False i(1) by simp
  qed
  with d'' same_except_trans [OF one d''(2)] fit src show ?case by (auto simp: Let_def n(2))
qed (simp add: same_except_def)

section \<open>Runs without I/O errors\<close>

text \<open>
  No error, power loss or injected fault is ahead; calls may still transfer fewer bytes than asked.
\<close>

definition quiet :: "'z ota_world_scheme \<Rightarrow> bool" where
  "quiet s \<longleftrightarrow> \<not> w_halted s \<and> archive s = None \<and>
     list_all (\<lambda>ev. case ev of IoOk \<Rightarrow> True | IoShort _ \<Rightarrow> True | _ \<Rightarrow> False) (w_oracle s)"

lemma quiet_simps [simp]:
  "quiet (s\<lparr>w_errno := er\<rparr>) = quiet s" "quiet (set_fd fd p pos s) = quiet s" "quiet (set_file p c s) = quiet s"
  "quiet (put_bytes p pos xs s) = quiet s" "quiet (s\<lparr>have_eio_error := b\<rparr>) = quiet s"
  by (simp_all add: quiet_def set_fd_def set_file_def put_bytes_def split: option.split)

lemma quiet_failure_type [simp]: "quiet (s\<lparr>failure_type := x\<rparr>) = quiet s"
  by (simp add: quiet_def)

lemma quiet_live: "quiet s \<Longrightarrow> \<not> w_halted s"
  by (simp add: quiet_def)

lemma wp_quiet_event:
  assumes "quiet s" "\<And>evs. quiet (s\<lparr>w_oracle := evs\<rparr>) \<Longrightarrow> Q IoOk (s\<lparr>w_oracle := evs\<rparr>)"
    "\<And>n evs. quiet (s\<lparr>w_oracle := evs\<rparr>) \<Longrightarrow> Q (IoShort n) (s\<lparr>w_oracle := evs\<rparr>)"
  shows "wp next_event Q s"
proof (cases "w_oracle s")
  case Nil
  have "Q IoOk s" using assms(1) assms(2) [of "w_oracle s"] by simp
  with Nil assms(1) show ?thesis by (simp add: wp_next_event quiet_def)
next
  case (Cons ev evs)
  then have "quiet (s\<lparr>w_oracle := evs\<rparr>)" using assms(1) by (simp add: quiet_def)
  with Cons assms show ?thesis by (cases ev) (auto simp: wp_next_event quiet_def)
qed

lemma quiet_no_injection:
  "quiet s \<Longrightarrow> wp (inject_fault t fname clear fd) (\<lambda>hit s'. \<not> hit \<and> s' = s) s"
  by (simp add: inject_fault_def should_fault_inject_def quiet_def)

lemma quiet_write:
  fixes s :: "'z ota_world_scheme"
  assumes "quiet s" "at fd p pos c s" "0 \<le> fd" "xs \<noteq> []" "pos + length xs \<le> length c"
  shows "wp (TEMP_FAILURE_RETRY (\<lambda>r. r = -1) (ota_write fd xs)) (\<lambda>r s'. r \<noteq> -1 \<and> quiet s') s"
proof (rule wp_retry [where P = "\<lambda>s. quiet s \<and> at fd p pos c s"])
  fix s :: "'z ota_world_scheme"
  assume q: "quiet s \<and> at fd p pos c s"
  have "wp (sys_write fd xs) (\<lambda>r s'. r \<noteq> -1 \<and> quiet s') s"
    unfolding sys_write_def wp_if
    using q assms(3-5) by (auto simp: at_def room_def Let_def intro!: wp_quiet_event)
  then show "wp (ota_write fd xs) (\<lambda>r s'. r \<noteq> -1 \<and> quiet s') s"
    unfolding ota_write_def wp_bind
    by (intro wp_mono [OF quiet_no_injection]) (use q in \<open>auto elim!: wp_mono simp: note_eio_def\<close>)
qed (use assms in auto)

lemma quiet_lseek:
  assumes "quiet s" "at fd p pos c s" "off < 2 ^ 63"
  shows "wp (check_lseek fd off) (\<lambda>ok s'. ok \<and> quiet s') s"
proof -
  have "\<not> 2 ^ 63 \<le> off" using assms(3) by simp
  note small = if_not_P [OF this]
  have "wp (sys_lseek fd off) (\<lambda>r s'. r \<noteq> -1 \<and> quiet s') s"
    unfolding sys_lseek_def using assms(1,2) by (auto simp: at_def intro!: wp_quiet_event)
  then have "wp (TEMP_FAILURE_RETRY (\<lambda>r. r = -1) (sys_lseek fd off)) (\<lambda>r s'. r \<noteq> -1 \<and> quiet s') s"
    by (intro wp_retry [where P = "\<lambda>s'. s' = s"]) auto
  then show ?thesis unfolding check_lseek_def small by (auto elim!: wp_mono)
qed

lemma quiet_discard:
  fixes s :: "'z block_world_scheme"
  assumes "quiet s" "at fd p pos c s"
  shows "wp (discard_blocks e fd off sz) (\<lambda>ok s'. ok \<and> quiet s' \<and> (\<exists>c'. at fd p pos c' s' \<and> length c' = length c)) s"
proof -
  have len: "length (discarded e off sz c) = length c" by (auto simp: discarded_def Let_def length_overlay)
  have "wp (blkdiscard e fd off sz) (\<lambda>r s'. (r = 0 \<or> w_errno s' = ENOTSUP) \<and> quiet s' \<and>
      (\<exists>c'. at fd p pos c' s' \<and> length c' = length c)) s"
    unfolding blkdiscard_def using assms len quiet_live [OF assms(1)]
    by (auto simp: at_def fd_of_set_file intro!: wp_quiet_event)
  then have "wp (discard_ok e fd off sz) (\<lambda>ok s'. ok \<and> quiet s' \<and> (\<exists>c'. at fd p pos c' s' \<and> length c' = length c)) s"
    unfolding discard_ok_def by (auto elim!: wp_mono)
  then show ?thesis using assms by (auto simp: discard_blocks_def)
qed

lemma quiet_write_all_loop:
  fixes s :: "'z block_world_scheme"
  assumes "quiet s" "at fd p (pos + a) (overlay pos (take a xs) c) s" "0 \<le> fd" "pos + length xs \<le> length c"
    and "a \<le> length xs" "length xs \<le> a + n"
  shows "wp (write_all_loop n fd xs a) (\<lambda>r s'. r \<noteq> -1 \<and> quiet s') s"
  using assms
proof (induction n arbitrary: a s)
  case 0
  then show ?case by (simp add: CHECK_def)
next
  case (Suc n)
  have len: "length (overlay pos (take a xs) c) = length c"
    using Suc.prems(4) by (auto simp: length_overlay)
  show ?case
    unfolding write_all_loop.simps
  proof (rule wp_ifI)
    assume a: "a < length xs"
    then have room: "pos + a + length (drop a xs) \<le> length (overlay pos (take a xs) c)" "drop a xs \<noteq> []"
      using Suc.prems(4) len by simp_all
    show "wp (TEMP_FAILURE_RETRY (\<lambda>r. r = -1) (ota_write fd (drop a xs)) \<bind> (\<lambda>w.
        if w = -1 then do { fail_with kFwriteFailure; ret (-1) } else write_all_loop n fd xs (a + nat w)))
        (\<lambda>r s'. r \<noteq> -1 \<and> quiet s') s"
    proof (rule wp_seq [OF wp_conj [OF wp_retry_wrote [OF Suc.prems(2)] quiet_write [OF Suc.prems(1-3) room(2,1)]]], goal_cases)
      case (1 w s')
      then obtain k where k: "k \<le> length xs - a" "w = int k" "0 < k"
        "at fd p (pos + (a + k)) (overlay pos (take (a + k) xs) c) s'"
        using room(2) by (auto simp: wrote_def overlay_take_step add.assoc)
      then show ?case using 1 Suc.prems a by (auto intro!: Suc.IH)
    qed
  qed (use Suc.prems in simp)
qed

lemma quiet_write_all:
  fixes s :: "'z block_world_scheme"
  assumes "quiet s" "at fd p pos c s" "0 \<le> fd" "pos + sz \<le> length c" "off + sz \<le> length buf"
  shows "wp (write_all fd buf off sz) (\<lambda>r s'. r \<noteq> -1 \<and> quiet s') s"
  using quiet_write_all_loop [of s fd p pos 0 "take sz (drop off buf)" c sz] assms by (simp add: write_all_def CHECK_def)

lemma quiet_WriteBlocks_loop:
  fixes s :: "'z block_world_scheme"
  assumes "quiet s" "at fd p pos c s" "0 \<le> fd" "on_device rs c"
    and "(j + length (range_list_blocks rs)) * BLOCKSIZE \<le> length buf"
    and "(j + length (range_list_blocks rs)) * BLOCKSIZE \<le> SIZE_MAX"
  shows "wp (WriteBlocks_loop e fd rs buf (j * BLOCKSIZE)) (\<lambda>r s'. r = 0 \<and> quiet s' \<and> (\<exists>pos c'. at fd p pos c' s' \<and> length c' = length c)) s"
  using assms
proof (induction rs arbitrary: pos c s j)
  case (Cons r rs)
  let ?f = "range_first r" and ?m = "range_second r - range_first r"
  have r: "range_ok r" "range_second r * BLOCKSIZE \<le> length c" using Cons.prems(4) by (auto simp: on_device_def)
  have len: "length (range_blocks r) = ?m" using r(1) by (simp add: length_range_blocks range_size_ok)
  have room: "j * BLOCKSIZE + ?m * BLOCKSIZE \<le> length buf" "j * BLOCKSIZE + ?m * BLOCKSIZE \<le> SIZE_MAX"
    using Cons.prems(5,6) len by (simp_all add: add_mult_distrib)
  have fit: "?f * BLOCKSIZE + ?m * BLOCKSIZE \<le> length c"
    using r by (simp add: range_ok_def flip: add_mult_distrib)
  note sizes = on_device_sizes [OF Cons.prems(4) list.set_intros(1)]
  have next_pos: "size_add (j * BLOCKSIZE) (?m * BLOCKSIZE) = (j + ?m) * BLOCKSIZE"
    using room(2) by (simp add: size_add_small add_mult_distrib)
  show ?case
    unfolding WriteBlocks_loop.simps Let_def sizes(1,2) next_pos
  proof (rule wp_seq [OF quiet_discard [OF Cons.prems(1,2)]], elim conjE exE, rule wp_ifI, simp, goal_cases)
    case (1 ok s1 c1)
    show ?case
    proof (rule wp_seq [OF wp_conj [OF quiet_lseek [OF 1(2,3) sizes(3)] wp_check_lseek [OF at_dev [OF 1(3)] sizes(3)]]],
        rule wp_ifI, simp, goal_cases)
      case (1 ok s2)
      then have 2: "quiet s2" "at fd p (?f * BLOCKSIZE) c1 s2" by simp_all
      have "?f * BLOCKSIZE + ?m * BLOCKSIZE \<le> length c1" using fit \<open>length c1 = length c\<close> by simp
      note w = wp_conj [OF quiet_write_all [OF 2 Cons.prems(3) this room(1)] wp_write_all [OF 2(2) room(1)]]
      show ?case
      proof (rule wp_seq [OF w], rule wp_ifI, simp, goal_cases)
        case (1 x s3)
        let ?c2 = "overlay (?f * BLOCKSIZE) (take (?m * BLOCKSIZE) (drop (j * BLOCKSIZE) buf)) c1"
        have l2: "length ?c2 = length c" using fit \<open>length c1 = length c\<close> by (auto simp: length_overlay)
        then have "on_device rs ?c2" using Cons.prems(4) by (simp add: on_device_def)
        with 1 show ?case
          using Cons.prems(3,5,6) len
          by (auto intro!: Cons.IH [of s3 _ ?c2 "j + ?m", unfolded l2] simp: wrote_all_def add.assoc)
      qed
    qed
  qed
qed auto

lemma quiet_WriteBlocks:
  fixes s :: "'z block_world_scheme"
  assumes "quiet s" "at fd p pos c s" "0 \<le> fd" "on_device (rs_ranges tgt) c" "distinct (blocks_of tgt)"
    and "length (blocks_of tgt) * BLOCKSIZE \<le> length buf"
  shows "wp (WriteBlocks e tgt buf fd) (\<lambda>r s'. r = 0 \<and> quiet s' \<and> (\<exists>pos c'. at fd p pos c' s' \<and> length c' = length c)) s"
proof -
  have "length (blocks_of tgt) * BLOCKSIZE \<le> SIZE_MAX"
    using distinct_on_device [OF assms(4)] assms(4,5) by (simp add: on_device_def blocks_of_def SIZE_MAX_def)
  then show ?thesis
    using quiet_WriteBlocks_loop [of s fd p pos c "rs_ranges tgt" 0 buf e] assms
    by (simp add: WriteBlocks_def blocks_of_def)
qed

lemma quiet_read:
  fixes s :: "'z ota_world_scheme"
  assumes "quiet s" "at fd p pos c s" "0 < n" "pos < length c"
  shows "wp (TEMP_FAILURE_RETRY (\<lambda>r. r = None) (ota_read fd n)) (\<lambda>r s'. r \<noteq> None \<and> r \<noteq> Some [] \<and> quiet s') s"
proof (rule wp_retry [where P = "\<lambda>s. quiet s \<and> at fd p pos c s"])
  fix s :: "'z ota_world_scheme"
  assume q: "quiet s \<and> at fd p pos c s"
  then have "wp (sys_read fd n) (\<lambda>r s'. r \<noteq> None \<and> r \<noteq> Some [] \<and> quiet s') s"
    unfolding sys_read_def wp_bind
    using assms(3,4) by (auto simp: at_def Let_def intro!: wp_quiet_event)
  then show "wp (ota_read fd n) (\<lambda>r s'. r \<noteq> None \<and> r \<noteq> Some [] \<and> quiet s') s"
    unfolding ota_read_def wp_bind
    by (intro wp_mono [OF quiet_no_injection]) (use q in \<open>auto elim!: wp_mono simp: note_eio_def\<close>)
qed (use assms in auto)

lemma quiet_read_all_loop:
  fixes s :: "'z block_world_scheme"
  assumes "quiet s" "at fd p (pos + a) c s" "off + sz \<le> length buf" "pos + sz \<le> length c" "a \<le> sz" "sz \<le> a + n"
  shows "wp (read_all_loop n fd buf off sz a) (\<lambda>r s'. fst r \<noteq> -1 \<and> quiet s') s"
  using assms
proof (induction n arbitrary: a s buf)
  case 0
  then show ?case by (simp add: CHECK_def)
next
  case (Suc n)
  show ?case
    unfolding read_all_loop.simps CHECK_def if_P [OF Suc.prems(3)]
  proof (rule wp_ifI, unfold wp_bind [of "ret ()"] wp_ret)
    assume a: "a < sz"
    then have "0 < sz - a" "pos + a < length c" using Suc.prems(4) by simp_all
    note rd = wp_conj [OF wp_retry_read [OF Suc.prems(2)] quiet_read [OF Suc.prems(1,2) this]]
    show "wp (TEMP_FAILURE_RETRY (\<lambda>r. r = None) (ota_read fd (sz - a)) \<bind> (\<lambda>r. case r of
          None \<Rightarrow> do { fail_with kFreadFailure; ret (-1, buf) }
        | Some xs \<Rightarrow>
            if xs = [] then do { fail_with kFreadFailure; ret (-1, buf) }
            else read_all_loop n fd (overlay (off + a) xs buf) off sz (a + length xs)))
        (\<lambda>r s'. fst r \<noteq> -1 \<and> quiet s') s"
    proof (rule wp_seq [OF rd], goal_cases)
      case (1 r s')
      then obtain xs where r: "r = Some xs" "xs \<noteq> []" "quiet s'" "read_post fd p (pos + a) c (sz - a) r s'" by auto
      then have xs: "length xs \<le> sz - a" "at fd p (pos + (a + length xs)) c s'" "0 < length xs"
        by (simp_all add: read_post_def read_some_def add.assoc)
      have "length (overlay (off + a) xs buf) = length buf"
        using xs(1) Suc.prems(3,5) a by (auto simp: length_overlay)
      moreover have big: "sz \<le> a + length xs + n" using Suc.prems(6) r(2) by (cases xs) simp_all
      ultimately have "wp (read_all_loop n fd (overlay (off + a) xs buf) off sz (a + length xs)) (\<lambda>r s'. fst r \<noteq> -1 \<and> quiet s') s'"
        using Suc.prems xs a by (intro Suc.IH [OF r(3) xs(2) _ _ _ big]) simp_all
      with r show ?case by simp
    qed
  qed (use Suc.prems in simp)
qed

lemma quiet_ReadBlocks_loop:
  fixes s :: "'z block_world_scheme"
  assumes "quiet s" "at fd p pos c s" "on_device rs c"
    and "(j + length (range_list_blocks rs)) * BLOCKSIZE \<le> length buf"
    and "(j + length (range_list_blocks rs)) * BLOCKSIZE \<le> SIZE_MAX"
  shows "wp (ReadBlocks_loop fd rs buf (j * BLOCKSIZE)) (\<lambda>r s'. fst r = 0 \<and> quiet s') s"
  using assms
proof (induction rs arbitrary: pos s j buf)
  case (Cons r rs)
  let ?f = "range_first r" and ?m = "range_second r - range_first r"
  have r: "range_ok r" "range_second r * BLOCKSIZE \<le> length c" using Cons.prems(3) by (auto simp: on_device_def)
  have len: "length (range_blocks r) = ?m" using r(1) by (simp add: length_range_blocks range_size_ok)
  have room: "j * BLOCKSIZE + ?m * BLOCKSIZE \<le> length buf" "j * BLOCKSIZE + ?m * BLOCKSIZE \<le> SIZE_MAX"
    using Cons.prems(4,5) len by (simp_all add: add_mult_distrib)
  have fit: "?f * BLOCKSIZE + ?m * BLOCKSIZE \<le> length c"
    using r by (simp add: range_ok_def flip: add_mult_distrib)
  note sizes = on_device_sizes [OF Cons.prems(3) list.set_intros(1)]
  have next_pos: "size_add (j * BLOCKSIZE) (?m * BLOCKSIZE) = (j + ?m) * BLOCKSIZE"
    using room(2) by (simp add: size_add_small add_mult_distrib)
  show ?case
    unfolding ReadBlocks_loop.simps Let_def sizes(1,2) next_pos
  proof (rule wp_seq [OF wp_conj [OF quiet_lseek [OF Cons.prems(1,2) sizes(3)]
        wp_check_lseek [OF at_dev [OF Cons.prems(2)] sizes(3)]]], rule wp_ifI, simp, goal_cases)
    case (1 ok s1)
    then have 2: "quiet s1" "at fd p (?f * BLOCKSIZE) c s1" by simp_all
    have "wp (read_all fd buf (j * BLOCKSIZE) (?m * BLOCKSIZE)) (\<lambda>r s'. fst r \<noteq> -1 \<and> quiet s') s1"
      using quiet_read_all_loop [of s1 fd p "?f * BLOCKSIZE" 0 c "j * BLOCKSIZE" "?m * BLOCKSIZE" buf] 2 room(1) fit
      by (simp add: read_all_def)
    note rd = wp_conj [OF this wp_read_all [OF 2(2) room(1)]]
    show ?case
    proof (rule wp_seq [OF rd], simp only: case_prod_beta, rule wp_ifI, simp, goal_cases)
      case (1 res s2)
      then have "length (snd res) = length buf" using room(1) by (auto simp: read_part_def length_overlay)
      then show ?case
        using 1 Cons.prems(3-5) len by (auto intro!: Cons.IH simp: read_part_def on_device_def add.assoc)
    qed
  qed
qed simp

lemma quiet_ReadBlocks:
  fixes s :: "'z block_world_scheme"
  assumes "quiet s" "at fd p pos c s" "on_device (rs_ranges src) c" "distinct (blocks_of src)"
    and "length (blocks_of src) * BLOCKSIZE \<le> length buf"
  shows "wp (ReadBlocks src buf fd) (\<lambda>r s'. fst r = 0 \<and> quiet s') s"
proof -
  have "length (blocks_of src) * BLOCKSIZE \<le> SIZE_MAX"
    using distinct_on_device [OF assms(3)] assms(3,4) by (simp add: on_device_def blocks_of_def SIZE_MAX_def)
  then show ?thesis
    using quiet_ReadBlocks_loop [of s fd p pos c "rs_ranges src" 0 buf] assms
    by (simp add: ReadBlocks_def blocks_of_def)
qed

section \<open>Properties\<close>

text \<open>
  C18.  \<^verbatim>\<open>WriteBlocks\<close> never changes a block outside its target ranges, whatever I/O errors,
  interrupted calls, discards or power losses occur and wherever the run ends, and never changes
  the size of the device; when it reports success the target blocks hold the data of the buffer
  in order.  Assumptions: the ranges lie on the device, no block is named twice and the buffer is
  large enough.
\<close>

theorem WriteBlocks_contents:
  assumes "run_state (WriteBlocks e tgt buf fd) s = (r, s')" "dev_at fd dev c s"
    and "on_device (rs_ranges tgt) c" "distinct (blocks_of tgt)"
    and "length (blocks_of tgt) * BLOCKSIZE \<le> length buf"
  shows "\<exists>c'. file_of s' dev = Some c' \<and> length c' = length c \<and>
    (\<forall>b. b \<notin> set (blocks_of tgt) \<longrightarrow> block c' b = block c b) \<and>
    (r \<noteq> -1 \<longrightarrow> r = 0 \<and> device_blocks c' (blocks_of tgt) = take (length (blocks_of tgt) * BLOCKSIZE) buf)"
proof -
  have "blocks_written fd dev c (blocks_of tgt) buf 0 r s'"
    using wp_runD [OF wp_WriteBlocks assms(1)] assms(2-5) .
  then obtain c' where c': "file_of s' dev = Some c'" "same_except (set (blocks_of tgt)) c c'"
    "r \<noteq> -1 \<longrightarrow> r = 0 \<and> (\<forall>i < length (blocks_of tgt). block c' (blocks_of tgt ! i) = block buf i)"
    by (auto simp: blocks_written_def)
  then show ?thesis
    using device_blocks_eq [of "blocks_of tgt" buf c'] by (auto simp: same_except_def)
qed

text \<open>
  C19.  What \<^verbatim>\<open>WriteBlocks\<close> has written successfully is what \<^verbatim>\<open>ReadBlocks\<close> reads back from the
  same ranges, on every schedule of interrupted and partial transfers.
\<close>

theorem write_read_roundtrip:
  assumes "run_state (WriteBlocks e tgt buf fd) s = (0, s1)"
    and "run_state (ReadBlocks tgt buf1 fd) s1 = ((0, buf2), s2)"
    and "dev_at fd dev c s" "on_device (rs_ranges tgt) c" "distinct (blocks_of tgt)"
    and "length (blocks_of tgt) * BLOCKSIZE \<le> length buf" "length (blocks_of tgt) * BLOCKSIZE \<le> length buf1"
  shows "take (length (blocks_of tgt) * BLOCKSIZE) buf2 = take (length (blocks_of tgt) * BLOCKSIZE) buf"
proof -
  have "blocks_written fd dev c (blocks_of tgt) buf 0 0 s1"
    using wp_runD [OF wp_WriteBlocks assms(1)] assms(3-6) .
  then obtain c' where c': "dev_at fd dev c' s1" "length c' = length c"
    "\<forall>i < length (blocks_of tgt). block buf i = block c' (blocks_of tgt ! i)"
    by (auto simp: blocks_written_def same_except_def)
  have "on_device (rs_ranges tgt) c'" using assms(4) c'(2) by (rule on_device_same)
  from wp_runD [OF wp_ReadBlocks_device [OF c'(1) this assms(5,7)] assms(2)]
  show ?thesis using device_blocks_eq [OF c'(3)] by simp
qed

text \<open>
  C20.  Without I/O errors and power losses \<^verbatim>\<open>WriteBlocks\<close> and \<^verbatim>\<open>ReadBlocks\<close> come to an end and
  report success, even when every call transfers only a part of what was asked.
\<close>

theorem blocks_transferred:
  assumes "quiet s" "at fd dev pos c s" "0 \<le> fd" "on_device (rs_ranges tgt) c" "distinct (blocks_of tgt)"
    and "length (blocks_of tgt) * BLOCKSIZE \<le> length buf"
  shows "fst (run_state (WriteBlocks e tgt buf fd) s) = 0 \<and>
    fst (fst (run_state (ReadBlocks tgt buf fd) s)) = 0"
  using quiet_WriteBlocks [OF assms, of e] quiet_ReadBlocks [OF assms(1,2,4-6)] by (simp add: wp_run)

text \<open>
  C21.  \<^verbatim>\<open>MoveRange\<close> with the same buffer as source and destination gives the result of copying
  from an untouched second buffer: no block is overwritten before it has been moved.  Block \<open>i\<close> of
  the packed data ends up at the \<open>i\<close>-th location, other blocks stay.  Assumptions: the locations
  are in ascending order and fit into the buffer.
\<close>

theorem MoveRange_correct:
  assumes "ascending (rs_ranges locs)" "wf_rs locs"
    and "\<forall>r \<in> set (rs_ranges locs). range_second r * BLOCKSIZE \<le> length dest"
    and "rs_blocks locs * BLOCKSIZE \<le> length dest"
  shows "MoveRange dest locs None = MoveRange dest locs (Some dest) \<and>
    (\<exists>d. MoveRange dest locs None = Some d \<and> length d = length dest \<and>
       (\<forall>i < rs_blocks locs. block d (blocks_of locs ! i) = block dest i) \<and>
       (\<forall>b. b \<notin> set (blocks_of locs) \<longrightarrow> block d b = block dest b))"
proof -
  have n: "rs_blocks locs = sum_list (map range_size (rs_ranges locs))" using assms(2) by (simp add: wf_rs_def)
  have "MoveRange dest locs None = MoveRange dest locs (Some dest)"
    unfolding MoveRange_def by (rule MoveRange_in_place [OF assms(1) refl n refl])
  moreover from MoveRange_copy [OF assms(1,3) n assms(4)] obtain d where
    "MoveRange dest locs (Some dest) = Some d" "same_except (set (blocks_of locs)) dest d"
    "\<forall>i < rs_blocks locs. block d (blocks_of locs ! i) = block dest i"
    unfolding MoveRange_def blocks_of_def by blast
  ultimately show ?thesis by (auto simp: same_except_def)
qed

section \<open>A sample device\<close>

text \<open>A device of three blocks, open as descriptor 3.\<close>

definition sample_dev :: "byte list" where
  "sample_dev = replicate BLOCKSIZE 1 @ replicate BLOCKSIZE 2 @ replicate BLOCKSIZE 3"

definition sample_block_world :: block_world where
  "sample_block_world = patch_world.extend
     (sample_patch_world\<lparr>w_files := [(''/dev/b'', sample_dev)], w_dev := [''/dev/b''],
        w_dirs := [''/cache'', ''/cache/recovery''], w_fds := [(3, ''/dev/b'', 0)], w_next_fd := 4\<rparr>)
     \<lparr>failure_type = kNoCause, is_retry = False, stash_map = [], p_cpos = 0, p_freestash = [],
      p_foundwrites = False, p_isunresumable = False, p_written = 0, p_stashed = 0, p_buffer = [],
      p_target_verified = False, nti_writer = None, nti_receiver_available = False, nti_chunks = [],
      nti_brotli = [], diff_writer = None\<rparr>"

lemma sample_block_world_simps [simp]:
  "at 3 ''/dev/b'' 0 sample_dev sample_block_world" "dev_at 3 ''/dev/b'' sample_dev sample_block_world"
  "quiet sample_block_world"
  by (simp_all add: sample_block_world_def patch_world.extend_def at_def dev_at_def fd_of_def file_of_def
      quiet_def sample_patch_world_def edify_state.extend_def sample_world_def)

definition sample_locs :: RangeSet where
  "sample_locs = \<lparr>rs_ranges = [Range 1 3], rs_blocks = 2\<rparr>"

lemma sample_locs_simps [simp]:
  "on_device (rs_ranges sample_locs) sample_dev" "blocks_of sample_locs = [1, 2]" "wf_rs sample_locs"
  "ascending (rs_ranges sample_locs)" "rs_blocks sample_locs = 2"
  by (simp_all add: sample_locs_def sample_dev_def on_device_def BLOCKSIZE_def range_ok_def SIZE_MAX_def
      blocks_of_def range_blocks_def wf_rs_def range_size_def size_sub_def ascending_def upt_rec)

definition sample_data :: "byte list" where
  "sample_data = replicate BLOCKSIZE 7 @ replicate BLOCKSIZE 8"

lemma length_sample_data [simp]: "length sample_data = 2 * BLOCKSIZE"
  by (simp add: sample_data_def)

lemma sample_device_ok:
  "distinct (blocks_of sample_locs)" "length (blocks_of sample_locs) * BLOCKSIZE \<le> length sample_data"
  by simp_all


definition sample_ReadFdToString :: "int \<Rightarrow> ('z, string option) bw" where
  "sample_ReadFdToString fd = do {
     r \<leftarrow> sys_read fd 65536;
     ret (map_option (map (\<lambda>b. char_of (unat b))) r) }"

definition sample_WriteStringToFd :: "string \<Rightarrow> int \<Rightarrow> ('z, bool) bw" where
  "sample_WriteStringToFd str fd = do {
     r \<leftarrow> sys_write fd (bytes_of str);
     ret (r = int (length str)) }"

definition sample_block_env :: "unit block_env" where
  "sample_block_env =
     \<lparr>be_env = \<lparr>e_ab = sample_base, e_sha1 = sample_sha1, e_bspatch = copy_bspatch, e_zlib = sample_zlib,
        e_platform = \<lparr>pf_statfs = (\<lambda>_. Some (4096, 100)), pf_open_files = Some []\<rparr>,
        e_cache = default_cache_location\<rparr>,
      be_ReadFdToString = sample_ReadFdToString, be_WriteStringToFd = sample_WriteStringToFd,
      be_Dirname = (\<lambda>_. ''/cache/recovery''), be_discard = (\<lambda>_ old. map (\<lambda>_. 0) old),
      be_brotli = \<lparr>br_step = (\<lambda>_ d n. (False, min n (length d), take n d)), br_more = (\<lambda>_. False), br_turns = 10\<rparr>,
      be_strerror = (\<lambda>_. ''error'')\<rparr>"

abbreviation sample_write :: "int \<times> block_world" where
  "sample_write \<equiv> run_state (WriteBlocks sample_block_env sample_locs sample_data 3) sample_block_world"

lemma sample_write_blocks:
  "\<exists>s' pos c'. sample_write = (0, s') \<and> quiet s' \<and> at 3 ''/dev/b'' pos c' s' \<and> length c' = length sample_dev"
  using quiet_WriteBlocks [OF sample_block_world_simps(3,1) _ sample_locs_simps(1) sample_device_ok, of sample_block_env]
  unfolding wp_run by (metis prod.collapse zero_le_numeral)

theorem WriteBlocks_contents_witness:
  "\<exists>s' c'. run_state (WriteBlocks sample_block_env sample_locs sample_data 3) sample_block_world = (0, s') \<and>
     file_of s' ''/dev/b'' = Some c' \<and> block c' 0 = block sample_dev 0 \<and>
     device_blocks c' [1, 2] = sample_data"
proof -
  obtain s' where s': "sample_write = (0, s')" using sample_write_blocks by blast
  from WriteBlocks_contents [OF s' sample_block_world_simps(2) sample_locs_simps(1) sample_device_ok] s'
  show ?thesis by auto
qed

theorem write_read_roundtrip_witness:
  "\<exists>s1 s2 buf. run_state (WriteBlocks sample_block_env sample_locs sample_data 3) sample_block_world = (0, s1) \<and>
     run_state (ReadBlocks sample_locs (replicate (2 * BLOCKSIZE) 0) 3) s1 = ((0, buf), s2) \<and>
     take (2 * BLOCKSIZE) buf = sample_data"
proof -
  let ?buf = "replicate (2 * BLOCKSIZE) 0 :: byte list"
  obtain s1 pos c' where s1: "sample_write = (0, s1)" "quiet s1" "at 3 ''/dev/b'' pos c' s1" "length c' = length sample_dev"
    using sample_write_blocks by blast
  have buf: "length (blocks_of sample_locs) * BLOCKSIZE \<le> length ?buf" by simp
  have "fst (fst (run_state (ReadBlocks sample_locs ?buf 3) s1)) = 0"
    using quiet_ReadBlocks [OF s1(2,3) on_device_same [OF sample_locs_simps(1) s1(4)] sample_device_ok(1) buf]
    by (simp add: wp_run)
  then obtain buf s2 where s2: "run_state (ReadBlocks sample_locs ?buf 3) s1 = ((0, buf), s2)"
    by (metis prod.collapse)
  from write_read_roundtrip [OF s1(1) s2 sample_block_world_simps(2) sample_locs_simps(1) sample_device_ok buf] s1 s2
  show ?thesis by (auto simp: mult_2)
qed

theorem blocks_transferred_witness:
  "fst (run_state (WriteBlocks sample_block_env sample_locs sample_data 3) sample_block_world) = 0 \<and>
   fst (fst (run_state (ReadBlocks sample_locs sample_data 3) sample_block_world)) = 0"
  by (rule blocks_transferred [OF sample_block_world_simps(3,1) _ sample_locs_simps(1) sample_device_ok]) simp

theorem MoveRange_correct_witness:
  "\<exists>d. MoveRange sample_dev sample_locs None = Some d \<and> block d 1 = block sample_dev 0 \<and> block d 2 = block sample_dev 1"
proof -
  have "\<forall>r \<in> set (rs_ranges sample_locs). range_second r * BLOCKSIZE \<le> length sample_dev"
    "rs_blocks sample_locs * BLOCKSIZE \<le> length sample_dev"
    by (simp_all add: sample_locs_def sample_dev_def)
  from MoveRange_correct [OF sample_locs_simps(4,3) this] obtain d where
    d: "MoveRange sample_dev sample_locs None = Some d" "\<forall>i < 2. block d ([1, 2] ! i) = block sample_dev i"
    by (metis sample_locs_simps(2,5))
  have "block d ([1, 2] ! 0) = block sample_dev 0" by (rule d(2) [rule_format]) simp
  moreover have "block d ([1, 2] ! 1) = block sample_dev 1" by (rule d(2) [rule_format]) simp
  ultimately show ?thesis using d(1) by simp
qed

end
