(* ===== verification/Range_Sink.thy ===== *)
theory Range_Sink
  imports Block_Contents
begin

text \<open>
  The \<^verbatim>\<open>RangeSinkWriter\<close> of \<^verbatim>\<open>updater/blockimg.cpp\<close>, through which patched and new data reaches the
  device: the contents of the device after any sequence of calls, and that the sink accepts what
  fits when nothing fails.
\<close>

section \<open>The state of a sink\<close>

lemma device_blocks_append [simp]: "device_blocks c (bs @ bs') = device_blocks c bs @ device_blocks c bs'"
  by (simp add: device_blocks_def)

lemma device_blocks_Nil [simp]: "device_blocks c [] = []"
  by (simp add: device_blocks_def)

lemma device_blocks_range: "device_blocks c [f..<f + m] = take (m * BLOCKSIZE) (drop (f * BLOCKSIZE) c)"
proof (induction m)
  case (Suc m)
  have "take (m * BLOCKSIZE + BLOCKSIZE) (drop (f * BLOCKSIZE) c) =
      take (m * BLOCKSIZE) (drop (f * BLOCKSIZE) c) @ take BLOCKSIZE (drop (m * BLOCKSIZE) (drop (f * BLOCKSIZE) c))"
    by (rule take_add)
  with Suc show ?case by (simp add: device_blocks_def block_def add_mult_distrib add.commute)
qed simp

lemma device_blocks_same: "same_except B c c' \<Longrightarrow> set bs \<inter> B = {} \<Longrightarrow> device_blocks c' bs = device_blocks c bs"
  unfolding device_blocks_def same_except_def by (metis disjoint_iff map_eq_conv)

lemma length_device_blocks:
  assumes "\<And>b. b \<in> set bs \<Longrightarrow> (b + 1) * BLOCKSIZE \<le> length c"
  shows "length (device_blocks c bs) = length bs * BLOCKSIZE"
  using assms by (induction bs) (auto simp: device_blocks_def length_block)

lemma device_blocks_nth:
  assumes "device_blocks c bs = device_blocks c' bs" "b \<in> set bs"
    and "\<And>b. b \<in> set bs \<Longrightarrow> (b + 1) * BLOCKSIZE \<le> length c" "\<And>b. b \<in> set bs \<Longrightarrow> (b + 1) * BLOCKSIZE \<le> length c'"
  shows "block c b = block c' b"
  using assms
proof (induction bs)
  case (Cons a bs)
  have "length (block c a) = length (block c' a)" using Cons.prems(3,4) [of a] by (simp add: length_block)
  with Cons show ?case by (auto simp: device_blocks_def)
qed simp

lemma blocks_determine:
  assumes "\<And>b. block c b = block c' b" "length c = length c'"
  shows "c = c'"
proof -
  have eq: "block c = block c'" by (rule ext) (rule assms(1))
  have "length c \<le> length c * BLOCKSIZE" by (simp add: BLOCKSIZE_def)
  then have d: "device_blocks c [0..<length c] = c" "device_blocks c' [0..<length c] = c'"
    using assms(2) by (simp_all add: device_blocks_upt)
  have "device_blocks c [0..<length c] = device_blocks c' [0..<length c]"
    unfolding device_blocks_def eq by (rule refl)
  then show ?thesis unfolding d .
qed

text \<open>
  The ranges of the sink that have been started, and the state after the bytes \<open>W\<close> have been
  accepted: they are the first bytes of these ranges, and the descriptor is at the end of them
  when the last range is not full.
\<close>

abbreviation started :: "RangeSinkWriter \<Rightarrow> range list" where
  "started w \<equiv> take (rw_next_range w) (rs_ranges (rw_tgt w))"

definition sink_state ::
  "string \<Rightarrow> byte list \<Rightarrow> RangeSinkWriter \<Rightarrow> byte list \<Rightarrow> byte list \<Rightarrow> 'z world_scheme \<Rightarrow> bool" where
  "sink_state p c0 w W c s \<longleftrightarrow>
     dev_at (rw_fd w) p c s \<and> same_except (set (range_list_blocks (started w))) c0 c \<and>
     take (length W) (device_blocks c (range_list_blocks (started w))) = W \<and>
     length (range_list_blocks (started w)) * BLOCKSIZE = length W + rw_current_range_left w \<and>
     rw_next_range w \<le> length (rs_ranges (rw_tgt w)) \<and>
     (0 < rw_current_range_left w \<longrightarrow>
        started w \<noteq> [] \<and>
        rw_current_range_left w \<le> (range_second (last (started w)) - range_first (last (started w))) * BLOCKSIZE \<and>
        at (rw_fd w) p (range_second (last (started w)) * BLOCKSIZE - rw_current_range_left w) c s)"

text \<open>A write inside a range, as a write of its beginning.\<close>

lemma overlay_self: "f + k \<le> length c \<Longrightarrow> overlay f (take k (drop f c)) c = c"
  by (auto simp: overlay_def) (metis append_assoc append_take_drop_id drop_drop add.commute)

lemma overlay_within:
  "f + k \<le> length c \<Longrightarrow> overlay (f + k) xs c = overlay f (take k (drop f c) @ xs) c"
  using overlay_append [of f "take k (drop f c)" xs c] by (simp add: overlay_self)

text \<open>Writing into the last range that has been started.\<close>

lemma write_last_range:
  assumes dev: "on_device (init @ [r]) c" and dist: "distinct (range_list_blocks (init @ [r]))"
    and m: "m = range_second r - range_first r" and k: "k + length xs \<le> m * BLOCKSIZE"
    and W: "take (length W) (device_blocks c (range_list_blocks (init @ [r]))) = W"
    and len: "length W = length (range_list_blocks init) * BLOCKSIZE + k"
    and c': "c' = overlay (range_first r * BLOCKSIZE + k) xs c"
  shows "same_except (set (range_blocks r)) c c'"
    and "take (length (W @ xs)) (device_blocks c' (range_list_blocks (init @ [r]))) = W @ xs"
proof -
  let ?f = "range_first r" and ?bs = "range_list_blocks init"
  have r: "range_ok r" "range_second r * BLOCKSIZE \<le> length c" using dev by (auto simp: on_device_def)
  have fm: "?f + m = range_second r" using r(1) m by (simp add: range_ok_def)
  then have fit: "?f * BLOCKSIZE + m * BLOCKSIZE \<le> length c" using r(2) by (simp flip: add_mult_distrib)
  let ?Y = "take k (drop (?f * BLOCKSIZE) c)"
  have Y: "length ?Y = k" using fit k by simp
  have c'': "c' = overlay (?f * BLOCKSIZE) (?Y @ xs) c" unfolding c' using fit k by (intro overlay_within) simp
  show same: "same_except (set (range_blocks r)) c c'"
    unfolding c'' using k Y m by (intro same_except_overlay r) simp
  have "length (device_blocks c ?bs) = length ?bs * BLOCKSIZE"
    using blocks_on_device [OF dev] by (intro length_device_blocks) simp
  moreover have blk: "device_blocks x (range_blocks r) = take (m * BLOCKSIZE) (drop (?f * BLOCKSIZE) x)" for x
    using device_blocks_range [of x ?f m] fm by (simp add: range_blocks_def)
  ultimately have W': "W = device_blocks c ?bs @ ?Y" using W len k by (simp add: min_def)
  have "device_blocks c' ?bs = device_blocks c ?bs" using dist by (intro device_blocks_same [OF same]) simp
  moreover have "take (k + length xs) (drop (?f * BLOCKSIZE) c') = ?Y @ xs"
    using overlay_at [of "?f * BLOCKSIZE" c 0 "k + length xs" "?Y @ xs"] fit Y by (simp add: c'')
  ultimately show "take (length (W @ xs)) (device_blocks c' (range_list_blocks (init @ [r]))) = W @ xs"
    using \<open>length (device_blocks c ?bs) = _\<close> k len by (simp add: blk W' min_def)
qed

lemma distinct_blocks_take: "distinct (range_list_blocks rs) \<Longrightarrow> distinct (range_list_blocks (take n rs))"
  by (metis append_take_drop_id concat_append distinct_append map_append)

lemma sink_state_write:
  assumes st: "sink_state p c0 w W c s" and dev: "on_device (rs_ranges (rw_tgt w)) c0"
    and dist: "distinct (range_list_blocks (rs_ranges (rw_tgt w)))"
    and xs: "length xs \<le> rw_current_range_left w" and left: "0 < rw_current_range_left w"
    and pos: "pos = range_second (last (started w)) * BLOCKSIZE - rw_current_range_left w"
    and a: "at (rw_fd w) p (pos + length xs) (overlay pos xs c) s'"
  shows "sink_state p c0 (w\<lparr>rw_current_range_left := rw_current_range_left w - length xs\<rparr>) (W @ xs) (overlay pos xs c) s'"
proof -
  let ?L = "rw_current_range_left w"
  obtain init r where ir: "started w = init @ [r]"
    using st left unfolding sink_state_def by (metis append_butlast_last_id)
  let ?f = "range_first r" and ?m = "range_second r - range_first r" and ?bs = "range_list_blocks init"
  have same: "same_except (set (range_list_blocks (init @ [r]))) c0 c"
    and W: "take (length W) (device_blocks c (range_list_blocks (init @ [r]))) = W"
    and len: "length (range_list_blocks (init @ [r])) * BLOCKSIZE = length W + ?L"
    and L: "?L \<le> ?m * BLOCKSIZE" and n: "rw_next_range w \<le> length (rs_ranges (rw_tgt w))"
    using st left unfolding sink_state_def ir by simp_all
  have sub: "set (init @ [r]) \<subseteq> set (rs_ranges (rw_tgt w))" unfolding ir [symmetric] by (rule set_take_subset)
  have dev': "on_device (init @ [r]) c" using dev same sub by (auto simp: on_device_def same_except_def)
  have dist': "distinct (range_list_blocks (init @ [r]))" using distinct_blocks_take [OF dist] unfolding ir [symmetric] .
  have r: "range_ok r" using dev' by (simp add: on_device_def)
  then have fm: "range_second r * BLOCKSIZE = ?f * BLOCKSIZE + ?m * BLOCKSIZE"
    by (simp add: range_ok_def flip: add_mult_distrib)
  have lr: "length (range_blocks r) = ?m" using r by (simp add: length_range_blocks range_size_ok)
  let ?k = "?m * BLOCKSIZE - ?L"
  have pos': "pos = ?f * BLOCKSIZE + ?k" using pos fm L by (simp add: ir)
  have "length W = length ?bs * BLOCKSIZE + ?k" using len L lr by (simp add: add_mult_distrib)
  note wr = write_last_range [OF dev' dist' refl _ W this arg_cong [of _ _ "\<lambda>q. overlay q xs c", OF pos']]
  have k: "?k + length xs \<le> ?m * BLOCKSIZE" using xs L by simp
  have "same_except (set (range_list_blocks (init @ [r]))) c0 (overlay pos xs c)"
    by (rule same_except_trans [OF same wr(1) [OF k]]) auto
  then show ?thesis
    using wr(2) [OF k] len xs L n a fm pos at_dev [OF a]
    by (auto simp: sink_state_def ir)
qed

text \<open>The next range is started by discarding it and seeking to its beginning.\<close>

lemma sink_state_next:
  assumes st: "sink_state p c0 w W c s" and dev: "on_device (rs_ranges (rw_tgt w)) c0"
    and dist: "distinct (range_list_blocks (rs_ranges (rw_tgt w)))"
    and n: "rw_current_range_left w = 0" "rw_next_range w < length (rs_ranges (rw_tgt w))"
    and r: "r = rs_ranges (rw_tgt w) ! rw_next_range w" and m: "m = range_second r - range_first r"
    and same: "same_except (set (range_blocks r)) c c1" and a: "at (rw_fd w) p (range_first r * BLOCKSIZE) c1 s'"
  shows "sink_state p c0 (w\<lparr>rw_current_range_left := m * BLOCKSIZE, rw_next_range := rw_next_range w + 1\<rparr>) W c1 s'"
proof -
  let ?bs = "range_list_blocks (started w)"
  have next_take: "take (Suc (rw_next_range w)) (rs_ranges (rw_tgt w)) = started w @ [r]"
    using n(2) r by (simp add: take_Suc_conv_app_nth)
  have rok: "range_ok r" using dev n(2) r by (simp add: on_device_def)
  then have lr: "length (range_blocks r) = m" using m by (simp add: length_range_blocks range_size_ok)
  have fm: "range_second r * BLOCKSIZE - m * BLOCKSIZE = range_first r * BLOCKSIZE"
    using rok m by (simp add: range_ok_def flip: diff_mult_distrib)
  have s0: "same_except (set ?bs) c0 c" "take (length W) (device_blocks c ?bs) = W" "length ?bs * BLOCKSIZE = length W"
    using st n(1) by (simp_all add: sink_state_def)
  have "set (started w) \<subseteq> set (rs_ranges (rw_tgt w))" by (rule set_take_subset)
  then have "on_device (started w) c" using dev s0(1) by (auto simp: on_device_def same_except_def)
  then have ld: "length (device_blocks c ?bs) = length W"
    unfolding s0(3) [symmetric] by (intro length_device_blocks blocks_on_device)
  have "distinct (range_list_blocks (started w @ [r]))" using distinct_blocks_take [OF dist] unfolding next_take [symmetric] .
  then have "device_blocks c1 ?bs = device_blocks c ?bs" by (intro device_blocks_same [OF same]) simp
  moreover have "same_except (set (range_list_blocks (started w @ [r]))) c0 c1"
    by (rule same_except_trans [OF s0(1) same]) auto
  ultimately show ?thesis
    using s0 ld lr n(2) a fm at_dev [OF a] by (simp add: sink_state_def next_take add_mult_distrib m)
qed

abbreviation all_blocks :: "RangeSinkWriter \<Rightarrow> nat set" where
  "all_blocks w \<equiv> set (range_list_blocks (rs_ranges (rw_tgt w)))"

lemma sink_state_frame: "sink_state p c0 w W c s \<Longrightarrow> file_of s p = Some c \<and> same_except (all_blocks w) c0 c"
  unfolding sink_state_def dev_at_def same_except_def
  by (metis (no_types, lifting) append_take_drop_id concat_append map_append set_append UnI1)

lemma wp_SeekToOutputRange:
  fixes s :: "'z block_world_scheme"
  assumes st: "sink_state p c0 w W c s" and dev: "on_device (rs_ranges (rw_tgt w)) c0"
    and dist: "distinct (range_list_blocks (rs_ranges (rw_tgt w)))"
  shows "wp (SeekToOutputRange e w) (\<lambda>(ok, w') s'. rw_fd w' = rw_fd w \<and> rw_tgt w' = rw_tgt w \<and>
    rw_bytes_written w' = rw_bytes_written w \<and>
    (\<exists>c1. file_of s' p = Some c1 \<and> same_except (all_blocks w) c0 c1 \<and>
       (ok \<longrightarrow> sink_state p c0 w' W c1 s' \<and> 0 < rw_current_range_left w'))) s"
    (is "wp _ ?Q s")
proof -
  let ?r = "rs_ranges (rw_tgt w) ! rw_next_range w"
  let ?f = "range_first ?r" and ?m = "range_second ?r - range_first ?r"
  let ?w = "w\<lparr>rw_current_range_left := ?m * BLOCKSIZE, rw_next_range := rw_next_range w + 1\<rparr>"
  note fr = sink_state_frame [OF st]
  have go: "wp (do {
          ok \<leftarrow> discard_blocks e (rw_fd w) (?f * BLOCKSIZE) (?m * BLOCKSIZE);
          if \<not> ok then ret (False, ?w)
          else do {
            ok \<leftarrow> check_lseek (rw_fd w) (?f * BLOCKSIZE);
            ret (ok, ?w) } }) ?Q s"
    if l: "rw_current_range_left w = 0" and n: "rw_next_range w < length (rs_ranges (rw_tgt w))"
  proof (rule wp_seq [OF wp_discard(2)])
    show d: "dev_at (rw_fd w) p c s" using st by (simp add: sink_state_def)
    have dev': "on_device (rs_ranges (rw_tgt w)) c" using dev fr by (simp add: on_device_def same_except_def)
    have r: "range_ok ?r" "range_second ?r * BLOCKSIZE \<le> length c" using dev' n by (simp_all add: on_device_def)
    note sizes = on_device_sizes(3) [OF dev' nth_mem [OF n]]
    fix ok and s1 :: "'z block_world_scheme"
    assume "\<exists>c'. dev_at (rw_fd w) p c' s1 \<and> (c' = c \<or> c' = discarded e (?f * BLOCKSIZE) (?m * BLOCKSIZE) c)"
    then obtain c1 where c1: "dev_at (rw_fd w) p c1 s1" "same_except (set (range_blocks ?r)) c c1"
      using same_except_discarded [OF r, of e] by auto
    have sub: "set (range_blocks ?r) \<subseteq> all_blocks w" using nth_mem [OF n] by auto
    have fr1: "same_except (all_blocks w) c0 c1" using fr c1(2) sub by (blast intro: same_except_trans)
    have pos: "0 < ?m * BLOCKSIZE" using r(1) by (simp add: range_ok_def)
    show "wp (if \<not> ok then ret (False, ?w) else do { ok \<leftarrow> check_lseek (rw_fd w) (?f * BLOCKSIZE); ret (ok, ?w) }) ?Q s1"
    proof (rule wp_ifI)
      show "wp (ret (False, ?w)) ?Q s1" using dev_file [OF c1(1)] fr1 by simp
      show "wp (do { ok \<leftarrow> check_lseek (rw_fd w) (?f * BLOCKSIZE); ret (ok, ?w) }) ?Q s1"
      proof (rule wp_seq [OF wp_check_lseek [OF c1(1) sizes]])
        fix ok and s2 :: "'z block_world_scheme"
        assume a: "dev_at (rw_fd w) p c1 s2 \<and> (ok \<longrightarrow> at (rw_fd w) p (?f * BLOCKSIZE) c1 s2 \<and> \<not> w_halted s2)"
        then have "sink_state p c0 ?w W c1 s2" if ok
          using that by (intro sink_state_next [OF st dev dist l n refl refl c1(2)]) simp
        with a fr1 pos show "wp (ret (ok, ?w)) ?Q s2" by (auto simp: dev_at_def)
      qed
    qed
  qed
  show ?thesis
    unfolding SeekToOutputRange_def Let_def
  proof (rule wp_ifI, goal_cases)
    case 1
    then show ?case using st fr by auto
  next
    case 2
    show ?case
    proof (rule wp_ifI, goal_cases)
      case 1
      show ?case using fr by simp
    next
      case n: 2
      then have n: "rw_next_range w < length (rs_ranges (rw_tgt w))" by simp
      show ?case unfolding on_device_sizes(1,2) [OF dev nth_mem [OF n]] using go 2 n by simp
    qed
  qed
qed

section \<open>Writing to a sink\<close>

text \<open>
  After a call of the sink: blocks outside the target are as before, and when all the data has been
  accepted the state is that of a sink with the data appended.
\<close>

definition sink_post ::
  "string \<Rightarrow> byte list \<Rightarrow> RangeSinkWriter \<Rightarrow> byte list \<Rightarrow> nat \<Rightarrow> nat \<times> RangeSinkWriter \<Rightarrow> 'z world_scheme \<Rightarrow> bool" where
  "sink_post p c0 w W k res s \<longleftrightarrow>
     rw_fd (snd res) = rw_fd w \<and> rw_tgt (snd res) = rw_tgt w \<and> rw_bytes_written (snd res) = rw_bytes_written w \<and>
     (\<exists>c. file_of s p = Some c \<and> same_except (all_blocks w) c0 c \<and>
        (fst res = k \<longrightarrow> sink_state p c0 (snd res) W c s))"

lemma sink_post_early:
  "rw_fd w' = rw_fd w \<Longrightarrow> rw_tgt w' = rw_tgt w \<Longrightarrow> rw_bytes_written w' = rw_bytes_written w \<Longrightarrow>
     file_of s p = Some c \<Longrightarrow> same_except (all_blocks w) c0 c \<Longrightarrow> k' < k \<Longrightarrow> sink_post p c0 w W k (k', w') s"
  by (auto simp: sink_post_def)

lemma wp_sink_turn:
  fixes s :: "'z block_world_scheme" and m :: "('z, 'a) bw"
  assumes st: "sink_state p c0 w W c s" and left: "0 < rw_current_range_left w"
    and dev: "on_device (rs_ranges (rw_tgt w)) c0" and dist: "distinct (range_list_blocks (rs_ranges (rw_tgt w)))"
    and now: "now = min (length data) (rw_current_range_left w)"
    and early: "\<And>s' c'. file_of s' p = Some c' \<Longrightarrow> same_except (all_blocks w) c0 c' \<Longrightarrow> wp m' Q s'"
    and rest: "\<And>s' c'. sink_state p c0 (w\<lparr>rw_current_range_left := rw_current_range_left w - now\<rparr>) (W @ take now data) c' s' \<Longrightarrow>
      wp m Q s'"
  shows "wp (do { r \<leftarrow> write_all (rw_fd w) data 0 now; if r = -1 then m' else m }) Q s"
proof -
  let ?pos = "range_second (last (started w)) * BLOCKSIZE - rw_current_range_left w"
  have a: "at (rw_fd w) p ?pos c s" using st left by (simp add: sink_state_def)
  have len: "0 + now \<le> length data" using now by simp
  note after = sink_state_write [OF st dev dist _ left refl]
  show ?thesis
  proof (rule wp_seq [OF wp_write_all [OF a len]], rule wp_ifI)
    fix r and s1 :: "'z block_world_scheme"
    assume wr: "wrote_all (rw_fd w) p ?pos c (take now (drop 0 data)) r s1"
    then obtain i where i: "file_of s1 p = Some (overlay ?pos (take i (take now data)) c)"
      by (auto simp: wrote_all_def)
    let ?xs = "take i (take now data)"
    have le: "length ?xs \<le> rw_current_range_left w" using now by (simp add: min_le_iff_disj)
    have "at (rw_fd w) p (?pos + length ?xs) (overlay ?pos ?xs c) (set_fd (rw_fd w) p (?pos + length ?xs) s1)"
      using i by (simp add: at_def)
    from sink_state_frame [OF after [OF le this]] have "same_except (all_blocks w) c0 (overlay ?pos ?xs c)" by simp
    with i show "wp m' Q s1" by (rule early)
    assume "r \<noteq> -1"
    with wr now have "at (rw_fd w) p (?pos + length (take now data)) (overlay ?pos (take now data) c) s1"
      by (simp add: wrote_all_def)
    from after [OF _ this] now show "wp m Q s1" by (intro rest) simp
  qed
qed

lemma wp_Write_loop:
  fixes s :: "'z block_world_scheme"
  assumes "sink_state p c0 w W c s" "on_device (rs_ranges (rw_tgt w)) c0"
    and "distinct (range_list_blocks (rs_ranges (rw_tgt w)))"
  shows "wp (Write_loop n e w data k) (sink_post p c0 w (W @ data) (k + length data)) s"
  using assms
proof (induction n arbitrary: w W data k s c)
  case 0
  then show ?case using sink_state_frame [OF 0(1)] by (auto simp: CHECK_def sink_post_def)
next
  case (Suc n)
  show ?case
    unfolding Write_loop.simps
  proof (rule wp_ifI)
    assume "data = []"
    then show "wp (ret (k, w)) (sink_post p c0 w (W @ data) (k + length data)) s"
      using sink_state_frame [OF Suc.prems(1)] Suc.prems(1) by (auto simp: sink_post_def)
  next
    assume data: "data \<noteq> []"
    show "wp (SeekToOutputRange e w \<bind> (\<lambda>(ok, w). if \<not> ok then ret (k, w)
        else let write_now = min (length data) (rw_current_range_left w) in do {
            r \<leftarrow> write_all (rw_fd w) data 0 write_now;
            if r = -1 then ret (k, w)
            else Write_loop n e (w\<lparr>rw_current_range_left := rw_current_range_left w - write_now\<rparr>)
              (drop write_now data) (k + write_now) })) (sink_post p c0 w (W @ data) (k + length data)) s"
    proof (rule wp_seq [OF wp_SeekToOutputRange [OF Suc.prems]], unfold Let_def case_prod_beta, rule wp_ifI, goal_cases)
      case (1 res s1)
      then show ?case using data by (auto intro!: sink_post_early)
    next
      case (2 res s1)
      let ?now = "min (length data) (rw_current_range_left (snd res))"
      have w: "rw_fd (snd res) = rw_fd w" "rw_tgt (snd res) = rw_tgt w" "rw_bytes_written (snd res) = rw_bytes_written w"
        using 2 by simp_all
      obtain c1 where st: "sink_state p c0 (snd res) W c1 s1" "0 < rw_current_range_left (snd res)" using 2 by auto
      note tgt = Suc.prems(2,3) [folded w(2)]
      show ?case
      proof (rule wp_sink_turn [OF st tgt refl])
        fix s2 :: "'z block_world_scheme" and c'
        assume "file_of s2 p = Some c'" "same_except (all_blocks (snd res)) c0 c'"
        then show "wp (ret (k, snd res)) (sink_post p c0 w (W @ data) (k + length data)) s2"
          using data w by (auto intro!: sink_post_early)
      next
        fix s2 :: "'z block_world_scheme" and c'
        let ?w = "(snd res)\<lparr>rw_current_range_left := rw_current_range_left (snd res) - ?now\<rparr>"
        assume "sink_state p c0 ?w (W @ take ?now data) c' s2"
        from Suc.IH [OF this, of "drop ?now data" "k + ?now"] tgt
        have "wp (Write_loop n e ?w (drop ?now data) (k + ?now)) (sink_post p c0 ?w (W @ data) (k + length data)) s2"
          by simp
        then show "wp (Write_loop n e ?w (drop ?now data) (k + ?now)) (sink_post p c0 w (W @ data) (k + length data)) s2"
          by (rule wp_mono) (simp add: sink_post_def w)
      qed
    qed
  qed
qed

text \<open>The sink between two calls, with its byte count.\<close>

definition sink_at ::
  "string \<Rightarrow> byte list \<Rightarrow> RangeSinkWriter \<Rightarrow> byte list \<Rightarrow> byte list \<Rightarrow> 'z world_scheme \<Rightarrow> bool" where
  "sink_at p c0 w W c s \<longleftrightarrow> sink_state p c0 w W c s \<and> rw_bytes_written w = length W"

lemma sink_state_bytes [simp]: "sink_state p c0 (w\<lparr>rw_bytes_written := n\<rparr>) W c s = sink_state p c0 w W c s"
  by (simp add: sink_state_def)

lemma sink_state_length:
  assumes "sink_state p c0 w W c s" "on_device (rs_ranges (rw_tgt w)) c0"
    and "distinct (range_list_blocks (rs_ranges (rw_tgt w)))"
  shows "length W \<le> length (range_list_blocks (rs_ranges (rw_tgt w))) * BLOCKSIZE" "length W \<le> SIZE_MAX"
    and "Finished w \<longleftrightarrow> length W = length (range_list_blocks (rs_ranges (rw_tgt w))) * BLOCKSIZE"
proof -
  let ?all = "range_list_blocks (rs_ranges (rw_tgt w))" and ?rest = "drop (rw_next_range w) (rs_ranges (rw_tgt w))"
  have split: "length ?all = length (range_list_blocks (started w)) + length (range_list_blocks ?rest)"
    by (metis append_take_drop_id concat_append length_append map_append)
  have W: "length (range_list_blocks (started w)) * BLOCKSIZE = length W + rw_current_range_left w"
    "rw_next_range w \<le> length (rs_ranges (rw_tgt w))"
    using assms(1) by (simp_all add: sink_state_def)
  then show le: "length W \<le> length ?all * BLOCKSIZE" using split by (simp add: add_mult_distrib)
  then show "length W \<le> SIZE_MAX"
    using distinct_on_device [OF assms(2,3)] assms(2) by (simp add: on_device_def SIZE_MAX_def)
  have "range_blocks r \<noteq> []" if "r \<in> set ?rest" for r
    using assms(2) in_set_dropD [OF that] by (auto simp: on_device_def range_ok_def range_blocks_def)
  then have "range_list_blocks ?rest = [] \<longleftrightarrow> ?rest = []" by (cases ?rest) auto
  moreover have "?rest = [] \<longleftrightarrow> rw_next_range w = length (rs_ranges (rw_tgt w))" using W(2) by auto
  ultimately have "rw_next_range w = length (rs_ranges (rw_tgt w)) \<longleftrightarrow> length (range_list_blocks ?rest) * BLOCKSIZE = 0"
    by (simp only: mult_eq_0_iff BLOCKSIZE_pos(2) length_0_conv) simp
  then show "Finished w \<longleftrightarrow> length W = length ?all * BLOCKSIZE"
    using W(1) split by (auto simp: Finished_def add_mult_distrib)
qed

lemma wp_Write:
  fixes s :: "'z block_world_scheme"
  assumes st: "sink_at p c0 w W c s" and dev: "on_device (rs_ranges (rw_tgt w)) c0"
    and dist: "distinct (range_list_blocks (rs_ranges (rw_tgt w)))"
  shows "wp (Write e w data) (\<lambda>(k, w') s'. rw_fd w' = rw_fd w \<and> rw_tgt w' = rw_tgt w \<and>
    (\<exists>c. file_of s' p = Some c \<and> same_except (all_blocks w) c0 c \<and>
       (k = length data \<longrightarrow> sink_at p c0 w' (W @ data) c s'))) s"
proof -
  have s0: "sink_state p c0 w W c s" "rw_bytes_written w = length W" using st by (simp_all add: sink_at_def)
  show ?thesis
    unfolding Write_def
  proof (rule wp_ifI)
    show "wp (ret (0, w)) (\<lambda>(k, w') s'. rw_fd w' = rw_fd w \<and> rw_tgt w' = rw_tgt w \<and>
      (\<exists>c. file_of s' p = Some c \<and> same_except (all_blocks w) c0 c \<and> (k = length data \<longrightarrow> sink_at p c0 w' (W @ data) c s'))) s"
      using sink_state_frame [OF s0(1)] st by (auto simp: sink_at_def)
  next
    show "wp (do { (n, w) \<leftarrow> Write_loop (length data + length (rs_ranges (rw_tgt w))) e w data 0;
        ret (n, w\<lparr>rw_bytes_written := size_add (rw_bytes_written w) n\<rparr>) })
      (\<lambda>(k, w') s'. rw_fd w' = rw_fd w \<and> rw_tgt w' = rw_tgt w \<and>
      (\<exists>c. file_of s' p = Some c \<and> same_except (all_blocks w) c0 c \<and> (k = length data \<longrightarrow> sink_at p c0 w' (W @ data) c s'))) s"
    proof (rule wp_seq [OF wp_Write_loop [OF s0(1) dev dist]], goal_cases)
      case (1 res s')
      then obtain c1 where c1: "file_of s' p = Some c1" "same_except (all_blocks w) c0 c1"
        "fst res = length data \<longrightarrow> sink_state p c0 (snd res) (W @ data) c1 s'"
        and w: "rw_fd (snd res) = rw_fd w" "rw_tgt (snd res) = rw_tgt w" "rw_bytes_written (snd res) = length W"
        using s0(2) by (auto simp: sink_post_def)
      have "size_add (length W) (length data) = length (W @ data)" if "fst res = length data"
        using sink_state_length(2) [of p c0 "snd res" "W @ data" c1 s'] c1(3) that dev dist
        by (simp add: w size_add_small)
      with c1 w show ?case by (auto simp: case_prod_beta sink_at_def)
    qed
  qed
qed

section \<open>A sink fed piece by piece\<close>

text \<open>The pieces that a caller hands to the sink one after the other, until one is not accepted.\<close>

fun feed :: "'z block_env \<Rightarrow> RangeSinkWriter \<Rightarrow> byte list list \<Rightarrow> ('z, bool \<times> RangeSinkWriter) bw" where
  "feed e w [] = ret (True, w)"
| "feed e w (data # chunks) = do {
     (k, w) \<leftarrow> Write e w data;
     if k \<noteq> length data then ret (False, w) else feed e w chunks }"

lemma wp_feed:
  fixes s :: "'z block_world_scheme"
  assumes "sink_at p c0 w W c s" "on_device (rs_ranges (rw_tgt w)) c0"
    and "distinct (range_list_blocks (rs_ranges (rw_tgt w)))"
  shows "wp (feed e w chunks) (\<lambda>(ok, w') s'. rw_tgt w' = rw_tgt w \<and>
    (\<exists>c. file_of s' p = Some c \<and> same_except (all_blocks w) c0 c \<and>
       (ok \<longrightarrow> sink_at p c0 w' (W @ concat chunks) c s'))) s"
  using assms
proof (induction chunks arbitrary: w W c s)
  case Nil
  then show ?case using sink_state_frame [of p c0 w W c s] by (auto simp: sink_at_def)
next
  case (Cons data chunks)
  show ?case
    unfolding feed.simps
  proof (rule wp_seq [OF wp_Write [OF Cons.prems]], unfold case_prod_beta, rule wp_ifI, goal_cases)
    case (1 res s1)
    then show ?case by auto
  next
    case (2 res s1)
    then obtain c1 where w: "rw_tgt (snd res) = rw_tgt w" and st: "sink_at p c0 (snd res) (W @ data) c1 s1" by auto
    from Cons.IH [OF st] Cons.prems(2,3) show ?case by (simp add: w case_prod_beta)
  qed
qed

lemma sink_at_new:
  "dev_at fd p c s \<Longrightarrow> sink_at p c \<lparr>rw_fd = fd, rw_tgt = tgt, rw_next_range = 0, rw_current_range_left = 0, rw_bytes_written = 0\<rparr> [] c s"
  by (simp add: sink_at_def sink_state_def)

lemma wp_new_feed:
  fixes s :: "'z block_world_scheme"
  assumes "dev_at fd p c s" "on_device (rs_ranges tgt) c" "distinct (blocks_of tgt)"
  shows "wp (RangeSinkWriter_new fd tgt \<bind> (\<lambda>w. feed e w chunks)) (\<lambda>(ok, w') s'.
    \<exists>c'. file_of s' p = Some c' \<and> same_except (set (blocks_of tgt)) c c' \<and>
      (ok \<longrightarrow> take (length (concat chunks)) (device_blocks c' (blocks_of tgt)) = concat chunks \<and>
        (Finished w' \<longleftrightarrow> length (concat chunks) = length (blocks_of tgt) * BLOCKSIZE))) s"
proof -
  let ?w = "\<lparr>rw_fd = fd, rw_tgt = tgt, rw_next_range = 0, rw_current_range_left = 0, rw_bytes_written = 0\<rparr>"
  have all: "range_list_blocks (rs_ranges tgt) = blocks_of tgt" by (simp add: blocks_of_def)
  have feed: "wp (feed e ?w chunks) (\<lambda>(ok, w') s'. \<exists>c'. file_of s' p = Some c' \<and> same_except (set (blocks_of tgt)) c c' \<and>
      (ok \<longrightarrow> take (length (concat chunks)) (device_blocks c' (blocks_of tgt)) = concat chunks \<and>
        (Finished w' \<longleftrightarrow> length (concat chunks) = length (blocks_of tgt) * BLOCKSIZE))) s'"
    if "dev_at fd p c s'" for s' :: "'z block_world_scheme"
  proof (rule wp_mono [OF wp_feed [OF sink_at_new [OF that]]], goal_cases)
    case (3 res s1)
    then obtain c' where w: "rw_tgt (snd res) = tgt" and c': "file_of s1 p = Some c'" "same_except (set (blocks_of tgt)) c c'"
      and st: "fst res \<longrightarrow> sink_state p c (snd res) (concat chunks) c' s1"
      by (auto simp: sink_at_def all)
    have "take (length (concat chunks)) (device_blocks c' (blocks_of tgt)) = concat chunks" if "fst res"
    proof -
      have "blocks_of tgt = range_list_blocks (started (snd res)) @ range_list_blocks (drop (rw_next_range (snd res)) (rs_ranges tgt))"
        unfolding blocks_of_def w by (metis append_take_drop_id concat_append map_append)
      then have "device_blocks c' (blocks_of tgt) = device_blocks c' (range_list_blocks (started (snd res))) @
          device_blocks c' (range_list_blocks (drop (rw_next_range (snd res)) (rs_ranges tgt)))" by simp
      then show ?thesis using st that unfolding sink_state_def by (metis append_take_drop_id append_eq_conv_conj append.assoc)
    qed
    moreover have "Finished (snd res) \<longleftrightarrow> length (concat chunks) = length (blocks_of tgt) * BLOCKSIZE" if "fst res"
      using sink_state_length(3) [of p c "snd res" "concat chunks" c' s1] st that assms(2,3) by (simp add: w all)
    ultimately show ?case using c' by (auto simp: case_prod_beta)
  qed (use assms in \<open>simp_all add: all\<close>)
  show ?thesis
    unfolding RangeSinkWriter_new_def CHECK_def using feed [OF assms(1)] feed [of "s\<lparr>w_halted := True\<rparr>"] assms(1)
    by (auto simp: dev_at_def)
qed

section \<open>A sink without I/O errors\<close>

lemma quiet_SeekToOutputRange:
  fixes s :: "'z block_world_scheme"
  assumes "quiet s" "at (rw_fd w) p pos c s" "on_device (rs_ranges (rw_tgt w)) c"
    and "0 < rw_current_range_left w \<or> rw_next_range w < length (rs_ranges (rw_tgt w))"
  shows "wp (SeekToOutputRange e w) (\<lambda>(ok, w') s'. ok \<and> quiet s') s"
proof -
  have go: "wp (discard_blocks e (rw_fd w) a b \<bind> (\<lambda>ok. if \<not> ok then ret (False, w')
      else check_lseek (rw_fd w) f \<bind> (\<lambda>ok. ret (ok, w')))) (\<lambda>(ok, w') s'. ok \<and> quiet s') s"
    if "f < 2 ^ 63" for a b f w'
    using quiet_lseek that by (intro wp_seq [OF quiet_discard [OF assms(1,2)]]) (auto elim!: wp_mono [rotated])
  show ?thesis
  proof (cases "rw_current_range_left w = 0")
    case True
    with assms(4) have n: "rw_next_range w < length (rs_ranges (rw_tgt w))" by simp
    then have "\<not> length (rs_ranges (rw_tgt w)) \<le> rw_next_range w" "\<not> rw_current_range_left w \<noteq> 0"
      using True by simp_all
    note ifs = if_not_P [OF this(1)] if_not_P [OF this(2)]
    show ?thesis
      unfolding SeekToOutputRange_def Let_def ifs on_device_sizes(1,2) [OF assms(3) nth_mem [OF n]]
      by (rule go [OF on_device_sizes(3) [OF assms(3) nth_mem [OF n]]])
  qed (use assms(1) in \<open>simp add: SeekToOutputRange_def\<close>)
qed

lemma quiet_Write_loop:
  fixes s :: "'z block_world_scheme"
  assumes "quiet s" "sink_state p c0 w W c s" "at (rw_fd w) p pos c s" "0 \<le> rw_fd w"
    and "on_device (rs_ranges (rw_tgt w)) c0" "distinct (range_list_blocks (rs_ranges (rw_tgt w)))"
    and "length (W @ data) \<le> length (range_list_blocks (rs_ranges (rw_tgt w))) * BLOCKSIZE" "length data \<le> n"
  shows "wp (Write_loop n e w data k) (\<lambda>(k', w') s'. k' = k + length data \<and> quiet s' \<and> (\<exists>pos c. at (rw_fd w) p pos c s')) s"
  using assms
proof (induction n arbitrary: w W data k s c pos)
  case 0
  then show ?case by (auto simp: CHECK_def)
next
  case (Suc n)
  let ?Q = "\<lambda>(k', w') s'. k' = k + length data \<and> quiet s' \<and> (\<exists>pos c. at (rw_fd w) p pos c s')"
  show ?case
    unfolding Write_loop.simps
  proof (rule wp_ifI)
    assume "data = []"
    then show "wp (ret (k, w)) ?Q s" using Suc.prems(1,3) by auto
  next
    assume data: "data \<noteq> []"
    then have "\<not> Finished w" using sink_state_length(3) [OF Suc.prems(2,5,6)] Suc.prems(7) by auto
    then have more: "0 < rw_current_range_left w \<or> rw_next_range w < length (rs_ranges (rw_tgt w))"
      using Suc.prems(2) by (auto simp: Finished_def sink_state_def)
    have "on_device (rs_ranges (rw_tgt w)) c"
      using sink_state_frame [OF Suc.prems(2)] Suc.prems(5) by (simp add: on_device_def same_except_def)
    note seek = wp_conj [OF quiet_SeekToOutputRange [OF Suc.prems(1,3) this more] wp_SeekToOutputRange [OF Suc.prems(2,5,6)]]
    show "wp (SeekToOutputRange e w \<bind> (\<lambda>(ok, w). if \<not> ok then ret (k, w)
        else let write_now = min (length data) (rw_current_range_left w) in do {
            r \<leftarrow> write_all (rw_fd w) data 0 write_now;
            if r = -1 then ret (k, w)
            else Write_loop n e (w\<lparr>rw_current_range_left := rw_current_range_left w - write_now\<rparr>)
              (drop write_now data) (k + write_now) })) ?Q s"
    proof (rule wp_seq [OF seek], unfold Let_def case_prod_beta, rule wp_ifI, simp, goal_cases)
      case (1 res s1)
      let ?w = "snd res"
      let ?L = "rw_current_range_left ?w"
      let ?now = "min (length data) ?L" and ?pos = "range_second (last (started ?w)) * BLOCKSIZE - ?L"
      obtain c1 where w: "rw_fd ?w = rw_fd w" "rw_tgt ?w = rw_tgt w" and q: "quiet s1"
        and st: "sink_state p c0 ?w W c1 s1" "0 < ?L"
        using 1 by auto
      note tgt = Suc.prems(5,6) [folded w(2)]
      have a: "at (rw_fd ?w) p ?pos c1 s1" "started ?w \<noteq> []" using st by (simp_all add: sink_state_def)
      have now: "0 + ?now \<le> length data" by simp
      have "last (started ?w) \<in> set (rs_ranges (rw_tgt ?w))" using last_in_set [OF a(2)] by (rule in_set_takeD)
      then have "range_second (last (started ?w)) * BLOCKSIZE \<le> length c1" "?L \<le> range_second (last (started ?w)) * BLOCKSIZE"
        using tgt(1) sink_state_frame [OF st(1)] st
        by (auto simp: on_device_def same_except_def sink_state_def diff_mult_distrib)
      then have fit: "?pos + ?now \<le> length c1" by simp
      have fd: "0 \<le> rw_fd ?w" using Suc.prems(4) by (simp add: w)
      show ?case
      proof (rule wp_seq [OF wp_conj [OF quiet_write_all [OF q a(1) fd fit now] wp_write_all [OF a(1) now]]], rule wp_ifI, simp, goal_cases)
        case (1 r s2)
        let ?w' = "?w\<lparr>rw_current_range_left := ?L - ?now\<rparr>"
        have a2: "at (rw_fd ?w) p (?pos + length (take ?now data)) (overlay ?pos (take ?now data) c1) s2" and q2: "quiet s2"
          using 1 by (auto simp: wrote_all_def)
        have st2: "sink_state p c0 ?w' (W @ take ?now data) (overlay ?pos (take ?now data) c1) s2"
          using sink_state_write [OF st(1) tgt _ st(2) refl a2] by simp
        have "0 < ?now" using data st(2) by simp
        then have "length (drop ?now data) \<le> n" using Suc.prems(8) unfolding length_drop by linarith
        from Suc.IH [OF q2 st2 _ _ _ _ _ this, of "?pos + length (take ?now data)" "k + ?now"] a2 fd tgt Suc.prems(7)
        show ?case by (simp add: w case_prod_beta)
      qed
    qed
  qed
qed

lemma quiet_Write:
  fixes s :: "'z block_world_scheme"
  assumes "quiet s" "sink_at p c0 w W c s" "at (rw_fd w) p pos c s" "0 \<le> rw_fd w"
    and "on_device (rs_ranges (rw_tgt w)) c0" "distinct (range_list_blocks (rs_ranges (rw_tgt w)))"
    and "length (W @ data) \<le> length (range_list_blocks (rs_ranges (rw_tgt w))) * BLOCKSIZE"
  shows "wp (Write e w data) (\<lambda>(k, w') s'. k = length data \<and> quiet s' \<and> (\<exists>pos c. at (rw_fd w) p pos c s')) s"
proof -
  have st: "sink_state p c0 w W c s" using assms(2) by (simp add: sink_at_def)
  have "Finished w \<Longrightarrow> data = []" using sink_state_length(3) [OF st assms(5,6)] assms(7) by simp
  moreover have "wp (Write_loop (length data + length (rs_ranges (rw_tgt w))) e w data 0)
      (\<lambda>res s'. fst res = 0 + length data \<and> quiet s' \<and> (\<exists>pos c. at (rw_fd w) p pos c s')) s"
    by (rule wp_mono [OF quiet_Write_loop [OF assms(1) st assms(3-7)]]) auto
  ultimately show ?thesis
    unfolding Write_def using assms(1,3) by (auto simp: case_prod_beta)
qed

lemma quiet_feed:
  fixes s :: "'z block_world_scheme"
  assumes "quiet s" "sink_at p c0 w W c s" "at (rw_fd w) p pos c s" "0 \<le> rw_fd w"
    and "on_device (rs_ranges (rw_tgt w)) c0" "distinct (range_list_blocks (rs_ranges (rw_tgt w)))"
    and "length (W @ concat chunks) \<le> length (range_list_blocks (rs_ranges (rw_tgt w))) * BLOCKSIZE"
  shows "wp (feed e w chunks) (\<lambda>(ok, w') s'. ok) s"
  using assms
proof (induction chunks arbitrary: w W c s pos)
  case (Cons data chunks)
  have "length (W @ data) \<le> length (range_list_blocks (rs_ranges (rw_tgt w))) * BLOCKSIZE" using Cons.prems(7) by simp
  note wr = wp_conj [OF quiet_Write [OF Cons.prems(1-6) this] wp_Write [OF Cons.prems(2,5,6)]]
  show ?case
    unfolding feed.simps
  proof (rule wp_seq [OF wr], unfold case_prod_beta, rule wp_ifI, simp, goal_cases)
    case (1 res s1)
    then obtain c1 pos' c2 where w: "rw_fd (snd res) = rw_fd w" "rw_tgt (snd res) = rw_tgt w"
      and st: "quiet s1" "sink_at p c0 (snd res) (W @ data) c1 s1" "at (rw_fd (snd res)) p pos' c2 s1"
      by auto
    moreover have "c2 = c1" using st(2,3) by (auto simp: sink_at_def sink_state_def dev_at_def at_def)
    ultimately show ?case
      using Cons.IH [OF st(1,2), of pos'] Cons.prems(4-7) by (simp add: w case_prod_beta)
  qed
qed simp

section \<open>Properties\<close>

text \<open>
  C22.  Feeding data to a \<^verbatim>\<open>RangeSinkWriter\<close> in pieces of any size leaves the device exactly as
  \<^verbatim>\<open>WriteBlocks\<close> does with the whole data, and the sink reports that it is finished: the streaming
  writer of the patch and new commands is equivalent to the block writer.  Both calls are assumed
  to have accepted all data; the schedules of faults may differ.
\<close>

theorem range_sink_equals_WriteBlocks:
  assumes "run_state (RangeSinkWriter_new fd tgt \<bind> (\<lambda>w. feed e w chunks)) s1 = ((True, w), s1')"
    and "run_state (WriteBlocks e tgt (concat chunks) fd') s2 = (0, s2')"
    and "dev_at fd dev c s1" "dev_at fd' dev c s2" "on_device (rs_ranges tgt) c" "distinct (blocks_of tgt)"
    and "length (concat chunks) = length (blocks_of tgt) * BLOCKSIZE"
  shows "file_of s1' dev = file_of s2' dev \<and> Finished w"
proof -
  let ?bs = "blocks_of tgt"
  obtain c1 where c1: "file_of s1' dev = Some c1" "same_except (set ?bs) c c1"
    "take (length (concat chunks)) (device_blocks c1 ?bs) = concat chunks" "Finished w"
    using wp_runD [OF wp_new_feed [OF assms(3,5,6)] assms(1)] assms(7) by auto
  have "blocks_written fd' dev c ?bs (concat chunks) 0 0 s2'"
    using wp_runD [OF wp_WriteBlocks assms(2)] assms(4-7) by simp
  then obtain c2 where c2: "file_of s2' dev = Some c2" "same_except (set ?bs) c c2"
    "\<forall>i < length ?bs. block (concat chunks) i = block c2 (?bs ! i)"
    by (auto simp: blocks_written_def)
  have on: "(b + 1) * BLOCKSIZE \<le> length c" if "b \<in> set ?bs" for b
    using blocks_on_device [OF assms(5)] that by (simp add: blocks_of_def)
  have "length (device_blocks c1 ?bs) = length ?bs * BLOCKSIZE"
    using on c1(2) by (intro length_device_blocks) (simp add: same_except_def)
  with c1(3) assms(7) device_blocks_eq [OF c2(3)] have eq: "device_blocks c1 ?bs = device_blocks c2 ?bs" by simp
  have "block c1 b = block c2 b" if "b \<in> set ?bs" for b
    using eq on c1(2) c2(2) that by (intro device_blocks_nth [OF eq]) (simp_all add: same_except_def)
  then have "block c1 b = block c2 b" for b using c1(2) c2(2) by (cases "b \<in> set ?bs") (auto simp: same_except_def)
  moreover have "length c1 = length c2" using c1(2) c2(2) by (simp add: same_except_def)
  ultimately have "c1 = c2" by (rule blocks_determine)
  with c1 c2 show ?thesis by simp
qed

theorem range_sink_equals_WriteBlocks_witness:
  "\<exists>w s1 s2. run_state (RangeSinkWriter_new 3 sample_locs \<bind>
       (\<lambda>w. feed sample_block_env w [take 100 sample_data, drop 100 sample_data])) sample_block_world = ((True, w), s1) \<and>
     run_state (WriteBlocks sample_block_env sample_locs sample_data 3) sample_block_world = (0, s2) \<and>
     file_of s1 ''/dev/b'' = file_of s2 ''/dev/b'' \<and> Finished w"
proof -
  let ?chunks = "[take 100 sample_data, drop 100 sample_data]" and ?s = "sample_block_world"
  let ?w = "\<lparr>rw_fd = 3, rw_tgt = sample_locs, rw_next_range = 0, rw_current_range_left = 0, rw_bytes_written = 0\<rparr>"
  let ?feed = "run_state (RangeSinkWriter_new 3 sample_locs \<bind> (\<lambda>w. feed sample_block_env w ?chunks)) ?s"
  have data: "concat ?chunks = sample_data" by simp
  have all: "range_list_blocks (rs_ranges sample_locs) = blocks_of sample_locs" by (simp only: blocks_of_def)
  have "wp (feed sample_block_env ?w ?chunks) (\<lambda>(ok, w') s'. ok) ?s"
    by (rule quiet_feed [OF sample_block_world_simps(3) sink_at_new [OF sample_block_world_simps(2)], where pos = 0])
      (simp_all add: all del: sample_locs_simps(2), simp_all)
  moreover have "rs_ranges sample_locs \<noteq> []" by (simp add: sample_locs_def)
  ultimately have "fst (fst ?feed) = True"
    by (simp add: RangeSinkWriter_new_def CHECK_def wp_run case_prod_beta)
  then obtain w s1 where s1: "?feed = ((True, w), s1)" by (metis prod.collapse)
  obtain s2 where s2: "run_state (WriteBlocks sample_block_env sample_locs (concat ?chunks) 3) ?s = (0, s2)"
    using sample_write_blocks data by auto
  have "length (concat ?chunks) = length (blocks_of sample_locs) * BLOCKSIZE" unfolding data by simp
  from range_sink_equals_WriteBlocks [OF s1 s2 sample_block_world_simps(2,2) sample_locs_simps(1) sample_device_ok(1) this]
  show ?thesis using s1 s2 unfolding data by blast
qed

end
