(* ===== verification/Block_Commands.thy ===== *)
theory Block_Commands
  imports Block_Img Range_Sink
begin

text \<open>
  What the commands of a transfer list and the two functions that run transfer lists do to the
  contents of files: the target of a \<^verbatim>\<open>move\<close>, the device under \<^verbatim>\<open>block_image_verify\<close>, and
  every other file under \<^verbatim>\<open>block_image_update\<close>.
\<close>

section \<open>The buffer\<close>

text \<open>Stashing and bookkeeping leave the buffer of the command alone.\<close>

definition buf_is :: "byte list \<Rightarrow> 'z block_world_scheme \<Rightarrow> bool" where
  "buf_is b s \<longleftrightarrow> p_buffer s = b"

lemma io_inv_buf: "io_inv (buf_is b)"
proof -
  have "p_buffer (core s) = p_buffer s" for s :: "'a block_world_scheme" by (simp add: core_def)
  then show ?thesis unfolding io_inv_def buf_is_def by metis
qed

lemma buf_files [simp]:
  "buf_is b (put_bytes p pos ys s) = buf_is b s" "buf_is b (set_file p c s) = buf_is b s"
  "buf_is b (del_file p s) = buf_is b s"
  by (simp_all add: buf_is_def put_bytes_def set_file_def del_file_def split: option.split)

lemma buf_closed: "write_closed (buf_is b) p" "open_ok (buf_is b) p flags"
  by (simp_all add: write_closed_def open_ok_def)

named_theorems bufs "functions that keep the buffer"

lemmas buf_iok = keep_sys_read [OF io_inv_buf] keep_sys_lseek [OF io_inv_buf] keep_sys_plain [OF io_inv_buf]
  keep_sys_stat [OF io_inv_buf] keep_sys_close [OF io_inv_buf] keep_ota_fsync [OF io_inv_buf]
  keep_CHECK_io [OF io_inv_buf] keep_halt [OF io_inv_buf] keep_fail [OF io_inv_buf]

declare buf_iok [bufs]

lemma keep_buf_assign:
  assumes "\<And>s. w_fds (f s) = w_fds s" "\<And>s. w_next_fd (f s) = w_next_fd s" "\<And>s. p_buffer (f s) = p_buffer s"
  shows "keep (io_keep fds (buf_is b)) (upd f)"
  by (rule keep_upd) (simp add: io_keep_def buf_is_def assms opened_def fd_of_def)

lemma keep_buf_simple [bufs]:
  "keep (io_keep fds (buf_is b)) (fail_with c)"
  "keep (io_keep fds (buf_is b)) (upd (\<lambda>s. s\<lparr>p_stashed := n s\<rparr>))"
  "keep (io_keep fds (buf_is b)) (upd (\<lambda>s. s\<lparr>p_freestash := f\<rparr>))"
  unfolding fail_with_def by (rule keep_buf_assign; simp)+

lemma keep_buf_rename [bufs]: "keep (io_keep fds (buf_is b)) (sys_rename p p')"
  unfolding sys_rename_def by (rule keep_sys_atomic [OF io_inv_buf]) (auto split: option.split)

lemma keep_buf_closing [bufs]: "keep (io_keep fds (buf_is b)) m \<Longrightarrow> keep (io_keep fds (buf_is b)) (closing fd m)"
  unfolding closing_def by (intro keeps bufs)

lemma keep_buf_write_all:
  assumes "(fd, p) \<in> set fds"
  shows "keep (io_keep fds (buf_is b)) (write_all fd buf off sz)"
proof -
  have "keep (io_keep fds (buf_is b)) (write_all_loop n fd data k)" for n k data
  proof (induction n arbitrary: k)
    case (Suc n)
    show ?case unfolding write_all_loop.simps
      by (intro keeps bufs keep_ota_write [OF io_inv_buf assms buf_closed(1)] Suc)
  qed (simp only: write_all_loop.simps, intro keeps bufs)
  then show ?thesis unfolding write_all_def by (intro keeps bufs)
qed

lemma keep_buf_CacheSizeCheck [bufs]: "keep (io_keep fds (buf_is b)) (CacheSizeCheck (be_env e) n)"
  unfolding CacheSizeCheck_def by (intro keep_bind keep_ret keep_MakeFreeSpaceOnCache io_inv_buf) simp

lemmas keep_buf_open = keep_open_if [OF io_inv_buf buf_closed(2)]

lemma keep_buf_WriteStash: "keep (io_keep fds (buf_is b)) (WriteStash e base sid n buf cs ue)"
proof -
  have wr: "keep (io_keep ((fd, p) # fds) (buf_is b)) (write_all fd buf off sz)" for fd p fds off sz
    by (rule keep_buf_write_all [OF list.set_intros(1)])
  show ?thesis
    unfolding WriteStash_def Let_def
    by (rule keep_buf_open keep_bind keep_if keep_ret keep_gets wr bufs)+
qed

lemma keep_buf_last_command:
  assumes "helpers_ok e"
  shows "keep (io_keep fds (buf_is b)) (UpdateLastCommandIndex e i line)"
proof -
  have wr: "keep (io_keep ((fd, p) # fds) (buf_is b)) (be_WriteStringToFd e str fd)" for fd p fds str
    using assms io_inv_buf buf_closed(1) unfolding helpers_ok_def by (metis list.set_intros(1))
  show ?thesis
    unfolding UpdateLastCommandIndex_def Let_def
    by (rule keep_buf_open keep_bind keep_if keep_ret keep_gets wr bufs)+
qed

lemma keep_buf_stash_overlap:
  "helpers_ok e \<Longrightarrow> keep (buf_is b) (stash_overlap e k h n)"
proof -
  assume h: "helpers_ok e"
  have "keep (io_keep [] (buf_is b)) (stash_overlap e k h n)"
    unfolding stash_overlap_def by (intro keeps bufs keep_buf_WriteStash keep_buf_last_command h)
  then show ?thesis by simp
qed

section \<open>The end of the process\<close>

text \<open>After the end of the process nothing writes to a file any more.\<close>

definition stopped :: "string \<Rightarrow> byte list option \<Rightarrow> 'z world_scheme \<Rightarrow> bool" where
  "stopped q x s \<longleftrightarrow> w_halted s \<and> file_of s q = x"

named_theorems halts "functions that do nothing after the end of the process"

lemma keep_stopped [halts]:
  "keep (stopped q x) (upd f)" "keep (stopped q x) next_event" "keep (stopped q x) halt" "keep (stopped q x) (CHECK b)"
  "keep (stopped q x) (fail er)"
  by (auto simp: keep_def wp_next_event CHECK_def stopped_def)

lemma keep_stopped_sys [halts]:
  "keep (stopped q x) (sys_atomic er g)" "keep (stopped q x) (sys_lseek fd off)" "keep (stopped q x) (sys_write fd xs)"
  unfolding sys_atomic_def sys_lseek_def sys_write_def
  by (intro keeps halts)+

lemma keep_stopped_ota [halts]: "keep (stopped q x) (ota_write fd xs)"
  unfolding ota_write_def inject_fault_def should_fault_inject_def get_hit_file_def should_hit_cache_def note_eio_def
  by (intro keeps halts)

lemma keep_stopped_blocks [halts]:
  "keep (stopped q x) (check_lseek fd off)" "keep (stopped q x) (discard_blocks e fd off sz)" "keep (stopped q x) (fail_with c)"
  unfolding check_lseek_def discard_blocks_def discard_ok_def blkdiscard_def fail_with_def by (intro keeps halts)+

lemma keep_stopped_write_all [halts]: "keep (stopped q x) (write_all fd buf off sz)"
proof -
  have "keep (stopped q x) (write_all_loop n fd data k)" for n k data
    by (induction n arbitrary: k) (auto intro!: keeps halts)
  then show ?thesis unfolding write_all_def by (intro keeps halts)
qed

lemma keep_stopped_WriteBlocks [halts]: "keep (stopped q x) (WriteBlocks e tgt buf fd)"
proof -
  have "keep (stopped q x) (WriteBlocks_loop e fd rs buf k)" for rs k
    by (induction rs arbitrary: k) (auto simp: Let_def intro!: keeps halts)
  then show ?thesis by (simp add: WriteBlocks_def)
qed

lemma keep_stopped_done [halts]: "keep (stopped q x) (command_done e k tgt)" "keep (stopped q x) (note_status st)"
  unfolding command_done_def note_status_def FreeStash_def DeleteFile_def sys_unlink_def by (intro keeps halts)+

section \<open>Loading source and target\<close>

text \<open>
  The setting of a command in update mode: its device, which is not a file of the cache, and no
  range sink in use.
\<close>

definition on_target :: "'z block_env \<Rightarrow> CommandParameters \<Rightarrow> string \<Rightarrow> byte list \<Rightarrow> 'z block_world_scheme \<Rightarrow> bool" where
  "on_target e k dev c s \<longleftrightarrow> off_cache e dev \<and> helpers_ok e \<and> canwrite k \<and> io_keep [(dev_fd k, dev)] (unch [] dev (Some c)) s"

text \<open>The hash \<open>h\<close> belongs to data of the size of \<open>n\<close> blocks only.\<close>

definition hash_of_size :: "'z block_env \<Rightarrow> string \<Rightarrow> nat \<Rightarrow> bool" where
  "hash_of_size e h n \<longleftrightarrow> (\<forall>d. print_sha1 (be_sha1 e d) = h \<longrightarrow> length d = n * BLOCKSIZE)"

lemma on_target_dev: "on_target e k dev c s \<Longrightarrow> dev_at (dev_fd k) dev c s"
  by (auto simp: on_target_def io_keep_def unch_def dev_at_def opened_def)

lemma on_target_keep:
  assumes "\<And>fds D x. off_cache e dev \<Longrightarrow> helpers_ok e \<Longrightarrow> keep (io_keep fds (unch D dev x)) m"
  shows "keep (on_target e k dev c) m"
  unfolding keep_def on_target_def
  using keep_wp [OF assms] by (auto elim!: wp_mono)

text \<open>A buffer that holds the data with hash \<open>h\<close> at its beginning.\<close>

definition buffer_has :: "'z block_env \<Rightarrow> string \<Rightarrow> nat \<Rightarrow> byte list \<Rightarrow> bool" where
  "buffer_has e h n buf \<longleftrightarrow> n * BLOCKSIZE \<le> length buf \<and> print_sha1 (be_sha1 e (take (n * BLOCKSIZE) buf)) = h"

lemma buffer_hasI:
  assumes "hash_of_size e h n" "print_sha1 (be_sha1 e (take j buf)) = h"
  shows "buffer_has e h n buf"
proof -
  have len: "min (length buf) j = n * BLOCKSIZE" using assms by (auto simp: hash_of_size_def)
  then have "take j buf = take (n * BLOCKSIZE) buf" by (metis min.commute take_all_iff take_take linorder_le_cases min_def)
  with assms(2) len show ?thesis by (auto simp: buffer_has_def)
qed

lemma wp_VerifyBlocks:
  "wp (VerifyBlocks e h buf n) (\<lambda>v s'. (s' = s \<or> s' = s\<lparr>w_halted := True\<rparr>) \<and>
     (v = 0 \<longrightarrow> print_sha1 (be_sha1 e (take (size_mul n BLOCKSIZE) buf)) = h)) s"
  by (auto simp: VerifyBlocks_def CHECK_def)

lemma on_target_halted: "on_target e k dev c s \<Longrightarrow> on_target e k dev c (s\<lparr>w_halted := True\<rparr>)"
  by (simp add: on_target_def io_keep_def unch_def)

text \<open>\<^verbatim>\<open>LoadStash\<close> with verification: success means that the buffer has the hash.\<close>

lemma wp_bind_any: "(\<And>a s'. wp (f a) Q s') \<Longrightarrow> wp (m \<bind> f) Q s"
  by simp

lemma wp_closing_value: "wp m (\<lambda>r _. R r) s \<Longrightarrow> wp (closing fd m) (\<lambda>r _. R r) s"
  by (simp add: closing_def)

lemma wp_LoadStash_verified:
  "wp (LoadStash e True base dev sid True buf pn)
    (\<lambda>res _. fst res = 0 \<longrightarrow> (\<exists>j. print_sha1 (be_sha1 e (take j (snd res))) = sid)) s"
  unfolding LoadStash_def Let_def prod.case bool.case if_True
  by (rule wp_bind_any, rule wp_bind_any, rule wp_optionI, rule wp_bind_any, rule wp_bind_any, simp, rule wp_ifI, simp,
      rule wp_bind_any, rule wp_ifI, simp, rule wp_closing_value, rule wp_bind_any, unfold case_prod_beta, rule wp_ifI, simp,
      rule wp_seq [OF wp_VerifyBlocks], rule wp_ifI, (rule wp_bind_any)+, simp, auto)

lemma on_target_steps:
  "keep (on_target e k dev c) (LoadSourceBlocks e k' tgt)" "keep (on_target e k dev c) (stash_overlap e k' h n)"
  "keep (on_target e k dev c) (LoadStash e cw base fd sid vfy buf pn)" "keep (on_target e k dev c) (set_buffer buf)"
  "keep (on_target e k dev c) (PrintHashForCorruptedSourceBlocks e toks buf)"
  "keep (on_target e k dev c) (upd (\<lambda>s. s\<lparr>p_isunresumable := b\<rparr>))"
  "keep (on_target e k dev c) (VerifyBlocks e h buf n)" "keep (on_target e k dev c) (parse_ranges e t)"
  "keep (on_target e k dev c) (note_status st)" "keep (on_target e k dev c) (command_done e k' tgt)"
  "keep (on_target e k dev c) (ReadBlocks tgt buf fd)"
  by (rule on_target_keep, rule keep_LoadSourceBlocks keep_stash_overlap keep_LoadStash unchs keep_command_done; assumption)+

lemma wp_stash_overlap:
  assumes "on_target e k dev c s"
  shows "wp (stash_overlap e k h n) (\<lambda>r s'. on_target e k dev c s' \<and> p_buffer s' = p_buffer s \<and> (r = 0 \<or> r = -1)) s"
proof -
  have "helpers_ok e" using assms by (simp add: on_target_def)
  note b = keep_wp [OF keep_buf_stash_overlap [OF this, of "p_buffer s" k h n], of s]
  have "wp (stash_overlap e k h n) (\<lambda>r _. r = 0 \<or> r = -1) s"
    unfolding stash_overlap_def by (intro wp_bind_any, unfold case_prod_beta, intro wp_ifI wp_bind_any) simp_all
  with b keep_wp [OF on_target_steps(2) assms, of k h n] show ?thesis
    by (auto simp: buf_is_def intro!: wp_conj elim: wp_mono)
qed

lemma wp_tail3: "R x \<Longrightarrow> wp (m \<bind> (\<lambda>a. f a \<bind> (\<lambda>b. g a b \<bind> (\<lambda>_. ret x)))) (\<lambda>r _. R r) s"
  by simp

lemma wp_load_src:
  assumes "on_target e k dev c s" "hash_of_size e h n"
  shows "wp (load_src e k h tgt) (\<lambda>res s'. on_target e k dev c s' \<and> (fst res = 0 \<or> fst res = -1) \<and>
    (fst res = 0 \<and> \<not> w_halted s' \<longrightarrow> buffer_has e h n (p_buffer s'))) s"
proof -
  have cw: "canwrite k" using assms(1) by (simp add: on_target_def)
  let ?Q = "\<lambda>(res :: int \<times> nat) s'. on_target e k dev c s' \<and> (fst res = 0 \<or> fst res = -1) \<and>
    (fst res = 0 \<and> \<not> w_halted s' \<longrightarrow> buffer_has e h n (p_buffer s'))"
  have found: "wp (do { r \<leftarrow> stash_overlap e k h m; ret (r, m) }) ?Q s'"
    if "on_target e k dev c s'" "buffer_has e h n (p_buffer s')" for m and s' :: "'a block_world_scheme"
    unfolding wp_bind by (rule wp_mono [OF wp_stash_overlap [OF that(1)]]) (use that(2) in auto)
  have stash: "wp (do { (r, buf) \<leftarrow> LoadStash e True (stashbase k) (dev_fd k) h True buf True; set_buffer buf; ret r })
      (\<lambda>r s'. on_target e k dev c s' \<and> (r = 0 \<and> \<not> w_halted s' \<longrightarrow> buffer_has e h n (p_buffer s'))) s'"
    if "on_target e k dev c s'" for buf and s' :: "'a block_world_scheme"
  proof (rule wp_seq [OF wp_conj [OF keep_wp [OF on_target_steps(3) that] wp_LoadStash_verified]], unfold case_prod_beta, goal_cases)
    case (1 res s1)
    then have "wp (set_buffer (snd res)) (\<lambda>_. on_target e k dev c) s1" by (intro keep_wp [OF on_target_steps(4)]) simp
    with 1 buffer_hasI [OF assms(2)] show ?case by (auto simp: set_buffer_def)
  qed
  have lost: "wp (do {
      buf \<leftarrow> gets p_buffer;
      PrintHashForCorruptedSourceBlocks e (tokens k) buf;
      upd (\<lambda>s. s\<lparr>p_isunresumable := True\<rparr>);
      ret (-1, m) }) ?Q s'" if "on_target e k dev c s'" for m and s' :: "'a block_world_scheme"
    by (rule wp_mono [OF wp_conj [OF wp_tail3 [of "\<lambda>res. fst res = -1"] keep_wp [where I = "on_target e k dev c", OF _ that]]])
      (auto intro!: keeps on_target_steps)
  show ?thesis
    unfolding load_src_def cw
  proof (rule wp_seq [OF keep_wp [OF on_target_steps(1) assms(1)]], unfold case_prod_beta, rule wp_ifI, simp,
      rule wp_seq [where Q = "\<lambda>buf s. buf = p_buffer s \<and> on_target e k dev c s"], simp, rule wp_seq [OF wp_VerifyBlocks], goal_cases)
    case (1 src s1 buf s2 v s3)
    then have s3: "on_target e k dev c s3" "p_buffer s3 = buf" by (auto intro: on_target_halted)
    have b: "v = 0 \<Longrightarrow> buffer_has e h n buf" using 1 buffer_hasI [OF assms(2)] by blast
    show ?case
    proof (rule wp_ifI, rule wp_ifI, goal_cases)
      case 1
      then show ?case using found [OF s3(1)] b s3(2) by simp
    next
      case 2
      then show ?case using s3 b by simp
    next
      case 3
      show ?case
        by (rule wp_seq [where Q = "\<lambda>r s'. on_target e k dev c s' \<and> (r = 0 \<and> \<not> w_halted s' \<longrightarrow> buffer_has e h n (p_buffer s'))"])
          (use stash [OF s3(1), of buf] lost s3 cw in \<open>auto simp: case_prod_beta\<close>)
    qed
  qed
qed


text \<open>
  A \<^verbatim>\<open>move\<close> line \<open>hash target ...\<close> before its first argument is read: the target ranges lie on the
  device, without repetition.
\<close>

definition move_line :: "'z block_env \<Rightarrow> CommandParameters \<Rightarrow> string \<Rightarrow> RangeSet \<Rightarrow> byte list \<Rightarrow> bool" where
  "move_line e k h tgt c \<longleftrightarrow> 1 < length (tokens k) \<and> tokens k ! 1 = h \<and>
     (2 < length (tokens k) \<longrightarrow> tgt = Parse (be_ab e) (tokens k ! 2)) \<and> parse_uint_ok (be_ab e) \<and>
     on_device (rs_ranges tgt) c \<and> distinct (blocks_of tgt) \<and> hash_of_size e h (length (blocks_of tgt))"

definition loaded :: "'z block_env \<Rightarrow> CommandParameters \<Rightarrow> string \<Rightarrow> byte list \<Rightarrow> string \<Rightarrow> RangeSet \<Rightarrow>
    int \<times> RangeSet \<times> nat \<Rightarrow> 'z block_world_scheme \<Rightarrow> bool" where
  "loaded e k dev c h tgt res s \<longleftrightarrow> on_target e k dev c s \<and>
     (fst res = -1 \<or> fst (snd res) = tgt \<and>
        (fst res = 1 \<and> print_sha1 (be_sha1 e (device_blocks c (blocks_of tgt))) = h \<or>
         fst res = 0 \<and> (\<not> w_halted s \<longrightarrow> buffer_has e h (length (blocks_of tgt)) (p_buffer s))))"

lemma wp_parse_ranges: "wp (parse_ranges e t) (\<lambda>tgt _. tgt = Parse (be_ab e) t) s"
  by (simp add: parse_ranges_def)

lemma wp_next_token:
  "p_cpos s = i \<Longrightarrow> i < length (tokens k) \<Longrightarrow> \<not> w_halted s \<Longrightarrow>
     wp (next_token k) Q s = Q (tokens k ! i) (s\<lparr>p_cpos := Suc i\<rparr>)"
  by (simp add: next_token_def CHECK_def)

lemma wp_LoadSrcTgt:
  assumes "on_target e k dev c s" "move_line e k h tgt c" "p_cpos s = 1" "\<not> w_halted s"
  shows "wp (LoadSrcTgtVersion3 e k True) (loaded e k dev c h tgt) s"
proof (cases "4 < length (tokens k)")
  case True
  let ?s = "s\<lparr>p_cpos := 3\<rparr>" and ?bs = "blocks_of tgt"
  have tgt: "tgt = Parse (be_ab e) (tokens k ! 2)" "tokens k ! 1 = h" using assms(2) True by (simp_all add: move_line_def)
  have od: "on_device (rs_ranges tgt) c" "distinct ?bs" "hash_of_size e h (length ?bs)"
    using assms(2) by (simp_all add: move_line_def)
  have "wf_rs tgt" using assms(2) unfolding tgt(1) move_line_def by (auto intro: Parse_wf)
  then have n: "rs_blocks tgt = length ?bs" by (simp add: length_blocks_of)
  have "length ?bs * BLOCKSIZE \<le> SIZE_MAX"
    using distinct_on_device [OF od(1)] od(1,2) by (simp add: on_device_def blocks_of_def SIZE_MAX_def)
  then have sz: "size_mul (rs_blocks tgt) BLOCKSIZE = length ?bs * BLOCKSIZE" unfolding n by (rule size_mul_small)
  have t: "on_target e k dev c ?s" using assms(1) by (simp add: on_target_def io_keep_def unch_def opened_def fd_of_def file_of_def)
  have main: "wp (do {
      tgt \<leftarrow> parse_ranges e (tokens k ! 2);
      (r, tgtbuffer) \<leftarrow> ReadBlocks tgt (replicate (size_mul (rs_blocks tgt) BLOCKSIZE) 0) (dev_fd k);
      if r = -1 then ret (-1, tgt, 0)
      else do {
        v \<leftarrow> VerifyBlocks e h tgtbuffer (rs_blocks tgt);
        if v = 0 then ret (1, tgt, 0)
        else do { (r, src_blocks) \<leftarrow> load_src e k h tgt; ret (r, tgt, src_blocks) } } }) (loaded e k dev c h tgt) ?s"
  proof (rule wp_seq [OF wp_conj [OF keep_wp [OF on_target_steps(8) t] wp_parse_ranges]], goal_cases)
    case (1 t0 s1)
    then have s1: "on_target e k dev c s1" "t0 = tgt" using tgt by simp_all
    have buf: "length ?bs * BLOCKSIZE \<le> length (replicate (length ?bs * BLOCKSIZE) (0 :: byte))" by simp
    note rd = wp_conj [OF keep_wp [OF on_target_steps(11) s1(1)] wp_ReadBlocks_device [OF on_target_dev [OF s1(1)] od(1,2) buf]]
    show ?case unfolding s1(2) sz
    proof (rule wp_seq [OF rd], unfold case_prod_beta, rule wp_ifI, goal_cases)
      case (2 res s2)
      then have s2: "on_target e k dev c s2" "take (length ?bs * BLOCKSIZE) (snd res) = device_blocks c ?bs" by simp_all
      note vf = wp_conj [OF keep_wp [OF on_target_steps(7) s2(1)] wp_VerifyBlocks]
      show ?case
      proof (rule wp_seq [OF vf], unfold sz, rule wp_ifI, goal_cases)
        case (1 v s3)
        then show ?case using s2(2) 2 by (simp add: loaded_def)
      next
        case (2 v s3)
        then show ?case
          by (intro wp_seq [OF wp_load_src [OF _ od(3)]]) (auto simp: loaded_def)
      qed
    qed (simp add: loaded_def)
  qed
  show ?thesis
    using main True assms(3,4) tgt(2)
    unfolding LoadSrcTgtVersion3_def tokens_left_def
    by (simp add: wp_next_token numeral_2_eq_2 numeral_3_eq_3 case_prod_beta if_bool_eq_conj)
next
  case False
  have "on_target e k dev c (s\<lparr>p_cpos := n\<rparr>)" for n
    using assms(1) by (simp add: on_target_def io_keep_def unch_def opened_def fd_of_def file_of_def)
  then show ?thesis
    using False assms unfolding LoadSrcTgtVersion3_def tokens_left_def
    by (simp add: wp_next_token loaded_def move_line_def)
qed


lemma keep_file_done:
  assumes "off_cache e q"
  shows "keep (\<lambda>s. file_of s q = x) (command_done e k tgt)"
proof -
  have assign: "keep (\<lambda>s. file_of s q = x) (upd f)" if "\<And>s. w_files (f s) = w_files s" for f :: "'a block_world_scheme \<Rightarrow> _"
    by (rule keep_upd) (simp add: file_of_def that)
  have "keep (\<lambda>s :: 'a block_world_scheme. file_of s q = x) (sys_unlink p)" if "p \<noteq> q" for p
    using keep_sys_unlink [OF io_inv_file [of q x], where fds = "[]" and p = p] that by simp
  then have "keep (\<lambda>s. file_of s q = x) (FreeStash e base sid)" for base sid
    unfolding FreeStash_def DeleteFile_def using off_cacheD(2) [OF assms] by (auto intro!: keeps)
  then show ?thesis unfolding command_done_def by (auto intro!: keeps assign)
qed

lemma wp_PerformCommandMove:
  assumes "on_target e k dev c s" "move_line e k h tgt c" "p_cpos s = 1" "\<not> w_halted s"
  shows "wp (PerformCommandMove e k) (\<lambda>r s'. \<exists>c'. file_of s' dev = Some c' \<and> same_except (set (blocks_of tgt)) c c' \<and>
    (r = 0 \<and> \<not> w_halted s' \<longrightarrow> print_sha1 (be_sha1 e (device_blocks c' (blocks_of tgt))) = h)) s"
proof -
  let ?hashed = "\<lambda>c'. print_sha1 (be_sha1 e (device_blocks c' (blocks_of tgt))) = h"
  let ?R = "\<lambda>s'. \<exists>c'. file_of s' dev = Some c' \<and> same_except (set (blocks_of tgt)) c c' \<and> (\<not> w_halted s' \<longrightarrow> ?hashed c')"
  have cw: "canwrite k" "off_cache e dev" using assms(1) by (simp_all add: on_target_def)
  have od: "on_device (rs_ranges tgt) c" "distinct (blocks_of tgt)" using assms(2) by (simp_all add: move_line_def)
  have fin: "wp (command_done e k tgt) (\<lambda>_. ?R) s'" if R: "?R s'" for s' :: "'a block_world_scheme"
  proof -
    obtain c' where c': "file_of s' dev = Some c'" "same_except (set (blocks_of tgt)) c c'" "\<not> w_halted s' \<longrightarrow> ?hashed c'"
      using R by blast
    show ?thesis
    proof (cases "w_halted s'")
      case True
      then have "stopped dev (Some c') s'" using c'(1) by (simp add: stopped_def)
      from keep_wp [OF keep_stopped_done(1) this] show ?thesis by (rule wp_mono) (use c'(2) in \<open>auto simp: stopped_def\<close>)
    next
      case False
      with keep_wp [OF keep_file_done [OF cw(2)] c'(1), of k tgt] c'(2,3) show ?thesis by (auto elim!: wp_mono)
    qed
  qed
  have wr: "wp (WriteBlocks e tgt (p_buffer s') (dev_fd k))
      (\<lambda>r s''. \<exists>c'. file_of s'' dev = Some c' \<and> same_except (set (blocks_of tgt)) c c' \<and> (r \<noteq> -1 \<and> \<not> w_halted s'' \<longrightarrow> ?hashed c')) s'"
    if "on_target e k dev c s'" "\<not> w_halted s' \<longrightarrow> buffer_has e h (length (blocks_of tgt)) (p_buffer s')" for s' :: "'a block_world_scheme"
  proof (cases "w_halted s'")
    case True
    then have "stopped dev (Some c) s'" using on_target_dev [OF that(1)] by (simp add: stopped_def dev_at_def)
    from keep_wp [OF keep_stopped_WriteBlocks this] show ?thesis by (rule wp_mono) (auto simp: stopped_def)
  next
    case False
    then have "length (blocks_of tgt) * BLOCKSIZE \<le> length (p_buffer s')"
      "print_sha1 (be_sha1 e (take (length (blocks_of tgt) * BLOCKSIZE) (p_buffer s'))) = h"
      using that(2) by (simp_all add: buffer_has_def)
    note b = this
    have "?hashed c'" if "\<forall>i < length (blocks_of tgt). block c' (blocks_of tgt ! i) = block (p_buffer s') i" for c'
      using device_blocks_eq [of "blocks_of tgt" "p_buffer s'" c'] that b(2) by simp
    with wp_WriteBlocks [OF on_target_dev [OF that(1)] od b(1), of e] show ?thesis
      by (auto simp: blocks_written_def elim!: wp_mono)
  qed
  show ?thesis
    unfolding PerformCommandMove_def
  proof (rule wp_seq [OF wp_LoadSrcTgt [OF assms]], unfold case_prod_beta, rule wp_ifI, goal_cases)
    case (2 res s1)
    then have s1: "on_target e k dev c s1" "fst (snd res) = tgt" and
      st: "fst res = 1 \<and> ?hashed c \<or> fst res = 0 \<and> (\<not> w_halted s1 \<longrightarrow> buffer_has e h (length (blocks_of tgt)) (p_buffer s1))"
      by (auto simp: loaded_def)
    show ?case
    proof (cases "fst res = 1")
      case True
      have R: "?R s'" if "on_target e k dev c s'" for s'
        using on_target_dev [OF that] st True by (auto simp: dev_at_def)
      show ?thesis unfolding s1(2) True
        by (rule wp_seq [OF keep_wp [OF on_target_steps(9) s1(1)]]) (auto intro!: wp_mono [OF fin] R)
    next
      case False
      let ?s = "if w_halted s1 then s1 else s1\<lparr>p_foundwrites := True\<rparr>"
      have s2: "on_target e k dev c ?s" "\<not> w_halted ?s \<longrightarrow> buffer_has e h (length (blocks_of tgt)) (p_buffer ?s)"
        using s1(1) st False by (auto simp: on_target_def io_keep_def unch_def opened_def fd_of_def file_of_def)
      have st0: "fst res = 0" using st False by simp
      have "wp (do {
          r \<leftarrow> WriteBlocks e tgt (p_buffer ?s) (dev_fd k);
          if r = -1 then ret (-1) else command_done e k tgt }) (\<lambda>r s'. \<exists>c'. file_of s' dev = Some c' \<and>
            same_except (set (blocks_of tgt)) c c' \<and> (r = 0 \<and> \<not> w_halted s' \<longrightarrow> ?hashed c')) ?s"
        by (rule wp_seq [OF wr [OF s2]], rule wp_ifI) (auto intro!: wp_mono [OF fin])
      then show ?thesis unfolding s1(2) st0 note_status_def by (simp add: cw)
    qed
  qed (auto simp: loaded_def dest!: on_target_dev dev_file)
qed

section \<open>Properties\<close>

text \<open>
  C15.  The \<^verbatim>\<open>move\<close> command, in update mode, never changes a block outside its target ranges nor
  the size of the device, whatever goes wrong and wherever the run ends; when it reports success
  the target blocks have the hash given on the command line, whether they had it already, were
  copied from the source ranges, or came from a stash.  Assumptions: the target ranges lie on the
  device without repetition, the stash and the last-command file are not on the device, and the
  hash belongs to data of the size of the target only.
\<close>

theorem PerformCommandMove_target:
  assumes "run_state (PerformCommandMove e k) s = (r, s')"
    and "on_target e k dev c s" "move_line e k h tgt c" "p_cpos s = 1" "\<not> w_halted s"
  shows "\<exists>c'. file_of s' dev = Some c' \<and> length c' = length c \<and>
    (\<forall>b. b \<notin> set (blocks_of tgt) \<longrightarrow> block c' b = block c b) \<and>
    (r = 0 \<and> \<not> w_halted s' \<longrightarrow> print_sha1 (be_sha1 e (device_blocks c' (blocks_of tgt))) = h)"
  using wp_runD [OF wp_PerformCommandMove [OF assms(2-5)] assms(1)] unfolding same_except_def by blast



section \<open>A sample update\<close>

text \<open>The file helpers of the sample environment do what the code relies on.\<close>

lemma sample_helpers: "be_ReadFdToString e = sample_ReadFdToString \<Longrightarrow> be_WriteStringToFd e = sample_WriteStringToFd \<Longrightarrow> helpers_ok e"
  unfolding helpers_ok_def
  by (auto simp: sample_ReadFdToString_def sample_WriteStringToFd_def intro!: keep_bind keep_ret keep_sys_read keep_sys_write)

text \<open>Paths below the cache stay there when the kernel reads them.\<close>

lemma squeeze_cache: "squeeze_slashes (''/cache/'' @ p) = ''/cache'' @ squeeze_slashes (CHR ''/'' # p)"
  by (cases p) simp_all

lemma squeeze_slash: "\<exists>q. squeeze_slashes (CHR ''/'' # p) = CHR ''/'' # q"
  by (induction p) auto

lemma norm_path_cache: "\<exists>q. norm_path (''/cache/'' @ p) = ''/cache'' @ q"
proof -
  obtain q where "squeeze_slashes (''/cache/'' @ p) = ''/cache'' @ CHR ''/'' # q"
    unfolding squeeze_cache using squeeze_slash by metis
  then show ?thesis by (auto simp: norm_path_def Let_def)
qed

lemma sample_off_cache:
  assumes "be_cache e = default_cache_location"
  shows "off_cache e ''/dev/b''" "off_cache e ''/dev/c''"
proof -
  have "norm_path (''/cache/recovery/'' @ p) \<noteq> ''/dev/b'' \<and> norm_path (''/cache/recovery/'' @ p) \<noteq> ''/dev/c''" for p
    using norm_path_cache [of "''recovery/'' @ p"] by auto
  then show "off_cache e ''/dev/b''" "off_cache e ''/dev/c''"
    using assms by (auto simp: off_cache_def GetStashFileName_def default_cache_location_def starts_with_def)
qed

text \<open>
  A \<^verbatim>\<open>move\<close> of the first two blocks of the sample device onto the last two; the hash function tells
  these two blocks from all other data.
\<close>

definition sample_move_sha1 :: "byte list \<Rightarrow> byte list" where
  "sample_move_sha1 d = replicate 20 (if d = take (2 * BLOCKSIZE) sample_dev then 1 else 0)"

definition sample_move_env :: "unit block_env" where
  "sample_move_env = sample_block_env\<lparr>be_env := (be_env sample_block_env)\<lparr>e_sha1 := sample_move_sha1\<rparr>\<rparr>"

definition sample_move :: CommandParameters where
  "sample_move = \<lparr>tokens = [''move'', print_sha1 (replicate 20 1), ToString sample_locs, ''2'', ''2,0,2''],
     cmdindex = 0, cmdname = ''move'', cmdline = ''move'', stashbase = ''s'', canwrite = True, createdstash = 0,
     dev_fd = 3, brotli_compressed = False, patch_start = []\<rparr>"

definition sample_move_world :: block_world where
  "sample_move_world = sample_block_world\<lparr>p_cpos := 1\<rparr>"

lemma sample_move_sha1_eq:
  "print_sha1 (sample_move_sha1 d) = print_sha1 (replicate 20 1) \<longleftrightarrow> d = take (2 * BLOCKSIZE) sample_dev"
proof -
  have "print_sha1 (replicate 20 1) \<noteq> print_sha1 (replicate 20 0)" by code_simp
  then show ?thesis by (auto simp: sample_move_sha1_def)
qed

lemma sample_move_env_simps [simp]: "be_sha1 sample_move_env = sample_move_sha1" "be_ab sample_move_env = sample_base"
  by (simp_all add: sample_move_env_def sample_block_env_def)

lemma sample_move_hash: "hash_of_size sample_move_env (print_sha1 (replicate 20 1)) 2"
  by (auto simp: hash_of_size_def sample_move_sha1_eq) (simp add: sample_dev_def)

lemma sample_move_line: "move_line sample_move_env sample_move (print_sha1 (replicate 20 1)) sample_locs sample_dev"
proof -
  have "Parse sample_base (ToString sample_locs) = sample_locs"
    by (rule Parse_ToString [OF sample_split_ok sample_parse_uint_ok])
      (simp_all add: SIZE_MAX_def, simp_all add: sample_locs_def INT_MAX_def)
  then show ?thesis
    using sample_move_hash sample_parse_uint_ok
    by (simp add: move_line_def sample_move_def numeral_2_eq_2)
qed

lemma sample_on_target: "on_target sample_move_env sample_move ''/dev/b'' sample_dev sample_move_world"
proof -
  have "nti_writer sample_move_world = None" "diff_writer sample_move_world = None"
    by (simp_all add: sample_move_world_def sample_block_world_def patch_world.extend_def)
  moreover have "at 3 ''/dev/b'' 0 sample_dev sample_move_world"
    using sample_block_world_simps(1) by (simp add: sample_move_world_def at_def fd_of_def file_of_def)
  moreover have "3 < w_next_fd sample_move_world"
    by (simp add: sample_move_world_def sample_block_world_def patch_world.extend_def)
  moreover have "helpers_ok sample_move_env" "off_cache sample_move_env ''/dev/b''"
    by (auto simp: sample_move_env_def sample_block_env_def intro!: sample_helpers sample_off_cache)
  ultimately show ?thesis
    by (simp add: on_target_def sample_move_def io_keep_def unch_def at_def opened_def)
qed

theorem PerformCommandMove_target_witness:
  "\<exists>r s' c'. run_state (PerformCommandMove sample_move_env sample_move) sample_move_world = (r, s') \<and>
     file_of s' ''/dev/b'' = Some c' \<and> block c' 0 = block sample_dev 0 \<and>
     (r = 0 \<and> \<not> w_halted s' \<longrightarrow> device_blocks c' [1, 2] = take (2 * BLOCKSIZE) sample_dev)"
proof -
  obtain r s' where r: "run_state (PerformCommandMove sample_move_env sample_move) sample_move_world = (r, s')"
    by fastforce
  have "p_cpos sample_move_world = 1" "\<not> w_halted sample_move_world"
    using sample_block_world_simps(3) by (simp_all add: sample_move_world_def quiet_def)
  from PerformCommandMove_target [OF r sample_on_target sample_move_line this]
  show ?thesis using r by (auto simp: sample_move_sha1_eq)
qed








end
