(* ===== verification/Fuse_Sideload.thy ===== *)
theory Fuse_Sideload
  imports Ota_Io
begin

text \<open>
  The file system through which recovery reads a package from an untrusted host
  (\<^verbatim>\<open>fuse_sideload.cpp\<close>).  The kernel's requests come in one at a time; a block of the package is
  fetched from the provider, compared with the digest seen first for it, and kept in a bounded
  cache.

  Numbers are naturals with the wrap-around of the C types written out by \<open>u32\<close> and \<open>size_sub\<close>.
  Parameters are SHA-256, the provider's \<^verbatim>\<open>read_block\<close> with a state of its own, and the constants of
  the kernel's header \<^verbatim>\<open>linux/fuse.h\<close>.  An answer is what is written to \<^verbatim>\<open>/dev/fuse\<close>; a failing write
  is only printed.  \<open>None\<close> stands for a run without result: an access outside a buffer or a loop
  that does not end.
\<close>

section \<open>State\<close>

definition u32 :: "nat \<Rightarrow> nat" where
  "u32 n = n mod 2 ^ 32"

text \<open>The conversion of \<^verbatim>\<open>uint32_t\<close> to \<^verbatim>\<open>int\<close>.\<close>

definition s32 :: "nat \<Rightarrow> int" where
  "s32 n = (if n < 2 ^ 31 then int n else int n - 2 ^ 32)"

text \<open>\<^verbatim>\<open>curr_block = -1\<close>\<close>

definition NO_BLOCK :: nat where
  "NO_BLOCK = 2 ^ 32 - 1"

record fuse_data =
  file_size :: nat
  block_size :: nat
  file_blocks :: nat
  fuse_uid :: nat
  fuse_gid :: nat
  curr_block :: nat
  block_data :: "byte list"
  extra_block :: "byte list"
  hashes :: "byte list list"
  block_cache_max_size :: nat
  block_cache_size :: nat
  block_cache :: "byte list option list option"

text \<open>
  \<^verbatim>\<open>vtab.read_block\<close>: the result, the bytes stored at the beginning of the buffer (also by a call
  that fails half-way), and the provider's new state.
\<close>

type_synonym 'p read_block = "'p \<Rightarrow> nat \<Rightarrow> nat \<Rightarrow> int \<times> byte list \<times> 'p"

section \<open>The block cache\<close>

definition block_cache_fetch :: "fuse_data \<Rightarrow> nat \<Rightarrow> int \<times> fuse_data" where
  "block_cache_fetch fd block =
     (case block_cache fd of
        None \<Rightarrow> (-1, fd)
      | Some cache \<Rightarrow>
          (case cache ! block of
             None \<Rightarrow> (-1, fd)
           | Some d \<Rightarrow> (0, fd\<lparr>block_data := d\<rparr>)))"

text \<open>
  The search for a block to evict, backward from the block behind the current one.  The result
  \<open>Some None\<close> means that the search came back to the current block.
\<close>

fun evict_loop :: "nat \<Rightarrow> byte list option list \<Rightarrow> nat \<Rightarrow> int \<Rightarrow> int \<Rightarrow> nat option option" where
  "evict_loop 0 cache blocks current n = None"
| "evict_loop (Suc k) cache blocks current n =
     (if n = current then Some None
      else
        let n = (if n < 0 then int blocks - 1 else n)
        in if cache ! nat n \<noteq> None then Some (Some (nat n))
           else evict_loop k cache blocks current (n - 1))"

definition block_cache_enter :: "fuse_data \<Rightarrow> nat \<Rightarrow> fuse_data option" where
  "block_cache_enter fd block =
     (case block_cache fd of
        None \<Rightarrow> Some fd
      | Some cache \<Rightarrow>
          map_option (\<lambda>(cache, sz).
              fd\<lparr>block_cache := Some (cache[block := Some (block_data fd)]), block_cache_size := u32 (sz + 1)\<rparr>)
            (if block_cache_size fd = block_cache_max_size fd then
               map_option (\<lambda>r. case r of
                   None \<Rightarrow> (cache, block_cache_size fd)
                 | Some n \<Rightarrow> (cache[n := None], u32 (block_cache_size fd + 2 ^ 32 - 1)))
                 (evict_loop (file_blocks fd + 1) cache (file_blocks fd) (s32 (curr_block fd))
                   (s32 (u32 (curr_block fd + 2 ^ 32 - 1))))
             else Some (cache, block_cache_size fd)))"

section \<open>Fetching a block\<close>

definition EIO_status :: int where
  "EIO_status = -5"

text \<open>How many bytes are asked from the provider; the product is a product of \<^verbatim>\<open>uint32_t\<close> values.\<close>

definition fetch_size :: "fuse_data \<Rightarrow> nat \<Rightarrow> nat" where
  "fetch_size fd block =
     (let start = u32 (block * block_size fd)
      in if file_size fd < start + block_size fd then size_sub (file_size fd) start else block_size fd)"

definition fetch_block ::
  "(byte list \<Rightarrow> byte list) \<Rightarrow> 'p read_block \<Rightarrow> fuse_data \<Rightarrow> 'p \<Rightarrow> nat \<Rightarrow> (int \<times> fuse_data \<times> 'p) option" where
  "fetch_block sha256 read_block fd p block =
     (if block = curr_block fd then Some (0, fd, p)
      else if file_blocks fd \<le> block then
        Some (0, fd\<lparr>block_data := replicate (block_size fd) 0, curr_block := block\<rparr>, p)
      else
        case block_cache_fetch fd block of (r, fd) \<Rightarrow>
          if r = 0 then Some (0, fd\<lparr>curr_block := block\<rparr>, p)
          else
            let n = fetch_size fd block;
                buf = (if n = block_size fd then block_data fd
                       else overlay n (replicate (block_size fd - n) 0) (block_data fd))
            in case read_block p block n of (result, xs, p) \<Rightarrow>
              let fd = fd\<lparr>block_data := overlay 0 xs buf\<rparr>
              in if result < 0 then Some (result, fd, p)
                 else
                   let fd = fd\<lparr>curr_block := block\<rparr>; hash = sha256 (block_data fd)
                   in if hash = hashes fd ! block then Some (0, fd, p)
                      else if \<exists>i \<in> set (hashes fd ! block). i \<noteq> 0 then Some (EIO_status, fd\<lparr>curr_block := NO_BLOCK\<rparr>, p)
                      else map_option (\<lambda>fd. (0, fd, p))
                        (block_cache_enter (fd\<lparr>hashes := (hashes fd)[block := hash]\<rparr>) block))"

section \<open>Requests\<close>

record fuse_abi =
  FUSE_ROOT_ID :: nat
  FUSE_KERNEL_VERSION :: nat
  FUSE_KERNEL_MINOR_VERSION :: nat
  FUSE_COMPAT_22_INIT_OUT_SIZE :: "nat option"
  sizeof_fuse_init_out :: nat

definition PACKAGE_FILE_ID :: "fuse_abi \<Rightarrow> nat" where
  "PACKAGE_FILE_ID abi = FUSE_ROOT_ID abi + 1"

definition NO_STATUS :: int where
  "NO_STATUS = 1"

datatype fuse_op =
    FUSE_INIT nat nat nat  \<comment> \<open>major, minor, max_readahead\<close>
  | FUSE_LOOKUP string
  | FUSE_GETATTR
  | FUSE_OPEN
  | FUSE_READ nat nat  \<comment> \<open>offset, size\<close>
  | FUSE_FLUSH
  | FUSE_RELEASE
  | FUSE_OTHER nat

record fuse_in =
  hdr_unique :: nat
  hdr_nodeid :: nat
  hdr_op :: fuse_op

record fuse_attr =
  attr_ino :: nat
  attr_size :: nat
  attr_blocks :: nat
  attr_mode :: nat
  attr_nlink :: nat
  attr_uid :: nat
  attr_gid :: nat
  attr_blksize :: nat

datatype fuse_out =
    InitOut nat nat nat nat nat nat nat nat  \<comment> \<open>length, major, minor, max_readahead, flags, max_background, congestion_threshold, max_write\<close>
  | AttrOut nat fuse_attr  \<comment> \<open>attr_valid\<close>
  | EntryOut nat nat nat nat fuse_attr  \<comment> \<open>entry_valid, attr_valid, nodeid, generation\<close>
  | OpenOut nat  \<comment> \<open>fh\<close>
  | ReadOut "byte list"
  | ErrorOut int

definition ENOENT_status :: int where
  "ENOENT_status = -2"

definition ENOSYS_status :: int where
  "ENOSYS_status = -38"

definition handle_init :: "fuse_abi \<Rightarrow> nat \<Rightarrow> nat \<Rightarrow> nat \<Rightarrow> int \<times> fuse_out list" where
  "handle_init abi major minor max_readahead =
     (if major \<noteq> FUSE_KERNEL_VERSION abi \<or> minor < 6 then (-1, [])
      else
        let len = (case FUSE_COMPAT_22_INIT_OUT_SIZE abi of
                     None \<Rightarrow> sizeof_fuse_init_out abi
                   | Some n \<Rightarrow> if minor \<le> 22 then n else sizeof_fuse_init_out abi)
        in (NO_STATUS, [InitOut len (FUSE_KERNEL_VERSION abi) (min minor (FUSE_KERNEL_MINOR_VERSION abi))
              max_readahead 0 32 32 4096]))"

definition fill_attr :: "fuse_data \<Rightarrow> nat \<Rightarrow> nat \<Rightarrow> nat \<Rightarrow> fuse_attr" where
  "fill_attr fd nodeid sz mode =
     \<lparr>attr_ino = nodeid, attr_size = sz, attr_blocks = (if sz = 0 then 0 else (sz - 1) div 4096 + 1),
      attr_mode = mode, attr_nlink = 1, attr_uid = fuse_uid fd, attr_gid = fuse_gid fd, attr_blksize = 4096\<rparr>"

text \<open>\<^verbatim>\<open>S_IFDIR | 0555\<close> and \<^verbatim>\<open>S_IFREG | 0444\<close>\<close>

definition dir_mode :: nat where
  "dir_mode = 0x4000 + 0x16D"

definition package_mode :: nat where
  "package_mode = 0x8000 + 0x124"

definition handle_getattr :: "fuse_abi \<Rightarrow> fuse_data \<Rightarrow> nat \<Rightarrow> int \<times> fuse_out list" where
  "handle_getattr abi fd nodeid =
     (if nodeid = FUSE_ROOT_ID abi then (NO_STATUS, [AttrOut 10 (fill_attr fd nodeid 4096 dir_mode)])
      else if nodeid = PACKAGE_FILE_ID abi then
        (NO_STATUS, [AttrOut 10 (fill_attr fd (PACKAGE_FILE_ID abi) (file_size fd) package_mode)])
      else (ENOENT_status, []))"

definition handle_lookup :: "fuse_abi \<Rightarrow> fuse_data \<Rightarrow> string \<Rightarrow> int \<times> fuse_out list" where
  "handle_lookup abi fd filename =
     (if filename = ''package.zip'' then
        (NO_STATUS, [EntryOut 10 10 (PACKAGE_FILE_ID abi) (PACKAGE_FILE_ID abi)
           (fill_attr fd (PACKAGE_FILE_ID abi) (file_size fd) package_mode)])
      else (ENOENT_status, []))"

definition handle_open :: "fuse_abi \<Rightarrow> nat \<Rightarrow> int \<times> fuse_out list" where
  "handle_open abi nodeid =
     (if nodeid \<noteq> PACKAGE_FILE_ID abi then (ENOENT_status, []) else (NO_STATUS, [OpenOut 10]))"

text \<open>\<open>slice\<close> is the memory a vector of \<^verbatim>\<open>writev\<close> points to; it must lie in the buffer.\<close>

definition slice :: "nat \<Rightarrow> nat \<Rightarrow> byte list \<Rightarrow> byte list option" where
  "slice off n buf = (if off + n \<le> length buf then Some (take n (drop off buf)) else None)"

text \<open>
  The part of \<^verbatim>\<open>handle_read\<close> from the first fetch on, for any function that fetches blocks.
\<close>

definition read_range ::
  "(fuse_data \<Rightarrow> 'p \<Rightarrow> nat \<Rightarrow> (int \<times> fuse_data \<times> 'p) option) \<Rightarrow> fuse_data \<Rightarrow> 'p \<Rightarrow> nat \<Rightarrow> nat \<Rightarrow>
     (int \<times> fuse_out list \<times> fuse_data \<times> 'p) option" where
  "read_range fetch fd p offset sz =
     (let block = u32 (offset div block_size fd)
      in do {
        (result, fd, p) \<leftarrow> fetch fd p block;
        if result \<noteq> 0 then Some (result, [], fd, p)
        else
          let block_offset = u32 (size_sub offset (u32 (block * block_size fd)))
          in if u32 (sz + block_offset) \<le> block_size fd then do {
               xs \<leftarrow> slice block_offset sz (block_data fd);
               Some (NO_STATUS, [ReadOut xs], fd, p) }
             else do {
               xs \<leftarrow> slice block_offset (block_size fd - block_offset) (block_data fd);
               (result, fd, p) \<leftarrow> fetch (fd\<lparr>extra_block := overlay 0 xs (extra_block fd)\<rparr>) p (u32 (block + 1));
               if result \<noteq> 0 then Some (result, [], fd, p)
               else do {
                 ys \<leftarrow> slice 0 (size_sub sz (length xs)) (block_data fd);
                 Some (NO_STATUS, [ReadOut (take (length xs) (extra_block fd) @ ys)], fd, p) } } })"

definition handle_read ::
  "fuse_abi \<Rightarrow> (byte list \<Rightarrow> byte list) \<Rightarrow> 'p read_block \<Rightarrow> fuse_data \<Rightarrow> 'p \<Rightarrow> nat \<Rightarrow> nat \<Rightarrow> nat \<Rightarrow>
     (int \<times> fuse_out list \<times> fuse_data \<times> 'p) option" where
  "handle_read abi sha256 read_block fd p nodeid offset sz =
     (if nodeid \<noteq> PACKAGE_FILE_ID abi then Some (ENOENT_status, [], fd, p)
      else read_range (fetch_block sha256 read_block) fd p offset sz)"

text \<open>The body of the loop of \<^verbatim>\<open>run_fuse_sideload\<close>: the dispatch and the answer for a plain status.\<close>

definition handle_request ::
  "fuse_abi \<Rightarrow> (byte list \<Rightarrow> byte list) \<Rightarrow> 'p read_block \<Rightarrow> fuse_data \<Rightarrow> 'p \<Rightarrow> fuse_in \<Rightarrow>
     (int \<times> (nat \<times> fuse_out) list \<times> fuse_data \<times> 'p) option" where
  "handle_request abi sha256 read_block fd p req = do {
     (result, out, fd, p) \<leftarrow>
       (case hdr_op req of
          FUSE_INIT major minor ra \<Rightarrow> (case handle_init abi major minor ra of (r, out) \<Rightarrow> Some (r, out, fd, p))
        | FUSE_LOOKUP name \<Rightarrow> (case handle_lookup abi fd name of (r, out) \<Rightarrow> Some (r, out, fd, p))
        | FUSE_GETATTR \<Rightarrow> (case handle_getattr abi fd (hdr_nodeid req) of (r, out) \<Rightarrow> Some (r, out, fd, p))
        | FUSE_OPEN \<Rightarrow> (case handle_open abi (hdr_nodeid req) of (r, out) \<Rightarrow> Some (r, out, fd, p))
        | FUSE_READ offset sz \<Rightarrow> handle_read abi sha256 read_block fd p (hdr_nodeid req) offset sz
        | FUSE_FLUSH \<Rightarrow> Some (0, [], fd, p)
        | FUSE_RELEASE \<Rightarrow> Some (0, [], fd, p)
        | FUSE_OTHER _ \<Rightarrow> Some (ENOSYS_status, [], fd, p));
     let out = (if result \<noteq> NO_STATUS then out @ [ErrorOut result] else out);
     Some (result, map (Pair (hdr_unique req)) out, fd, p) }"

section \<open>Setting up and running\<close>

definition INSTALL_REQUIRED_MEMORY :: nat where
  "INSTALL_REQUIRED_MEMORY = 400 * 1024 * 1024"

text \<open>
  The preparation in \<^verbatim>\<open>run_fuse_sideload\<close>; \<open>mem\<close> is the result of \<^verbatim>\<open>free_memory\<close>, and the contents of
  the two buffers from \<^verbatim>\<open>malloc\<close> are arguments.  \<open>None\<close> is a return of \<open>-1\<close>.
\<close>

definition sideload_setup :: "nat \<Rightarrow> nat \<Rightarrow> nat \<Rightarrow> nat \<Rightarrow> nat \<Rightarrow> byte list \<Rightarrow> byte list \<Rightarrow> fuse_data option" where
  "sideload_setup mem fsize bsize uid gid buf1 buf2 =
     (if bsize < 4096 then None
      else if 2 ^ 22 < bsize then None
      else
        let blocks = (if fsize = 0 then 0 else u32 ((fsize - 1) div bsize + 1));
            avail = size_sub mem (INSTALL_REQUIRED_MEMORY + blocks * 8)
        in if 2 ^ 18 < blocks then None
           else
             let max_size = min (u32 (avail div bsize)) blocks;
                 cached = (avail < mem \<and> blocks div 100 \<le> max_size \<and> 2 \<le> max_size)
             in Some \<lparr>file_size = fsize, block_size = bsize, file_blocks = blocks, fuse_uid = uid, fuse_gid = gid,
                  curr_block = NO_BLOCK, block_data = buf1, extra_block = buf2, hashes = replicate blocks (replicate 32 0),
                  block_cache_max_size = (if cached then max_size else 0), block_cache_size = 0,
                  block_cache = (if cached then Some (replicate blocks None) else None)\<rparr>)"

text \<open>What a turn of the loop can meet; the list of turns ends when the process is told to terminate.\<close>

datatype kernel_event =
    SelectTimeout
  | ReadError int
  | ShortRequest
  | Request fuse_in

definition ENODEV_errno :: int where
  "ENODEV_errno = 19"

fun serve ::
  "fuse_abi \<Rightarrow> (byte list \<Rightarrow> byte list) \<Rightarrow> 'p read_block \<Rightarrow> kernel_event list \<Rightarrow> int \<Rightarrow> fuse_data \<Rightarrow> 'p \<Rightarrow>
     (nat \<times> fuse_out) list \<Rightarrow> (int \<times> (nat \<times> fuse_out) list \<times> fuse_data \<times> 'p) option" where
  "serve abi sha256 read_block [] result fd p outs = Some (result, outs, fd, p)"
| "serve abi sha256 read_block (ev # evs) result fd p outs =
     (case ev of
        SelectTimeout \<Rightarrow> serve abi sha256 read_block evs result fd p outs
      | ReadError er \<Rightarrow>
          if er = ENODEV_errno then Some (-1, outs, fd, p)
          else serve abi sha256 read_block evs result fd p outs
      | ShortRequest \<Rightarrow> serve abi sha256 read_block evs result fd p outs
      | Request req \<Rightarrow>
          (case handle_request abi sha256 read_block fd p req of
             None \<Rightarrow> None
           | Some (result, out, fd, p) \<Rightarrow> serve abi sha256 read_block evs result fd p (outs @ out)))"


section \<open>The cache\<close>

definition cached :: "byte list option list \<Rightarrow> nat set" where
  "cached cache = {b. b < length cache \<and> cache ! b \<noteq> None}"

lemma finite_cached [simp]: "finite (cached cache)"
  by (rule finite_subset [of _ "{..<length cache}"]) (auto simp: cached_def)

lemma cached_update:
  "cached (cache[b := None]) = cached cache - {b}"
  "b < length cache \<Longrightarrow> cached (cache[b := Some d]) = insert b (cached cache)"
  by (cases "b < length cache"; auto simp: cached_def nth_list_update split: if_splits)+

lemma card_cached: "card (cached cache) \<le> length cache"
  using card_mono [of "{..<length cache}" "cached cache"] by (auto simp: cached_def)

lemma update_None_nth: "cache[m := None] ! i = Some d \<Longrightarrow> i < length cache \<Longrightarrow> cache ! i = Some d"
  by (cases "i = m") auto

text \<open>The search walks down to a cached block that lies below its start ...\<close>

lemma evict_down:
  assumes "j \<le> n" "j \<in> cached cache" "n < length cache" "\<forall>i \<in> {j..n}. int i \<noteq> current" "n - j < k"
  shows "\<exists>m \<in> cached cache. evict_loop k cache (length cache) current (int n) = Some (Some m)"
  using assms
proof (induction k arbitrary: n)
  case (Suc k)
  have n: "int n \<noteq> current" using Suc.prems(1,4) by auto
  show ?case
  proof (cases "cache ! n")
    case None
    then have jn: "j < n" using Suc.prems(1,2) by (cases "j = n") (auto simp: cached_def)
    then have "\<exists>m \<in> cached cache. evict_loop k cache (length cache) current (int (n - 1)) = Some (Some m)"
      using Suc.prems by (intro Suc.IH) auto
    with None n jn show ?thesis by (simp add: Let_def of_nat_diff)
  next
    case (Some d)
    with n Suc.prems(3) show ?thesis by (auto simp: Let_def cached_def)
  qed
qed simp

text \<open>... and goes round from the first block to the last.\<close>

lemma evict_round:
  assumes "current < int j" "0 \<le> current" "j \<in> cached cache" "n < int (length cache)" "-1 \<le> n" "n < current"
    and "nat (n + 1) + (length cache - j) < k"
  shows "\<exists>m \<in> cached cache. evict_loop k cache (length cache) current n = Some (Some m)"
  using assms
proof (induction k arbitrary: n)
  case (Suc k)
  let ?l = "length cache - 1"
  have j: "j < length cache" using Suc.prems(3) by (simp add: cached_def)
  show ?case
  proof (cases "n = -1")
    case True
    have "\<exists>m \<in> cached cache. evict_loop (Suc k) cache (length cache) current (int ?l) = Some (Some m)"
      using Suc.prems j True by (intro evict_down [of j]) auto
    moreover have "evict_loop (Suc k) cache (length cache) current n = evict_loop (Suc k) cache (length cache) current (int ?l)"
      using Suc.prems(1,2) j True by (simp add: Let_def of_nat_diff)
    ultimately show ?thesis by metis
  next
    case False
    then have n: "0 \<le> n" "n \<noteq> current" "nat n < length cache" using Suc.prems by auto
    show ?thesis
    proof (cases "cache ! nat n")
      case None
      have "\<exists>m \<in> cached cache. evict_loop k cache (length cache) current (n - 1) = Some (Some m)"
        using Suc.prems n by (intro Suc.IH) auto
      with None n show ?thesis by (simp add: Let_def)
    next
      case (Some d)
      with n show ?thesis by (auto simp: Let_def cached_def)
    qed
  qed
qed simp

lemma evict_finds:
  assumes "b < length cache" "b \<notin> cached cache" "cached cache \<noteq> {}"
  shows "\<exists>m \<in> cached cache. evict_loop (length cache + 1) cache (length cache) (int b) (int b - 1) = Some (Some m)"
proof -
  obtain j where "j \<in> cached cache" using assms(3) by blast
  then have j: "j \<in> cached cache" "j \<noteq> b" "j < length cache" using assms(2) by (auto simp: cached_def)
  show ?thesis
  proof (cases "j < b")
    case True
    then have "int b - 1 = int (b - 1)" by simp
    moreover have "\<exists>m \<in> cached cache. evict_loop (length cache + 1) cache (length cache) (int b) (int (b - 1)) = Some (Some m)"
      using True j assms(1) by (intro evict_down [of j]) auto
    ultimately show ?thesis by metis
  next
    case False
    then show ?thesis using evict_round [of "int b" j cache "int b - 1" "length cache + 1"] j assms(1) by auto
  qed
qed


section \<open>The invariant\<close>

definition recorded :: "byte list \<Rightarrow> bool" where
  "recorded h \<longleftrightarrow> (\<exists>i \<in> set h. i \<noteq> 0)"

text \<open>
  \<open>known\<close>: the data that may be handed out for a block; a block of the file has the recorded
  digest, and everything after the file is zero.
\<close>

definition known :: "(byte list \<Rightarrow> byte list) \<Rightarrow> fuse_data \<Rightarrow> nat \<Rightarrow> byte list \<Rightarrow> bool" where
  "known sha256 fd b d \<longleftrightarrow> length d = block_size fd \<and>
     (if b < file_blocks fd then sha256 d = hashes fd ! b \<and> recorded (hashes fd ! b)
      else d = replicate (block_size fd) 0)"

definition cache_inv :: "(nat \<Rightarrow> byte list \<Rightarrow> bool) \<Rightarrow> fuse_data \<Rightarrow> bool" where
  "cache_inv good fd \<longleftrightarrow> (\<forall>cache. block_cache fd = Some cache \<longrightarrow>
     length cache = file_blocks fd \<and> (\<forall>b d. b < file_blocks fd \<longrightarrow> cache ! b = Some d \<longrightarrow> good b d \<and> recorded (hashes fd ! b)) \<and>
     block_cache_size fd = card (cached cache) \<and> card (cached cache) \<le> block_cache_max_size fd \<and>
     0 < block_cache_max_size fd)"

definition fuse_wf :: "fuse_data \<Rightarrow> bool" where
  "fuse_wf fd \<longleftrightarrow> 0 < block_size fd \<and> block_size fd \<le> 2 ^ 22 \<and> file_blocks fd \<le> 2 ^ 18 \<and>
     file_blocks fd = (if file_size fd = 0 then 0 else (file_size fd - 1) div block_size fd + 1) \<and>
     length (block_data fd) = block_size fd \<and> length (extra_block fd) = block_size fd \<and>
     length (hashes fd) = file_blocks fd"

definition fuse_inv :: "(byte list \<Rightarrow> byte list) \<Rightarrow> fuse_data \<Rightarrow> bool" where
  "fuse_inv sha256 fd \<longleftrightarrow> fuse_wf fd \<and>
     (curr_block fd \<noteq> NO_BLOCK \<longrightarrow> known sha256 fd (curr_block fd) (block_data fd)) \<and>
     cache_inv (known sha256 fd) fd"

text \<open>Entering the current block, which was not in the cache.\<close>

lemma s32_small: "b < 2 ^ 31 \<Longrightarrow> s32 b = int b"
  by (simp add: s32_def)

lemma s32_before: "b < 2 ^ 31 \<Longrightarrow> s32 (u32 (b + 2 ^ 32 - 1)) = int b - 1"
proof (cases b)
  case (Suc c)
  have "Suc c + 2 ^ 32 - 1 = c + 2 ^ 32" by simp
  moreover assume "b < 2 ^ 31"
  ultimately show ?thesis using Suc s32_small [of c] by (simp add: u32_def)
qed (simp add: s32_def u32_def)

lemma u32_small: "n < 2 ^ 32 \<Longrightarrow> u32 n = n"
  by (simp add: u32_def)

lemma u32_dec: "m + 1 = n \<Longrightarrow> n < 2 ^ 32 \<Longrightarrow> u32 (n + 2 ^ 32 - 1) = m"
proof -
  assume "m + 1 = n" "n < 2 ^ 32"
  then have "n + 2 ^ 32 - 1 = m + 2 ^ 32" "m < 2 ^ 32" by simp_all
  then show ?thesis by (simp add: u32_def)
qed

lemma cache_enter:
  assumes "cache_inv good fd" "fuse_wf fd" "curr_block fd = b" "b < file_blocks fd"
    and "\<And>cache. block_cache fd = Some cache \<Longrightarrow> b \<notin> cached cache"
    and "good b (block_data fd)" "recorded (hashes fd ! b)"
  shows "\<exists>c n. block_cache_enter fd b = Some (fd\<lparr>block_cache := c, block_cache_size := n\<rparr>) \<and>
    cache_inv good (fd\<lparr>block_cache := c, block_cache_size := n\<rparr>)"
proof (cases "block_cache fd")
  case None
  then have "block_cache_enter fd b = Some (fd\<lparr>block_cache := None, block_cache_size := block_cache_size fd\<rparr>)"
    by (simp add: block_cache_enter_def)
  then show ?thesis using assms(1) by (intro exI [of _ None] exI [of _ "block_cache_size fd"]) (auto simp: cache_inv_def)
next
  case (Some cache)
  let ?new = "\<lambda>c n. fd\<lparr>block_cache := Some (c[b := Some (block_data fd)]), block_cache_size := n\<rparr>"
  note I = assms(1) [unfolded cache_inv_def, rule_format, OF Some]
  have len: "length cache = file_blocks fd" and b: "b \<notin> cached cache" "b < length cache"
    using I assms(4,5) Some by simp_all
  have small: "file_blocks fd \<le> 2 ^ 18" "card (cached cache) \<le> file_blocks fd"
    using assms(2) card_cached [of cache] len by (simp_all add: fuse_wf_def)
  have keep: "cache_inv good (?new c (card (cached c) + 1))"
    if "length c = length cache" "\<And>i d. i < length c \<Longrightarrow> c ! i = Some d \<Longrightarrow> cache ! i = Some d" "b \<notin> cached c"
      "card (cached c) < block_cache_max_size fd" for c
    using that I assms(4,6,7) b len by (auto simp: cache_inv_def cached_update nth_list_update)
  show ?thesis
  proof (cases "block_cache_size fd = block_cache_max_size fd")
    case True
    then have "cached cache \<noteq> {}" using I by (metis card.empty less_nat_zero_code)
    from evict_finds [OF b(2,1) this] obtain m where m: "m \<in> cached cache"
      "evict_loop (length cache + 1) cache (length cache) (int b) (int b - 1) = Some (Some m)" by blast
    let ?c = "cache[m := None]"
    have card: "card (cached ?c) + 1 = card (cached cache)" "0 < card (cached cache)"
      using m(1) card_Suc_Diff1 [OF finite_cached m(1)] by (auto simp: cached_update card_gt_0_iff)
    have b31: "b < 2 ^ 31" using assms(4) small(1) by simp
    have "u32 (card (cached cache) + 2 ^ 32 - 1) = card (cached ?c)" by (rule u32_dec [OF card(1)]) (use small in simp)
    moreover have "u32 (card (cached ?c) + 1) = card (cached ?c) + 1" by (rule u32_small) (use small card in simp)
    ultimately have "block_cache_enter fd b = Some (?new ?c (card (cached ?c) + 1))"
      using I True m(2) unfolding block_cache_enter_def Some assms(3) option.case s32_small [OF b31] s32_before [OF b31] len
      by (simp del: evict_loop.simps)
    moreover have "cache_inv good (?new ?c (card (cached ?c) + 1))"
      using b card True I by (intro keep) (auto simp: cached_update dest: update_None_nth)
    ultimately show ?thesis by blast
  next
    case False
    then have "block_cache_enter fd b = Some (?new cache (card (cached cache) + 1))"
      using Some I small by (simp add: block_cache_enter_def u32_def)
    moreover have "cache_inv good (?new cache (card (cached cache) + 1))"
      using b False I by (intro keep) auto
    ultimately show ?thesis by blast
  qed
qed

section \<open>Fetching a block\<close>

text \<open>
  The file as a sequence of blocks: what an implementation of \<^verbatim>\<open>fetch_block\<close> promises to the
  read handler.  \<open>holds fd b d\<close> says that \<open>d\<close> is acceptable as the contents of block \<open>b\<close>;
  \<open>ready\<close> collects the assumptions on the provider.
\<close>

lemma block_offset_eq:
  assumes "0 < bs" "bs \<le> 2 ^ 22"
  shows "u32 (size_sub offset (u32 (offset div bs * bs))) = offset mod bs"
proof -
  let ?m = "offset div bs * bs"
  have m: "?m \<le> offset" by simp
  have "u32 ?m \<le> ?m" by (simp add: u32_def)
  then have "u32 ?m \<le> offset" using m by (rule order_trans)
  then have "size_sub offset (u32 ?m) = offset - ?m mod 2 ^ 32" by (simp add: size_sub_small u32_def)
  also have "\<dots> = (offset - ?m) + 2 ^ 32 * (?m div 2 ^ 32)"
    using m mod_mult_div_eq [of ?m "2 ^ 32"] mod_less_eq_dividend [of ?m "2 ^ 32"] by linarith
  also have "offset - ?m = offset mod bs" by (rule minus_div_mult_eq_mod)
  finally have "u32 (size_sub offset (u32 ?m)) = (offset mod bs) mod 2 ^ 32" by (simp add: u32_def)
  moreover have "offset mod bs < 2 ^ 32" using mod_less_divisor [OF assms(1), of offset] assms(2) by simp
  ultimately show ?thesis by simp
qed

definition same_file :: "fuse_data \<Rightarrow> fuse_data \<Rightarrow> bool" where
  "same_file fd fd' \<longleftrightarrow> block_size fd' = block_size fd \<and> file_blocks fd' = file_blocks fd \<and>
     file_size fd' = file_size fd \<and> extra_block fd' = extra_block fd"

locale block_source =
  fixes fetch :: "fuse_data \<Rightarrow> 'p \<Rightarrow> nat \<Rightarrow> (int \<times> fuse_data \<times> 'p) option"
    and inv :: "fuse_data \<Rightarrow> bool"
    and holds :: "fuse_data \<Rightarrow> nat \<Rightarrow> byte list \<Rightarrow> bool"
    and ready :: bool
  assumes inv_wf: "inv fd \<Longrightarrow> fuse_wf fd"
    and inv_extra: "inv fd \<Longrightarrow> length xs = block_size fd \<Longrightarrow> inv (fd\<lparr>extra_block := xs\<rparr>)"
    and holds_extra: "holds (fd\<lparr>extra_block := xs\<rparr>) b d \<longleftrightarrow> holds fd b d"
    and fetch: "ready \<Longrightarrow> inv fd \<Longrightarrow> b < NO_BLOCK \<Longrightarrow>
      \<exists>r fd' p'. fetch fd p b = Some (r, fd', p') \<and> inv fd' \<and> same_file fd fd' \<and>
        (\<forall>i d. holds fd i d \<longrightarrow> holds fd' i d) \<and> (r = 0 \<longrightarrow> holds fd' b (block_data fd')) \<and> r \<noteq> NO_STATUS"

text \<open>The answer to a read request: the bytes asked for, cut out of acceptable blocks.\<close>

definition cut_out :: "(nat \<Rightarrow> byte list \<Rightarrow> bool) \<Rightarrow> nat \<Rightarrow> nat \<Rightarrow> nat \<Rightarrow> byte list \<Rightarrow> bool" where
  "cut_out good bsize offset sz xs \<longleftrightarrow> (\<exists>d0 d1. good (offset div bsize) d0 \<and> length d0 = bsize \<and>
     (offset mod bsize + sz \<le> bsize \<or> good (offset div bsize + 1) d1) \<and> length d1 = bsize \<and>
     xs = take sz (drop (offset mod bsize) (d0 @ d1)))"

context block_source
begin

lemma read_range_correct:
  assumes "ready" "inv fd" "sz \<le> block_size fd" "offset div block_size fd < NO_BLOCK - 1"
  shows "\<exists>r outs fd' p'. read_range fetch fd p offset sz = Some (r, outs, fd', p') \<and> inv fd' \<and>
    block_size fd' = block_size fd \<and> file_blocks fd' = file_blocks fd \<and> file_size fd' = file_size fd \<and>
    (\<forall>i d. holds fd i d \<longrightarrow> holds fd' i d) \<and>
    (if r = NO_STATUS then \<exists>xs. outs = [ReadOut xs] \<and> cut_out (holds fd') (block_size fd) offset sz xs
     else outs = [] \<and> (\<exists>fd1 p1 b fd2 p2. inv fd1 \<and> b < NO_BLOCK \<and> fetch fd1 p1 b = Some (r, fd2, p2) \<and> r \<noteq> 0))"
proof -
  let ?bs = "block_size fd" and ?b = "offset div block_size fd" and ?o = "offset mod block_size fd"
  have wf: "0 < ?bs" "?bs \<le> 2 ^ 22" "length (extra_block fd) = ?bs" using inv_wf [OF assms(2)] by (simp_all add: fuse_wf_def)
  have b: "u32 ?b = ?b" "u32 (?b + 1) = ?b + 1" "?b < NO_BLOCK" "?b + 1 < NO_BLOCK"
    using assms(4) by (auto simp: NO_BLOCK_def intro!: u32_small)
  have o: "?o < ?bs" "u32 (size_sub offset (u32 (?b * ?bs))) = ?o" using wf block_offset_eq by simp_all
  have s: "u32 (sz + ?o) = sz + ?o" using o(1) wf(2) assms(3) by (intro u32_small) simp
  from fetch [OF assms(1,2) b(3), of p] obtain r fd1 p1 where f1: "fetch fd p ?b = Some (r, fd1, p1)" "inv fd1" "same_file fd fd1"
    "\<forall>i d. holds fd i d \<longrightarrow> holds fd1 i d" "r = 0 \<longrightarrow> holds fd1 ?b (block_data fd1)" "r \<noteq> NO_STATUS" by blast
  have g1: "block_size fd1 = ?bs" "length (block_data fd1) = ?bs" "length (extra_block fd1) = ?bs"
    using f1(2,3) inv_wf [OF f1(2)] wf by (simp_all add: same_file_def fuse_wf_def)
  have step1: "read_range fetch fd p offset sz = (if r \<noteq> 0 then Some (r, [], fd1, p1) else
      if sz + ?o \<le> ?bs then do {
        xs \<leftarrow> slice ?o sz (block_data fd1);
        Some (NO_STATUS, [ReadOut xs], fd1, p1) }
      else do {
        xs \<leftarrow> slice ?o (?bs - ?o) (block_data fd1);
        (result, fd, p) \<leftarrow> fetch (fd1\<lparr>extra_block := overlay 0 xs (extra_block fd1)\<rparr>) p1 (?b + 1);
        if result \<noteq> 0 then Some (result, [], fd, p)
        else do {
          ys \<leftarrow> slice 0 (size_sub sz (length xs)) (block_data fd);
          Some (NO_STATUS, [ReadOut (take (length xs) (extra_block fd) @ ys)], fd, p) } })"
    unfolding read_range_def Let_def b(1,2) f1(1) by (simp add: g1 b o s)
  consider (failed) "r \<noteq> 0" | (one) "r = 0" "sz + ?o \<le> ?bs" | (two) "r = 0" "?bs < sz + ?o" by linarith
  then show ?thesis
  proof cases
    case failed
    then have "\<exists>fd1 p1 b fd2 p2. inv fd1 \<and> b < NO_BLOCK \<and> fetch fd1 p1 b = Some (r, fd2, p2) \<and> r \<noteq> 0"
      using assms(2) b(3) f1(1) by blast
    with failed f1 step1 show ?thesis by (simp add: same_file_def)
  next
    case one
    then have "cut_out (holds fd1) ?bs offset sz (take sz (drop ?o (block_data fd1)))"
      using f1(5) g1 unfolding cut_out_def
      by (intro exI [of _ "block_data fd1"] exI [of _ "replicate ?bs 0"]) (auto simp: add.commute)
    with one f1 step1 g1 show ?thesis by (auto simp: same_file_def slice_def add.commute)
  next
    case two
    let ?xs = "drop ?o (block_data fd1)" and ?n = "sz - (?bs - ?o)"
    let ?fd = "fd1\<lparr>extra_block := overlay 0 ?xs (extra_block fd1)\<rparr>"
    have xs: "slice ?o (?bs - ?o) (block_data fd1) = Some ?xs" "length ?xs = ?bs - ?o"
      using g1 o(1) by (simp_all add: slice_def)
    have ex: "length (overlay 0 ?xs (extra_block fd1)) = ?bs" "take (?bs - ?o) (overlay 0 ?xs (extra_block fd1)) = ?xs"
      using g1 o(1) by (auto simp: overlay_def)
    have I: "inv ?fd" using inv_extra [OF f1(2), of "overlay 0 ?xs (extra_block fd1)"] ex(1) g1(1) by simp
    from fetch [OF assms(1) this b(4), of p1] obtain r2 fd2 p2 where f2: "fetch ?fd p1 (?b + 1) = Some (r2, fd2, p2)"
      "inv fd2" "same_file ?fd fd2" "\<forall>i d. holds ?fd i d \<longrightarrow> holds fd2 i d" "r2 = 0 \<longrightarrow> holds fd2 (?b + 1) (block_data fd2)"
      "r2 \<noteq> NO_STATUS" by blast
    have g2: "block_size fd2 = ?bs" "file_blocks fd2 = file_blocks fd" "file_size fd2 = file_size fd"
      "extra_block fd2 = overlay 0 ?xs (extra_block fd1)"
      using f1(3) f2(3) by (simp_all add: same_file_def)
    have l2: "length (block_data fd2) = ?bs" using inv_wf [OF f2(2)] g2(1) by (simp add: fuse_wf_def)
    have h: "\<forall>i d. holds fd1 i d \<longrightarrow> holds fd2 i d" using f2(4) by (simp add: holds_extra)
    have n: "size_sub sz (length ?xs) = ?n" "?n \<le> ?bs" using two(2) xs(2) assms(3) by (simp_all add: size_sub_def)
    have step2: "read_range fetch fd p offset sz = (if r2 \<noteq> 0 then Some (r2, [], fd2, p2)
        else Some (NO_STATUS, [ReadOut (?xs @ take ?n (block_data fd2))], fd2, p2))"
      using two step1 f2(1) n l2 xs g2(4) ex(2) by (simp add: slice_def)
    have "cut_out (holds fd2) ?bs offset sz (?xs @ take ?n (block_data fd2))" if "r2 = 0"
      unfolding cut_out_def
      using that f1(5) f2(5) two h g1(2) l2 xs(2) o(1)
      by (intro exI [of _ "block_data fd1"] exI [of _ "block_data fd2"]) simp
    moreover have "\<exists>fd1 p1 b fd2 p2. inv fd1 \<and> b < NO_BLOCK \<and> fetch fd1 p1 b = Some (r2, fd2, p2) \<and> r2 \<noteq> 0" if "r2 \<noteq> 0"
      using I b(4) f2(1) that by blast
    ultimately show ?thesis using step2 f1(4) f2(2,6) h g2(1-3) by auto
  qed
qed

end

text \<open>A source whose blocks never fail to arrive.\<close>

locale reliable_source = block_source +
  assumes arrives: "ready \<Longrightarrow> inv fd \<Longrightarrow> b < NO_BLOCK \<Longrightarrow> fetch fd p b = Some (r, fd', p') \<Longrightarrow> r = 0"

context reliable_source
begin

lemma read_range_reliable:
  assumes "ready" "inv fd" "sz \<le> block_size fd" "offset div block_size fd < NO_BLOCK - 1"
  shows "\<exists>xs fd' p'. read_range fetch fd p offset sz = Some (NO_STATUS, [ReadOut xs], fd', p') \<and> inv fd' \<and>
    cut_out (holds fd') (block_size fd) offset sz xs"
proof -
  obtain r outs fd' p' where rr: "read_range fetch fd p offset sz = Some (r, outs, fd', p')" "inv fd'"
    "if r = NO_STATUS then \<exists>xs. outs = [ReadOut xs] \<and> cut_out (holds fd') (block_size fd) offset sz xs
     else outs = [] \<and> (\<exists>fd1 p1 b fd2 p2. inv fd1 \<and> b < NO_BLOCK \<and> fetch fd1 p1 b = Some (r, fd2, p2) \<and> r \<noteq> 0)"
    using read_range_correct [OF assms, of p] by blast
  have "r = NO_STATUS" using rr(3) arrives [OF assms(1)] by (auto split: if_splits)
  with rr show ?thesis by auto
qed

end

section \<open>The cases of a fetch\<close>

lemma block_start_less:
  assumes "fuse_wf fd" "b < file_blocks fd"
  shows "b * block_size fd < file_size fd"
proof -
  have "0 < file_size fd" "b \<le> (file_size fd - 1) div block_size fd" "0 < block_size fd"
    using assms by (auto simp: fuse_wf_def split: if_splits)
  then show ?thesis using mult_le_mono1 [of b "(file_size fd - 1) div block_size fd" "block_size fd"]
      div_times_less_eq_dividend [of "file_size fd - 1" "block_size fd"] by linarith
qed

lemma fetch_size_le:
  assumes "fuse_wf fd" "b < file_blocks fd"
  shows "fetch_size fd b \<le> block_size fd"
proof -
  have "u32 (b * block_size fd) \<le> b * block_size fd" by (simp add: u32_def)
  with block_start_less [OF assms] show ?thesis by (auto simp: fetch_size_def Let_def size_sub_def)
qed

text \<open>The buffer after the provider has stored \<open>xs\<close> in it, with the padding of the last block.\<close>

definition fetched :: "fuse_data \<Rightarrow> nat \<Rightarrow> byte list \<Rightarrow> byte list" where
  "fetched fd b xs =
     (let n = fetch_size fd b
      in overlay 0 xs (if n = block_size fd then block_data fd
           else overlay n (replicate (block_size fd - n) 0) (block_data fd)))"

lemma block_cache_fetch_cases:
  assumes "cache_inv good fd" "b < file_blocks fd"
  obtains (hit) d where "good b d" "recorded (hashes fd ! b)" "block_cache_fetch fd b = (0, fd\<lparr>block_data := d\<rparr>)"
  | (miss) "\<And>cache. block_cache fd = Some cache \<Longrightarrow> b \<notin> cached cache" "block_cache_fetch fd b = (-1, fd)"
proof (cases "block_cache fd")
  case None
  then show thesis by (intro miss) (simp_all add: block_cache_fetch_def)
next
  case (Some cache)
  note I = assms(1) [unfolded cache_inv_def, rule_format, OF Some]
  show thesis
  proof (cases "cache ! b")
    case None
    with Some show thesis by (intro miss) (auto simp: block_cache_fetch_def cached_def)
  next
    case (Some d)
    with I assms(2) \<open>block_cache fd = Some cache\<close> show thesis by (intro hit [of d]) (auto simp: block_cache_fetch_def)
  qed
qed

definition entered :: "fuse_data \<Rightarrow> nat \<Rightarrow> byte list \<Rightarrow> byte list \<Rightarrow> byte list option list option \<Rightarrow> nat \<Rightarrow> fuse_data" where
  "entered fd b d h c n = fd\<lparr>block_data := d, curr_block := b, hashes := (hashes fd)[b := h], block_cache := c, block_cache_size := n\<rparr>"

lemma cache_inv_record:
  assumes "cache_inv good fd" "fuse_wf fd" "b < file_blocks fd" "\<not> recorded (hashes fd ! b)"
    and "\<And>i d. i \<noteq> b \<Longrightarrow> good i d \<Longrightarrow> good' i d"
    and "good' b d" "recorded h" "length d = block_size fd"
  shows "\<exists>c n. block_cache_enter (fd\<lparr>block_data := d, curr_block := b, hashes := (hashes fd)[b := h]\<rparr>) b =
      Some (entered fd b d h c n) \<and> cache_inv good' (entered fd b d h c n)"
proof -
  let ?fd = "fd\<lparr>block_data := d, curr_block := b, hashes := (hashes fd)[b := h]\<rparr>"
  have len: "length (hashes fd) = file_blocks fd" using assms(2) by (simp add: fuse_wf_def)
  have out: "cache ! b = None" if "block_cache fd = Some cache" for cache
    using assms(1,3,4) that by (auto simp: cache_inv_def)
  have "cache_inv good' ?fd"
    using assms(1,3-5) len out by (auto simp: cache_inv_def nth_list_update)
  moreover have "fuse_wf ?fd" using assms(2,8) by (simp add: fuse_wf_def)
  ultimately show ?thesis
    using cache_enter [of good' ?fd b] assms(3,6,7) len out by (auto simp: entered_def cached_def)
qed

lemma fetch_block_cases:
  assumes "fuse_wf fd" "cache_inv good fd" "b < file_blocks fd" "b \<noteq> curr_block fd"
    and "read_block p b (fetch_size fd b) = (r, xs, p')" "0 \<le> r" "d = fetched fd b xs"
    and "length d = block_size fd" "recorded (sha256 d)"
  obtains (hit) e where "good b e" "recorded (hashes fd ! b)"
      "fetch_block sha256 read_block fd p b = Some (0, fd\<lparr>block_data := e, curr_block := b\<rparr>, p)"
  | (same) "sha256 d = hashes fd ! b"
      "fetch_block sha256 read_block fd p b = Some (0, fd\<lparr>block_data := d, curr_block := b\<rparr>, p')"
  | (bad) "sha256 d \<noteq> hashes fd ! b" "recorded (hashes fd ! b)"
      "fetch_block sha256 read_block fd p b = Some (EIO_status, fd\<lparr>block_data := d, curr_block := NO_BLOCK\<rparr>, p')"
  | (first) "\<not> recorded (hashes fd ! b)"
      "\<And>good'. (\<And>i e. i \<noteq> b \<Longrightarrow> good i e \<Longrightarrow> good' i e) \<Longrightarrow> good' b d \<Longrightarrow>
         \<exists>c n. fetch_block sha256 read_block fd p b = Some (0, entered fd b d (sha256 d) c n, p') \<and>
           cache_inv good' (entered fd b d (sha256 d) c n)"
  using assms(2,3)
proof (cases rule: block_cache_fetch_cases)
  case (hit e)
  then show thesis using assms(3,4) by (intro that(1) [of e]) (simp_all add: fetch_block_def)
next
  case miss
  note eq = assms(3,4,5,6) miss(2) assms(7) [unfolded fetched_def Let_def, symmetric]
  consider "sha256 d = hashes fd ! b" | "sha256 d \<noteq> hashes fd ! b" "recorded (hashes fd ! b)" | "sha256 d \<noteq> hashes fd ! b" "\<not> recorded (hashes fd ! b)" by blast
  then show thesis
  proof cases
    case 1
    then show thesis using eq by (intro that(2)) (simp_all add: fetch_block_def Let_def)
  next
    case 2
    then show thesis using eq by (intro that(3)) (simp_all add: fetch_block_def Let_def recorded_def)
  next
    case 3
    show thesis
    proof (rule that(4) [OF 3(2)])
      fix good' assume g: "\<And>i e. i \<noteq> b \<Longrightarrow> good i e \<Longrightarrow> good' i e" "good' b d"
      from cache_inv_record [where good' = good', OF assms(2,1,3) 3(2) _ g(2) assms(9,8)] g(1) obtain c n where
        "block_cache_enter (fd\<lparr>block_data := d, curr_block := b, hashes := (hashes fd)[b := sha256 d]\<rparr>) b =
          Some (entered fd b d (sha256 d) c n)" "cache_inv good' (entered fd b d (sha256 d) c n)" by blast
      then show "\<exists>c n. fetch_block sha256 read_block fd p b = Some (0, entered fd b d (sha256 d) c n, p') \<and>
           cache_inv good' (entered fd b d (sha256 d) c n)"
        using 3 eq by (intro exI [of _ c] exI [of _ n]) (simp add: fetch_block_def Let_def recorded_def)
    qed
  qed
qed

lemma length_fetched:
  assumes "fuse_wf fd" "b < file_blocks fd" "length xs \<le> fetch_size fd b"
  shows "length (fetched fd b xs) = block_size fd"
  using assms fetch_size_le [OF assms(1,2)] by (auto simp: fetched_def Let_def length_overlay fuse_wf_def)

section \<open>An untrusted provider\<close>

text \<open>
  The provider may return anything, as long as no call fails and no call stores more than it was
  asked for; no data has the digest that marks a block as unread.
\<close>

definition steady :: "(byte list \<Rightarrow> byte list) \<Rightarrow> 'p read_block \<Rightarrow> bool" where
  "steady sha256 read_block \<longleftrightarrow> (\<forall>d. recorded (sha256 d)) \<and>
     (\<forall>p b n. 0 \<le> fst (read_block p b n) \<and> length (fst (snd (read_block p b n))) \<le> n)"

lemma fuse_wf_simps [simp]:
  "length d = block_size fd \<Longrightarrow> fuse_wf (fd\<lparr>block_data := d, curr_block := b\<rparr>) = fuse_wf fd"
  "length d = block_size fd \<Longrightarrow> fuse_wf (entered fd b d h c n) = fuse_wf fd"
  if "fuse_wf fd"
  using that by (auto simp: fuse_wf_def entered_def)

lemma fuse_wf_extra: "fuse_wf fd \<Longrightarrow> length xs = block_size fd \<Longrightarrow> fuse_wf (fd\<lparr>extra_block := xs\<rparr>)"
  unfolding fuse_wf_def by simp

lemma known_simps [simp]:
  "known sha256 (fd\<lparr>block_data := d, curr_block := b\<rparr>) = known sha256 fd"
  "known sha256 (fd\<lparr>extra_block := xs\<rparr>) = known sha256 fd"
  by (auto simp: known_def fun_eq_iff)

lemma cache_inv_simps [simp]:
  "cache_inv good (fd\<lparr>block_data := d, curr_block := b\<rparr>) = cache_inv good fd"
  "cache_inv good (fd\<lparr>extra_block := xs\<rparr>) = cache_inv good fd"
  by (simp_all add: cache_inv_def)

lemma known_entered:
  assumes "fuse_wf fd" "b < file_blocks fd" "\<not> recorded (hashes fd ! b)"
  shows "known sha256 fd i e \<Longrightarrow> known sha256 (entered fd b d h c n) i e"
  using assms by (cases "i = b") (auto simp: known_def entered_def fuse_wf_def split: if_splits)

lemma fetch_untrusted:
  assumes st: "steady sha256 read_block" and I: "fuse_inv sha256 fd" and "b < NO_BLOCK"
  shows "\<exists>r fd' p'. fetch_block sha256 read_block fd p b = Some (r, fd', p') \<and> fuse_inv sha256 fd' \<and> same_file fd fd' \<and>
    (\<forall>i d. known sha256 fd i d \<longrightarrow> known sha256 fd' i d) \<and> (r = 0 \<longrightarrow> known sha256 fd' b (block_data fd')) \<and> r \<noteq> NO_STATUS"
proof -
  have wf: "fuse_wf fd" and cache: "cache_inv (known sha256 fd) fd"
    and current: "curr_block fd \<noteq> NO_BLOCK \<Longrightarrow> known sha256 fd (curr_block fd) (block_data fd)"
    using I by (auto simp: fuse_inv_def)
  consider "b = curr_block fd" | "b \<noteq> curr_block fd" "file_blocks fd \<le> b" | "b \<noteq> curr_block fd" "b < file_blocks fd" by linarith
  then show ?thesis
  proof cases
    case 1
    then show ?thesis using I current assms(3) by (simp add: fetch_block_def same_file_def NO_STATUS_def)
  next
    case 2
    then show ?thesis using wf cache by (auto simp: fetch_block_def same_file_def NO_STATUS_def fuse_inv_def known_def)
  next
    case 3
    obtain r xs p' where rb: "read_block p b (fetch_size fd b) = (r, xs, p')" by (cases "read_block p b (fetch_size fd b)")
    then have ok: "0 \<le> r" "length xs \<le> fetch_size fd b" using st unfolding steady_def by (metis fst_conv snd_conv)+
    let ?d = "fetched fd b xs"
    have d: "length ?d = block_size fd" "recorded (sha256 ?d)"
      using length_fetched [OF wf 3(2) ok(2)] st by (simp_all add: steady_def)
    from wf cache 3(2,1) rb ok(1) refl d show ?thesis
    proof (cases rule: fetch_block_cases)
      case (hit e)
      then have "length e = block_size fd" by (simp add: known_def)
      with hit wf cache show ?thesis by (auto simp: fuse_inv_def same_file_def NO_STATUS_def)
    next
      case same
      then have "known sha256 fd b ?d" using d 3(2) by (simp add: known_def)
      with same d wf cache show ?thesis by (auto simp: fuse_inv_def same_file_def NO_STATUS_def)
    next
      case bad
      with d wf cache show ?thesis by (auto simp: fuse_inv_def same_file_def NO_STATUS_def EIO_status_def)
    next
      case first
      let ?k = "known sha256 (entered fd b ?d (sha256 ?d) None 0)"
      have k: "known sha256 (entered fd b ?d (sha256 ?d) c n) = ?k" for c n
        by (simp add: known_def entered_def fun_eq_iff)
      have new: "?k b ?d" using d 3(2) wf by (simp add: known_def entered_def fuse_wf_def)
      have old: "?k i e" if "known sha256 fd i e" for i e using known_entered [OF wf 3(2) first(1) that] .
      from first(2) [of ?k, OF old new] obtain c n where
        "fetch_block sha256 read_block fd p b = Some (0, entered fd b ?d (sha256 ?d) c n, p')"
        "cache_inv ?k (entered fd b ?d (sha256 ?d) c n)" by blast
      with new old k [of c n] d(1) wf show ?thesis
        by (auto simp: fuse_inv_def same_file_def NO_STATUS_def) (simp_all add: entered_def)
    qed
  qed
qed

interpretation untrusted: block_source "fetch_block sha256 read_block" "fuse_inv sha256" "known sha256" "steady sha256 read_block"
  for sha256 read_block
proof
  show "fuse_inv sha256 fd \<Longrightarrow> fuse_wf fd" for fd by (simp add: fuse_inv_def)
  show "fuse_inv sha256 fd \<Longrightarrow> length xs = block_size fd \<Longrightarrow> fuse_inv sha256 (fd\<lparr>extra_block := xs\<rparr>)" for fd xs
    by (simp add: fuse_inv_def fuse_wf_extra)
qed (simp, rule fetch_untrusted)

section \<open>Sessions\<close>

text \<open>
  What the kernel sends: the file system is mounted with \<^verbatim>\<open>max_read=block_size\<close>, and reads stay
  below the largest block number.
\<close>

definition request_ok :: "nat \<Rightarrow> fuse_in \<Rightarrow> bool" where
  "request_ok bsize req \<longleftrightarrow>
     (case hdr_op req of FUSE_READ offset sz \<Rightarrow> sz \<le> bsize \<and> offset div bsize < NO_BLOCK - 1 | _ \<Rightarrow> True)"

text \<open>The requests handled so far, with their answers, and the state reached.\<close>

inductive session ::
  "fuse_abi \<Rightarrow> (byte list \<Rightarrow> byte list) \<Rightarrow> 'p read_block \<Rightarrow> fuse_data \<Rightarrow> 'p \<Rightarrow>
     (fuse_in \<times> fuse_out list) list \<Rightarrow> fuse_data \<Rightarrow> 'p \<Rightarrow> bool"
  for abi sha256 read_block fd0 p0 where
    session_start: "session abi sha256 read_block fd0 p0 [] fd0 p0"
  | session_step: "session abi sha256 read_block fd0 p0 tr fd p \<Longrightarrow>
      handle_request abi sha256 read_block fd p req = Some (result, out, fd', p') \<Longrightarrow>
      session abi sha256 read_block fd0 p0 (tr @ [(req, map snd out)]) fd' p'"

text \<open>The answer to one request: nothing but blocks that the invariant knows.\<close>

definition answered :: "(byte list \<Rightarrow> byte list) \<Rightarrow> fuse_data \<Rightarrow> fuse_in \<Rightarrow> fuse_out list \<Rightarrow> bool" where
  "answered sha256 fd req out \<longleftrightarrow> (\<forall>offset sz xs. hdr_op req = FUSE_READ offset sz \<and> ReadOut xs \<in> set out \<longrightarrow>
     cut_out (known sha256 fd) (block_size fd) offset sz xs)"

lemma cut_out_mono: "cut_out good bsize offset sz xs \<Longrightarrow> (\<And>i d. good i d \<Longrightarrow> good' i d) \<Longrightarrow> cut_out good' bsize offset sz xs"
  unfolding cut_out_def by blast

lemma handle_request_untrusted:
  assumes "steady sha256 read_block" "fuse_inv sha256 fd" "request_ok (block_size fd) req"
  shows "\<exists>result out fd' p'. handle_request abi sha256 read_block fd p req = Some (result, out, fd', p') \<and> fuse_inv sha256 fd' \<and>
    block_size fd' = block_size fd \<and> (\<forall>i d. known sha256 fd i d \<longrightarrow> known sha256 fd' i d) \<and> answered sha256 fd' req (map snd out)"
proof (cases "\<exists>offset sz. hdr_op req = FUSE_READ offset sz \<and> hdr_nodeid req = PACKAGE_FILE_ID abi")
  case True
  then obtain offset sz where op: "hdr_op req = FUSE_READ offset sz" "hdr_nodeid req = PACKAGE_FILE_ID abi" by blast
  then have "sz \<le> block_size fd" "offset div block_size fd < NO_BLOCK - 1" using assms(3) by (simp_all add: request_ok_def)
  from untrusted.read_range_correct [OF assms(1,2) this, of p] obtain r outs fd' p' where rr:
    "read_range (fetch_block sha256 read_block) fd p offset sz = Some (r, outs, fd', p')" "fuse_inv sha256 fd'" "block_size fd' = block_size fd"
    "\<forall>i d. known sha256 fd i d \<longrightarrow> known sha256 fd' i d"
    "if r = NO_STATUS then \<exists>xs. outs = [ReadOut xs] \<and> cut_out (known sha256 fd') (block_size fd) offset sz xs
     else outs = [] \<and> (\<exists>fd1 p1 b fd2 p2. fuse_inv sha256 fd1 \<and> b < NO_BLOCK \<and> fetch_block sha256 read_block fd1 p1 b = Some (r, fd2, p2) \<and> r \<noteq> 0)"
    by blast
  then show ?thesis
    using op by (auto simp: handle_request_def handle_read_def answered_def split: if_splits)
next
  case False
  then have "\<exists>result out. handle_request abi sha256 read_block fd p req = Some (result, out, fd, p)"
    by (cases "hdr_op req") (auto simp: handle_request_def handle_read_def case_prod_beta)
  moreover have "ReadOut xs \<notin> set (map snd out)" if "handle_request abi sha256 read_block fd p req = Some (result, out, fd, p)" for result out xs
    using that False
    by (auto simp: handle_request_def handle_read_def handle_init_def handle_lookup_def handle_getattr_def handle_open_def Let_def split: fuse_op.splits if_splits)
  ultimately show ?thesis using assms(2) unfolding answered_def by fastforce
qed

lemma session_invariant:
  assumes "session abi sha256 read_block fd0 p0 tr fd p" "steady sha256 read_block" "fuse_inv sha256 fd0"
    and "\<forall>(req, out) \<in> set tr. request_ok (block_size fd0) req"
  shows "fuse_inv sha256 fd \<and> block_size fd = block_size fd0 \<and> (\<forall>(req, out) \<in> set tr. answered sha256 fd req out)"
  using assms(1,4)
proof (induction rule: session.induct)
  case session_start
  then show ?case using assms(3) by simp
next
  case (session_step tr fd p req result out fd' p')
  then have I: "fuse_inv sha256 fd" "block_size fd = block_size fd0" "\<forall>(req, out) \<in> set tr. answered sha256 fd req out"
    and ok: "request_ok (block_size fd) req" by auto
  from handle_request_untrusted [OF assms(2) I(1) ok, of abi p] session_step.hyps(2) have
    r: "fuse_inv sha256 fd'" "block_size fd' = block_size fd" "\<forall>i d. known sha256 fd i d \<longrightarrow> known sha256 fd' i d" "answered sha256 fd' req (map snd out)"
    by auto
  have "answered sha256 fd' q o'" if "answered sha256 fd q o'" for q o'
    using that r(2,3) unfolding answered_def by (metis cut_out_mono)
  then show ?case using r I by auto
qed

text \<open>Two answers for the same place come from blocks with the same digests.\<close>

lemma known_unique: "known sha256 fd b d \<Longrightarrow> known sha256 fd b d' \<Longrightarrow> sha256 d = sha256 d'"
  by (auto simp: known_def split: if_splits)

lemma cut_out_unique:
  assumes "cut_out (known sha256 fd) bsize offset sz xs" "cut_out (known sha256 fd) bsize offset sz ys"
  shows "\<exists>d0 d1 e0 e1. length d0 = bsize \<and> length d1 = bsize \<and> length e0 = bsize \<and> length e1 = bsize \<and>
    xs = take sz (drop (offset mod bsize) (d0 @ d1)) \<and> ys = take sz (drop (offset mod bsize) (e0 @ e1)) \<and>
    sha256 d0 = sha256 e0 \<and> sha256 d1 = sha256 e1"
proof -
  obtain d0 d1 where x: "known sha256 fd (offset div bsize) d0" "length d0 = bsize" "length d1 = bsize"
    "offset mod bsize + sz \<le> bsize \<or> known sha256 fd (offset div bsize + 1) d1" "xs = take sz (drop (offset mod bsize) (d0 @ d1))"
    using assms(1) unfolding cut_out_def by blast
  obtain e0 e1 where y: "known sha256 fd (offset div bsize) e0" "length e0 = bsize" "length e1 = bsize"
    "offset mod bsize + sz \<le> bsize \<or> known sha256 fd (offset div bsize + 1) e1" "ys = take sz (drop (offset mod bsize) (e0 @ e1))"
    using assms(2) unfolding cut_out_def by blast
  note k = known_unique [OF x(1) y(1)]
  show ?thesis
  proof (cases "offset mod bsize + sz \<le> bsize")
    case True
    then have "ys = take sz (drop (offset mod bsize) (e0 @ d1))" using y by simp
    then show ?thesis using x(2,3,5) y(2) k by blast
  next
    case False
    then show ?thesis using x(2-5) y(2-5) k known_unique by blast
  qed
qed

lemma serve_session:
  assumes "session abi sha256 read_block fd0 p0 tr fd p"
    and "serve abi sha256 read_block evs r fd p outs = Some (r', outs', fd', p')"
  shows "\<exists>tr'. session abi sha256 read_block fd0 p0 (tr @ tr') fd' p' \<and> map snd outs' = map snd outs @ concat (map snd tr') \<and>
    set (map fst tr') \<subseteq> {req. Request req \<in> set evs}"
  using assms
proof (induction evs arbitrary: r fd p outs tr)
  case Nil
  then show ?case by (intro exI [of _ "[]"]) auto
next
  case (Cons ev evs)
  consider (turn) req r1 out fd1 p1 where "ev = Request req"
      "handle_request abi sha256 read_block fd p req = Some (r1, out, fd1, p1)"
      "serve abi sha256 read_block evs r1 fd1 p1 (outs @ out) = Some (r', outs', fd', p')"
    | (skip) "serve abi sha256 read_block evs r fd p outs = Some (r', outs', fd', p')"
    | (leave) "fd' = fd" "p' = p" "outs' = outs"
    using Cons.prems(2) by (auto split: kernel_event.splits if_splits option.splits)
  then show ?case
  proof cases
    case turn
    from Cons.IH [OF session_step [OF Cons.prems(1) turn(2)] turn(3)] obtain tr' where
      "session abi sha256 read_block fd0 p0 ((tr @ [(req, map snd out)]) @ tr') fd' p'"
      "map snd outs' = map snd (outs @ out) @ concat (map snd tr')" "set (map fst tr') \<subseteq> {req. Request req \<in> set evs}" by blast
    then show ?thesis using turn(1) by (intro exI [of _ "(req, map snd out) # tr'"]) auto
  next
    case skip
    from Cons.IH [OF Cons.prems(1) skip] show ?thesis by auto
  next
    case leave
    then show ?thesis using Cons.prems(1) by (intro exI [of _ "[]"]) auto
  qed
qed


section \<open>An honest provider\<close>

text \<open>Block \<open>b\<close> of the file \<open>F\<close>, padded with zeros.\<close>

definition file_block :: "byte list \<Rightarrow> nat \<Rightarrow> nat \<Rightarrow> byte list" where
  "file_block F bsize b = (let d = take bsize (drop (b * bsize) F) in d @ replicate (bsize - length d) 0)"

definition honest :: "(byte list \<Rightarrow> byte list) \<Rightarrow> byte list \<Rightarrow> nat \<Rightarrow> 'p read_block \<Rightarrow> bool" where
  "honest sha256 F bsize read_block \<longleftrightarrow> (\<forall>d. recorded (sha256 d)) \<and> length F < 2 ^ 32 \<and>
     (\<forall>p b n. b * bsize + n \<le> length F \<longrightarrow> (\<exists>p'. read_block p b n = (0, take n (drop (b * bsize) F), p')))"

definition honest_inv :: "(byte list \<Rightarrow> byte list) \<Rightarrow> byte list \<Rightarrow> nat \<Rightarrow> fuse_data \<Rightarrow> bool" where
  "honest_inv sha256 F bsize fd \<longleftrightarrow> fuse_wf fd \<and> file_size fd = length F \<and> block_size fd = bsize \<and>
     (curr_block fd \<noteq> NO_BLOCK \<longrightarrow> block_data fd = file_block F bsize (curr_block fd)) \<and>
     cache_inv (\<lambda>b d. d = file_block F bsize b) fd \<and>
     (\<forall>b < file_blocks fd. recorded (hashes fd ! b) \<longrightarrow> hashes fd ! b = sha256 (file_block F bsize b))"

lemma length_file_block [simp]: "length (file_block F bsize b) = bsize"
  by (auto simp: file_block_def Let_def)

text \<open>The number of bytes asked for is right as long as the products do not wrap.\<close>

lemma fetch_size_exact:
  assumes "fuse_wf fd" "b < file_blocks fd" "file_size fd < 2 ^ 32"
  shows "fetch_size fd b = min (block_size fd) (file_size fd - b * block_size fd)"
proof -
  have "b * block_size fd < file_size fd" using block_start_less [OF assms(1,2)] .
  moreover from this have "u32 (b * block_size fd) = b * block_size fd" using assms(3) by (intro u32_small) simp
  ultimately show ?thesis by (auto simp: fetch_size_def Let_def size_sub_def)
qed

lemma fetched_file_block:
  assumes "fuse_wf fd" "b < file_blocks fd" "file_size fd = length F" "length F < 2 ^ 32"
  shows "fetched fd b (take (fetch_size fd b) (drop (b * block_size fd) F)) = file_block F (block_size fd) b"
proof -
  let ?n = "fetch_size fd b" and ?bs = "block_size fd"
  have n: "?n = min ?bs (length F - b * ?bs)" using fetch_size_exact [OF assms(1,2)] assms(3,4) by simp
  have len: "length (block_data fd) = ?bs" using assms(1) by (simp add: fuse_wf_def)
  have "take ?bs (drop (b * ?bs) F) = take ?n (drop (b * ?bs) F)" by (simp add: n min_def)
  then show ?thesis
    using len n by (auto simp: fetched_def file_block_def Let_def overlay_def min_def)
qed

lemma file_block_beyond:
  assumes "fuse_wf fd" "file_size fd = length F" "file_blocks fd \<le> b"
  shows "file_block F (block_size fd) b = replicate (block_size fd) 0"
proof -
  have "length F \<le> b * block_size fd"
  proof (cases "length F")
    case (Suc m)
    then have "m div block_size fd + 1 \<le> b" "0 < block_size fd" using assms by (auto simp: fuse_wf_def split: if_splits)
    then have "m < b * block_size fd" by (simp flip: div_less_iff_less_mult)
    then show ?thesis using Suc by simp
  qed simp
  then show ?thesis by (simp add: file_block_def)
qed

lemma fetch_honest:
  assumes "honest sha256 F bsize read_block" "honest_inv sha256 F bsize fd" "b < NO_BLOCK"
  shows "\<exists>fd' p'. fetch_block sha256 read_block fd p b = Some (0, fd', p') \<and> honest_inv sha256 F bsize fd' \<and> same_file fd fd' \<and>
    block_data fd' = file_block F bsize b"
proof -
  have wf: "fuse_wf fd" "file_size fd = length F" "block_size fd = bsize"
    and cache: "cache_inv (\<lambda>b d. d = file_block F bsize b) fd"
    and hs: "\<And>b. b < file_blocks fd \<Longrightarrow> recorded (hashes fd ! b) \<Longrightarrow> hashes fd ! b = sha256 (file_block F bsize b)"
    and current: "curr_block fd \<noteq> NO_BLOCK \<Longrightarrow> block_data fd = file_block F bsize (curr_block fd)"
    using assms(2) by (auto simp: honest_inv_def)
  consider "b = curr_block fd" | "b \<noteq> curr_block fd" "file_blocks fd \<le> b" | "b \<noteq> curr_block fd" "b < file_blocks fd" by linarith
  then show ?thesis
  proof cases
    case 1
    then show ?thesis using assms(2,3) current by (simp add: fetch_block_def same_file_def)
  next
    case 2
    then show ?thesis using assms(2) file_block_beyond [OF wf(1,2) 2(2)] wf
      by (auto simp: fetch_block_def same_file_def honest_inv_def)
  next
    case 3
    let ?n = "fetch_size fd b" and ?d = "file_block F bsize b"
    have F: "length F < 2 ^ 32" "recorded (sha256 ?d)" using assms(1) by (simp_all add: honest_def)
    have "b * bsize + ?n \<le> length F"
      using fetch_size_exact [OF wf(1) 3(2)] block_start_less [OF wf(1) 3(2)] wf(2,3) F(1) by simp
    then obtain p' where rb: "read_block p b ?n = (0, take ?n (drop (b * bsize) F), p')" using assms(1) unfolding honest_def by blast
    have d: "?d = fetched fd b (take ?n (drop (b * bsize) F))" using fetched_file_block [OF wf(1) 3(2) wf(2) F(1)] wf(3) by simp
    have len: "length ?d = block_size fd" using wf(3) by simp
    from wf(1) cache 3(2,1) rb order_refl d len F(2) show ?thesis
    proof (cases rule: fetch_block_cases)
      case (hit e)
      then show ?thesis using assms(2) wf by (auto simp: honest_inv_def same_file_def)
    next
      case same
      then show ?thesis using assms(2) wf by (auto simp: honest_inv_def same_file_def)
    next
      case bad
      then show ?thesis using hs [OF 3(2)] by simp
    next
      case first
      from first(2) [of "\<lambda>b d. d = file_block F bsize b"] obtain c n where
        f: "fetch_block sha256 read_block fd p b = Some (0, entered fd b ?d (sha256 ?d) c n, p')"
        "cache_inv (\<lambda>b d. d = file_block F bsize b) (entered fd b ?d (sha256 ?d) c n)" by blast
      have "(hashes fd)[b := sha256 ?d] ! i = sha256 (file_block F bsize i)"
        if "i < file_blocks fd" "recorded ((hashes fd)[b := sha256 ?d] ! i)" for i
        using that hs wf(1) by (cases "i = b") (auto simp: fuse_wf_def)
      then have "honest_inv sha256 F bsize (entered fd b ?d (sha256 ?d) c n)"
        using f(2) wf by (auto simp: honest_inv_def) (auto simp: entered_def)
      with f(1) show ?thesis by (auto simp: same_file_def entered_def)
    qed
  qed
qed

interpretation honest: reliable_source "fetch_block sha256 read_block" "honest_inv sha256 F bsize"
    "\<lambda>fd b d. d = file_block F bsize b" "honest sha256 F bsize read_block"
  for sha256 read_block F bsize
proof
  show "honest_inv sha256 F bsize fd \<Longrightarrow> fuse_wf fd" for fd by (simp add: honest_inv_def)
  show "honest_inv sha256 F bsize fd \<Longrightarrow> length xs = block_size fd \<Longrightarrow> honest_inv sha256 F bsize (fd\<lparr>extra_block := xs\<rparr>)" for fd xs
    unfolding honest_inv_def by (simp add: fuse_wf_extra)
next
  fix fd b and p :: 'a
  assume "honest sha256 F bsize read_block" "honest_inv sha256 F bsize fd" "b < NO_BLOCK"
  from fetch_honest [OF this, of p] show
    "\<exists>r fd' p'. fetch_block sha256 read_block fd p b = Some (r, fd', p') \<and> honest_inv sha256 F bsize fd' \<and> same_file fd fd' \<and>
      (\<forall>i d. d = file_block F bsize i \<longrightarrow> d = file_block F bsize i) \<and> (r = 0 \<longrightarrow> block_data fd' = file_block F bsize b) \<and> r \<noteq> NO_STATUS"
    by (auto simp: NO_STATUS_def)
next
  fix fd b r fd' and p p' :: 'a
  assume "honest sha256 F bsize read_block" "honest_inv sha256 F bsize fd" "b < NO_BLOCK"
    "fetch_block sha256 read_block fd p b = Some (r, fd', p')"
  then show "r = 0" using fetch_honest [of sha256 F bsize read_block fd b p] by auto
qed simp

text \<open>The file seen by a reader: zero beyond its end.\<close>

definition file_byte :: "byte list \<Rightarrow> nat \<Rightarrow> byte" where
  "file_byte F i = (if i < length F then F ! i else 0)"

lemma file_block_bytes: "file_block F bsize b = map (file_byte F) [b * bsize..<b * bsize + bsize]"
  by (rule nth_equalityI) (auto simp: file_block_def Let_def file_byte_def nth_append)

lemma cut_out_file:
  assumes "cut_out (\<lambda>b d. d = file_block F bsize b) bsize offset sz xs" "sz \<le> bsize" "0 < bsize"
  shows "xs = map (file_byte F) [offset..<offset + sz]"
proof -
  let ?b = "offset div bsize" and ?o = "offset mod bsize"
  let ?f = "file_byte F"
  have off: "offset = ?b * bsize + ?o" "?o < bsize" using assms(3) by simp_all
  obtain d1 where d1: "?o + sz \<le> bsize \<or> d1 = file_block F bsize (?b + 1)" "length d1 = bsize"
    "xs = take sz (drop ?o (file_block F bsize ?b @ d1))"
    using assms(1) unfolding cut_out_def by blast
  have two: "file_block F bsize ?b @ file_block F bsize (?b + 1) = map ?f [?b * bsize..<?b * bsize + bsize + bsize]"
  proof -
    have "(?b + 1) * bsize = ?b * bsize + bsize" by simp
    moreover have "[?b * bsize..<?b * bsize + bsize + bsize] = [?b * bsize..<?b * bsize + bsize] @ [?b * bsize + bsize..<?b * bsize + bsize + bsize]"
      by (rule upt_add_eq_append) simp
    ultimately show ?thesis unfolding file_block_bytes by (simp only: map_append)
  qed
  have "xs = take sz (drop ?o (file_block F bsize ?b @ file_block F bsize (?b + 1)))"
    using d1 off(2) by auto
  also have "\<dots> = map ?f [offset..<offset + sz]"
  proof -
    have "offset + sz \<le> ?b * bsize + bsize + bsize" using off assms(2) by linarith
    then show ?thesis unfolding two by (simp add: drop_map take_map take_upt)
  qed
  finally show ?thesis .
qed

section \<open>The state after setting up\<close>

lemma sideload_setup_wf:
  assumes "sideload_setup mem fsize bsize uid gid buf1 buf2 = Some fd" "fsize < 2 ^ 43"
    and "length buf1 = bsize" "length buf2 = bsize"
  shows "fuse_wf fd" "block_size fd = bsize" "file_size fd = fsize" "curr_block fd = NO_BLOCK"
    "cache_inv good fd" "b < file_blocks fd \<Longrightarrow> \<not> recorded (hashes fd ! b)"
proof -
  have bs: "4096 \<le> bsize" "bsize \<le> 2 ^ 22" using assms(1) by (auto simp: sideload_setup_def split: if_splits)
  have "(fsize - 1) div bsize \<le> (fsize - 1) div 4096" using bs(1) by (rule div_le_mono2 [rotated]) simp
  also have "\<dots> < 2 ^ 31" using assms(2) by (simp add: div_less_iff_less_mult)
  finally have u: "u32 ((fsize - 1) div bsize + 1) = (fsize - 1) div bsize + 1" by (intro u32_small) simp
  obtain blocks where blocks: "blocks = (if fsize = 0 then 0 else (fsize - 1) div bsize + 1)" by blast
  obtain msize c where fd: "blocks \<le> 2 ^ 18" "fd = \<lparr>file_size = fsize, block_size = bsize, file_blocks = blocks, fuse_uid = uid, fuse_gid = gid,
      curr_block = NO_BLOCK, block_data = buf1, extra_block = buf2, hashes = replicate blocks (replicate 32 0),
      block_cache_max_size = msize, block_cache_size = 0, block_cache = c\<rparr>" "c = None \<or> c = Some (replicate blocks None) \<and> 0 < msize"
    using assms(1) bs unfolding sideload_setup_def Let_def u blocks [symmetric] by (auto split: if_splits)
  show "fuse_wf fd" using bs fd assms(3,4) unfolding fuse_wf_def blocks by simp
  show "block_size fd = bsize" "file_size fd = fsize" "curr_block fd = NO_BLOCK" using fd(2) by simp_all
  have "cached (replicate blocks None) = {}" by (auto simp: cached_def)
  then show "cache_inv good fd" using fd(2,3) by (auto simp: cache_inv_def)
  show "b < file_blocks fd \<Longrightarrow> \<not> recorded (hashes fd ! b)" using fd(2) by (simp add: recorded_def)
qed

lemma sideload_setup_inv:
  assumes "sideload_setup mem fsize bsize uid gid buf1 buf2 = Some fd" "fsize < 2 ^ 43"
    and "length buf1 = bsize" "length buf2 = bsize"
  shows "fuse_inv sha256 fd" "fsize = length F \<Longrightarrow> honest_inv sha256 F bsize fd"
  using sideload_setup_wf [OF assms] by (auto simp: fuse_inv_def honest_inv_def)

lemma handle_read_honest:
  assumes "honest sha256 F bsize read_block" "honest_inv sha256 F bsize fd"
    and "sz \<le> bsize" "offset div bsize < NO_BLOCK - 1"
  shows "\<exists>fd' p'. handle_read abi sha256 read_block fd p (PACKAGE_FILE_ID abi) offset sz =
      Some (NO_STATUS, [ReadOut (map (file_byte F) [offset..<offset + sz])], fd', p') \<and> honest_inv sha256 F bsize fd'"
proof -
  have bs: "block_size fd = bsize" "0 < bsize" using assms(2) by (auto simp: honest_inv_def fuse_wf_def)
  obtain xs fd' p' where "read_range (fetch_block sha256 read_block) fd p offset sz = Some (NO_STATUS, [ReadOut xs], fd', p')"
    "honest_inv sha256 F bsize fd'" "cut_out (\<lambda>b d. d = file_block F bsize b) bsize offset sz xs"
    using honest.read_range_reliable [OF assms(1,2), of sz offset p] assms(3,4) bs(1) by blast
  then show ?thesis using cut_out_file [OF _ assms(3) bs(2)] by (auto simp: handle_read_def)
qed

section \<open>Properties\<close>

text \<open>
  C23.  The package a sideload shows to recovery cannot change under its feet: whatever data the
  provider sends, two reads of the same place in one session return bytes cut out of blocks with
  the same digests, hence the same bytes unless the provider has found a collision.  Assumptions: no call of
  the provider fails, no data has the all-zero digest, and the kernel keeps to the read size the
  file system was mounted with.
\<close>

theorem sideload_no_equivocation:
  assumes "sideload_setup mem fsize bsize uid gid buf1 buf2 = Some fd0" "fsize < 2 ^ 43"
    and "length buf1 = bsize" "length buf2 = bsize" "steady sha256 read_block"
    and "session abi sha256 read_block fd0 p0 tr fd p" "\<forall>(req, out) \<in> set tr. request_ok bsize req"
    and "(req1, [ReadOut xs]) \<in> set tr" "(req2, [ReadOut ys]) \<in> set tr"
    and "hdr_op req1 = FUSE_READ offset sz" "hdr_op req2 = FUSE_READ offset sz"
  shows "\<exists>d0 d1 e0 e1. length d0 = bsize \<and> length d1 = bsize \<and> length e0 = bsize \<and> length e1 = bsize \<and>
    xs = take sz (drop (offset mod bsize) (d0 @ d1)) \<and> ys = take sz (drop (offset mod bsize) (e0 @ e1)) \<and>
    sha256 d0 = sha256 e0 \<and> sha256 d1 = sha256 e1"
proof -
  note init = sideload_setup_inv(1) [OF assms(1-4)] sideload_setup_wf(2) [OF assms(1-4)]
  have I: "\<forall>(req, out) \<in> set tr. answered sha256 fd req out" "block_size fd = bsize"
    using session_invariant [OF assms(6,5) init(1)] assms(7) init(2) by simp_all
  have "answered sha256 fd req1 [ReadOut xs]" "answered sha256 fd req2 [ReadOut ys]" using I(1) assms(8,9) by auto
  then have "cut_out (known sha256 fd) (block_size fd) offset sz xs" "cut_out (known sha256 fd) (block_size fd) offset sz ys"
    using assms(10,11) by (simp_all add: answered_def)
  then show ?thesis using cut_out_unique unfolding I(2) by blast
qed


text \<open>
  C24.  With a provider that serves the blocks of a file of less than 4 GiB, a read returns exactly
  the bytes of the file at that place, and zeros beyond its end, in every state such reads can
  lead to.
\<close>

theorem sideload_read_exact:
  assumes "honest sha256 F bsize read_block" "honest_inv sha256 F bsize fd"
    and "sz \<le> bsize" "offset div bsize < NO_BLOCK - 1"
  shows "\<exists>fd' p'. handle_read abi sha256 read_block fd p (PACKAGE_FILE_ID abi) offset sz =
      Some (NO_STATUS, [ReadOut (map (file_byte F) [offset..<offset + sz])], fd', p') \<and> honest_inv sha256 F bsize fd'"
  using assms by (rule handle_read_honest)

text \<open>
  C26.  How many bytes of a block are asked from the provider: the rest of the file, at most a
  block, as long as the file is smaller than 4 GiB.  For the last block of a larger file the
  product of block number and block size wraps, and a full block is asked for although the file
  ends before.
\<close>

theorem fetch_size_wraps:
  assumes "fuse_wf fd" "b < file_blocks fd"
  shows "(file_size fd < 2 ^ 32 \<longrightarrow> fetch_size fd b = min (block_size fd) (file_size fd - b * block_size fd)) \<and>
    (2 ^ 32 \<le> b * block_size fd \<longrightarrow> fetch_size fd b = block_size fd)"
proof (intro conjI impI)
  show "fetch_size fd b = min (block_size fd) (file_size fd - b * block_size fd)" if "file_size fd < 2 ^ 32"
    using fetch_size_exact [OF assms that] .
  assume "2 ^ 32 \<le> b * block_size fd"
  then have "u32 (b * block_size fd) + 2 ^ 32 \<le> b * block_size fd"
    unfolding u32_def by (metis add.commute le_add_diff_inverse mod_add_self2 mod_less_eq_dividend nat_add_left_cancel_le)
  moreover have "block_size fd \<le> 2 ^ 22" using assms(1) by (simp add: fuse_wf_def)
  ultimately have "\<not> file_size fd < u32 (b * block_size fd) + block_size fd"
    using block_start_less [OF assms] by simp
  then show "fetch_size fd b = block_size fd" by (simp add: fetch_size_def Let_def)
qed

text \<open>
  C27.  A failing call of the provider for the last, partial block spoils the block read before: the
  buffer has already been padded (and possibly filled in part), but \<^verbatim>\<open>curr_block\<close> still names the
  old block, so the next read of that block succeeds with data that was never checked.
\<close>

theorem failed_fetch_spoils_current:
  assumes "block_cache fd = None" "b < file_blocks fd" "b \<noteq> curr_block fd" "length (block_data fd) = block_size fd"
    and "fetch_size fd b < block_size fd" "read_block p b (fetch_size fd b) = (EIO_status, [], p')"
  shows "\<exists>fd'. fetch_block sha256 read_block fd p b = Some (EIO_status, fd', p') \<and>
    fetch_block sha256 read_block fd' p' (curr_block fd) = Some (0, fd', p') \<and>
    block_data fd' = take (fetch_size fd b) (block_data fd) @ replicate (block_size fd - fetch_size fd b) 0"
  using assms by (auto simp: fetch_block_def block_cache_fetch_def Let_def EIO_status_def overlay_def)

section \<open>A sample session\<close>

text \<open>A file of two blocks and a byte, and a provider that serves it.\<close>

definition sample_file :: "byte list" where
  "sample_file = replicate 8192 7 @ [9]"

definition sample_provider :: "unit read_block" where
  "sample_provider p b n = (0, take n (drop (b * 4096) sample_file), p)"

definition sample_sha256 :: "byte list \<Rightarrow> byte list" where
  "sample_sha256 d = 1 # d"

definition sample_abi :: fuse_abi where
  "sample_abi = \<lparr>FUSE_ROOT_ID = 1, FUSE_KERNEL_VERSION = 7, FUSE_KERNEL_MINOR_VERSION = 23,
     FUSE_COMPAT_22_INIT_OUT_SIZE = Some 24, sizeof_fuse_init_out = 64\<rparr>"

lemma sample_id: "PACKAGE_FILE_ID sample_abi = 2"
  by (simp add: PACKAGE_FILE_ID_def sample_abi_def)

definition sample_buffer :: "byte list" where
  "sample_buffer = replicate 4096 0"

definition sample_fuse :: fuse_data where
  "sample_fuse = \<lparr>file_size = 8193, block_size = 4096, file_blocks = 3, fuse_uid = 0, fuse_gid = 0, curr_block = NO_BLOCK,
     block_data = sample_buffer, extra_block = sample_buffer, hashes = replicate 3 (replicate 32 0),
     block_cache_max_size = 3, block_cache_size = 0, block_cache = Some (replicate 3 None)\<rparr>"

lemma length_sample_buffer [simp]: "length sample_buffer = 4096"
  by (simp add: sample_buffer_def)

lemma sample_setup: "sideload_setup (2 ^ 30) 8193 4096 0 0 sample_buffer sample_buffer = Some sample_fuse"
  by (simp add: sideload_setup_def sample_fuse_def u32_def size_sub_def INSTALL_REQUIRED_MEMORY_def Let_def)

lemma sample_provider_ok: "steady sample_sha256 sample_provider" "honest sample_sha256 sample_file 4096 sample_provider"
proof -
  have "recorded (sample_sha256 d)" for d by (simp add: sample_sha256_def recorded_def)
  moreover have "length (take n xs) \<le> n" for n and xs :: "byte list" by simp
  ultimately show "steady sample_sha256 sample_provider" "honest sample_sha256 sample_file 4096 sample_provider"
    by (simp_all add: steady_def honest_def sample_provider_def) (simp add: sample_file_def)
qed

lemma sample_fuse_inv: "honest_inv sample_sha256 sample_file 4096 sample_fuse"
  using sideload_setup_inv(2) [OF sample_setup] by (simp add: sample_file_def)

definition sample_read :: fuse_in where
  "sample_read = \<lparr>hdr_unique = 5, hdr_nodeid = 2, hdr_op = FUSE_READ 4094 4\<rparr>"

lemma sample_read_ok: "request_ok 4096 sample_read"
  by (simp add: request_ok_def sample_read_def NO_BLOCK_def)

lemma sample_answer:
  assumes "honest_inv sample_sha256 sample_file 4096 fd"
  shows "\<exists>fd'. handle_request sample_abi sample_sha256 sample_provider fd () sample_read =
      Some (NO_STATUS, [(5, ReadOut ([7, 7, 7, 7]))], fd', ()) \<and> honest_inv sample_sha256 sample_file 4096 fd'"
proof -
  have "map (file_byte sample_file) [4094..<4094 + 4] = [7, 7, 7, 7]"
    by (simp add: upt_rec file_byte_def sample_file_def nth_append)
  then show ?thesis
    using handle_read_honest [OF sample_provider_ok(2) assms, of 4 4094 sample_abi "()"]
    by (auto simp: handle_request_def sample_read_def sample_id NO_BLOCK_def)
qed

theorem sideload_no_equivocation_witness:
  "\<exists>xs ys fd. session sample_abi sample_sha256 sample_provider sample_fuse () [(sample_read, [ReadOut xs]), (sample_read, [ReadOut ys])] fd () \<and>
    xs = ys"
proof -
  obtain fd1 fd2 where h: "handle_request sample_abi sample_sha256 sample_provider sample_fuse () sample_read =
      Some (NO_STATUS, [(5, ReadOut ([7, 7, 7, 7]))], fd1, ())"
    "handle_request sample_abi sample_sha256 sample_provider fd1 () sample_read =
      Some (NO_STATUS, [(5, ReadOut ([7, 7, 7, 7]))], fd2, ())"
    using sample_answer [OF sample_fuse_inv] sample_answer by blast
  let ?r = "(sample_read, [ReadOut ([7, 7, 7, 7])])"
  have s: "session sample_abi sample_sha256 sample_provider sample_fuse () [?r, ?r] fd2 ()"
    using session_step [OF session_step [OF session_start h(1)] h(2)] by simp
  have "\<exists>d0 d1 e0 e1. length d0 = 4096 \<and> length d1 = 4096 \<and> length e0 = 4096 \<and> length e1 = 4096 \<and>
    snd ?r = [ReadOut (take 4 (drop (4094 mod 4096) (d0 @ d1)))] \<and> snd ?r = [ReadOut (take 4 (drop (4094 mod 4096) (e0 @ e1)))] \<and>
    sample_sha256 d0 = sample_sha256 e0 \<and> sample_sha256 d1 = sample_sha256 e1"
    using sideload_no_equivocation [OF sample_setup _ _ _ sample_provider_ok(1) s, of sample_read _ sample_read _ 4094 4] sample_read_ok
    by (simp add: sample_read_def)
  with s show ?thesis by auto
qed


theorem sideload_read_exact_witness:
  "\<exists>fd'. handle_read sample_abi sample_sha256 sample_provider sample_fuse () 2 8190 5 =
     Some (NO_STATUS, [ReadOut [7, 7, 9, 0, 0]], fd', ())"
proof -
  have "map (file_byte sample_file) [8190..<8190 + 5] = [7, 7, 9, 0, 0]"
    by (simp add: upt_rec file_byte_def sample_file_def nth_append)
  then show ?thesis
    using sideload_read_exact [OF sample_provider_ok(2) sample_fuse_inv, of 5 8190 sample_abi "()"]
    by (auto simp: sample_id NO_BLOCK_def)
qed

text \<open>A file of 4 GiB and one byte.\<close>

definition sample_large :: fuse_data where
  "sample_large = sample_fuse\<lparr>file_size := 2 ^ 32 + 1, block_size := 2 ^ 16, file_blocks := 2 ^ 16 + 1,
     block_data := replicate (2 ^ 16) 0, extra_block := replicate (2 ^ 16) 0, hashes := replicate (2 ^ 16 + 1) []\<rparr>"

theorem fetch_size_wraps_witness:
  "fetch_size sample_large (2 ^ 16) = 2 ^ 16 \<and> fetch_size sample_fuse 2 = 1"
proof -
  have "fuse_wf sample_large" unfolding fuse_wf_def sample_large_def by simp
  from fetch_size_wraps [OF this, of "2 ^ 16"] have "fetch_size sample_large (2 ^ 16) = 2 ^ 16"
    by (simp add: sample_large_def)
  moreover have "fuse_wf sample_fuse" using sample_fuse_inv by (simp add: honest_inv_def)
  from fetch_size_wraps [OF this, of 2] have "fetch_size sample_fuse 2 = 1" by (simp add: sample_fuse_def)
  ultimately show ?thesis by simp
qed

theorem failed_fetch_spoils_current_witness:
  "\<exists>fd'. fetch_block sample_sha256 (\<lambda>p b n. (EIO_status, [], p)) (sample_fuse\<lparr>block_cache := None, block_data := replicate 4096 7, curr_block := 0\<rparr>) () 2 =
      Some (EIO_status, fd', ()) \<and>
    fetch_block sample_sha256 (\<lambda>p b n. (EIO_status, [], p)) fd' () 0 = Some (0, fd', ()) \<and>
    block_data fd' = 7 # replicate 4095 0"
proof -
  let ?fd = "sample_fuse\<lparr>block_cache := None, block_data := replicate 4096 7, curr_block := 0\<rparr>"
  have n: "fetch_size ?fd 2 = 1" by (simp add: fetch_size_def sample_fuse_def u32_def size_sub_def)
  have "take 1 (block_data ?fd) = [7]" by (simp add: numeral_eq_Suc)
  then show ?thesis
    using failed_fetch_spoils_current [of ?fd 2 "\<lambda>p b n. (EIO_status, [], p)" "()" "()" sample_sha256] n
    by (simp add: sample_fuse_def)
qed

end
