(* ===== verification/Boot_Message.thy ===== *)
theory Boot_Message
  imports Patching
begin

text \<open>
  The message by which the system, recovery and the bootloader talk to each other
  (\<^verbatim>\<open>bootloader_message.cpp\<close>), on the \<^verbatim>\<open>misc\<close> partition, and the use recovery makes of it
  (\<^verbatim>\<open>get_args\<close> and the functions that set the message in \<^verbatim>\<open>recovery.cpp\<close>).

  Parameters are the fstab entry of \<^verbatim>\<open>/misc\<close>, the file helpers of android-base, the mount function
  and the offset that the build sets.  A function that returns \<^verbatim>\<open>false\<close> with a message in
  \<^verbatim>\<open>err\<close> returns \<open>Inl err\<close>.
\<close>

section \<open>Text in arrays of characters\<close>

definition NUL :: char where
  "NUL = CHR 0x00"

definition NL :: char where
  "NL = CHR 0x0A"

definition text_of :: "byte list \<Rightarrow> string" where
  "text_of = map (\<lambda>b. char_of (unat b))"

text \<open>\<^verbatim>\<open>memcpy\<close> into an array of fixed size.\<close>

definition store :: "nat \<Rightarrow> string \<Rightarrow> string \<Rightarrow> string" where
  "store i xs buf = take i buf @ xs @ drop (i + length xs) buf"

definition strlcpy :: "string \<Rightarrow> string \<Rightarrow> string" where
  "strlcpy buf src = (if buf = [] then buf else store 0 (take (length buf - 1) (cstr src) @ [NUL]) buf)"

definition strlcat :: "string \<Rightarrow> string \<Rightarrow> string" where
  "strlcat buf src =
     (let n = length (cstr buf)
      in if n = length buf then buf else store n (take (length buf - n - 1) (cstr src) @ [NUL]) buf)"

section \<open>The message\<close>

record bootloader_message =
  bm_command :: string
  bm_status :: string
  bm_recovery :: string
  bm_stage :: string
  bm_reserved :: string

definition zeros :: "nat \<Rightarrow> string" where
  "zeros n = replicate n NUL"

definition empty_message :: bootloader_message where
  "empty_message = \<lparr>bm_command = zeros 32, bm_status = zeros 32, bm_recovery = zeros 768, bm_stage = zeros 32,
     bm_reserved = zeros 1184\<rparr>"

text \<open>The bytes of the structure.\<close>

definition message_bytes :: "bootloader_message \<Rightarrow> byte list" where
  "message_bytes m = bytes_of (bm_command m @ bm_status m @ bm_recovery m @ bm_stage m @ bm_reserved m)"

definition bytes_message :: "byte list \<Rightarrow> bootloader_message" where
  "bytes_message bs =
     (let t = text_of bs
      in \<lparr>bm_command = take 32 t, bm_status = take 32 (drop 32 t), bm_recovery = take 768 (drop 64 t),
          bm_stage = take 32 (drop 832 t), bm_reserved = take 1184 (drop 864 t)\<rparr>)"

definition message_size :: nat where
  "message_size = 2048"

section \<open>The misc partition\<close>

record 'z misc_env =
  me_fstab :: "string option option"  \<comment> \<open>the fstab, and the device of its entry for \<^verbatim>\<open>/misc\<close>\<close>
  me_ReadFully :: "int \<Rightarrow> nat \<Rightarrow> ('z, byte list option) io"
  me_WriteFully :: "int \<Rightarrow> byte list \<Rightarrow> ('z, bool) io"
  me_ReadFileToString :: "string \<Rightarrow> ('z, string option) io"
  me_ensure_path_mounted :: "string \<Rightarrow> ('z, int) io"
  me_offset :: nat  \<comment> \<open>\<^verbatim>\<open>BOOTLOADER_MESSAGE_OFFSET_IN_MISC\<close>\<close>
  me_strerror :: "int \<Rightarrow> string"
  me_ab :: android_base

definition WIPE_PACKAGE_OFFSET_IN_MISC :: "'z misc_env \<Rightarrow> nat" where
  "WIPE_PACKAGE_OFFSET_IN_MISC e = 16 * 1024 + me_offset e"

definition get_misc_blk_device :: "'z misc_env \<Rightarrow> string + string" where
  "get_misc_blk_device e =
     (case me_fstab e of
        None \<Rightarrow> Inl ''failed to read default fstab''
      | Some None \<Rightarrow> Inl ''failed to find /misc partition''
      | Some (Some dev) \<Rightarrow> Inr dev)"

text \<open>The loop of \<^verbatim>\<open>wait_for_device\<close>; the first argument is the number of tries left.\<close>

fun wait_loop :: "nat \<Rightarrow> 'z misc_env \<Rightarrow> string \<Rightarrow> nat \<Rightarrow> string \<Rightarrow> ('z, string + unit) io" where
  "wait_loop 0 e dev tries err = ret (Inl (err @ ''failed to stat '' @ dev @ [NL]))"
| "wait_loop (Suc n) e dev tries err = do {
     st \<leftarrow> sys_stat dev;
     case st of
       Some _ \<Rightarrow> ret (Inr ())
     | None \<Rightarrow> do {
         errno \<leftarrow> gets w_errno;
         wait_loop n e dev (tries + 1)
           (err @ ''failed to stat '' @ dev @ '' try '' @ to_string (tries + 1) @ '': '' @ me_strerror e errno @ [NL]) } }"

definition wait_for_device :: "'z misc_env \<Rightarrow> string \<Rightarrow> ('z, string + unit) io" where
  "wait_for_device e dev = wait_loop 10 e dev 0 []"

definition misc_error :: "'z misc_env \<Rightarrow> string \<Rightarrow> string \<Rightarrow> ('z, string + 'a) io" where
  "misc_error e what dev = do {
     errno \<leftarrow> gets w_errno;
     ret (Inl (''failed to '' @ what @ '' '' @ dev @ '': '' @ me_strerror e errno)) }"

text \<open>\<^verbatim>\<open>unique_fd\<close> closes the descriptor at the end of the function.\<close>

definition with_fd :: "int \<Rightarrow> ('z, 'a) io \<Rightarrow> ('z, 'a) io" where
  "with_fd fd m = do { r \<leftarrow> m; sys_close fd; ret r }"

definition read_misc_partition :: "'z misc_env \<Rightarrow> nat \<Rightarrow> string \<Rightarrow> nat \<Rightarrow> ('z, string + byte list) io" where
  "read_misc_partition e sz dev offset = do {
     w \<leftarrow> wait_for_device e dev;
     case w of
       Inl err \<Rightarrow> ret (Inl err)
     | Inr _ \<Rightarrow> do {
         fd \<leftarrow> sys_open dev [O_RDONLY];
         if fd = -1 then misc_error e ''open'' dev
         else with_fd fd (do {
           pos \<leftarrow> sys_lseek fd offset;
           if pos \<noteq> int offset then misc_error e ''lseek'' dev
           else do {
             r \<leftarrow> me_ReadFully e fd sz;
             case r of None \<Rightarrow> misc_error e ''read'' dev | Some xs \<Rightarrow> ret (Inr xs) } }) } }"

definition write_misc_partition :: "'z misc_env \<Rightarrow> byte list \<Rightarrow> string \<Rightarrow> nat \<Rightarrow> ('z, string + unit) io" where
  "write_misc_partition e xs dev offset = do {
     fd \<leftarrow> sys_open dev [O_WRONLY];
     if fd = -1 then misc_error e ''open'' dev
     else with_fd fd (do {
       pos \<leftarrow> sys_lseek fd offset;
       if pos \<noteq> int offset then misc_error e ''lseek'' dev
       else do {
         ok \<leftarrow> me_WriteFully e fd xs;
         if \<not> ok then misc_error e ''write'' dev
         else do {
           r \<leftarrow> sys_fsync fd;
           if r = -1 then misc_error e ''fsync'' dev else ret (Inr ()) } } }) }"

definition get_bootloader_message_blk_device :: "'z misc_env \<Rightarrow> ('z, string + string) io" where
  "get_bootloader_message_blk_device e =
     (case get_misc_blk_device e of
        Inl err \<Rightarrow> ret (Inl err)
      | Inr dev \<Rightarrow>
          if dev = [] then ret (Inl [])
          else do {
            w \<leftarrow> wait_for_device e dev;
            ret (case w of Inl err \<Rightarrow> Inl err | Inr _ \<Rightarrow> Inr dev) })"

text \<open>The functions that look up the device first.\<close>

definition with_misc :: "'z misc_env \<Rightarrow> (string \<Rightarrow> ('z, string + 'a) io) \<Rightarrow> ('z, string + 'a) io" where
  "with_misc e f =
     (case get_misc_blk_device e of
        Inl err \<Rightarrow> ret (Inl err)
      | Inr dev \<Rightarrow> if dev = [] then ret (Inl []) else f dev)"

definition read_bootloader_message_from :: "'z misc_env \<Rightarrow> string \<Rightarrow> ('z, string + bootloader_message) io" where
  "read_bootloader_message_from e dev = do {
     r \<leftarrow> read_misc_partition e message_size dev (me_offset e);
     ret (map_sum id bytes_message r) }"

definition read_bootloader_message :: "'z misc_env \<Rightarrow> ('z, string + bootloader_message) io" where
  "read_bootloader_message e = with_misc e (read_bootloader_message_from e)"

definition write_bootloader_message_to :: "'z misc_env \<Rightarrow> bootloader_message \<Rightarrow> string \<Rightarrow> ('z, string + unit) io" where
  "write_bootloader_message_to e boot dev = write_misc_partition e (message_bytes boot) dev (me_offset e)"

definition write_bootloader_message :: "'z misc_env \<Rightarrow> bootloader_message \<Rightarrow> ('z, string + unit) io" where
  "write_bootloader_message e boot = with_misc e (write_bootloader_message_to e boot)"

definition clear_bootloader_message :: "'z misc_env \<Rightarrow> ('z, string + unit) io" where
  "clear_bootloader_message e =
     (if me_offset e < message_size
      then with_misc e (\<lambda>dev. write_misc_partition e (message_bytes empty_message) dev 0)
      else write_bootloader_message e empty_message)"

text \<open>\<^verbatim>\<open>s.back()\<close> is undefined for an empty option, which ends the run here.\<close>

definition add_option :: "string \<Rightarrow> string \<Rightarrow> string" where
  "add_option buf s = (let buf = strlcat buf s in if last s \<noteq> NL then strlcat buf [NL] else buf)"

definition update_bootloader_message_in_struct :: "bootloader_message \<Rightarrow> string list \<Rightarrow> ('z, bootloader_message) io" where
  "update_bootloader_message_in_struct boot options = do {
     CHECK ([] \<notin> set options);
     ret (boot\<lparr>bm_command := strlcpy (zeros (length (bm_command boot))) ''boot-recovery'',
       bm_recovery := foldl add_option (strlcpy (zeros (length (bm_recovery boot))) (''recovery'' @ [NL])) options\<rparr>) }"

definition write_bootloader_message_options :: "'z misc_env \<Rightarrow> string list \<Rightarrow> ('z, string + unit) io" where
  "write_bootloader_message_options e options = do {
     boot \<leftarrow> update_bootloader_message_in_struct empty_message options;
     write_bootloader_message e boot }"

definition update_bootloader_message :: "'z misc_env \<Rightarrow> string list \<Rightarrow> ('z, string + unit) io" where
  "update_bootloader_message e options = do {
     r \<leftarrow> read_bootloader_message e;
     case r of
       Inl err \<Rightarrow> ret (Inl err)
     | Inr boot \<Rightarrow> do {
         boot \<leftarrow> update_bootloader_message_in_struct boot options;
         write_bootloader_message e boot } }"

definition write_reboot_bootloader :: "'z misc_env \<Rightarrow> ('z, string + unit) io" where
  "write_reboot_bootloader e = do {
     r \<leftarrow> read_bootloader_message e;
     case r of
       Inl err \<Rightarrow> ret (Inl err)
     | Inr boot \<Rightarrow>
         if cstr (bm_command boot) \<noteq> [] then ret (Inl ''Bootloader command pending.'')
         else write_bootloader_message e (boot\<lparr>bm_command := strlcpy (bm_command boot) ''bootonce-bootloader''\<rparr>) }"

text \<open>The two functions with C linkage.\<close>

definition write_reboot_bootloader_c :: "'z misc_env \<Rightarrow> ('z, bool) io" where
  "write_reboot_bootloader_c e = do { r \<leftarrow> write_reboot_bootloader e; ret (r = Inr ()) }"

definition write_bootloader_message_c :: "'z misc_env \<Rightarrow> string \<Rightarrow> ('z, bool) io" where
  "write_bootloader_message_c e options = do { r \<leftarrow> write_bootloader_message_options e [cstr options]; ret (r = Inr ()) }"

definition read_wipe_package :: "'z misc_env \<Rightarrow> nat \<Rightarrow> ('z, string + byte list) io" where
  "read_wipe_package e sz = with_misc e (\<lambda>dev. read_misc_partition e sz dev (WIPE_PACKAGE_OFFSET_IN_MISC e))"

definition write_wipe_package :: "'z misc_env \<Rightarrow> byte list \<Rightarrow> ('z, string + unit) io" where
  "write_wipe_package e package_data =
     with_misc e (\<lambda>dev. write_misc_partition e package_data dev (WIPE_PACKAGE_OFFSET_IN_MISC e))"

section \<open>Recovery's command line\<close>

definition COMMAND_FILE :: string where "COMMAND_FILE = ''/cache/recovery/command''"
definition UBUNTU_COMMAND_FILE :: string where "UBUNTU_COMMAND_FILE = ''/cache/recovery/ubuntu_command''"
definition UBUNTU_ARGUMENT :: string where "UBUNTU_ARGUMENT = ''--update-ubuntu''"

definition real_tokens :: "string list \<Rightarrow> string list" where
  "real_tokens = filter (\<lambda>t. t \<noteq> [] \<and> hd t \<noteq> NUL)"

text \<open>The arguments in the recovery field of the message.\<close>

definition boot_args :: "android_base \<Rightarrow> bootloader_message \<Rightarrow> string list" where
  "boot_args ab boot =
     (let tokens = ab_split ab (cstr (butlast (bm_recovery boot) @ [NUL])) [NL]
      in if tokens \<noteq> [] \<and> hd tokens = ''recovery'' then real_tokens (tl tokens) else [])"

definition get_args :: "'z misc_env \<Rightarrow> bool \<Rightarrow> string list \<Rightarrow> ('z, string list \<times> string) io" where
  "get_args e has_cache argv = do {
     CHECK (argv \<noteq> []);
     r \<leftarrow> read_bootloader_message e;
     let boot = (case r of Inl _ \<Rightarrow> empty_message | Inr boot \<Rightarrow> boot);
     let stage = cstr (bm_stage boot @ bm_reserved boot);
     let args = (if length argv = 1 then argv @ boot_args (me_ab e) boot else argv);
     args \<leftarrow> (if length args \<le> 1 then do {
         fp \<leftarrow> sys_open UBUNTU_COMMAND_FILE [O_RDONLY];
         if fp = -1 then ret args
         else do { sys_fsync fp; sys_close fp; ret (args @ [UBUNTU_ARGUMENT]) } }
       else ret args);
     args \<leftarrow> (if length args = 1 \<and> has_cache then do {
         m \<leftarrow> me_ensure_path_mounted e COMMAND_FILE;
         if m \<noteq> 0 then ret args
         else do {
           content \<leftarrow> me_ReadFileToString e COMMAND_FILE;
           case content of
             None \<Rightarrow> ret args
           | Some text \<Rightarrow> ret (args @ real_tokens (ab_split (me_ab e) text [NL])) } }
       else ret args);
     update_bootloader_message e (tl args);
     ret (args, stage) }"

definition set_sdcard_update_bootloader_message :: "'z misc_env \<Rightarrow> ('z, unit) io" where
  "set_sdcard_update_bootloader_message e = do { update_bootloader_message e []; ret () }"

definition retry_options :: "int \<Rightarrow> string list \<Rightarrow> string list" where
  "retry_options retry_count args =
     filter (\<lambda>a. take 13 a \<noteq> ''--retry_count'') args @ [''--retry_count='' @ int_to_string retry_count]"

definition set_retry_bootloader_message :: "'z misc_env \<Rightarrow> int \<Rightarrow> string list \<Rightarrow> ('z, unit) io" where
  "set_retry_bootloader_message e retry_count args = do {
     update_bootloader_message e (retry_options retry_count args);
     ret () }"

section \<open>Arrays that hold a text\<close>

definition holds_text :: "string \<Rightarrow> string \<Rightarrow> bool" where
  "holds_text buf tx \<longleftrightarrow> NUL \<notin> set tx \<and> length tx < length buf \<and> buf = tx @ zeros (length buf - length tx)"

lemma length_zeros [simp]: "length (zeros n) = n"
  by (simp add: zeros_def)

lemma zeros_split: "zeros (Suc n) = NUL # zeros n" "drop n (zeros m) = zeros (m - n)"
  by (simp_all add: zeros_def)

lemma cstr_text: "NUL \<notin> set tx \<Longrightarrow> cstr (tx @ NUL # xs) = tx"
  unfolding cstr_def by (subst takeWhile_append2) (auto simp: NUL_def)

lemma cstr_plain: "NUL \<notin> set tx \<Longrightarrow> cstr tx = tx"
  by (auto simp: cstr_def NUL_def takeWhile_eq_all_conv)

lemma holds_textE:
  assumes "holds_text buf tx"
  obtains m where "buf = tx @ zeros (Suc m)" "NUL \<notin> set tx"
proof -
  have h: "NUL \<notin> set tx" "length tx < length buf" "buf = tx @ zeros (length buf - length tx)"
    using assms by (auto simp: holds_text_def)
  then obtain m where "length buf - length tx = Suc m" by (metis Suc_diff_Suc)
  with h that show thesis by metis
qed

lemma holds_textI: "NUL \<notin> set tx \<Longrightarrow> holds_text (tx @ zeros (Suc m)) tx"
  by (simp add: holds_text_def)

lemma holds_text_cstr: "holds_text buf tx \<Longrightarrow> cstr buf = tx"
  by (erule holds_textE) (simp add: zeros_split cstr_text)

lemma strlcat_fits:
  assumes "holds_text buf tx" "NUL \<notin> set src" "length tx + length src < length buf"
  shows "holds_text (strlcat buf src) (tx @ src) \<and> length (strlcat buf src) = length buf"
proof -
  obtain m where m: "buf = tx @ zeros (Suc m)" "NUL \<notin> set tx" using holds_textE [OF assms(1)] .
  then have le: "length src \<le> m" using assms(3) by simp
  have "cstr buf = tx" "cstr src = src" using assms by (simp_all add: holds_text_cstr cstr_plain)
  then have "strlcat buf src = (tx @ src) @ zeros (Suc (m - length src))"
    using m le by (simp add: strlcat_def Let_def store_def zeros_split)
  then show ?thesis using holds_textI [of "tx @ src" "m - length src"] m assms(2) le by simp
qed

lemma strlcpy_fits:
  assumes "NUL \<notin> set src" "length src < n"
  shows "holds_text (strlcpy (zeros n) src) src \<and> length (strlcpy (zeros n) src) = n"
proof -
  obtain m where m: "n = Suc (length src + m)" using assms(2) by (auto dest: less_imp_Suc_add)
  then have "strlcpy (zeros n) src = src @ zeros (Suc m)"
    using assms(1) by (simp add: strlcpy_def store_def cstr_plain zeros_split)
  then show ?thesis using holds_textI [OF assms(1), of m] m by simp
qed

text \<open>Options that survive the trip: non-empty lines that fit into the field.\<close>

definition option_ok :: "string \<Rightarrow> bool" where
  "option_ok s \<longleftrightarrow> s \<noteq> [] \<and> NUL \<notin> set s \<and> NL \<notin> set s"

definition options_ok :: "string list \<Rightarrow> bool" where
  "options_ok options \<longleftrightarrow> (\<forall>s \<in> set options. option_ok s) \<and> 9 + sum_list (map (\<lambda>s. length s + 1) options) < 768"

definition option_lines :: "string list \<Rightarrow> string" where
  "option_lines options = concat (map (\<lambda>s. s @ [NL]) options)"

lemma NL_NUL [simp]: "NL \<noteq> NUL" "NUL \<noteq> NL"
  by (simp_all add: NL_def NUL_def)

lemma add_option_fits:
  assumes "holds_text buf tx" "option_ok s" "length tx + length s + 1 < length buf"
  shows "holds_text (add_option buf s) (tx @ s @ [NL]) \<and> length (add_option buf s) = length buf"
proof -
  have s: "holds_text (strlcat buf s) (tx @ s)" "length (strlcat buf s) = length buf"
    using strlcat_fits [OF assms(1), of s] assms(2,3) by (auto simp: option_ok_def)
  have "last s \<noteq> NL" using assms(2) last_in_set unfolding option_ok_def by metis
  show ?thesis
    using strlcat_fits [OF s(1), of "[NL]"] s(2) assms(3) \<open>last s \<noteq> NL\<close> by (simp add: add_option_def Let_def)
qed

lemma add_options_fit:
  assumes "holds_text buf tx" "\<forall>s \<in> set options. option_ok s"
    and "length tx + sum_list (map (\<lambda>s. length s + 1) options) < length buf"
  shows "holds_text (foldl add_option buf options) (tx @ option_lines options) \<and> length (foldl add_option buf options) = length buf"
  using assms
proof (induction options arbitrary: buf tx)
  case (Cons s options)
  from add_option_fits [OF Cons.prems(1), of s] Cons.prems(2,3) have
    a: "holds_text (add_option buf s) (tx @ s @ [NL])" "length (add_option buf s) = length buf" by simp_all
  from Cons.IH [OF a(1)] Cons.prems(2,3) a(2) show ?case by (simp add: option_lines_def)
qed (simp add: option_lines_def)

lemma option_lines_join: "x @ NL # option_lines options = join_with NL (x # options @ [[]])"
  by (induction options arbitrary: x) (simp_all add: option_lines_def)

definition message_ok :: "bootloader_message \<Rightarrow> bool" where
  "message_ok m \<longleftrightarrow> length (bm_command m) = 32 \<and> length (bm_status m) = 32 \<and> length (bm_recovery m) = 768 \<and>
     length (bm_stage m) = 32 \<and> length (bm_reserved m) = 1184"

lemma text_of_bytes_of [simp]: "text_of (bytes_of t) = t"
proof -
  have "char_of (unat (of_char c :: byte)) = c" for c
  proof -
    have "unat (of_char c :: byte) = of_char c mod 256" using unat_of_nat_byte [of "of_char c"] by (metis of_nat_of_char)
    then show ?thesis by simp
  qed
  then show ?thesis by (simp add: text_of_def bytes_of_def comp_def)
qed


lemma message_round_trip:
  assumes "message_ok m"
  shows "length (message_bytes m) = message_size" "bytes_message (message_bytes m) = m"
  using assms by (simp_all add: message_ok_def message_bytes_def bytes_message_def message_size_def Let_def)
    (simp add: bytes_of_def)

section \<open>The misc partition\<close>

text \<open>
  Documented behaviour of \<^verbatim>\<open>ReadFully\<close> and \<^verbatim>\<open>WriteFully\<close>: a successful read returns the bytes at the
  current offset, all that were asked for; a write stores a prefix of the data there, all of it
  when it reports success.
\<close>

definition fully_ok :: "'z misc_env \<Rightarrow> bool" where
  "fully_ok e \<longleftrightarrow>
     (\<forall>fd n p pos c s. at fd p pos c s \<longrightarrow> wp (me_ReadFully e fd n) (\<lambda>r s'. file_of s' p = Some c \<and>
        (\<forall>xs. r = Some xs \<longrightarrow> length xs = n \<and> xs = take n (drop pos c))) s) \<and>
     (\<forall>fd xs p pos c s. at fd p pos c s \<longrightarrow> wp (me_WriteFully e fd xs) (\<lambda>ok s'. \<exists>k \<le> length xs.
        file_of s' p = Some (overlay pos (take k xs) c) \<and> (ok \<longrightarrow> k = length xs)) s)"

lemma fully_ok_read: "fully_ok e \<Longrightarrow> at fd p pos c s \<Longrightarrow> wp (me_ReadFully e fd n) (\<lambda>r s'. file_of s' p = Some c \<and>
        (\<forall>xs. r = Some xs \<longrightarrow> length xs = n \<and> xs = take n (drop pos c))) s"
  unfolding fully_ok_def by blast

lemma fully_ok_write: "fully_ok e \<Longrightarrow> at fd p pos c s \<Longrightarrow> wp (me_WriteFully e fd xs) (\<lambda>ok s'. \<exists>k \<le> length xs.
        file_of s' p = Some (overlay pos (take k xs) c) \<and> (ok \<longrightarrow> k = length xs)) s"
  unfolding fully_ok_def by blast

lemma wp_open_plain:
  assumes "file_of s p = Some c" "O_TRUNC \<notin> set flags"
  shows "wp (sys_open p flags) (\<lambda>fd s'. file_of s' p = Some c \<and> (fd \<noteq> -1 \<longrightarrow> at fd p 0 c s')) s"
  using assms unfolding sys_open_def wp_bind alloc_fd_def
  by (intro wp_next_eventI) (auto simp: at_def split: io_event.split)

lemma keep_on_file:
  "keep (\<lambda>s. file_of s p = x) (sys_close fd)" "keep (\<lambda>s. file_of s p = x) sys_plain"
  "keep (\<lambda>s. file_of s p = x) (sys_stat q)"
  unfolding sys_close_def sys_plain_def sys_stat_def keep_def wp_bind
  by (auto intro!: wp_next_eventI split: io_event.split option.split simp: file_of_def)

lemma wp_with_fd:
  assumes "wp m (\<lambda>r s'. Q r (file_of s' p)) s"
  shows "wp (with_fd fd m) (\<lambda>r s'. Q r (file_of s' p)) s"
  unfolding with_fd_def
proof (rule wp_seq [OF assms])
  fix r s' assume "Q r (file_of s' p)"
  then show "wp (sys_close fd \<bind> (\<lambda>_. ret r)) (\<lambda>r s'. Q r (file_of s' p)) s'"
    by (intro wp_seq [OF keep_wp [OF keep_on_file(1) [where p = p] refl]]) simp
qed

lemma wp_misc_error: "wp (misc_error e what dev) (\<lambda>r s'. s' = s \<and> (\<exists>err. r = Inl err)) s"
  by (simp add: misc_error_def)

lemma keep_wait: "keep (\<lambda>s. file_of s p = x) (wait_loop n e dev tries err)"
  by (induction n arbitrary: tries err) (auto intro!: keeps keep_on_file)

text \<open>What follows the open, for any transfer after the seek and any way to report the error.\<close>

lemma wp_seek:
  assumes "at fd dev 0 c s" "\<And>s'. at fd dev off c s' \<Longrightarrow> wp m (\<lambda>r s'. Q r (file_of s' dev)) s'"
    and "\<And>s'. file_of s' dev = Some c \<Longrightarrow> wp err (\<lambda>r s'. Q r (file_of s' dev)) s'"
  shows "wp (with_fd fd (do { pos \<leftarrow> sys_lseek fd off; if pos \<noteq> int off then err else m }))
    (\<lambda>r s'. Q r (file_of s' dev)) s"
proof (rule wp_with_fd, rule wp_seq [OF wp_sys_lseek [OF assms(1)]], rule wp_ifI, goal_cases)
  case (1 pos s1)
  then show ?case by (intro assms(3)) (auto simp: at_def split: if_splits)
next
  case (2 pos s1)
  then show ?case by (intro assms(2)) (simp split: if_splits)
qed

lemma wp_misc_failed: "file_of s dev = Some c \<Longrightarrow> (\<And>err. Q (Inl err) (Some c)) \<Longrightarrow>
    wp (misc_error e what dev) (\<lambda>r s'. Q r (file_of s' dev)) s"
  by (rule wp_mono [OF wp_misc_error]) auto

lemma wp_read_misc:
  assumes "fully_ok e" "file_of s dev = Some c"
  shows "wp (read_misc_partition e n dev off) (\<lambda>r s'. file_of s' dev = Some c \<and>
    (\<forall>xs. r = Inr xs \<longrightarrow> length xs = n \<and> xs = take n (drop off c))) s"
proof -
  let ?Q = "\<lambda>r x. x = Some c \<and> (\<forall>xs. r = Inr xs \<longrightarrow> length xs = n \<and> xs = take n (drop off c))"
  have rd: "wp (me_ReadFully e fd n \<bind> (\<lambda>r. case r of None \<Rightarrow> misc_error e ''read'' dev | Some xs \<Rightarrow> ret (Inr xs)))
      (\<lambda>r s'. ?Q r (file_of s' dev)) s'"
    if "at fd dev off c s'" for fd s'
  proof (rule wp_seq)
    show "wp (me_ReadFully e fd n) (\<lambda>r s'. file_of s' dev = Some c \<and> (\<forall>xs. r = Some xs \<longrightarrow> length xs = n \<and> xs = take n (drop off c))) s'"
      using fully_ok_read [OF assms(1) that] .
  qed (auto split: option.split intro!: wp_misc_failed [where Q = ?Q])
  show ?thesis
    unfolding read_misc_partition_def wait_for_device_def
  proof (rule wp_seq [OF keep_wp [OF keep_wait assms(2)]], goal_cases)
    case (1 w s1)
    show ?case
    proof (cases w)
      case (Inr u)
      show ?thesis unfolding Inr sum.case
      proof (rule wp_seq [OF wp_open_plain [OF 1]], simp, rule wp_ifI, goal_cases)
        case (1 fd s2)
        then show ?case by (intro wp_misc_failed [where Q = ?Q]) simp_all
      next
        case (2 fd s2)
        then show ?case by (intro wp_seek [where Q = ?Q, OF _ rd] wp_misc_failed [where Q = ?Q]) auto
      qed
    qed (use 1 in simp)
  qed
qed

lemma wp_write_misc:
  assumes "fully_ok e" "file_of s dev = Some c"
  shows "wp (write_misc_partition e xs dev off) (\<lambda>r s'. \<exists>k \<le> length xs.
    file_of s' dev = Some (overlay off (take k xs) c) \<and> (r = Inr () \<longrightarrow> k = length xs)) s"
proof -
  let ?Q = "\<lambda>r x. \<exists>k \<le> length xs. x = Some (overlay off (take k xs) c) \<and> (r = Inr () \<longrightarrow> k = length xs)"
  have none: "?Q (Inl err) (Some c)" for err by (intro exI [of _ 0]) simp
  have wr: "wp (do { ok \<leftarrow> me_WriteFully e fd xs;
       if \<not> ok then misc_error e ''write'' dev
       else do { r \<leftarrow> sys_fsync fd; if r = -1 then misc_error e ''fsync'' dev else ret (Inr ()) } })
      (\<lambda>r s'. ?Q r (file_of s' dev)) s'"
    if "at fd dev off c s'" for fd s'
  proof (rule wp_seq)
    show "wp (me_WriteFully e fd xs) (\<lambda>ok s'. \<exists>k \<le> length xs. file_of s' dev = Some (overlay off (take k xs) c) \<and> (ok \<longrightarrow> k = length xs)) s'"
      using fully_ok_write [OF assms(1) that] .
  next
    fix ok and s1 :: "'a world_scheme" assume "\<exists>k \<le> length xs. file_of s1 dev = Some (overlay off (take k xs) c) \<and> (ok \<longrightarrow> k = length xs)"
    then obtain k where k: "k \<le> length xs" "file_of s1 dev = Some (overlay off (take k xs) c)" "ok \<longrightarrow> k = length xs" by blast
    have err: "wp (misc_error e what dev) (\<lambda>r s'. ?Q r (file_of s' dev)) s2" if "file_of s2 dev = file_of s1 dev" for what and s2 :: "'a world_scheme"
      using that k by (intro wp_mono [OF wp_misc_error]) auto
    show "wp (if \<not> ok then misc_error e ''write'' dev
       else do { r \<leftarrow> sys_fsync fd; if r = -1 then misc_error e ''fsync'' dev else ret (Inr ()) }) (\<lambda>r s'. ?Q r (file_of s' dev)) s1"
    proof (rule wp_ifI, goal_cases)
      case 2
      then show ?case unfolding sys_fsync_def
        by (intro wp_seq [OF keep_wp [OF keep_on_file(2) [where p = dev] refl]] wp_ifI err) (use k in auto)
    qed (simp add: err)
  qed
  show ?thesis
    unfolding write_misc_partition_def
  proof (rule wp_seq [OF wp_open_plain [OF assms(2)]], simp, rule wp_ifI, goal_cases)
    case (1 fd s1)
    then show ?case using none by (intro wp_misc_failed [where Q = ?Q]) simp_all
  next
    case (2 fd s1)
    then show ?case by (intro wp_seek [where Q = ?Q, OF _ wr] wp_misc_failed [where Q = ?Q] none) auto
  qed
qed

section \<open>A structure at a fixed place\<close>

text \<open>
  What the users of the partition rely on: a structure is stored at a fixed place, a load returns
  what is there, and a save, even one that fails half-way, touches nothing else.  \<open>got\<close> and \<open>stored\<close>
  read off the results.
\<close>

definition outside_same :: "nat \<Rightarrow> nat \<Rightarrow> byte list \<Rightarrow> byte list \<Rightarrow> bool" where
  "outside_same off n c c' \<longleftrightarrow> length c' = length c \<and> take off c' = take off c \<and> drop (off + n) c' = drop (off + n) c"

lemma outside_same_refl [simp]: "outside_same off n c c"
  by (simp add: outside_same_def)

lemma outside_same_trans: "outside_same off n a b \<Longrightarrow> outside_same off n b c \<Longrightarrow> outside_same off n a c"
  by (simp add: outside_same_def)

text \<open>A region that does not overlap is as before.\<close>

lemma outside_same_other:
  assumes "outside_same off n c c'" "off' + n' \<le> off \<or> off + n \<le> off'"
  shows "take n' (drop off' c') = take n' (drop off' c)"
proof (cases "off' + n' \<le> off")
  case True
  then have "take n' (drop off' x) = drop off' (take (off' + n') (take off x))" for x :: "byte list" by (simp add: take_drop min_def add.commute)
  then show ?thesis using assms(1) by (metis outside_same_def)
next
  case False
  then have "drop off' x = drop (off' - (off + n)) (drop (off + n) x)" for x :: "byte list" using assms(2) by simp
  then show ?thesis using assms(1) by (metis outside_same_def)
qed

locale region_store =
  fixes load :: "string \<Rightarrow> ('z, 'r) io" and got :: "'r \<Rightarrow> 'v option"
    and save :: "'v \<Rightarrow> string \<Rightarrow> ('z, 'q) io" and stored :: "'q \<Rightarrow> bool"
    and enc :: "'v \<Rightarrow> byte list" and dec :: "byte list \<Rightarrow> 'v" and off :: nat and n :: nat
    and valid :: "'v \<Rightarrow> bool" and ready :: bool
  assumes load: "ready \<Longrightarrow> file_of s dev = Some c \<Longrightarrow>
      wp (load dev) (\<lambda>r s'. file_of s' dev = Some c \<and> (\<forall>v. got r = Some v \<longrightarrow> v = dec (take n (drop off c)))) s"
    and save: "ready \<Longrightarrow> valid v \<Longrightarrow> file_of s dev = Some c \<Longrightarrow>
      wp (save v dev) (\<lambda>r s'. \<exists>k \<le> n. file_of s' dev = Some (overlay off (take k (enc v)) c) \<and> (stored r \<longrightarrow> k = n)) s"
    and enc: "valid v \<Longrightarrow> length (enc v) = n"

context region_store
begin

lemma wp_save_region:
  assumes "ready" "valid v" "file_of s dev = Some c" "off + n \<le> length c"
  shows "wp (save v dev) (\<lambda>r s'. \<exists>c'. file_of s' dev = Some c' \<and> outside_same off n c c' \<and>
    (stored r \<longrightarrow> take n (drop off c') = enc v)) s"
proof (rule wp_mono [OF save [OF assms(1-3)]], elim exE conjE)
  fix r and s' :: "'a world_scheme" and k
  assume k: "k \<le> n" "file_of s' dev = Some (overlay off (take k (enc v)) c)" "stored r \<longrightarrow> k = n"
  have "overlay off (take k (enc v)) c = take off c @ take k (enc v) @ drop (off + k) c"
    using k(1) assms(4) enc [OF assms(2)] by (simp add: overlay_inside)
  with k assms(4) enc [OF assms(2)] show "\<exists>c'. file_of s' dev = Some c' \<and> outside_same off n c c' \<and> (stored r \<longrightarrow> take n (drop off c') = enc v)"
    by (intro exI [of _ "overlay off (take k (enc v)) c"]) (auto simp: outside_same_def add.commute)
qed

lemma save_load:
  assumes "ready" "valid v" "file_of s dev = Some c" "off + n \<le> length c"
    and "run_state (save v dev) s = (r, s1)" "stored r" "run_state (load dev) s1 = (r', s2)" "got r' = Some w"
  shows "w = dec (enc v) \<and> (\<exists>c'. file_of s2 dev = Some c' \<and> outside_same off n c c')"
proof -
  obtain c' where c': "file_of s1 dev = Some c'" "outside_same off n c c'" "take n (drop off c') = enc v"
    using wp_runD [OF wp_save_region [OF assms(1-4)] assms(5)] assms(6) by blast
  from wp_runD [OF load [OF assms(1) c'(1)] assms(7)] assms(8) c' show ?thesis by auto
qed

end

definition right_of :: "'e + 'v \<Rightarrow> 'v option" where
  "right_of r = (case r of Inl _ \<Rightarrow> None | Inr v \<Rightarrow> Some v)"

lemma right_of_Some [simp]: "right_of r = Some v \<longleftrightarrow> r = Inr v"
  by (auto simp: right_of_def split: sum.split)

interpretation message: region_store "read_bootloader_message_from e" right_of "write_bootloader_message_to e" "\<lambda>r. r = Inr ()"
    message_bytes bytes_message "me_offset e" message_size message_ok "fully_ok e" for e
proof
  fix s :: "'a world_scheme" and dev c
  assume a: "fully_ok e" "file_of s dev = Some c"
  show "wp (read_bootloader_message_from e dev) (\<lambda>r s'. file_of s' dev = Some c \<and>
      (\<forall>v. right_of r = Some v \<longrightarrow> v = bytes_message (take message_size (drop (me_offset e) c)))) s"
    unfolding read_bootloader_message_from_def
  proof (rule wp_seq [OF wp_read_misc [OF a]], goal_cases)
    case (1 r s')
    then show ?case by (cases r) simp_all
  qed
next
  fix s :: "'a world_scheme" and dev c v
  assume a: "fully_ok e" "message_ok v" "file_of s dev = Some c"
  show "wp (write_bootloader_message_to e v dev) (\<lambda>r s'. \<exists>k \<le> message_size.
      file_of s' dev = Some (overlay (me_offset e) (take k (message_bytes v)) c) \<and> (r = Inr () \<longrightarrow> k = message_size)) s"
    unfolding write_bootloader_message_to_def message_round_trip(1) [OF a(2), symmetric] by (rule wp_write_misc [OF a(1,3)])
qed (rule message_round_trip(1))

section \<open>Options and arguments\<close>

lemma message_ok_empty: "message_ok empty_message"
  by (simp add: message_ok_def empty_message_def)

definition set_options :: "bootloader_message \<Rightarrow> string list \<Rightarrow> bootloader_message" where
  "set_options boot options = boot\<lparr>bm_command := strlcpy (zeros 32) ''boot-recovery'',
     bm_recovery := foldl add_option (strlcpy (zeros 768) (''recovery'' @ [NL])) options\<rparr>"

lemma recovery_field:
  assumes "options_ok options"
  shows "holds_text (bm_recovery (set_options boot options)) (''recovery'' @ NL # option_lines options)"
    and "length (bm_recovery (set_options boot options)) = 768"
proof -
  have "NUL \<notin> set (''recovery'' @ [NL])" by (auto simp: NUL_def NL_def)
  note start = strlcpy_fits [OF this, of 768]
  have "holds_text (foldl add_option (strlcpy (zeros 768) (''recovery'' @ [NL])) options) ((''recovery'' @ [NL]) @ option_lines options) \<and>
      length (foldl add_option (strlcpy (zeros 768) (''recovery'' @ [NL])) options) = 768"
    using start add_options_fit [of "strlcpy (zeros 768) (''recovery'' @ [NL])" "''recovery'' @ [NL]" options] assms
    by (simp add: options_ok_def)
  then show "holds_text (bm_recovery (set_options boot options)) (''recovery'' @ NL # option_lines options)"
    "length (bm_recovery (set_options boot options)) = 768"
    by (simp_all add: set_options_def)
qed

lemma message_ok_set_options:
  assumes "message_ok boot" "options_ok options"
  shows "message_ok (set_options boot options)"
proof -
  have "length (strlcpy (zeros 32) ''boot-recovery'') = 32" using strlcpy_fits [of "''boot-recovery''" 32] by (simp add: NUL_def)
  then show ?thesis using assms(1) recovery_field(2) [OF assms(2), of boot] by (simp add: message_ok_def set_options_def)
qed

lemma boot_args_set_options:
  assumes "split_ok ab" "options_ok options"
  shows "boot_args ab (set_options boot options) = options"
proof -
  let ?t = "''recovery'' @ NL # option_lines options" and ?buf = "bm_recovery (set_options boot options)"
  obtain m where m: "?buf = ?t @ zeros (Suc m)" "NUL \<notin> set ?t" using holds_textE [OF recovery_field(1) [OF assms(2)]] .
  have "butlast ?buf @ [NUL] = ?buf" unfolding m(1) by (simp add: zeros_def butlast_append flip: replicate_append_same)
  then have "cstr (butlast ?buf @ [NUL]) = ?t" using holds_text_cstr [OF recovery_field(1) [OF assms(2)]] by simp
  moreover have "ab_split ab ?t [NL] = ''recovery'' # options @ [[]]"
    unfolding option_lines_join
    by (rule split_okD [OF assms(1)]) (use assms(2) in \<open>auto simp: options_ok_def option_ok_def NL_def\<close>)
  moreover have "real_tokens (options @ [[]]) = options"
  proof -
    have "t \<noteq> [] \<and> hd t \<noteq> NUL" if "t \<in> set options" for t
      using assms(2) that unfolding options_ok_def option_ok_def by (metis hd_in_set)
    then show ?thesis by (simp add: real_tokens_def)
  qed
  ultimately show ?thesis by (simp add: boot_args_def)
qed

lemma wp_update_in_struct:
  assumes "message_ok boot" "options_ok options"
  shows "wp (update_bootloader_message_in_struct boot options) (\<lambda>boot' s'. boot' = set_options boot options \<and> s' = s) s"
  using assms by (auto simp: update_bootloader_message_in_struct_def CHECK_def set_options_def message_ok_def options_ok_def option_ok_def)

lemma with_misc_dev: "me_fstab e = Some (Some dev) \<Longrightarrow> dev \<noteq> [] \<Longrightarrow> with_misc e f = f dev"
  by (simp add: with_misc_def get_misc_blk_device_def)

section \<open>Every operation on the message\<close>

lemma length_store: "i + length xs \<le> length buf \<Longrightarrow> length (store i xs buf) = length buf"
  by (simp add: store_def)

lemma length_strlcpy [simp]: "length (strlcpy buf src) = length buf"
  by (cases buf) (simp_all add: strlcpy_def length_store)

lemma length_strlcat [simp]: "length (strlcat buf src) = length buf"
proof -
  have "length (cstr buf) \<le> length buf" by (simp add: cstr_def length_takeWhile_le)
  then show ?thesis by (auto simp: strlcat_def Let_def intro!: length_store)
qed

lemma length_add_options [simp]: "length (foldl add_option buf options) = length buf"
  by (induction options arbitrary: buf) (simp_all add: add_option_def Let_def)

lemma wp_any_options:
  assumes "message_ok boot"
  shows "wp (update_bootloader_message_in_struct boot options) (\<lambda>boot' s'. message_ok boot' \<and> file_of s' p = file_of s p) s"
  using assms by (simp add: update_bootloader_message_in_struct_def CHECK_def message_ok_def file_of_def)

lemma wp_write_message:
  assumes "fully_ok e" "me_fstab e = Some (Some dev)" "file_of s dev = Some c" "me_offset e + message_size \<le> length c" "message_ok boot"
  shows "wp (write_bootloader_message e boot) (\<lambda>r s'. \<exists>c'. file_of s' dev = Some c' \<and> outside_same (me_offset e) message_size c c') s"
proof (cases "dev = []")
  case False
  show ?thesis
    unfolding write_bootloader_message_def with_misc_dev [OF assms(2) False]
    by (rule wp_mono [OF message.wp_save_region [OF assms(1,5,3,4)]]) blast
qed (use assms(2,3) in \<open>simp add: write_bootloader_message_def with_misc_def get_misc_blk_device_def\<close>)

lemma wp_read_message:
  assumes "fully_ok e" "me_fstab e = Some (Some dev)" "file_of s dev = Some c"
  shows "wp (read_bootloader_message e) (\<lambda>r s'. file_of s' dev = Some c \<and> (\<forall>boot. r = Inr boot \<longrightarrow> message_ok boot)) s"
proof (cases "dev = []")
  case False
  have "message_ok (bytes_message xs)" if "length xs = message_size" for xs
    using that by (simp add: message_ok_def bytes_message_def message_size_def text_of_def Let_def)
  then show ?thesis
    unfolding read_bootloader_message_def with_misc_dev [OF assms(2) False] read_bootloader_message_from_def
    by (intro wp_seq [OF wp_read_misc [OF assms(1,3)]]) (auto simp: map_sum_def split: sum.splits)
qed (use assms(2,3) in \<open>simp add: read_bootloader_message_def with_misc_def get_misc_blk_device_def\<close>)

text \<open>
  Whatever the options and the faults, the functions that write the message touch nothing else,
  provided that the message of the build lies at the start of the partition or behind the area of
  that size.
\<close>

lemma wp_message_operations:
  assumes e: "fully_ok e" "me_fstab e = Some (Some dev)" "file_of s dev = Some c" "me_offset e + message_size \<le> length c"
    and "op \<in> {write_bootloader_message_options e options, update_bootloader_message e options, write_reboot_bootloader e,
      clear_bootloader_message e}" "me_offset e = 0 \<or> message_size \<le> me_offset e"
  shows "wp op (\<lambda>r s'. \<exists>c'. file_of s' dev = Some c' \<and> outside_same (me_offset e) message_size c c') s" (is "wp op ?P s")
proof -
  have upd: "wp (update_bootloader_message_in_struct boot options \<bind> write_bootloader_message e) ?P s1"
    if "message_ok boot" "file_of s1 dev = Some c" for boot and s1 :: "'a world_scheme"
    by (rule wp_seq [OF wp_any_options [OF that(1), where p = dev]]) (use that e in \<open>auto intro!: wp_write_message\<close>)
  have rd: "wp (read_bootloader_message e \<bind> f) ?P s"
    if "\<And>s1 boot. file_of s1 dev = Some c \<Longrightarrow> message_ok boot \<Longrightarrow> wp (f (Inr boot)) ?P s1" "\<And>err. f (Inl err) = ret (Inl err)" for f
  proof (rule wp_seq [OF wp_read_message [OF e(1-3)]], goal_cases)
    case (1 r s1)
    then show ?case using that by (cases r) auto
  qed
  consider "op = write_bootloader_message_options e options" | "op = update_bootloader_message e options"
    | "op = write_reboot_bootloader e" | "op = clear_bootloader_message e" using assms(5) by blast
  then show ?thesis
  proof cases
    case 1
    then show ?thesis unfolding write_bootloader_message_options_def using upd [OF message_ok_empty e(3)] by simp
  next
    case 2
    then show ?thesis unfolding update_bootloader_message_def using upd by (auto intro!: rd simp del: wp_bind)
  next
    case 3
    have "message_ok (boot\<lparr>bm_command := strlcpy (bm_command boot) t\<rparr>)" if "message_ok boot" for boot t
      using that by (simp add: message_ok_def)
    with 3 show ?thesis unfolding write_reboot_bootloader_def using e by (auto intro!: rd wp_write_message simp del: wp_bind)
  next
    case 4
    then have "op = write_bootloader_message e empty_message"
      using assms(6) by (auto simp: clear_bootloader_message_def write_bootloader_message_def write_bootloader_message_to_def [abs_def])
    then show ?thesis using wp_write_message [OF e message_ok_empty] by simp
  qed
qed

section \<open>Properties\<close>

text \<open>
  C28.  What the system asks of recovery arrives: after a successful
  \<^verbatim>\<open>write_bootloader_message(options)\<close>, a successful read returns a message with the boot command,
  from which \<^verbatim>\<open>get_args\<close> takes exactly the options, in order; the rest of the partition is as
  before.  Assumptions: the options are non-empty lines that fit into the field, and \<^verbatim>\<open>Split\<close>,
  \<^verbatim>\<open>ReadFully\<close> and \<^verbatim>\<open>WriteFully\<close> do what they document.
\<close>

theorem options_reach_recovery:
  assumes "fully_ok e" "split_ok (me_ab e)" "me_fstab e = Some (Some dev)" "dev \<noteq> []"
    and "file_of s dev = Some c" "me_offset e + message_size \<le> length c" "options_ok options"
    and "run_state (write_bootloader_message_options e options) s = (Inr (), s1)"
    and "run_state (read_bootloader_message e) s1 = (Inr boot, s2)"
  shows "boot_args (me_ab e) boot = options \<and> cstr (bm_command boot) = ''boot-recovery'' \<and>
    (\<exists>c'. file_of s2 dev = Some c' \<and> length c' = length c \<and> take (me_offset e) c' = take (me_offset e) c \<and>
       drop (me_offset e + message_size) c' = drop (me_offset e + message_size) c)"
proof -
  let ?boot = "set_options empty_message options"
  have ok: "message_ok ?boot" using message_ok_set_options [OF message_ok_empty assms(7)] .
  have "run_state (write_bootloader_message_to e ?boot dev) s = (Inr (), s1)"
    using assms(8) wp_update_in_struct [OF message_ok_empty assms(7), of s]
    by (simp add: write_bootloader_message_options_def write_bootloader_message_def with_misc_dev [OF assms(3,4)] wp_run
        run_statements(2) split: prod.splits)
  moreover have "run_state (read_bootloader_message_from e dev) s1 = (Inr boot, s2)"
    using assms(9) by (simp add: read_bootloader_message_def with_misc_dev [OF assms(3,4)])
  ultimately have "boot = bytes_message (message_bytes ?boot) \<and> (\<exists>c'. file_of s2 dev = Some c' \<and> outside_same (me_offset e) message_size c c')"
    using message.save_load [OF assms(1) ok assms(5,6)] by simp
  moreover have "cstr (bm_command ?boot) = ''boot-recovery''"
    using holds_text_cstr strlcpy_fits [of "''boot-recovery''" 32] by (simp add: set_options_def NUL_def)
  ultimately show ?thesis
    using message_round_trip(2) [OF ok] boot_args_set_options [OF assms(2,7)] by (auto simp: outside_same_def)
qed

text \<open>
  The options that the retry logic writes still contain the name of the program, which
  \<^verbatim>\<open>get_args\<close> leaves out on purpose: each retry adds it to the arguments once more.
\<close>

lemma retry_repeats_program_name:
  assumes "split_ok (me_ab e)" "options_ok (retry_options n (prog # args))" "take 13 prog \<noteq> ''--retry_count''"
  shows "prog # boot_args (me_ab e) (set_options boot (retry_options n (prog # args))) =
    prog # prog # filter (\<lambda>a. take 13 a \<noteq> ''--retry_count'') args @ [''--retry_count='' @ int_to_string n]"
  using boot_args_set_options [OF assms(1,2)] assms(3) by (simp add: retry_options_def)

section \<open>A sample partition\<close>

definition sample_misc :: "'z misc_env" where
  "sample_misc = \<lparr>me_fstab = Some (Some ''/dev/misc''),
     me_ReadFully = (\<lambda>fd n. do { r \<leftarrow> sys_read fd n; ret (case r of None \<Rightarrow> None | Some xs \<Rightarrow> if length xs = n then Some xs else None) }),
     me_WriteFully = (\<lambda>fd xs. do { r \<leftarrow> sys_write fd xs; ret (r = int (length xs)) }),
     me_ReadFileToString = (\<lambda>_. ret None), me_ensure_path_mounted = (\<lambda>_. ret 0), me_offset = 0,
     me_strerror = (\<lambda>_. ''error''), me_ab = sample_base\<rparr>"

lemma sample_fully_ok: "fully_ok (sample_misc :: 'a misc_env)"
proof -
  have "wp (me_ReadFully sample_misc fd n) (\<lambda>r s'. file_of s' p = Some c \<and> (\<forall>xs. r = Some xs \<longrightarrow> length xs = n \<and> xs = take n (drop pos c))) s"
    if "at fd p pos c s" for fd n p pos c and s :: "'a world_scheme"
    unfolding sample_misc_def
    by (simp, rule wp_mono [OF wp_sys_read [OF that]]) (auto simp: read_post_def read_some_def at_def split: option.splits if_splits)
  moreover have "wp (me_WriteFully sample_misc fd xs) (\<lambda>ok s'. \<exists>k \<le> length xs. file_of s' p = Some (overlay pos (take k xs) c) \<and> (ok \<longrightarrow> k = length xs)) s"
    if "at fd p pos c s" for fd xs p pos c and s :: "'a world_scheme"
    unfolding sample_misc_def
    by (simp, rule wp_mono [OF wp_sys_write_wrote [OF that]]) (auto simp: wrote_def split: if_splits)
  ultimately show ?thesis by (simp add: fully_ok_def)
qed

text \<open>A machine with the partition as its only file, and no errors to come.\<close>

definition misc_world :: "byte list \<Rightarrow> int \<Rightarrow> world" where
  "misc_world c n = \<lparr>w_halted = False, w_files = [(''/dev/misc'', c)], w_dev = [''/dev/misc''], w_dirs = [], w_fds = [],
     w_next_fd = n, w_oracle = [], w_errno = 0, w_stdout = []\<rparr>"

lemma misc_world_write:
  assumes "length xs = message_size" "message_size \<le> length c" "0 \<le> n"
  shows "run_state (write_misc_partition sample_misc xs ''/dev/misc'' 0) (misc_world c n) = (Inr (), misc_world (overlay 0 xs c) (n + 1))"
  using assms
  by (simp add: write_misc_partition_def sample_misc_def misc_world_def with_fd_def run_eval file_defs message_size_def Let_def
      cong: bind_weak_cong let_weak_cong)

lemma misc_world_read:
  assumes "message_size \<le> length c" "0 \<le> n"
  shows "run_state (read_misc_partition sample_misc message_size ''/dev/misc'' 0) (misc_world c n) =
    (Inr (take message_size c), misc_world c (n + 1))"
  using assms
  by (simp add: read_misc_partition_def wait_for_device_def sample_misc_def misc_world_def with_fd_def run_eval file_defs message_size_def Let_def
      eval_nat_numeral cong: bind_weak_cong let_weak_cong)

lemma sample_options_ok: "options_ok [''--wipe_data'', ''--locale=en'']"
  by (simp add: options_ok_def option_ok_def NUL_def NL_def)

theorem options_reach_recovery_witness:
  "\<exists>boot s1 s2. run_state (write_bootloader_message_options sample_misc [''--wipe_data'', ''--locale=en'']) (misc_world (replicate 4096 0) 3) =
       (Inr (), s1) \<and>
     run_state (read_bootloader_message sample_misc) s1 = (Inr boot, s2) \<and>
     boot_args sample_base boot = [''--wipe_data'', ''--locale=en'']"
proof -
  let ?o = "[''--wipe_data'', ''--locale=en'']" and ?c = "replicate 4096 (0 :: byte)"
  let ?boot = "set_options empty_message ?o"
  let ?c1 = "overlay 0 (message_bytes ?boot) ?c"
  have env: "me_fstab sample_misc = Some (Some ''/dev/misc'')" "me_ab sample_misc = sample_base" "me_offset sample_misc = 0"
    by (simp_all add: sample_misc_def)
  have dev: "with_misc sample_misc f = f ''/dev/misc''" for f :: "string \<Rightarrow> (unit, string + 'b) io"
    by (rule with_misc_dev [OF env(1)]) simp
  have len: "length (message_bytes ?boot) = message_size"
    using message_round_trip(1) message_ok_set_options [OF message_ok_empty sample_options_ok] by blast
  have w: "run_state (write_bootloader_message_options sample_misc ?o) (misc_world ?c 3) = (Inr (), misc_world ?c1 (3 + 1))"
    using misc_world_write [OF len, of ?c 3]
      wp_update_in_struct [OF message_ok_empty sample_options_ok, of "misc_world ?c 3"]
    by (simp add: write_bootloader_message_options_def write_bootloader_message_def dev wp_run run_statements(2)
        write_bootloader_message_to_def env(3) message_size_def split_beta)
  have "message_size \<le> length ?c1" using len by (simp add: overlay_inside message_size_def)
  then have r: "run_state (read_bootloader_message sample_misc) (misc_world ?c1 (3 + 1)) =
      (Inr (bytes_message (take message_size ?c1)), misc_world ?c1 (3 + 1 + 1))"
    using misc_world_read [of ?c1 "3 + 1"]
    by (simp add: read_bootloader_message_def dev read_bootloader_message_from_def env(3) run_statements(2))
  have "file_of (misc_world ?c 3) ''/dev/misc'' = Some ?c" by (simp add: misc_world_def file_of_def)
  from options_reach_recovery [OF sample_fully_ok _ env(1) _ this _ sample_options_ok w r] show ?thesis
    unfolding env(2) using w r sample_split_ok by (simp add: env(3) message_size_def)
qed

end
