(* ===== verification/Boot_Control.thy ===== *)
theory Boot_Control
  imports Boot_Message
begin

text \<open>
  The boot control module (\<^verbatim>\<open>boot_control.cpp\<close>), which keeps the state of the slots of an A/B device
  in a structure of 32 bytes on the \<^verbatim>\<open>misc\<close> partition, after the bootloader message.

  Bit fields are words of their width and lie in their byte from the lowest bit up, as on the
  little-endian machines the code is built for; \<open>bc_padding\<close> stands for the two bits that
  belong to no field.  An access to \<^verbatim>\<open>slot_info\<close> outside the array, or to the path of the partition
  before it is set, ends the run.  The reading of the slot property and the file helpers are
  parameters.
\<close>

unbundle bit_operations_syntax

section \<open>The checksum\<close>

type_synonym uint32 = "32 word"

definition crc_step :: "uint32 \<Rightarrow> uint32" where
  "crc_step crc = (let mask = - (crc AND 1) in drop_bit 1 crc XOR (0xEDB88320 AND mask))"

text \<open>The static table: it is filled by the first call, when entry 1 is still zero.\<close>

definition fill_crc_table :: "uint32 list \<Rightarrow> uint32 list" where
  "fill_crc_table t = (if t ! 1 = 0 then map (\<lambda>i. (crc_step ^^ 8) (of_nat i)) [0..<256] else t)"

definition crc_table :: "uint32 list" where
  "crc_table = fill_crc_table (replicate 256 0)"

definition CRC32 :: "byte list \<Rightarrow> uint32" where
  "CRC32 buf = NOT (foldl (\<lambda>r b. drop_bit 8 r XOR crc_table ! unat ((r XOR ucast b) AND 0xFF)) (- 1) buf)"

section \<open>The structures\<close>

record slot_metadata =
  priority :: "4 word"
  tries_remaining :: "3 word"
  successful_boot :: "1 word"
  verity_corrupted :: "1 word"
  sm_reserved :: "7 word"

record bootloader_control =
  bc_slot_suffix :: string
  bc_magic :: uint32
  bc_version :: byte
  nb_slot :: "3 word"
  recovery_tries_remaining :: "3 word"
  bc_padding :: "2 word"
  bc_reserved0 :: "byte list"
  slot_info :: "slot_metadata list"
  bc_reserved1 :: "byte list"
  crc32_le :: uint32

definition slot_bytes :: "slot_metadata \<Rightarrow> byte list" where
  "slot_bytes m =
     [ucast (priority m) OR push_bit 4 (ucast (tries_remaining m)) OR push_bit 7 (ucast (successful_boot m)),
      ucast (verity_corrupted m) OR push_bit 1 (ucast (sm_reserved m))]"

definition bytes_slot :: "byte list \<Rightarrow> slot_metadata" where
  "bytes_slot bs =
     \<lparr>priority = ucast (bs ! 0), tries_remaining = ucast (drop_bit 4 (bs ! 0)), successful_boot = ucast (drop_bit 7 (bs ! 0)),
      verity_corrupted = ucast (bs ! 1), sm_reserved = ucast (drop_bit 1 (bs ! 1))\<rparr>"

definition le32 :: "uint32 \<Rightarrow> byte list" where
  "le32 w = map (\<lambda>i. ucast (drop_bit (8 * i) w)) [0..<4]"

fun le_word :: "byte list \<Rightarrow> uint32" where
  "le_word [] = 0"
| "le_word (b # bs) = push_bit 8 (le_word bs) XOR ucast b"

text \<open>The 28 bytes before the checksum, and the whole structure.\<close>

definition checked_bytes :: "bootloader_control \<Rightarrow> byte list" where
  "checked_bytes b = bytes_of (bc_slot_suffix b) @ le32 (bc_magic b) @
     [bc_version b, ucast (nb_slot b) OR push_bit 3 (ucast (recovery_tries_remaining b)) OR push_bit 6 (ucast (bc_padding b))] @
     bc_reserved0 b @ concat (map slot_bytes (slot_info b)) @ bc_reserved1 b"

definition control_bytes :: "bootloader_control \<Rightarrow> byte list" where
  "control_bytes b = checked_bytes b @ le32 (crc32_le b)"

definition bytes_control :: "byte list \<Rightarrow> bootloader_control" where
  "bytes_control bs =
     \<lparr>bc_slot_suffix = text_of (take 4 bs), bc_magic = le_word (take 4 (drop 4 bs)), bc_version = bs ! 8,
      nb_slot = ucast (bs ! 9), recovery_tries_remaining = ucast (drop_bit 3 (bs ! 9)), bc_padding = ucast (drop_bit 6 (bs ! 9)),
      bc_reserved0 = take 2 (drop 10 bs),
      slot_info = map (\<lambda>i. bytes_slot (take 2 (drop (12 + 2 * i) bs))) [0..<4],
      bc_reserved1 = take 8 (drop 20 bs), crc32_le = le_word (take 4 (drop 28 bs))\<rparr>"

definition control_size :: nat where "control_size = 32"
definition BOOT_CTRL_MAGIC :: uint32 where "BOOT_CTRL_MAGIC = 0x42414342"
definition BOOT_CTRL_VERSION :: byte where "BOOT_CTRL_VERSION = 1"
definition kDefaultBootAttempts :: "3 word" where "kDefaultBootAttempts = 7"
definition kMaxNumSlots :: nat where "kMaxNumSlots = 4"
definition kSlotSuffixes :: "string list" where "kSlotSuffixes = [''_a'', ''_b'', ''_c'', ''_d'']"
definition kBootloaderControlOffset :: nat where "kBootloaderControlOffset = 2048"

definition BootloaderControlLECRC :: "bootloader_control \<Rightarrow> uint32" where
  "BootloaderControlLECRC b = CRC32 (checked_bytes b)"

section \<open>Access to the partition\<close>

definition LoadBootloaderControl :: "'z misc_env \<Rightarrow> string \<Rightarrow> ('z, bootloader_control option) io" where
  "LoadBootloaderControl e dev = do {
     fd \<leftarrow> sys_open dev [O_RDONLY];
     if fd = -1 then ret None
     else with_fd fd (do {
       pos \<leftarrow> sys_lseek fd kBootloaderControlOffset;
       if pos \<noteq> int kBootloaderControlOffset then ret None
       else do {
         r \<leftarrow> me_ReadFully e fd control_size;
         ret (map_option bytes_control r) } }) }"

text \<open>The result is the return value together with the buffer.\<close>

definition with_crc :: "bootloader_control \<Rightarrow> bootloader_control" where
  "with_crc b = b\<lparr>crc32_le := BootloaderControlLECRC b\<rparr>"

definition UpdateAndSaveBootloaderControl :: "'z misc_env \<Rightarrow> bootloader_control \<Rightarrow> string \<Rightarrow> ('z, bool \<times> bootloader_control) io" where
  "UpdateAndSaveBootloaderControl e b dev = do {
     let b = with_crc b;
     fd \<leftarrow> sys_open dev [O_WRONLY, O_SYNC];
     if fd = -1 then ret (False, b)
     else with_fd fd (do {
       pos \<leftarrow> sys_lseek fd kBootloaderControlOffset;
       if pos \<noteq> int kBootloaderControlOffset then ret (False, b)
       else do {
         ok \<leftarrow> me_WriteFully e fd (control_bytes b);
         ret (ok, b) } }) }"

section \<open>The module\<close>

record boot_control_private =
  initialized :: bool
  misc_device :: "string option"
  num_slots :: uint32
  current_slot :: uint32

definition HAL_MODULE_INFO_SYM :: boot_control_private where
  "HAL_MODULE_INFO_SYM = \<lparr>initialized = False, misc_device = None, num_slots = 0, current_slot = 0\<rparr>"

text \<open>The loop that looks for the boot partitions: the last slot found and the first one missing, -1 for none.\<close>

fun probe_slots :: "string \<Rightarrow> nat list \<Rightarrow> int \<Rightarrow> int \<Rightarrow> ('z, int \<times> int) io" where
  "probe_slots base_path [] last_existing first_missing = ret (last_existing, first_missing)"
| "probe_slots base_path (slot # slots) last_existing first_missing = do {
     st \<leftarrow> sys_stat (base_path @ kSlotSuffixes ! slot);
     errno \<leftarrow> gets w_errno;
     case st of
       Some _ \<Rightarrow> probe_slots base_path slots (int slot) first_missing
     | None \<Rightarrow> probe_slots base_path slots last_existing
         (if errno = ENOENT \<and> first_missing = -1 then int slot else first_missing) }"

definition default_slot :: "uint32 \<Rightarrow> 3 word \<Rightarrow> nat \<Rightarrow> slot_metadata" where
  "default_slot cur nb slot =
     (let entry = (if slot < unat nb then \<lparr>priority = 7, tries_remaining = kDefaultBootAttempts, successful_boot = 0, verity_corrupted = 0, sm_reserved = 0\<rparr>
        else \<lparr>priority = 0, tries_remaining = 0, successful_boot = 0, verity_corrupted = 0, sm_reserved = 0\<rparr>)
      in if unat cur = slot then entry\<lparr>successful_boot := 1\<rparr> else entry)"

definition InitDefaultBootloaderControl :: "string \<Rightarrow> uint32 \<Rightarrow> ('z, bootloader_control) io" where
  "InitDefaultBootloaderControl device cur = do {
     let suffix = (if unat cur < kMaxNumSlots then strlcpy (zeros 4) (kSlotSuffixes ! unat cur) else zeros 4);
     nb \<leftarrow> (if CHR ''/'' \<notin> set device then ret (of_nat kMaxNumSlots)
       else do {
         (last_existing, first_missing) \<leftarrow> probe_slots (dir_part device @ ''boot'') [0..<kMaxNumSlots] (-1) (-1);
         ret (if (last_existing \<noteq> -1 \<and> last_existing + 1 = first_missing) \<or>
                 (first_missing = -1 \<and> last_existing + 1 = int kMaxNumSlots)
              then of_int (last_existing + 1) else of_nat kMaxNumSlots) });
     ret (with_crc \<lparr>bc_slot_suffix = suffix, bc_magic = BOOT_CTRL_MAGIC, bc_version = BOOT_CTRL_VERSION, nb_slot = nb,
       recovery_tries_remaining = 0, bc_padding = 0, bc_reserved0 = replicate 2 0,
       slot_info = map (default_slot cur nb) [0..<kMaxNumSlots], bc_reserved1 = replicate 8 0, crc32_le = 0\<rparr>) }"

text \<open>The loop over the suffixes; -1 when there is none.\<close>

definition SlotSuffixToIndex :: "string \<Rightarrow> int" where
  "SlotSuffixToIndex sfx =
     (case find (\<lambda>slot. kSlotSuffixes ! slot = cstr sfx) [0..<kMaxNumSlots] of None \<Rightarrow> -1 | Some slot \<Rightarrow> int slot)"

definition BootControl_lazyInitialization ::
    "'z misc_env \<Rightarrow> string \<Rightarrow> boot_control_private \<Rightarrow> ('z, bool \<times> boot_control_private) io" where
  "BootControl_lazyInitialization e suffix_prop module =
     (if initialized module then ret (True, module)
      else do {
        let module = module\<lparr>current_slot := of_int (SlotSuffixToIndex suffix_prop)\<rparr>;
        dev \<leftarrow> get_bootloader_message_blk_device e;
        case dev of
          Inl _ \<Rightarrow> ret (False, module)
        | Inr device \<Rightarrow> do {
            loaded \<leftarrow> LoadBootloaderControl e device;
            case loaded of
              None \<Rightarrow> ret (False, module)
            | Some boot_ctrl \<Rightarrow> do {
                let module = module\<lparr>misc_device := Some device, initialized := True\<rparr>;
                boot_ctrl \<leftarrow> (if crc32_le boot_ctrl \<noteq> BootloaderControlLECRC boot_ctrl
                  then do {
                    boot_ctrl \<leftarrow> InitDefaultBootloaderControl device (current_slot module);
                    (ok, boot_ctrl) \<leftarrow> UpdateAndSaveBootloaderControl e boot_ctrl device;
                    ret boot_ctrl }
                  else ret boot_ctrl);
                ret (True, module\<lparr>num_slots := ucast (nb_slot boot_ctrl)\<rparr>) } } })"

definition BootControl_getNumberSlots :: "boot_control_private \<Rightarrow> uint32" where
  "BootControl_getNumberSlots module = num_slots module"

definition BootControl_getCurrentSlot :: "boot_control_private \<Rightarrow> uint32" where
  "BootControl_getCurrentSlot module = current_slot module"

text \<open>An update of one entry of \<^verbatim>\<open>slot_info\<close>.\<close>

definition change_slot :: "nat \<Rightarrow> (slot_metadata \<Rightarrow> slot_metadata) \<Rightarrow> bootloader_control \<Rightarrow> bootloader_control" where
  "change_slot i f b = b\<lparr>slot_info := (slot_info b)[i := f (slot_info b ! i)]\<rparr>"

text \<open>Load, change, save: the frame of the three operations that write.\<close>

definition modify_control :: "'z misc_env \<Rightarrow> boot_control_private \<Rightarrow> (bootloader_control \<Rightarrow> ('z, bootloader_control) io) \<Rightarrow> ('z, int) io" where
  "modify_control e module change = do {
     CHECK (misc_device module \<noteq> None);
     loaded \<leftarrow> LoadBootloaderControl e (the (misc_device module));
     case loaded of
       None \<Rightarrow> ret (-1)
     | Some b \<Rightarrow> do {
         b \<leftarrow> change b;
         (ok, b) \<leftarrow> UpdateAndSaveBootloaderControl e b (the (misc_device module));
         ret (if ok then 0 else -1) } }"

definition BootControl_markBootSuccessful :: "'z misc_env \<Rightarrow> boot_control_private \<Rightarrow> ('z, int) io" where
  "BootControl_markBootSuccessful e module =
     modify_control e module (\<lambda>b. do {
       CHECK (unat (current_slot module) < kMaxNumSlots);
       ret (change_slot (unat (current_slot module)) (\<lambda>m. m\<lparr>successful_boot := 1, tries_remaining := 1\<rparr>) b) })"

definition bad_slot :: "boot_control_private \<Rightarrow> uint32 \<Rightarrow> bool" where
  "bad_slot module slot \<longleftrightarrow> unat slot \<ge> kMaxNumSlots \<or> slot \<ge> num_slots module"

definition kActivePriority :: "4 word" where "kActivePriority = 15"
definition kActiveTries :: "3 word" where "kActiveTries = 6"

text \<open>The loop that lowers the priority of the other slots.\<close>

definition lower_others :: "nat \<Rightarrow> nat \<Rightarrow> bootloader_control \<Rightarrow> bootloader_control" where
  "lower_others n slot b = fold (\<lambda>i b. if i \<noteq> slot
     then if priority (slot_info b ! i) \<ge> kActivePriority then change_slot i (\<lambda>m. m\<lparr>priority := kActivePriority - 1\<rparr>) b else b
     else b) [0..<n] b"

text \<open>The change that \<^verbatim>\<open>setActiveBootSlot\<close> makes to the structure.\<close>

definition activated :: "boot_control_private \<Rightarrow> uint32 \<Rightarrow> bootloader_control \<Rightarrow> bootloader_control" where
  "activated module slot b =
     (let b = lower_others (unat (num_slots module)) (unat slot) b;
          b = change_slot (unat slot) (\<lambda>m. m\<lparr>priority := kActivePriority, tries_remaining := kActiveTries\<rparr>) b
      in if slot \<noteq> current_slot module then change_slot (unat slot) (\<lambda>m. m\<lparr>verity_corrupted := 0\<rparr>) b else b)"

definition BootControl_setActiveBootSlot :: "'z misc_env \<Rightarrow> boot_control_private \<Rightarrow> uint32 \<Rightarrow> ('z, int) io" where
  "BootControl_setActiveBootSlot e module slot =
     (if bad_slot module slot then ret (-1)
      else modify_control e module (\<lambda>b. do {
        CHECK (unat (num_slots module) \<le> kMaxNumSlots);
        ret (activated module slot b) }))"

definition BootControl_setSlotAsUnbootable :: "'z misc_env \<Rightarrow> boot_control_private \<Rightarrow> uint32 \<Rightarrow> ('z, int) io" where
  "BootControl_setSlotAsUnbootable e module slot =
     (if bad_slot module slot then ret (-1)
      else modify_control e module (\<lambda>b.
        ret (change_slot (unat slot) (\<lambda>m. m\<lparr>successful_boot := 0, tries_remaining := 0\<rparr>) b)))"

text \<open>The two queries.\<close>

definition query_slot :: "'z misc_env \<Rightarrow> boot_control_private \<Rightarrow> uint32 \<Rightarrow> (slot_metadata \<Rightarrow> int) \<Rightarrow> ('z, int) io" where
  "query_slot e module slot f =
     (if bad_slot module slot then ret (-1)
      else do {
        CHECK (misc_device module \<noteq> None);
        loaded \<leftarrow> LoadBootloaderControl e (the (misc_device module));
        case loaded of None \<Rightarrow> ret (-1) | Some b \<Rightarrow> ret (f (slot_info b ! unat slot)) })"

definition BootControl_isSlotBootable :: "'z misc_env \<Rightarrow> boot_control_private \<Rightarrow> uint32 \<Rightarrow> ('z, int) io" where
  "BootControl_isSlotBootable e module slot = query_slot e module slot (\<lambda>m. uint (tries_remaining m))"

definition BootControl_isSlotMarkedSuccessful :: "'z misc_env \<Rightarrow> boot_control_private \<Rightarrow> uint32 \<Rightarrow> ('z, int) io" where
  "BootControl_isSlotMarkedSuccessful e module slot =
     query_slot e module slot (\<lambda>m. of_bool (successful_boot m \<noteq> 0 \<and> tries_remaining m \<noteq> 0))"

definition BootControl_getSuffix :: "boot_control_private \<Rightarrow> uint32 \<Rightarrow> string option" where
  "BootControl_getSuffix module slot = (if bad_slot module slot then None else Some (kSlotSuffixes ! unat slot))"

section \<open>Laws of the checksum\<close>

text \<open>
  The usual definition of CRC-32, as a shift register that takes one bit of the message at a
  time, the lowest bit of each byte first.
\<close>

definition serial_step :: "uint32 \<Rightarrow> bool \<Rightarrow> uint32" where
  "serial_step r x = drop_bit 1 r XOR (if bit r 0 \<noteq> x then 0xEDB88320 else 0)"

definition byte_bits :: "byte \<Rightarrow> bool list" where
  "byte_bits b = map (bit b) [0..<8]"

definition crc_serial :: "bool list \<Rightarrow> uint32" where
  "crc_serial xs = NOT (foldl serial_step (- 1) xs)"

lemma xor_cancel: "a XOR c = b XOR c \<longleftrightarrow> a = b" for a b c :: "'w :: len word"
  by (metis xor.assoc xor.right_neutral xor_self_eq)

lemma crc_step_alt: "crc_step r = drop_bit 1 r XOR (if bit r 0 then 0xEDB88320 else 0)"
proof -
  have "r AND 1 = (if bit r 0 then 1 else 0)" by (simp add: and_one_eq bit_0 odd_iff_mod_2_eq_one)
  then show ?thesis by (simp add: crc_step_def)
qed

lemma crc_step_xor: "crc_step (a XOR b) = crc_step a XOR crc_step b"
  by (simp add: crc_step_alt drop_bit_xor bit_xor_iff ac_simps)

lemma crc_steps_xor: "(crc_step ^^ n) (a XOR b) = (crc_step ^^ n) a XOR (crc_step ^^ n) b"
  by (induction n) (simp_all add: crc_step_xor)

lemma crc_step_shift: "\<not> bit x 31 \<Longrightarrow> crc_step (push_bit 1 x) = x"
proof -
  assume "\<not> bit x 31"
  then have "drop_bit 1 (push_bit 1 x) = x"
    unfolding bit_eq_iff bit_simps by (auto intro!: le_neq_implies_less)
  moreover have "\<not> bit (push_bit 1 x) 0" unfolding bit_simps by simp
  ultimately show ?thesis by (simp only: crc_step_alt if_False xor.right_neutral)
qed

lemma crc_step_inj: "crc_step a = crc_step b \<Longrightarrow> a = b"
proof -
  assume eq: "crc_step a = crc_step b"
  have "bit (0xEDB88320 :: uint32) 31" by simp
  then have "bit (crc_step r) 31 = bit r 0" for r :: uint32
    using bit_imp_le_length [of r 32] by (auto simp: crc_step_alt bit_simps)
  with eq have b0: "bit a 0 = bit b 0" by metis
  with eq have d: "drop_bit 1 a = drop_bit 1 b" by (simp add: crc_step_alt xor_cancel split: if_splits)
  show "a = b"
  proof (rule bit_word_eqI)
    fix n show "bit a n = bit b n"
    proof (cases n)
      case (Suc m)
      have "bit (drop_bit 1 a) m = bit (drop_bit 1 b) m" using d by simp
      then show ?thesis using Suc by (simp add: bit_simps)
    qed (use b0 in simp)
  qed
qed


lemma crc_steps_inj: "(crc_step ^^ n) a = (crc_step ^^ n) b \<Longrightarrow> a = b"
  by (induction n) (auto dest: crc_step_inj)

lemma crc_steps_shift: "(\<And>i. 32 - n \<le> i \<Longrightarrow> \<not> bit x i) \<Longrightarrow> n \<le> 32 \<Longrightarrow> (crc_step ^^ n) (push_bit n x) = x"
proof (induction n arbitrary: x)
  case (Suc n)
  have "push_bit (Suc n) x = push_bit n (push_bit 1 x)" by (simp only: push_bit_push_bit) simp
  moreover have "\<not> bit (push_bit 1 x) i" if "32 - n \<le> i" for i
    using Suc.prems(1) [of "i - 1"] that unfolding bit_simps by simp
  ultimately have "(crc_step ^^ Suc n) (push_bit (Suc n) x) = crc_step (push_bit 1 x)"
    using Suc.IH [of "push_bit 1 x"] Suc.prems(2) by simp
  then show ?case using crc_step_shift Suc.prems(1) [of 31] by simp
qed simp

text \<open>One byte at a time: eight steps after the byte has been added to the register.\<close>

definition crc_byte :: "uint32 \<Rightarrow> byte \<Rightarrow> uint32" where
  "crc_byte r b = (crc_step ^^ 8) (r XOR ucast b)"

lemma crc_table_nth: "i < 256 \<Longrightarrow> crc_table ! i = (crc_step ^^ 8) (of_nat i)"
  by (simp add: crc_table_def fill_crc_table_def)

lemma low_steps: "(crc_step ^^ n) x = drop_bit n x XOR (crc_step ^^ n) (take_bit n x)" if "n \<le> 32"
proof -
  have "x = push_bit n (drop_bit n x) XOR take_bit n x"
    by (rule bit_eqI) (auto simp: bit_simps)
  then have "(crc_step ^^ n) x = (crc_step ^^ n) (push_bit n (drop_bit n x)) XOR (crc_step ^^ n) (take_bit n x)"
    using crc_steps_xor by metis
  also have "(crc_step ^^ n) (push_bit n (drop_bit n x)) = drop_bit n x"
    using that by (intro crc_steps_shift) (auto simp: bit_simps dest: bit_imp_le_length)
  finally show ?thesis .
qed

lemma table_step: "drop_bit 8 r XOR crc_table ! unat ((r XOR ucast b) AND 0xFF) = crc_byte r b"
proof -
  let ?x = "r XOR ucast b"
  have m: "?x AND 0xFF = take_bit 8 ?x" by (simp add: take_bit_eq_mask mask_numeral)
  have "unat (take_bit 8 x) < 256" for x :: uint32 using take_bit_nat_less_exp [of 8 "unat x"] by (simp add: unsigned_take_bit_eq)
  from this [of ?x] have "crc_table ! unat (?x AND 0xFF) = (crc_step ^^ 8) (take_bit 8 ?x)"
    unfolding m by (simp add: crc_table_nth)
  moreover have "drop_bit 8 ?x = drop_bit 8 r" by (rule bit_eqI) (auto simp: bit_simps dest: bit_imp_le_length)
  ultimately show ?thesis using low_steps [of 8 ?x] by (simp add: crc_byte_def)
qed

lemma CRC32_bytes: "CRC32 buf = NOT (foldl crc_byte (- 1) buf)"
  by (simp add: CRC32_def table_step)


lemma serial_step_alt: "serial_step r v = crc_step (r XOR of_bool v)"
  by (auto simp: serial_step_def crc_step_alt drop_bit_xor bit_simps)

lemma serial_bits: "n \<le> 32 \<Longrightarrow> foldl serial_step r (map (bit w) [0..<n]) = (crc_step ^^ n) (r XOR take_bit n w)"
proof (induction n)
  case (Suc n)
  have "take_bit (Suc n) w = take_bit n w XOR push_bit n (of_bool (bit w n))"
    by (rule bit_eqI) (auto simp: bit_simps less_Suc_eq)
  moreover have "(crc_step ^^ n) (push_bit n (of_bool (bit w n))) = of_bool (bit w n)"
    using Suc.prems by (intro crc_steps_shift) (auto simp: bit_simps)
  ultimately have "(crc_step ^^ n) (r XOR take_bit (Suc n) w) = (crc_step ^^ n) (r XOR take_bit n w) XOR of_bool (bit w n)"
    by (simp add: crc_steps_xor ac_simps)
  with Suc show ?case by (simp add: serial_step_alt)
qed simp

lemma serial_byte: "foldl serial_step r (byte_bits b) = crc_byte r b"
proof -
  have "take_bit 8 (ucast b :: uint32) = ucast b" by (rule bit_eqI) (auto simp: bit_simps dest: bit_imp_le_length)
  moreover have "byte_bits b = map (bit (ucast b :: uint32)) [0..<8]" by (auto simp: byte_bits_def bit_simps)
  ultimately show ?thesis using serial_bits [of 8 r "ucast b"] by (simp add: crc_byte_def)
qed

text \<open>
  C31.  The table-driven loop of \<^verbatim>\<open>CRC32\<close> computes the CRC-32 of the message as the shift register
  defines it, for messages of any length.
\<close>

theorem crc_table_driven: "CRC32 buf = crc_serial (concat (map byte_bits buf))"
proof -
  have "foldl crc_byte r buf = foldl serial_step r (concat (map byte_bits buf))" for r
    by (induction buf arbitrary: r) (simp_all add: serial_byte)
  then show ?thesis by (simp add: CRC32_bytes crc_serial_def)
qed

lemma le_word_bound: "bit (le_word bs) i \<Longrightarrow> i < 8 * length bs"
proof (induction bs arbitrary: i)
  case (Cons b bs)
  have "bit (le_word bs) (i - 8) \<Longrightarrow> i < 8 * length bs + 8" by (drule Cons.IH) simp
  with Cons.prems bit_imp_le_length [of b i] show ?case by (auto simp: bit_simps)
qed simp

lemma crc_bytes_word: "length bs \<le> 4 \<Longrightarrow> foldl crc_byte r bs = (crc_step ^^ (8 * length bs)) (r XOR le_word bs)"
proof (induction bs arbitrary: r)
  case (Cons b bs)
  have "(crc_step ^^ 8) (push_bit 8 (le_word bs)) = le_word bs"
    using Cons.prems by (intro crc_steps_shift) (auto dest: le_word_bound)
  then have "crc_byte r b XOR le_word bs = (crc_step ^^ 8) (r XOR le_word (b # bs))"
    by (simp add: crc_byte_def crc_steps_xor ac_simps)
  then show ?case using Cons by (simp add: funpow_add add.commute [of 8] del: le_word.simps)
qed simp

lemma le_word_inj: "length bs = length cs \<Longrightarrow> length bs \<le> 4 \<Longrightarrow> le_word bs = le_word cs \<Longrightarrow> bs = cs"
proof (induction bs cs rule: list_induct2)
  case (Cons b bs c cs)
  have w: "bit (le_word (b # bs)) i = bit (le_word (c # cs)) i" for i using Cons.prems by simp
  have "b = c"
  proof (rule bit_word_eqI)
    fix i assume "i < LENGTH(8)"
    then show "bit b i = bit c i" using w [of i] by (simp add: bit_simps)
  qed
  moreover have "le_word bs = le_word cs"
  proof (rule bit_word_eqI)
    fix i assume "i < LENGTH(32)"
    show "bit (le_word bs) i = bit (le_word cs) i"
    proof (cases "i < 24")
      case True
      then show ?thesis using w [of "i + 8"] \<open>b = c\<close> by (auto simp: bit_simps)
    next
      case False
      then show ?thesis using le_word_bound [of bs i] le_word_bound [of cs i] Cons.prems Cons.hyps by auto
    qed
  qed
  ultimately show ?case using Cons by simp
qed simp

lemma crc_byte_inj: "crc_byte r b = crc_byte r' b \<Longrightarrow> r = r'"
  unfolding crc_byte_def by (drule crc_steps_inj) (simp add: xor_cancel)

lemma crc_bytes_inj: "foldl crc_byte r bs = foldl crc_byte r' bs \<Longrightarrow> r = r'"
  by (induction bs arbitrary: r r') (auto dest: crc_byte_inj)

text \<open>
  C32.  The checksum detects every error burst of up to four bytes: two messages that differ
  only within four consecutive bytes have different checksums.  In particular a control block in
  which one field was damaged is never taken for a valid one.
\<close>

theorem crc_detects_bursts:
  assumes "length w = length w'" "length w \<le> 4" "w \<noteq> w'"
  shows "CRC32 (xs @ w @ ys) \<noteq> CRC32 (xs @ w' @ ys)"
proof
  assume "CRC32 (xs @ w @ ys) = CRC32 (xs @ w' @ ys)"
  then have "foldl crc_byte (- 1) (xs @ w @ ys) = foldl crc_byte (- 1) (xs @ w' @ ys)" by (simp add: CRC32_bytes)
  then have "foldl crc_byte (foldl crc_byte (- 1) xs) w = foldl crc_byte (foldl crc_byte (- 1) xs) w'"
    using crc_bytes_inj by fastforce
  then have "le_word w = le_word w'"
    using assms(1,2) crc_steps_inj by (fastforce simp: crc_bytes_word xor_cancel xor.commute)
  with le_word_inj assms show False by blast
qed


section \<open>The bytes of the structures\<close>

definition control_ok :: "bootloader_control \<Rightarrow> bool" where
  "control_ok b \<longleftrightarrow> length (bc_slot_suffix b) = 4 \<and> length (bc_reserved0 b) = 2 \<and> length (slot_info b) = 4 \<and>
     length (bc_reserved1 b) = 8"

lemma length_le32 [simp]: "length (le32 w) = 4"
  by (simp add: le32_def)

lemma le_word_le32 [simp]: "le_word (le32 w) = w"
proof -
  have "le_word (le32 w) = push_bit 8 (push_bit 8 (push_bit 8 (push_bit 8 0 XOR ucast (ucast (drop_bit 24 w) :: byte)) XOR
      ucast (ucast (drop_bit 16 w) :: byte)) XOR ucast (ucast (drop_bit 8 w) :: byte)) XOR ucast (ucast w :: byte)"
    by (simp add: le32_def upt_rec eval_nat_numeral)
  also have "\<dots> = w"
    by (rule bit_word_eqI) (auto simp: bit_simps)
  finally show ?thesis .
qed

lemma bytes_slot_slot_bytes [simp]: "bytes_slot (slot_bytes m) = m"
proof -
  have "ucast (ucast p OR push_bit 4 (ucast t) OR push_bit 7 (ucast u) :: byte) = p"
    "ucast (drop_bit 4 (ucast p OR push_bit 4 (ucast t) OR push_bit 7 (ucast u) :: byte)) = t"
    "ucast (drop_bit 7 (ucast p OR push_bit 4 (ucast t) OR push_bit 7 (ucast u) :: byte)) = u"
    for p :: "4 word" and t :: "3 word" and u :: "1 word"
    by (rule bit_word_eqI; auto simp: bit_simps dest: bit_imp_le_length)+
  moreover have "ucast (ucast v OR push_bit 1 (ucast r) :: byte) = v" "ucast (drop_bit 1 (ucast v OR push_bit 1 (ucast r) :: byte)) = r"
    for v :: "1 word" and r :: "7 word"
    by (rule bit_word_eqI; unfold bit_simps; auto dest: bit_imp_le_length)+
  ultimately show ?thesis by (simp add: bytes_slot_def slot_bytes_def)
qed


lemma bit_field_byte:
  "ucast (ucast n OR push_bit 3 (ucast t) OR push_bit 6 (ucast p) :: byte) = n"
  "ucast (drop_bit 3 (ucast n OR push_bit 3 (ucast t) OR push_bit 6 (ucast p) :: byte)) = t"
  "ucast (drop_bit 6 (ucast n OR push_bit 3 (ucast t) OR push_bit 6 (ucast p) :: byte)) = p"
  for n t :: "3 word" and p :: "2 word"
  by (rule bit_word_eqI; auto simp: bit_simps dest: bit_imp_le_length)+

lemma length_slot_bytes [simp]: "length (slot_bytes m) = 2"
  by (simp add: slot_bytes_def)

lemma length_bytes_of [simp]: "length (bytes_of t) = length t"
  by (simp add: bytes_of_def)

lemma slots_of_bytes:
  assumes "length ms = 4"
  shows "map (\<lambda>i. bytes_slot (take 2 (drop (2 * i) (concat (map slot_bytes ms) @ r)))) [0..<4] = ms"
    and "length (concat (map slot_bytes ms)) = 8"
proof -
  obtain m0 m1 m2 m3 where ms: "ms = [m0, m1, m2, m3]" using assms by (auto simp: length_Suc_conv numeral_eq_Suc)
  show "map (\<lambda>i. bytes_slot (take 2 (drop (2 * i) (concat (map slot_bytes ms) @ r)))) [0..<4] = ms"
    by (simp add: ms upt_rec)
  show "length (concat (map slot_bytes ms)) = 8" by (simp add: ms)
qed

lemma control_round_trip:
  assumes "control_ok b"
  shows "length (control_bytes b) = control_size" "bytes_control (control_bytes b) = b"
proof -
  have len: "length (bytes_of (bc_slot_suffix b)) = 4" "length (bc_reserved0 b) = 2" "length (concat (map slot_bytes (slot_info b))) = 8"
    "length (bc_reserved1 b) = 8"
    using assms slots_of_bytes(2) by (auto simp: control_ok_def)
  then show "length (control_bytes b) = control_size" by (simp add: control_bytes_def checked_bytes_def control_size_def)
  have slots: "map (\<lambda>i. bytes_slot (take 2 (drop (12 + 2 * i) (control_bytes b)))) [0..<4] = slot_info b"
  proof -
    have "drop (12 + 2 * i) (control_bytes b) = drop (2 * i) (concat (map slot_bytes (slot_info b)) @ bc_reserved1 b @ le32 (crc32_le b))" for i
      using len unfolding control_bytes_def checked_bytes_def drop_drop [of "2 * i" 12, symmetric] add.commute [of 12] by simp
    then show ?thesis using slots_of_bytes(1) assms unfolding control_ok_def by (simp only:)
  qed
  from len show "bytes_control (control_bytes b) = b"
    unfolding bytes_control_def slots unfolding control_bytes_def checked_bytes_def
    by (simp add: nth_append bit_field_byte del: drop_bit_or)
qed


section \<open>The partition\<close>

lemma control_ok_bytes: "length bs = control_size \<Longrightarrow> control_ok (bytes_control bs)"
  by (simp add: control_ok_def bytes_control_def control_size_def text_of_def)

lemma control_ok_with_crc [simp]: "control_ok (with_crc b) = control_ok b"
  by (simp add: control_ok_def with_crc_def)

definition crc_valid :: "bootloader_control \<Rightarrow> bool" where
  "crc_valid b \<longleftrightarrow> crc32_le b = BootloaderControlLECRC b"

lemma crc_valid_with_crc [simp]: "crc_valid (with_crc b)"
  by (simp add: crc_valid_def with_crc_def BootloaderControlLECRC_def checked_bytes_def)

text \<open>The control structure on the partition.\<close>

definition control_at :: "byte list \<Rightarrow> bootloader_control" where
  "control_at c = bytes_control (take control_size (drop kBootloaderControlOffset c))"

lemma wp_load_control:
  assumes "fully_ok e" "file_of s dev = Some c"
  shows "wp (LoadBootloaderControl e dev) (\<lambda>r s'. file_of s' dev = Some c \<and> (\<forall>b. r = Some b \<longrightarrow> control_ok b \<and> b = control_at c)) s"
proof -
  let ?Q = "\<lambda>r x. x = Some c \<and> (\<forall>b. r = Some b \<longrightarrow> control_ok b \<and> b = control_at c)"
  have rd: "wp (me_ReadFully e fd control_size \<bind> (\<lambda>r. ret (map_option bytes_control r))) (\<lambda>r s'. ?Q r (file_of s' dev)) s'"
    if "at fd dev kBootloaderControlOffset c s'" for fd s'
    by (rule wp_seq [OF fully_ok_read [OF assms(1) that]]) (auto simp: control_at_def intro: control_ok_bytes)
  show ?thesis
    unfolding LoadBootloaderControl_def
    by (rule wp_seq [OF wp_open_plain [OF assms(2)]], simp, rule wp_ifI)
      (auto intro!: wp_seek [where Q = ?Q, OF _ rd])
qed

lemma wp_save_control:
  assumes "fully_ok e" "control_ok b" "file_of s dev = Some c"
  shows "wp (UpdateAndSaveBootloaderControl e b dev) (\<lambda>r s'. (\<exists>k \<le> control_size.
      file_of s' dev = Some (overlay kBootloaderControlOffset (take k (control_bytes (with_crc b))) c) \<and> (fst r \<longrightarrow> k = control_size)) \<and>
    snd r = with_crc b) s"
proof -
  let ?xs = "control_bytes (with_crc b)"
  let ?Q = "\<lambda>r x. (\<exists>k \<le> control_size. x = Some (overlay kBootloaderControlOffset (take k ?xs) c) \<and> (fst r \<longrightarrow> k = control_size)) \<and>
    snd r = with_crc b"
  have len: "length ?xs = control_size" using control_round_trip(1) assms(2) by simp
  have none: "?Q (False, with_crc b) (Some c)" by (simp, intro exI [of _ 0]) simp
  have wr: "wp (me_WriteFully e fd ?xs \<bind> (\<lambda>ok. ret (ok, with_crc b))) (\<lambda>r s'. ?Q r (file_of s' dev)) s'"
    if "at fd dev kBootloaderControlOffset c s'" for fd s'
    by (rule wp_seq [OF fully_ok_write [OF assms(1) that]]) (use len in auto)
  show ?thesis
    unfolding UpdateAndSaveBootloaderControl_def Let_def
  proof (rule wp_seq [OF wp_open_plain [OF assms(3)]], simp, rule wp_ifI, goal_cases)
    case (2 fd s1)
    then show ?case using none by (intro wp_seek [where Q = ?Q, OF _ wr]) auto
  qed (use none in simp)
qed

interpretation control: region_store "LoadBootloaderControl e" id "UpdateAndSaveBootloaderControl e" fst
    "\<lambda>b. control_bytes (with_crc b)" bytes_control kBootloaderControlOffset control_size control_ok "fully_ok e" for e
proof
  fix s :: "'a world_scheme" and dev c
  assume "fully_ok e" "file_of s dev = Some c"
  from wp_load_control [OF this] show "wp (LoadBootloaderControl e dev) (\<lambda>r s'. file_of s' dev = Some c \<and>
      (\<forall>v. id r = Some v \<longrightarrow> v = bytes_control (take control_size (drop kBootloaderControlOffset c)))) s"
    by (rule wp_mono) (simp add: control_at_def)
next
  fix s :: "'a world_scheme" and dev c v
  assume "fully_ok e" "control_ok v" "file_of s dev = Some c"
  from wp_save_control [OF this] show "wp (UpdateAndSaveBootloaderControl e v dev) (\<lambda>r s'. \<exists>k \<le> control_size.
      file_of s' dev = Some (overlay kBootloaderControlOffset (take k (control_bytes (with_crc v))) c) \<and> (fst r \<longrightarrow> k = control_size)) s"
    by (rule wp_mono) simp
qed (simp add: control_round_trip(1))


section \<open>The operations\<close>

text \<open>
  What every writing operation does: on success the partition holds the changed structure with
  a fresh checksum, and nothing outside the 32 bytes changes in any case.
\<close>

text \<open>After the process has ended the partition stays as it is.\<close>

lemma halted_access:
  assumes "w_halted s"
  shows "wp (LoadBootloaderControl e dev) (\<lambda>r s'. r = None \<and> s' = s) s"
    and "wp (UpdateAndSaveBootloaderControl e b dev) (\<lambda>r s'. \<not> fst r \<and> s' = s) s"
  using assms by (simp_all add: LoadBootloaderControl_def UpdateAndSaveBootloaderControl_def sys_open_def wp_run run_eval)

lemma wp_CHECK_False: "file_of s p = Some c \<Longrightarrow> wp (CHECK (x \<noteq> x)) (\<lambda>_ s'. w_halted s' \<and> file_of s' p = Some c) s"
  by (simp add: CHECK_def file_of_def)

lemma wp_modify_control:
  assumes "fully_ok e" "misc_device module \<in> {None, Some dev}" "file_of s dev = Some c"
    and big: "kBootloaderControlOffset + control_size \<le> length c"
    and change: "\<And>b s. control_ok b \<Longrightarrow> wp (change b) (\<lambda>b' s'. file_of s' dev = file_of s dev \<and> (w_halted s' \<or> control_ok b' \<and> b' = g b)) s"
  shows "wp (modify_control e module change) (\<lambda>r s'. \<exists>c'. file_of s' dev = Some c' \<and>
    outside_same kBootloaderControlOffset control_size c c' \<and> (r \<ge> 0 \<longrightarrow> control_at c' = with_crc (g (control_at c)))) s"
    (is "wp _ (\<lambda>r s'. ?P r s') s")
proof -
  have fin: "wp (change b \<bind> (\<lambda>b. UpdateAndSaveBootloaderControl e b dev \<bind> (\<lambda>(ok, b). ret (if ok then 0 else - 1)))) ?P s1"
    if b: "control_ok b" "b = control_at c" and s1: "file_of s1 dev = Some c" for b and s1 :: "'a world_scheme"
  proof (rule wp_seq [OF change [OF b(1)]])
    fix b' and s2 :: "'a world_scheme"
    assume *: "file_of s2 dev = file_of s1 dev \<and> (w_halted s2 \<or> control_ok b' \<and> b' = g b)"
    show "wp (UpdateAndSaveBootloaderControl e b' dev \<bind> (\<lambda>(ok, b). ret (if ok then 0 else - 1))) ?P s2"
    proof (cases "w_halted s2")
      case True
      then show ?thesis using * s1 by (intro wp_seq [OF halted_access(2)]) auto
    next
      case False
      with * have "control_ok b'" "b' = g b" by auto
      from control.wp_save_region [OF assms(1) this(1) _ big] * s1 \<open>b' = g b\<close> \<open>control_ok b'\<close> b(2) show ?thesis
        by (intro wp_seq [OF control.wp_save_region [OF assms(1) \<open>control_ok b'\<close> _ big]])
          (auto simp: control_at_def control_round_trip(2))
    qed
  qed
  show ?thesis
  proof (cases "misc_device module")
    case None
    then show ?thesis
      unfolding modify_control_def None
      by (intro wp_seq [OF wp_CHECK_False [OF assms(3)]] wp_seq [OF halted_access(1)]) auto
  next
    case (Some d)
    then have "d = dev" using assms(2) by simp
    with Some show ?thesis
      unfolding modify_control_def CHECK_def
      by (simp, intro wp_mono [OF wp_load_control [OF assms(1,3)]])
        (auto split: option.split simp del: wp_bind intro!: fin)
  qed
qed

lemma control_ok_change_slot [simp]: "control_ok (change_slot i f b) = control_ok b"
  by (simp add: control_ok_def change_slot_def)

text \<open>The loop of \<^verbatim>\<open>setActiveBootSlot\<close>, entry by entry.\<close>

definition lowered :: "slot_metadata \<Rightarrow> slot_metadata" where
  "lowered m = (if priority m \<ge> kActivePriority then m\<lparr>priority := kActivePriority - 1\<rparr> else m)"

lemma lower_others_nth:
  assumes "n \<le> length (slot_info b)"
  shows "lower_others n slot b = b\<lparr>slot_info := map (\<lambda>i. if i < n \<and> i \<noteq> slot then lowered (slot_info b ! i) else slot_info b ! i) [0..<length (slot_info b)]\<rparr>"
  using assms
proof (induction n)
  case 0
  then show ?case by (simp add: lower_others_def map_nth)
next
  case (Suc n)
  let ?b = "b\<lparr>slot_info := map (\<lambda>i. if i < n \<and> i \<noteq> slot then lowered (slot_info b ! i) else slot_info b ! i) [0..<length (slot_info b)]\<rparr>"
  have "lower_others (Suc n) slot b = (if n \<noteq> slot then change_slot n lowered (lower_others n slot b) else lower_others n slot b)"
    by (simp add: lower_others_def change_slot_def lowered_def)
  also have "lower_others n slot b = ?b" using Suc by simp
  finally show ?case using Suc.prems
    by (auto simp: change_slot_def nth_list_update intro!: arg_cong [where f = "\<lambda>x. b\<lparr>slot_info := x\<rparr>"] nth_equalityI)
qed


lemma control_ok_lower_others [simp]: "control_ok (lower_others n slot b) = control_ok b"
proof -
  have "length (slot_info (lower_others n slot b)) = length (slot_info b)" "bc_slot_suffix (lower_others n slot b) = bc_slot_suffix b"
    "bc_reserved0 (lower_others n slot b) = bc_reserved0 b" "bc_reserved1 (lower_others n slot b) = bc_reserved1 b"
    by (induction n) (auto simp: lower_others_def change_slot_def)
  then show ?thesis by (simp add: control_ok_def)
qed

lemma control_ok_activated: "control_ok b \<Longrightarrow> control_ok (activated module slot b)"
  by (simp add: activated_def Let_def)

lemma wp_set_active:
  assumes "fully_ok e" "misc_device module \<in> {None, Some dev}" "file_of s dev = Some c"
    and "kBootloaderControlOffset + control_size \<le> length c"
  shows "wp (BootControl_setActiveBootSlot e module slot) (\<lambda>r s'. \<exists>c'. file_of s' dev = Some c' \<and>
    outside_same kBootloaderControlOffset control_size c c' \<and>
    (r \<ge> 0 \<longrightarrow> \<not> bad_slot module slot \<and> control_at c' = with_crc (activated module slot (control_at c)))) s"
  unfolding BootControl_setActiveBootSlot_def
proof (rule wp_ifI, goal_cases)
  case 2
  then show ?case
    by (intro wp_mono [OF wp_modify_control [where g = "activated module slot", OF assms(1-4)]])
      (auto simp: CHECK_def control_ok_activated)
qed (use assms(3) in simp)

lemma slot_info_with_crc [simp]: "slot_info (with_crc b) = slot_info b" "nb_slot (with_crc b) = nb_slot b"
  by (simp_all add: with_crc_def)

lemma activated_slots:
  assumes "length (slot_info b) = 4" "unat (num_slots module) \<le> 4" "i < 4" "unat slot < 4"
  shows "slot_info (activated module slot b) ! i =
    (if i = unat slot then (slot_info b ! i)\<lparr>priority := 15, tries_remaining := 6, verity_corrupted := (if slot \<noteq> current_slot module then 0 else verity_corrupted (slot_info b ! i))\<rparr>
     else if i < unat (num_slots module) then lowered (slot_info b ! i) else slot_info b ! i)"
  using assms by (simp add: activated_def Let_def lower_others_nth change_slot_def nth_list_update kActivePriority_def kActiveTries_def)

lemma lowered_priority: "unat (priority (lowered m)) = min 14 (unat (priority m))" "priority (lowered m) < 15"
  "lowered m = m\<lparr>priority := priority (lowered m)\<rparr>"
proof -
  have "unat (priority m) < 16" using unsigned_less [of "priority m"] by simp
  moreover have "15 \<le> priority m \<longleftrightarrow> 15 \<le> unat (priority m)" by (simp add: word_le_nat_alt)
  ultimately show "unat (priority (lowered m)) = min 14 (unat (priority m))"
    by (auto simp: lowered_def kActivePriority_def)
  then show "priority (lowered m) < 15" by (simp add: word_less_nat_alt)
qed (simp add: lowered_def)

text \<open>
  C29.  When \<^verbatim>\<open>setActiveBootSlot\<close> returns 0, the control block on the partition has a valid checksum,
  the slot has priority 15 and six tries, its successful bit and, if it is the current slot, its
  verity bit are as before, and every other slot of the device has a lower priority: the old one,
  but at most 14, with all its other fields unchanged.  Nothing outside the 32 bytes of the block
  changes.
\<close>

theorem set_active_slot:
  assumes "fully_ok e" "misc_device module = Some dev" "file_of s dev = Some c"
    and "kBootloaderControlOffset + control_size \<le> length c" "unat (num_slots module) \<le> kMaxNumSlots"
    and "run_state (BootControl_setActiveBootSlot e module slot) s = (0, s1)"
  shows "\<exists>c'. file_of s1 dev = Some c' \<and> outside_same kBootloaderControlOffset control_size c c' \<and>
    crc_valid (control_at c') \<and> unat slot < unat (num_slots module) \<and>
    (let old = slot_info (control_at c); new = slot_info (control_at c') in
       new ! unat slot = (old ! unat slot)\<lparr>priority := 15, tries_remaining := 6,
         verity_corrupted := (if slot = current_slot module then verity_corrupted (old ! unat slot) else 0)\<rparr> \<and>
       (\<forall>i < unat (num_slots module). i \<noteq> unat slot \<longrightarrow> priority (new ! i) < 15 \<and>
          unat (priority (new ! i)) = min 14 (unat (priority (old ! i))) \<and> new ! i = (old ! i)\<lparr>priority := priority (new ! i)\<rparr>))"
proof -
  obtain c' where c': "file_of s1 dev = Some c'" "outside_same kBootloaderControlOffset control_size c c'"
    "\<not> bad_slot module slot" "control_at c' = with_crc (activated module slot (control_at c))"
    using wp_runD [OF wp_set_active [OF assms(1) _ assms(3,4)] assms(6)] assms(2) by auto
  have "length (slot_info (control_at c)) = 4" using control_ok_bytes assms(4) by (simp add: control_at_def bytes_control_def)
  note sl = activated_slots [OF this, of module _ slot]
  have "unat slot < 4" "unat slot < unat (num_slots module)" "unat (num_slots module) \<le> 4"
    using c'(3) assms(5) by (auto simp: bad_slot_def kMaxNumSlots_def word_le_nat_alt)
  with c' sl lowered_priority show ?thesis
    by (intro exI [of _ c']) (auto simp: Let_def)
qed


section \<open>Sessions\<close>

text \<open>The calls that a client makes, and any sequence of them with their results.\<close>

datatype hal_call = Init | MarkBootSuccessful | SetActive uint32 | SetUnbootable uint32 | IsBootable uint32 | IsMarkedSuccessful uint32

fun hal_exec :: "'z misc_env \<Rightarrow> string \<Rightarrow> hal_call \<Rightarrow> boot_control_private \<Rightarrow> ('z, int \<times> boot_control_private) io" where
  "hal_exec e sfx Init module = do { (ok, module) \<leftarrow> BootControl_lazyInitialization e sfx module; ret (if ok then 0 else -1, module) }"
| "hal_exec e sfx MarkBootSuccessful module = do { r \<leftarrow> BootControl_markBootSuccessful e module; ret (r, module) }"
| "hal_exec e sfx (SetActive slot) module = do { r \<leftarrow> BootControl_setActiveBootSlot e module slot; ret (r, module) }"
| "hal_exec e sfx (SetUnbootable slot) module = do { r \<leftarrow> BootControl_setSlotAsUnbootable e module slot; ret (r, module) }"
| "hal_exec e sfx (IsBootable slot) module = do { r \<leftarrow> BootControl_isSlotBootable e module slot; ret (r, module) }"
| "hal_exec e sfx (IsMarkedSuccessful slot) module = do { r \<leftarrow> BootControl_isSlotMarkedSuccessful e module slot; ret (r, module) }"

inductive hal_session :: "'z misc_env \<Rightarrow> string \<Rightarrow> 'z world_scheme \<Rightarrow> (hal_call \<times> int) list \<Rightarrow> boot_control_private \<Rightarrow> 'z world_scheme \<Rightarrow> bool"
  for e :: "'z misc_env" and sfx :: string and s0 :: "'z world_scheme" where
    hal_start: "hal_session e sfx s0 [] HAL_MODULE_INFO_SYM s0"
  | hal_step: "hal_session e sfx s0 calls module s \<Longrightarrow> \<not> w_halted s \<Longrightarrow>
      run_state (hal_exec e sfx call module) s = ((r, module'), s') \<Longrightarrow>
      hal_session e sfx s0 (calls @ [(call, r)]) module' s'"


text \<open>
  What one call keeps: the bytes around the structure, the path of the partition, and, when the
  structure is valid and no error is reported, its checksum and number of slots.
\<close>

definition hal_post :: "string \<Rightarrow> byte list \<Rightarrow> boot_control_private \<Rightarrow> int \<times> boot_control_private \<Rightarrow> 'z world_scheme \<Rightarrow> bool" where
  "hal_post dev c module = (\<lambda>(r, module') s'. \<exists>c'. file_of s' dev = Some c' \<and>
     outside_same kBootloaderControlOffset control_size c c' \<and> misc_device module' \<in> {None, Some dev} \<and>
     (r \<ge> 0 \<and> crc_valid (control_at c) \<longrightarrow> crc_valid (control_at c') \<and> nb_slot (control_at c') = nb_slot (control_at c)) \<and>
     (crc_valid (control_at c) \<and> initialized module' \<longrightarrow>
        (initialized module \<and> num_slots module' = num_slots module) \<or> num_slots module' = ucast (nb_slot (control_at c))))"

lemma keep_get_device: "keep (\<lambda>s. file_of s p = x) (get_bootloader_message_blk_device e)"
  unfolding get_bootloader_message_blk_device_def wait_for_device_def
  by (auto intro!: keeps keep_wait split: sum.split)

lemma get_device_result: "me_fstab e = Some (Some dev) \<Longrightarrow>
    wp (get_bootloader_message_blk_device e) (\<lambda>r s'. \<forall>d. r = Inr d \<longrightarrow> d = dev) s"
  unfolding get_bootloader_message_blk_device_def get_misc_blk_device_def
  by (auto simp: wp_run split_beta run_statements split: sum.split)

lemma keep_probe: "keep (\<lambda>s. file_of s p = x) (probe_slots base_path slots l f)"
  by (induction slots arbitrary: l f) (auto intro!: keeps keep_on_file split: option.split)

lemma wp_init_default:
  "wp (InitDefaultBootloaderControl device cur) (\<lambda>b s'. file_of s' p = file_of s p \<and> control_ok b) s"
proof (rule wp_conj)
  show "wp (InitDefaultBootloaderControl device cur) (\<lambda>b s'. file_of s' p = file_of s p) s"
    unfolding InitDefaultBootloaderControl_def 
    by (rule keep_wp [where I = "\<lambda>s'. file_of s' p = file_of s p"]) (intro keeps keep_probe, simp)
  show "wp (InitDefaultBootloaderControl device cur) (\<lambda>b s'. control_ok b) s"
    unfolding InitDefaultBootloaderControl_def Let_def wp_bind
    by (rule wp_any) (simp add: control_ok_def kMaxNumSlots_def with_crc_def)
qed

lemma hal_post_fail: "file_of s dev = Some c \<Longrightarrow> misc_device module' \<in> {None, Some dev} \<Longrightarrow>
    \<not> initialized module' \<Longrightarrow> r < 0 \<Longrightarrow> hal_post dev c module (r, module') s"
  by (auto simp: hal_post_def)

lemma wp_lazy_init:
  assumes "fully_ok e" "me_fstab e = Some (Some dev)" "misc_device module \<in> {None, Some dev}" "file_of s dev = Some c"
    and big: "kBootloaderControlOffset + control_size \<le> length c"
  shows "wp (hal_exec e sfx Init module) (hal_post dev c module) s"
proof (cases "initialized module")
  case True
  then show ?thesis using assms(3,4) by (simp add: BootControl_lazyInitialization_def hal_post_def)
next
  case False
  let ?m = "module\<lparr>current_slot := of_int (SlotSuffixToIndex sfx)\<rparr>"
  let ?m' = "?m\<lparr>misc_device := Some dev, initialized := True\<rparr>"
  let ?init = "\<lambda>b. (if crc32_le b \<noteq> BootloaderControlLECRC b
      then do { b \<leftarrow> InitDefaultBootloaderControl dev (current_slot ?m'); (ok, b) \<leftarrow> UpdateAndSaveBootloaderControl e b dev; ret b }
      else ret b)"
  have init: "wp (?init b) (\<lambda>b' s'. \<exists>c'. file_of s' dev = Some c' \<and> outside_same kBootloaderControlOffset control_size c c' \<and>
      (crc_valid b \<longrightarrow> c' = c \<and> b' = b)) s1" if "file_of s1 dev = Some c" for b and s1 :: "'a world_scheme"
  proof (rule wp_ifI, goal_cases)
    case 1
    show ?case
    proof (rule wp_seq [OF wp_init_default [where p = dev]], elim conjE, goal_cases)
      case (1 b' s2)
      then show ?case using \<open>crc32_le b \<noteq> BootloaderControlLECRC b\<close> that
        by (intro wp_seq [OF control.wp_save_region [OF assms(1) _ _ big]]) (auto simp: crc_valid_def)
    qed
  qed (use that in simp)
  have rest: "wp (?init b \<bind> (\<lambda>b. ret (True, ?m'\<lparr>num_slots := ucast (nb_slot b)\<rparr>)))
      (\<lambda>r s'. hal_post dev c module (if fst r then 0 else -1, snd r) s') s1"
    if "file_of s1 dev = Some c" "b = control_at c" for b and s1 :: "'a world_scheme"
    by (rule wp_seq [OF init [OF that(1)]]) (auto simp: hal_post_def that(2))
  have "wp (BootControl_lazyInitialization e sfx module) (\<lambda>r s'. hal_post dev c module (if fst r then 0 else -1, snd r) s') s"
    unfolding BootControl_lazyInitialization_def if_not_P [OF False] Let_def
  proof (rule wp_seq [OF wp_conj [OF keep_wp [OF keep_get_device assms(4)] get_device_result [OF assms(2)]]], goal_cases)
    case (1 d s1)
    show ?case
    proof (cases d)
      case (Inl err)
      then show ?thesis using 1 assms(3) False by (simp add: hal_post_fail)
    next
      case (Inr device)
      then have "device = dev" using 1 by simp
      show ?thesis unfolding Inr sum.case \<open>device = dev\<close>
      proof (rule wp_seq [OF wp_load_control [OF assms(1)]], rule 1 [THEN conjunct1], rule wp_optionI, goal_cases)
        case (2 x s2 b)
        then show ?case using rest [of s2 b] by simp
      qed (use assms(3) False in \<open>simp add: hal_post_fail\<close>)
    qed
  qed
  then show ?thesis by (simp add: wp_run split_beta run_statements)
qed


lemma nb_slot_changes [simp]: "nb_slot (change_slot i f b) = nb_slot b"
  by (simp add: change_slot_def)

lemma nb_slot_lower_others [simp]: "nb_slot (lower_others n slot b) = nb_slot b"
  by (induction n) (auto simp: lower_others_def)

lemma nb_slot_activated [simp]: "nb_slot (activated module slot b) = nb_slot b"
  by (simp add: activated_def Let_def)

text \<open>The calls that leave the module as it is.\<close>

lemma hal_post_same:
  assumes "wp m (\<lambda>r s'. \<exists>c'. file_of s' dev = Some c' \<and> outside_same kBootloaderControlOffset control_size c c' \<and>
      (r \<ge> 0 \<and> crc_valid (control_at c) \<longrightarrow> crc_valid (control_at c') \<and> nb_slot (control_at c') = nb_slot (control_at c))) s"
    and "misc_device module \<in> {None, Some dev}"
  shows "wp (do { r \<leftarrow> m; ret (r, module) }) (hal_post dev c module) s"
  by (rule wp_seq [OF assms(1)]) (use assms(2) in \<open>auto simp: hal_post_def\<close>)

lemma wp_query:
  assumes "fully_ok e" "misc_device module \<in> {None, Some dev}" "file_of s dev = Some c"
  shows "wp (query_slot e module slot f) (\<lambda>r s'. file_of s' dev = Some c) s"
proof (cases "misc_device module")
  case None
  then show ?thesis unfolding query_slot_def None
    by (intro wp_ifI wp_seq [OF wp_CHECK_False [OF assms(3)]] wp_seq [OF halted_access(1)]) (use assms(3) in auto)
next
  case (Some d)
  then have "d = dev" using assms(2) by simp
  with Some show ?thesis unfolding query_slot_def
    by (intro wp_ifI) (use assms(3) in \<open>auto simp: CHECK_def intro!: wp_mono [OF wp_load_control [OF assms(1,3)]] split: option.split\<close>)
qed

lemma wp_hal_exec:
  assumes "fully_ok e" "me_fstab e = Some (Some dev)" "misc_device module \<in> {None, Some dev}" "file_of s dev = Some c"
    and "kBootloaderControlOffset + control_size \<le> length c"
  shows "wp (hal_exec e sfx call module) (hal_post dev c module) s"
proof (cases call)
  case Init
  then show ?thesis using wp_lazy_init [OF assms] by simp
next
  case MarkBootSuccessful
  let ?g = "change_slot (unat (current_slot module)) (\<lambda>m. m\<lparr>successful_boot := 1, tries_remaining := 1\<rparr>)"
  show ?thesis unfolding MarkBootSuccessful hal_exec.simps BootControl_markBootSuccessful_def
    by (rule hal_post_same [OF wp_mono [OF wp_modify_control [where g = ?g, OF assms(1,3,4,5)]] assms(3)])
      (auto simp: CHECK_def file_of_def)
next
  case (SetActive slot)
  show ?thesis unfolding SetActive hal_exec.simps
    by (rule hal_post_same [OF wp_mono [OF wp_set_active [OF assms(1,3,4,5)]] assms(3)]) auto
next
  case (SetUnbootable slot)
  let ?g = "change_slot (unat slot) (\<lambda>m. m\<lparr>successful_boot := 0, tries_remaining := 0\<rparr>)"
  show ?thesis unfolding SetUnbootable hal_exec.simps BootControl_setSlotAsUnbootable_def
    by (rule hal_post_same [OF wp_ifI assms(3)])
      (auto simp: assms(4) simp del: wp_bind intro!: wp_mono [OF wp_modify_control [where g = ?g, OF assms(1,3,4,5)]])
qed (auto simp: BootControl_isSlotBootable_def BootControl_isSlotMarkedSuccessful_def simp del: wp_bind
    intro!: hal_post_same [OF wp_mono [OF wp_query [OF assms(1,3,4)]] assms(3)])


text \<open>By induction on the session; the property below and the one on the message rest on it.\<close>

lemma hal_session_keeps:
  assumes "hal_session e sfx s0 calls module s" "fully_ok e" "me_fstab e = Some (Some dev)" "file_of s0 dev = Some c0"
    and "kBootloaderControlOffset + control_size \<le> length c0"
  shows "\<exists>c. file_of s dev = Some c \<and> outside_same kBootloaderControlOffset control_size c0 c \<and>
    misc_device module \<in> {None, Some dev} \<and>
    (crc_valid (control_at c0) \<and> (\<forall>(call, r) \<in> set calls. 0 \<le> r) \<longrightarrow>
       crc_valid (control_at c) \<and> nb_slot (control_at c) = nb_slot (control_at c0) \<and>
       (initialized module \<longrightarrow> BootControl_getNumberSlots module = ucast (nb_slot (control_at c0))))"
  using assms(1)
proof induction
  case hal_start
  then show ?case using assms(4) by (simp add: HAL_MODULE_INFO_SYM_def)
next
  case (hal_step calls module s call r module' s')
  then obtain c where c: "file_of s dev = Some c" "outside_same kBootloaderControlOffset control_size c0 c"
    "misc_device module \<in> {None, Some dev}"
    "crc_valid (control_at c0) \<and> (\<forall>(call, r) \<in> set calls. 0 \<le> r) \<longrightarrow> crc_valid (control_at c) \<and> nb_slot (control_at c) = nb_slot (control_at c0) \<and>
       (initialized module \<longrightarrow> BootControl_getNumberSlots module = ucast (nb_slot (control_at c0)))" by blast
  have "kBootloaderControlOffset + control_size \<le> length c" using c(2) assms(5) by (simp add: outside_same_def)
  from wp_runD [OF wp_hal_exec [OF assms(2,3) c(3,1) this] hal_step.hyps(3)]
  obtain c' where c': "file_of s' dev = Some c'" "outside_same kBootloaderControlOffset control_size c c'" "misc_device module' \<in> {None, Some dev}"
    "r \<ge> 0 \<and> crc_valid (control_at c) \<longrightarrow> crc_valid (control_at c') \<and> nb_slot (control_at c') = nb_slot (control_at c)"
    "crc_valid (control_at c) \<and> initialized module' \<longrightarrow>
      (initialized module \<and> num_slots module' = num_slots module) \<or> num_slots module' = ucast (nb_slot (control_at c))"
    unfolding hal_post_def by auto
  with c outside_same_trans [OF c(2) c'(2)] show ?case by (auto simp: BootControl_getNumberSlots_def)
qed

lemma hal_session_confined:
  assumes "hal_session e sfx s0 calls module s" "fully_ok e" "me_fstab e = Some (Some dev)" "file_of s0 dev = Some c0"
    and "kBootloaderControlOffset + control_size \<le> length c0"
  obtains c where "file_of s dev = Some c" "outside_same kBootloaderControlOffset control_size c0 c"
  using hal_session_keeps [OF assms] by blast

text \<open>
  C30.  Whatever calls a client makes, with whatever faults and results, the module changes
  nothing on the partition but its 32 bytes and uses no other device.  If the block was valid at
  the start and no call has reported an error, it is still valid, its number of slots is unchanged
  and is the one the module reports.
\<close>

theorem hal_session_invariant:
  assumes "hal_session e sfx s0 calls module s" "fully_ok e" "me_fstab e = Some (Some dev)" "file_of s0 dev = Some c0"
    and "kBootloaderControlOffset + control_size \<le> length c0"
  shows "\<exists>c. file_of s dev = Some c \<and> outside_same kBootloaderControlOffset control_size c0 c \<and>
    misc_device module \<in> {None, Some dev} \<and>
    (crc_valid (control_at c0) \<and> (\<forall>(call, r) \<in> set calls. 0 \<le> r) \<longrightarrow>
       crc_valid (control_at c) \<and> nb_slot (control_at c) = nb_slot (control_at c0) \<and>
       (initialized module \<longrightarrow> BootControl_getNumberSlots module = ucast (nb_slot (control_at c0))))"
  using hal_session_keeps [OF assms] .

section \<open>A sample partition\<close>

definition sample_control :: bootloader_control where
  "sample_control = \<lparr>bc_slot_suffix = strlcpy (zeros 4) ''_a'', bc_magic = BOOT_CTRL_MAGIC, bc_version = BOOT_CTRL_VERSION, nb_slot = 2,
     recovery_tries_remaining = 0, bc_padding = 0, bc_reserved0 = [0, 0], slot_info = map (default_slot 0 2) [0..<4],
     bc_reserved1 = replicate 8 0, crc32_le = 0\<rparr>"

definition sample_part :: "byte list" where
  "sample_part = overlay kBootloaderControlOffset (control_bytes (with_crc sample_control)) (replicate 4096 0)"

definition sample_module :: boot_control_private where
  "sample_module = \<lparr>initialized = True, misc_device = Some ''/dev/misc'', num_slots = 2, current_slot = 0\<rparr>"

lemma sample_control_ok: "control_ok sample_control"
  by (simp add: control_ok_def sample_control_def)

lemma sample_part_control: "length sample_part = 4096" "control_at sample_part = with_crc sample_control"
proof -
  have "length (control_bytes (with_crc sample_control)) = 32"
    using control_round_trip(1) [of "with_crc sample_control"] sample_control_ok by (simp add: control_size_def)
  then show "length sample_part = 4096" "control_at sample_part = with_crc sample_control"
    using control_round_trip(2) [of "with_crc sample_control"] sample_control_ok
    by (simp_all add: sample_part_def control_at_def overlay_inside kBootloaderControlOffset_def control_size_def)
qed

lemma misc_world_load:
  assumes "2080 \<le> length c" "0 \<le> n"
  shows "run_state (LoadBootloaderControl sample_misc ''/dev/misc'') (misc_world c n) = (Some (control_at c), misc_world c (n + 1))"
  using assms
  by (simp add: LoadBootloaderControl_def sample_misc_def misc_world_def with_fd_def run_eval file_defs control_at_def kBootloaderControlOffset_def
      control_size_def Let_def cong: bind_weak_cong let_weak_cong)

lemma misc_world_save:
  assumes "2080 \<le> length c" "0 \<le> n" "control_ok b"
  shows "run_state (UpdateAndSaveBootloaderControl sample_misc b ''/dev/misc'') (misc_world c n) =
    ((True, with_crc b), misc_world (overlay kBootloaderControlOffset (control_bytes (with_crc b)) c) (n + 1))"
  using assms control_round_trip(1) [of "with_crc b"]
  by (simp add: UpdateAndSaveBootloaderControl_def sample_misc_def misc_world_def with_fd_def run_eval file_defs kBootloaderControlOffset_def
      control_size_def Let_def cong: bind_weak_cong let_weak_cong)

lemma misc_world_set_active:
  "run_state (BootControl_setActiveBootSlot sample_misc sample_module 1) (misc_world sample_part n) =
    (0, misc_world (overlay kBootloaderControlOffset (control_bytes (with_crc (activated sample_module 1 (with_crc sample_control)))) sample_part) (n + 1 + 1))"
  if "0 \<le> n"
proof -
  have ok: "control_ok (activated sample_module 1 (with_crc sample_control))" using control_ok_activated sample_control_ok by simp
  have "\<not> bad_slot sample_module 1" by (simp add: bad_slot_def sample_module_def kMaxNumSlots_def word_le_nat_alt)
  with that show ?thesis
    using misc_world_load [of sample_part n] misc_world_save [OF _ _ ok, of sample_part "n + 1"]
    by (simp add: BootControl_setActiveBootSlot_def modify_control_def sample_part_control run_statements run_eval sample_module_def kMaxNumSlots_def)
qed


lemma misc_world_file: "file_of (misc_world c n) ''/dev/misc'' = Some c"
  by (simp add: misc_world_def file_of_def)

lemma sample_fstab: "me_fstab sample_misc = Some (Some ''/dev/misc'')"
  by (simp add: sample_misc_def)

theorem crc_detects_bursts_witness: "CRC32 [1, 2, 3] \<noteq> CRC32 [1, 9, 3]"
  using crc_detects_bursts [of "[2]" "[9]" "[1]" "[3]"] by simp

theorem set_active_slot_witness:
  "\<exists>s1 c'. run_state (BootControl_setActiveBootSlot sample_misc sample_module 1) (misc_world sample_part 3) = (0, s1) \<and>
     file_of s1 ''/dev/misc'' = Some c' \<and> crc_valid (control_at c') \<and>
     priority (slot_info (control_at c') ! 1) = 15 \<and> priority (slot_info (control_at c') ! 0) < 15"
proof -
  have "misc_device sample_module = Some ''/dev/misc''" "kBootloaderControlOffset + control_size \<le> length sample_part"
    "unat (num_slots sample_module) \<le> kMaxNumSlots"
    by (simp_all add: sample_module_def kMaxNumSlots_def sample_part_control kBootloaderControlOffset_def control_size_def)
  from set_active_slot [OF sample_fully_ok this(1) misc_world_file this(2,3) misc_world_set_active [of 3]]
  show ?thesis using misc_world_set_active [of 3] by (auto simp: Let_def sample_module_def)
qed

lemma sample_init:
  "run_state (hal_exec sample_misc ''_a'' Init HAL_MODULE_INFO_SYM) (misc_world sample_part n) = ((0, sample_module), misc_world sample_part (n + 1))"
  if "0 \<le> n"
proof -
  have dev: "run_state (get_bootloader_message_blk_device sample_misc) (misc_world sample_part n) = (Inr ''/dev/misc'', misc_world sample_part n)"
    by (simp add: get_bootloader_message_blk_device_def get_misc_blk_device_def sample_misc_def wait_for_device_def eval_nat_numeral
        misc_world_def run_eval file_defs cong: bind_weak_cong let_weak_cong)
  have "SlotSuffixToIndex ''_a'' = 0" by (simp add: SlotSuffixToIndex_def kSlotSuffixes_def kMaxNumSlots_def upt_rec cstr_def)
  moreover have "crc32_le (with_crc sample_control) = BootloaderControlLECRC (with_crc sample_control)"
    using crc_valid_with_crc unfolding crc_valid_def .
  moreover have "nb_slot sample_control = 2" by (simp add: sample_control_def)
  ultimately show ?thesis
    using that dev misc_world_load [of sample_part n]
    by (simp add: BootControl_lazyInitialization_def HAL_MODULE_INFO_SYM_def run_statements run_eval sample_part_control sample_module_def)
qed

theorem hal_session_invariant_witness:
  "\<exists>s c. hal_session sample_misc ''_a'' (misc_world sample_part 3) [(Init, 0), (SetActive 1, 0)] sample_module s \<and>
     file_of s ''/dev/misc'' = Some c \<and> crc_valid (control_at c) \<and> BootControl_getNumberSlots sample_module = 2"
proof -
  have "\<not> w_halted (misc_world c n)" for c n by (simp add: misc_world_def)
  then obtain s where s: "hal_session sample_misc ''_a'' (misc_world sample_part 3) [(Init, 0), (SetActive 1, 0)] sample_module s"
    using hal_step [OF hal_step [OF hal_start _ sample_init [of 3]], of "SetActive 1" 0 sample_module] misc_world_set_active [of "3 + 1"]
    by (fastforce simp: run_statements)
  have "kBootloaderControlOffset + control_size \<le> length sample_part"
    by (simp add: sample_part_control kBootloaderControlOffset_def control_size_def)
  from hal_session_invariant [OF s sample_fully_ok sample_fstab misc_world_file this]
  show ?thesis using s by (auto simp: sample_part_control sample_control_def sample_module_def BootControl_getNumberSlots_def)
qed

end
