(* ===== verification/Block_Map.thy ===== *)
theory Block_Map
  imports Boot_Message
begin

text \<open>
  Memory mappings of packages (\<^verbatim>\<open>otautil/SysUtil.cpp\<close>): a plain file, or a block map, which names the
  block ranges of a device that hold the contents of a file.

  A mapping is the list of the bytes that can be read through it; \<open>None\<close> stands for an address
  behind the end of the mapped file, where an access faults.  \<^verbatim>\<open>munmap\<close> and the alignment of offsets to pages
  are left out.  Parameters are \<^verbatim>\<open>ReadFileToString\<close> and the string helpers of android-base.
\<close>

section \<open>Conversions of scanf\<close>

text \<open>\<^verbatim>\<open>%zu\<close>: white space, an optional sign, digits; the value and the rest of the text.\<close>

definition scan_zu :: "string \<Rightarrow> (nat \<times> string) option" where
  "scan_zu s =
     (let s = dropWhile is_space s;
          neg = (s \<noteq> [] \<and> hd s = CHR ''-'');
          s = (if s \<noteq> [] \<and> hd s \<in> {CHR ''-'', CHR ''+''} then tl s else s);
          ds = takeWhile is_digit s
      in if ds = [] then None
         else
           let n = the (read_digits 0 ds)
           in Some (if n > SIZE_MAX then SIZE_MAX else if neg then size_sub 0 n else n, dropWhile is_digit s))"

definition sscanf1 :: "string \<Rightarrow> nat option" where
  "sscanf1 s = map_option fst (scan_zu (cstr s))"

definition sscanf2 :: "string \<Rightarrow> (nat \<times> nat) option" where
  "sscanf2 s =
     (case scan_zu (cstr s) of
        None \<Rightarrow> None
      | Some (a, r) \<Rightarrow> map_option (\<lambda>(b, _). (a, b)) (scan_zu r))"

section \<open>Mappings\<close>

record mem_mapping =
  mm_addr :: "byte option list"
  mm_length :: nat
  mm_ranges :: "(nat \<times> nat) list"

text \<open>The bytes of a file from an offset on, as a mapping shows them.\<close>

definition file_view :: "byte list \<Rightarrow> nat \<Rightarrow> nat \<Rightarrow> byte option list" where
  "file_view c off n = map (\<lambda>i. if i < length c then Some (c ! i) else None) [off..<off + n]"

definition sys_mmap :: "int \<Rightarrow> nat \<Rightarrow> nat \<Rightarrow> ('z, byte option list option) io" where
  "sys_mmap fd off n = do {
     ev \<leftarrow> next_event;
     f \<leftarrow> gets (\<lambda>s. case fd_of s fd of None \<Rightarrow> None | Some (p, _) \<Rightarrow> file_of s p);
     case ev of
       IoErr e _ \<Rightarrow> do { fail e; ret None }
     | IoHalt _ \<Rightarrow> do { halt; ret None }
     | _ \<Rightarrow>
         (case f of
            None \<Rightarrow> do { fail EBADF; ret None }
          | Some c \<Rightarrow> if n = 0 then do { fail EINVAL; ret None } else ret (Some (file_view c off n))) }"

text \<open>\<^verbatim>\<open>fstat\<close>.\<close>

definition sys_fstat :: "int \<Rightarrow> ('z, nat option) io" where
  "sys_fstat fd = do {
     p \<leftarrow> gets (\<lambda>s. fd_of s fd);
     case p of None \<Rightarrow> do { fail EBADF; ret None } | Some (p, _) \<Rightarrow> sys_stat p }"

definition MapFD :: "int \<Rightarrow> mem_mapping \<Rightarrow> ('z, bool \<times> mem_mapping) io" where
  "MapFD fd m = do {
     st \<leftarrow> sys_fstat fd;
     case st of
       None \<Rightarrow> ret (False, m)
     | Some sz \<Rightarrow> do {
         r \<leftarrow> sys_mmap fd 0 sz;
         case r of
           None \<Rightarrow> ret (False, m)
         | Some shown \<Rightarrow> ret (True, \<lparr>mm_addr = shown, mm_length = sz, mm_ranges = [(0, sz)]\<rparr>) } }"

text \<open>
  The loop over the ranges.  Its state is what has been mapped so far, the list of the ranges and
  the size that remains; the result says whether all lines were good.
\<close>

fun map_ranges :: "int \<Rightarrow> nat \<Rightarrow> string list \<Rightarrow> byte option list \<Rightarrow> (nat \<times> nat) list \<Rightarrow> nat \<Rightarrow>
    ('z, bool \<times> byte option list \<times> (nat \<times> nat) list \<times> nat) io" where
  "map_ranges fd blksize [] acc rs remaining_size = ret (True, acc, rs, remaining_size)"
| "map_ranges fd blksize (line # ls) acc rs remaining_size =
     (case sscanf2 line of
        None \<Rightarrow> ret (False, acc, rs, remaining_size)
      | Some (start, fin) \<Rightarrow>
          let range_size = size_mul (size_sub fin start) blksize
          in if fin \<le> start \<or> size_sub fin start > SIZE_MAX div blksize \<or> range_size > remaining_size
             then ret (False, acc, rs, remaining_size)
             else do {
               r \<leftarrow> sys_mmap fd (size_mul start blksize) range_size;
               case r of
                 None \<Rightarrow> ret (False, acc, rs, remaining_size)
               | Some shown \<Rightarrow>
                   map_ranges fd blksize ls (acc @ shown) (rs @ [(length acc, range_size)]) (remaining_size - range_size) })"

definition MapBlockFile :: "(string \<Rightarrow> ('z, string option) io) \<Rightarrow> android_base \<Rightarrow> string \<Rightarrow> mem_mapping \<Rightarrow> ('z, bool \<times> mem_mapping) io" where
  "MapBlockFile read_file ab filename m = do {
     content \<leftarrow> read_file filename;
     case content of
       None \<Rightarrow> ret (False, m)
     | Some content \<Rightarrow>
         (let lines = ab_split ab (ab_trim ab content) [NL]
          in if length lines < 4 then ret (False, m)
             else case sscanf2 (lines ! 1) of
               None \<Rightarrow> ret (False, m)
             | Some (sz, blksize) \<Rightarrow>
                 (case sscanf1 (lines ! 2) of
                    None \<Rightarrow> ret (False, m)
                  | Some range_count \<Rightarrow>
                      let blocks = size_add (size_sub sz 1 div blksize) 1
                      in if sz = 0 \<or> blksize = 0 \<or> blocks > SIZE_MAX div blksize \<or> range_count = 0 \<or> length lines \<noteq> size_add 3 range_count
                         then ret (False, m)
                         else do {
                           reserve \<leftarrow> sys_plain;
                           if reserve = -1 then ret (False, m)
                           else do {
                             fd \<leftarrow> TEMP_FAILURE_RETRY (\<lambda>r. r = -1) (sys_open (cstr (lines ! 0)) [O_RDONLY]);
                             if fd = -1 then ret (False, m)
                             else with_fd fd (do {
                               (ok, shown, rs, remaining_size) \<leftarrow> map_ranges fd blksize (drop 3 lines) [] [] (size_mul blocks blksize);
                               let m = m\<lparr>mm_ranges := rs\<rparr>;
                               if \<not> ok \<or> remaining_size \<noteq> 0 then ret (False, m)
                               else ret (True, m\<lparr>mm_addr := shown, mm_length := sz\<rparr>) }) } })) }"

definition MapFile :: "(string \<Rightarrow> ('z, string option) io) \<Rightarrow> android_base \<Rightarrow> string \<Rightarrow> mem_mapping \<Rightarrow> ('z, bool \<times> mem_mapping) io" where
  "MapFile read_file ab fn m =
     (if fn = [] then ret (False, m)
      else if hd fn = CHR ''@'' then MapBlockFile read_file ab (tl fn) m
      else do {
        fd \<leftarrow> TEMP_FAILURE_RETRY (\<lambda>r. r = -1) (sys_open (cstr fn) [O_RDONLY]);
        if fd = -1 then ret (False, m) else with_fd fd (MapFD fd m) })"


section \<open>The text of a block map\<close>

definition range_line :: "nat \<times> nat \<Rightarrow> string" where
  "range_line r = to_string (fst r) @ '' '' @ to_string (snd r)"

definition map_lines :: "string \<Rightarrow> nat \<Rightarrow> nat \<Rightarrow> (nat \<times> nat) list \<Rightarrow> string list" where
  "map_lines dev sz blksize rs = [dev, to_string sz @ '' '' @ to_string blksize, to_string (length rs)] @ map range_line rs"

definition ranges_ok :: "(nat \<times> nat) list \<Rightarrow> bool" where
  "ranges_ok rs \<longleftrightarrow> (\<forall>(a, b) \<in> set rs. a < b)"

definition range_list :: "(nat \<times> nat) list \<Rightarrow> nat list" where
  "range_list rs = concat (map (\<lambda>(a, b). [a..<b]) rs)"

lemma digit_not_space: "is_digit c \<Longrightarrow> \<not> is_space c \<and> c \<noteq> CHR ''-'' \<and> c \<noteq> CHR ''+'' \<and> c \<noteq> CHR '' '' \<and> c \<noteq> NL \<and> c \<noteq> NUL"
  by (auto simp: is_digit_def is_space_def NL_def NUL_def)

lemma to_string_chars: "c \<in> set (to_string n) \<Longrightarrow> is_digit c"
  using to_string_digits by blast

lemma scan_zu_number:
  assumes "n \<le> SIZE_MAX" "r = [] \<or> \<not> is_digit (hd r)" "\<forall>c \<in> set sp. is_space c"
  shows "scan_zu (sp @ to_string n @ r) = Some (n, r)"
proof -
  obtain d ds where d: "to_string n = d # ds" by (cases "to_string n") auto
  then have "is_digit d" using to_string_chars [of d n] by simp
  have "dropWhile is_space (sp @ to_string n @ r) = to_string n @ r"
    using assms(3) \<open>is_digit d\<close> d digit_not_space by (simp add: dropWhile_append2)
  moreover have "takeWhile is_digit (to_string n @ r) = to_string n" "dropWhile is_digit (to_string n @ r) = r"
    using to_string_digits [of n] assms(2) by (cases r; simp add: takeWhile_append2 dropWhile_append2)+
  ultimately show ?thesis
    using assms(1) d \<open>is_digit d\<close> digit_not_space [of d] read_digits_to_string [of n] by (simp add: scan_zu_def Let_def)
qed

lemma cstr_numbers: "(\<forall>c \<in> set t. is_digit c \<or> c = CHR '' '') \<Longrightarrow> cstr t = t"
  using digit_not_space by (intro cstr_plain) (auto simp: NUL_def)

lemma sscanf_numbers:
  assumes "a \<le> SIZE_MAX"
  shows "sscanf1 (to_string a) = Some a" "b \<le> SIZE_MAX \<Longrightarrow> sscanf2 (to_string a @ '' '' @ to_string b) = Some (a, b)"
proof -
  have "cstr (to_string a) = to_string a" "cstr (to_string a @ '' '' @ to_string b) = to_string a @ '' '' @ to_string b"
    using to_string_digits by (auto intro!: cstr_numbers)
  moreover have "scan_zu (to_string a) = Some (a, [])" using scan_zu_number [of a "[]" "[]"] assms by simp
  moreover have "scan_zu (to_string a @ '' '' @ to_string b) = Some (a, '' '' @ to_string b)"
    using scan_zu_number [of a "'' '' @ to_string b" "[]"] assms by (simp add: is_digit_def)
  moreover have "scan_zu ('' '' @ to_string b) = Some (b, [])" if "b \<le> SIZE_MAX"
    using scan_zu_number [of b "[]" "'' ''"] that by (simp add: is_space_def)
  ultimately show "sscanf1 (to_string a) = Some a" "b \<le> SIZE_MAX \<Longrightarrow> sscanf2 (to_string a @ '' '' @ to_string b) = Some (a, b)"
    by (simp_all add: sscanf1_def sscanf2_def)
qed


section \<open>What a block map shows\<close>

definition block_view :: "byte list \<Rightarrow> nat \<Rightarrow> nat list \<Rightarrow> byte option list" where
  "block_view c blksize bs = concat (map (\<lambda>b. file_view c (b * blksize) blksize) bs)"

lemma block_view_append [simp]: "block_view c blksize (xs @ ys) = block_view c blksize xs @ block_view c blksize ys"
  by (simp add: block_view_def)

lemma length_file_view [simp]: "length (file_view c off n) = n"
  by (simp add: file_view_def)

lemma file_view_append: "file_view c off (n + m) = file_view c off n @ file_view c (off + n) m"
proof -
  have "[off..<off + (n + m)] = [off..<off + n] @ [off + n..<off + n + m]" by (metis add.assoc le_add1 upt_add_eq_append)
  then show ?thesis by (simp add: file_view_def)
qed

lemma block_view_range: "a \<le> b \<Longrightarrow> block_view c blksize [a..<b] = file_view c (a * blksize) ((b - a) * blksize)"
proof (induction b)
  case (Suc b)
  show ?case
  proof (cases "a = Suc b")
    case False
    with Suc have "block_view c blksize [a..<Suc b] = file_view c (a * blksize) ((b - a) * blksize) @ file_view c (b * blksize) blksize"
      by (simp add: block_view_def)
    also have "\<dots> = file_view c (a * blksize) ((b - a) * blksize + blksize)"
      using Suc.prems False by (simp add: file_view_append flip: add_mult_distrib)
    finally show ?thesis using Suc.prems False by (simp add: Suc_diff_le algebra_simps)
  qed (simp add: block_view_def file_view_def)
qed (simp add: block_view_def file_view_def)

lemma wp_sys_mmap:
  assumes "at fd p pos c s"
  shows "wp (sys_mmap fd off n) (\<lambda>r s'. at fd p pos c s' \<and> (\<forall>v. r = Some v \<longrightarrow> v = file_view c off n)) s"
  using assms unfolding sys_mmap_def wp_bind
  by (intro wp_next_eventI) (auto simp: at_def split: io_event.split)

lemma wp_map_ranges:
  assumes "at fd dev pos c s" "ranges_ok rs" "0 < blksize" "length (range_list rs) * blksize \<le> remaining" "remaining \<le> SIZE_MAX"
    and "\<forall>(a, b) \<in> set rs. b * blksize \<le> SIZE_MAX"
  shows "wp (map_ranges fd blksize (map range_line rs) acc mapped remaining) (\<lambda>(ok, shown, _, remaining') s'.
    at fd dev pos c s' \<and> (ok \<longrightarrow> shown = acc @ block_view c blksize (range_list rs) \<and> remaining' = remaining - length (range_list rs) * blksize)) s"
  using assms
proof (induction rs arbitrary: acc mapped remaining s)
  case Nil
  then show ?case by (simp add: range_list_def block_view_def)
next
  case (Cons r rs)
  obtain a b where r: "r = (a, b)" by fastforce
  have ab: "a < b" "b * blksize \<le> SIZE_MAX" using Cons.prems(2,6) r by (auto simp: ranges_ok_def)
  have "b \<le> b * blksize" using Cons.prems(3) by simp
  then have bs: "a \<le> SIZE_MAX" "b \<le> SIZE_MAX" using ab by linarith+
  have mul: "(b - a) * blksize \<le> SIZE_MAX" "a * blksize \<le> SIZE_MAX"
    using ab by (meson diff_le_self le_trans less_imp_le mult_le_mono1)+
  then have div: "b - a \<le> SIZE_MAX div blksize" using Cons.prems(3) by (simp add: less_eq_div_iff_mult_less_eq)
  have len: "length (range_list (r # rs)) = (b - a) + length (range_list rs)" by (simp add: range_list_def r)
  have rem: "(b - a) * blksize \<le> remaining" using Cons.prems(4) len by (simp add: add_mult_distrib)
  have line: "sscanf2 (range_line r) = Some (a, b)" using sscanf_numbers(2) [OF bs] by (simp add: range_line_def r)
  have view: "block_view c blksize (range_list (r # rs)) = file_view c (a * blksize) ((b - a) * blksize) @ block_view c blksize (range_list rs)"
    using block_view_range [of a b c blksize] ab by (simp add: range_list_def r block_view_def)
  have "wp (sys_mmap fd (a * blksize) ((b - a) * blksize) \<bind> (\<lambda>x. case x of None \<Rightarrow> ret (False, acc, mapped, remaining)
       | Some shown \<Rightarrow> map_ranges fd blksize (map range_line rs) (acc @ shown) (mapped @ [(length acc, (b - a) * blksize)]) (remaining - (b - a) * blksize)))
    (\<lambda>(ok, shown, _, remaining') s'. at fd dev pos c s' \<and>
      (ok \<longrightarrow> shown = acc @ block_view c blksize (range_list (r # rs)) \<and> remaining' = remaining - length (range_list (r # rs)) * blksize)) s"
  proof (rule wp_seq [OF wp_sys_mmap [OF Cons.prems(1)]], rule wp_optionI, goal_cases)
    case (2 x s' shown)
    then have at: "at fd dev pos c s'" and sh: "shown = file_view c (a * blksize) ((b - a) * blksize)" by auto
    show ?case
      by (rule wp_mono [OF Cons.IH [OF at]])
        (use Cons.prems len rem view sh in \<open>auto simp: ranges_ok_def add_mult_distrib\<close>)
  qed auto
  then show ?case
    using ab mul div rem line by (simp add: size_simps Let_def)
qed


text \<open>
  Documented behaviour of \<^verbatim>\<open>Trim\<close> and \<^verbatim>\<open>ReadFileToString\<close>.
\<close>

definition trim_ok :: "android_base \<Rightarrow> bool" where
  "trim_ok ab \<longleftrightarrow> (\<forall>t sp. t \<noteq> [] \<and> \<not> is_space (hd t) \<and> \<not> is_space (last t) \<and> (\<forall>c \<in> set sp. is_space c) \<longrightarrow> ab_trim ab (t @ sp) = t)"

definition read_file_ok :: "(string \<Rightarrow> ('z, string option) io) \<Rightarrow> bool" where
  "read_file_ok rf \<longleftrightarrow> (\<forall>f s. wp (rf f) (\<lambda>r s'. (\<forall>q. file_of s' q = file_of s q) \<and>
     (\<forall>t. r = Some t \<longrightarrow> map_option text_of (file_of s f) = Some t)) s)"

definition map_text :: "string \<Rightarrow> nat \<Rightarrow> nat \<Rightarrow> (nat \<times> nat) list \<Rightarrow> string" where
  "map_text dev sz blksize rs = join_with NL (map_lines dev sz blksize rs) @ [NL]"

definition dev_name_ok :: "string \<Rightarrow> bool" where
  "dev_name_ok dev \<longleftrightarrow> dev \<noteq> [] \<and> \<not> is_space (hd dev) \<and> NL \<notin> set dev \<and> NUL \<notin> set dev"

lemma map_lines_no_newline:
  assumes "dev_name_ok dev" "x \<in> set (map_lines dev sz blksize rs)"
  shows "NL \<notin> set x"
proof -
  have "NL \<notin> set (to_string n)" for n using to_string_no_sep [of NL n] by (simp add: is_digit_def NL_def)
  then show ?thesis using assms by (auto simp: map_lines_def range_line_def dev_name_ok_def NL_def)
qed

lemma last_join_with: "xs \<noteq> [] \<Longrightarrow> last xs \<noteq> [] \<Longrightarrow> join_with c xs \<noteq> [] \<and> last (join_with c xs) = last (last xs)"
  by (induction c xs rule: join_with.induct) (auto split: if_splits)

lemma hd_join_with: "x \<noteq> [] \<Longrightarrow> hd (join_with c (x # xs)) = hd x"
  by (cases xs) auto

lemma last_to_string: "\<not> is_space (last (to_string n))"
  using to_string_chars [OF last_in_set [OF to_string_not_Nil]] digit_not_space by blast

lemma map_text_lines:
  assumes "split_ok ab" "trim_ok ab" "dev_name_ok dev" "rs \<noteq> []"
  shows "ab_split ab (ab_trim ab (map_text dev sz blksize rs)) [NL] = map_lines dev sz blksize rs"
proof -
  let ?ls = "map_lines dev sz blksize rs" and ?t = "join_with NL (map_lines dev sz blksize rs)"
  have "last ?ls = range_line (last rs)" "hd ?ls = dev" "?ls \<noteq> []" using assms(4) by (simp_all add: map_lines_def last_map)
  then have "\<not> is_space (last ?t)" "?t \<noteq> []"
    using last_join_with [of ?ls NL] last_to_string by (auto simp: range_line_def)
  moreover have "\<not> is_space (hd ?t)" using assms(3) hd_join_with by (auto simp: map_lines_def dev_name_ok_def)
  ultimately have "ab_trim ab (?t @ [NL]) = ?t" using assms(2) unfolding trim_ok_def by (auto simp: is_space_def NL_def)
  moreover have "ab_split ab ?t [NL] = ?ls" using split_okD [OF assms(1)] map_lines_no_newline [OF assms(3)] \<open>?ls \<noteq> []\<close> by blast
  ultimately show ?thesis by (simp add: map_text_def)
qed

lemma wp_MapBlockFile:
  assumes "split_ok ab" "trim_ok ab" "read_file_ok rf" "dev_name_ok dev" "ranges_ok rs" "rs \<noteq> []" "0 < sz" "0 < blksize"
    and n: "length (range_list rs) = (sz - 1) div blksize + 1" and big: "\<forall>(a, b) \<in> set rs. b * blksize \<le> SIZE_MAX"
    and lim: "length (range_list rs) * blksize \<le> SIZE_MAX" "length rs + 3 \<le> SIZE_MAX"
    and map: "map_option text_of (file_of s f) = Some (map_text dev sz blksize rs)" and dev: "file_of s dev = Some c"
  shows "wp (MapBlockFile rf ab f m) (\<lambda>(ok, m') s'. ok \<longrightarrow> mm_addr m' = block_view c blksize (range_list rs) \<and> mm_length m' = sz) s"
proof -
  let ?ls = "map_lines dev sz blksize rs"
  let ?post = "\<lambda>(ok, m') s'. ok \<longrightarrow> mm_addr m' = block_view c blksize (range_list rs) \<and> mm_length m' = sz"
  have "sz \<le> length (range_list rs) * blksize"
    using assms(7,8) dividend_less_div_times [of blksize "sz - 1"] unfolding n by simp
  moreover have "blksize \<le> length (range_list rs) * blksize" unfolding n by simp
  ultimately have sizes: "sz \<le> SIZE_MAX" "blksize \<le> SIZE_MAX" "length rs \<le> SIZE_MAX" using lim by linarith+
  have "length (range_list rs) \<le> length (range_list rs) * blksize" using assms(8) by simp
  then have "(sz - 1) div blksize + 1 \<le> SIZE_MAX" using lim n by linarith
  then have blocks: "size_add (size_sub sz 1 div blksize) 1 = length (range_list rs)" using assms(7) n by (simp add: size_simps)
  have ls: "?ls ! 0 = dev" "?ls ! 1 = to_string sz @ '' '' @ to_string blksize" "?ls ! 2 = to_string (length rs)" "drop 3 ?ls = map range_line rs"
    "length ?ls = 3 + length rs" by (simp_all add: map_lines_def)
  have dev_name: "cstr dev = dev" using assms(4) by (auto simp: dev_name_ok_def intro: cstr_plain)
  have fits: "length (range_list rs) \<le> SIZE_MAX div blksize" "size_add 3 (length rs) = 3 + length rs"
    "size_mul (length (range_list rs)) blksize = length (range_list rs) * blksize"
    using lim assms(8) by (simp_all add: size_simps less_eq_div_iff_mult_less_eq)
  have fd: "wp (TEMP_FAILURE_RETRY (\<lambda>r. r = -1) (sys_open dev [O_RDONLY])) (\<lambda>fd s'. file_of s' dev = Some c \<and> (fd \<noteq> -1 \<longrightarrow> at fd dev 0 c s')) s'"
    if "file_of s' dev = Some c" for s' :: "'a world_scheme"
    by (rule wp_retry [where P = "\<lambda>s. file_of s dev = Some c", OF wp_open_plain]) (use that in auto)
  let ?mapped = "\<lambda>fd. map_ranges fd blksize (map range_line rs) [] [] (length (range_list rs) * blksize) \<bind>
    (\<lambda>(ok, shown, mapped, remaining). let m = m\<lparr>mm_ranges := mapped\<rparr> in if \<not> ok \<or> remaining \<noteq> 0 then ret (False, m) else ret (True, m\<lparr>mm_addr := shown, mm_length := sz\<rparr>))"
  have body: "wp (with_fd fd (?mapped fd)) ?post s'" if "at fd dev 0 c s'" for fd and s' :: "'a world_scheme"
    unfolding with_fd_def
    by (rule wp_seq [where Q = ?post, OF wp_seq [OF wp_map_ranges [OF that assms(5,8) _ lim(1) big]]]) (auto simp: Let_def intro!: wp_tail)
  show ?thesis
    unfolding MapBlockFile_def
  proof (rule wp_seq, rule assms(3) [unfolded read_file_ok_def, rule_format], rule wp_optionI, goal_cases)
    case (2 x s1 t)
    then have t: "t = map_text dev sz blksize rs" and s1: "file_of s1 dev = Some c" using map dev by auto
    show ?case
      unfolding t Let_def map_text_lines [OF assms(1,2,4,6)] ls blocks dev_name fits
        sscanf_numbers(2) [OF sizes(1,2)] sscanf_numbers(1) [OF sizes(3)] option.case prod.case
    proof (intro wp_ifI wp_seq [OF keep_wp [OF keep_on_file(2) s1]], goal_cases)
      case (4 reserve s2)
      show ?case
      proof (rule wp_seq [OF fd [OF 4(3)]], rule wp_ifI, goal_cases)
        case (2 h s3)
        then show ?case using body [of h s3] by (simp add: Let_def)
      qed simp
    qed simp_all
  qed auto
qed

end
