(* ===== verification/Uncrypt.thy ===== *)
theory Uncrypt
  imports Block_Map
begin

text \<open>
  Preparation of a package before the reboot (\<^verbatim>\<open>uncrypt/uncrypt.cpp\<close>): the file is turned into a block
  map; on an encrypted file system its contents are first written in the clear to the blocks that
  the file occupies.  The same program sets and clears the bootloader message.

  Parameters are the file helpers of android-base, the ioctls, the fstab, \<^verbatim>\<open>realpath\<close>, the block size
  that \<^verbatim>\<open>stat\<close> reports, the clock, the floating-point percentage and the connection to the caller.
  A path is in the file system or on the raw device: the plain contents of an encrypted file and
  the blocks of its device are different files of the world.  The pauses between retries are left
  out.  A descriptor that a destructor closes appears in the list that \<open>leave\<close> gets.
\<close>

section \<open>The environment\<close>

record fstab_rec =
  fr_mount_point :: "string option"
  fr_blk_device :: string
  fr_fs_type :: string
  fr_encryptable :: bool
  fr_file_encrypted :: bool

record 'z uncrypt_env =
  ue_misc :: "'z misc_env"
  ue_fstab :: "fstab_rec list option"
  ue_crypto_state :: string
  ue_realpath :: "string \<Rightarrow> string option"
  ue_blksize :: "string \<Rightarrow> nat"
  ue_percent :: "nat \<Rightarrow> nat \<Rightarrow> int"
  ue_RemoveFileIfExists :: "string \<Rightarrow> ('z, bool) io"
  ue_WriteStringToFd :: "string \<Rightarrow> int \<Rightarrow> ('z, bool) io"
  ue_WriteStringToFile :: "string \<Rightarrow> string \<Rightarrow> ('z, bool) io"
  ue_fibmap :: "int \<Rightarrow> int \<Rightarrow> ('z, int option) io"  \<comment> \<open>\<^verbatim>\<open>ioctl(fd, FIBMAP, &block)\<close>: the new value of \<^verbatim>\<open>block\<close>\<close>
  ue_pin_file :: "int \<Rightarrow> ('z, bool) io"  \<comment> \<open>whether the pin is set or not supported\<close>
  ue_seconds :: int
  ue_connect :: "('z, int + int) io"  \<comment> \<open>the socket of the caller, or the error code to log\<close>

definition WINDOW_SIZE :: nat where "WINDOW_SIZE = 5"
definition FIBMAP_RETRY_LIMIT :: nat where "FIBMAP_RETRY_LIMIT = 3"
definition CACHE_BLOCK_MAP :: string where "CACHE_BLOCK_MAP = ''/cache/recovery/block.map''"
definition UNCRYPT_PATH_FILE :: string where "UNCRYPT_PATH_FILE = ''/cache/recovery/uncrypt_file''"
definition UNCRYPT_STATUS :: string where "UNCRYPT_STATUS = ''/cache/recovery/uncrypt_status''"

definition kUncryptNoError :: int where "kUncryptNoError = -1"
definition kUncryptErrorPlaceholder :: int where "kUncryptErrorPlaceholder = 50"
definition kUncryptFileRemoveError :: int where "kUncryptFileRemoveError = 101"
definition kUncryptFileOpenError :: int where "kUncryptFileOpenError = 102"
definition kUncryptSocketWriteError :: int where "kUncryptSocketWriteError = 104"
definition kUncryptFstabReadError :: int where "kUncryptFstabReadError = 107"
definition kUncryptFileStatError :: int where "kUncryptFileStatError = 108"
definition kUncryptBlockOpenError :: int where "kUncryptBlockOpenError = 109"
definition kUncryptIoctlError :: int where "kUncryptIoctlError = 110"
definition kUncryptReadError :: int where "kUncryptReadError = 111"
definition kUncryptWriteError :: int where "kUncryptWriteError = 112"
definition kUncryptFileSyncError :: int where "kUncryptFileSyncError = 113"
definition kUncryptFileCloseError :: int where "kUncryptFileCloseError = 114"
definition kUncryptFileRenameError :: int where "kUncryptFileRenameError = 115"
definition kUncryptPackageMissingError :: int where "kUncryptPackageMissingError = 116"
definition kUncryptRealpathFindError :: int where "kUncryptRealpathFindError = 117"
definition kUncryptBlockDeviceFindError :: int where "kUncryptBlockDeviceFindError = 118"

section \<open>Helpers\<close>

text \<open>A seek to a negative offset fails.\<close>

definition write_at_offset :: "'z uncrypt_env \<Rightarrow> byte list \<Rightarrow> int \<Rightarrow> int \<Rightarrow> ('z, int) io" where
  "write_at_offset e buffer wfd offset = do {
     r \<leftarrow> TEMP_FAILURE_RETRY (\<lambda>r. r = -1) (if offset < 0 then fail EINVAL else sys_lseek wfd (nat offset));
     if r = -1 then ret (-1)
     else do {
       ok \<leftarrow> me_WriteFully (ue_misc e) wfd buffer;
       ret (if ok then 0 else -1) } }"

definition add_block_to_ranges :: "int list \<Rightarrow> int \<Rightarrow> int list" where
  "add_block_to_ranges ranges new_block =
     (if ranges \<noteq> [] \<and> new_block = last ranges then butlast ranges @ [last ranges + 1] else ranges @ [new_block, new_block + 1])"

text \<open>The first entry whose mount point is a prefix of the path; its device, and whether it is encrypted and f2fs.\<close>

fun find_block_device :: "string \<Rightarrow> fstab_rec list \<Rightarrow> string \<Rightarrow> (string \<times> bool \<times> bool) option" where
  "find_block_device state [] path = None"
| "find_block_device state (v # vs) path =
     (case fr_mount_point v of
        None \<Rightarrow> find_block_device state vs path
      | Some mp \<Rightarrow>
          if take (length mp) path = mp \<and> (length path = length mp \<or> path ! length mp = CHR ''/'')
          then Some (fr_blk_device v, (fr_encryptable v \<or> fr_file_encrypted v) \<and> state = ''encrypted'', fr_fs_type v = ''f2fs'')
          else find_block_device state vs path)"

text \<open>\<^verbatim>\<open>htonl\<close> of an int.\<close>

definition be32 :: "int \<Rightarrow> byte list" where
  "be32 i = map (\<lambda>k. of_int (i div 256 ^ k)) [3, 2, 1, 0]"

definition write_status_to_socket :: "'z uncrypt_env \<Rightarrow> int \<Rightarrow> int \<Rightarrow> ('z, bool) io" where
  "write_status_to_socket e status socket = (if socket = -1 then ret True else me_WriteFully (ue_misc e) socket (be32 status))"

definition find_uncrypt_package :: "'z uncrypt_env \<Rightarrow> string \<Rightarrow> ('z, string option) io" where
  "find_uncrypt_package e uncrypt_path_file = do {
     r \<leftarrow> me_ReadFileToString (ue_misc e) uncrypt_path_file;
     ret (map_option (ab_trim (me_ab (ue_misc e))) r) }"

text \<open>The loop of \<^verbatim>\<open>retry_fibmap\<close>; \<open>block\<close> is the value that the last call has left in the variable.\<close>

fun retry_loop_fibmap :: "nat \<Rightarrow> 'z uncrypt_env \<Rightarrow> int \<Rightarrow> int \<Rightarrow> ('z, int \<times> int) io" where
  "retry_loop_fibmap 0 e fd block = ret (kUncryptIoctlError, block)"
| "retry_loop_fibmap (Suc n) e fd block = do {
     r \<leftarrow> sys_fsync fd;
     if r = -1 then ret (kUncryptFileSyncError, block)
     else do {
       b \<leftarrow> ue_fibmap e fd block;
       case b of
         None \<Rightarrow> ret (kUncryptIoctlError, block)
       | Some block \<Rightarrow> if block \<noteq> 0 then ret (kUncryptNoError, block) else retry_loop_fibmap n e fd block } }"

definition retry_fibmap :: "'z uncrypt_env \<Rightarrow> int \<Rightarrow> int \<Rightarrow> ('z, int \<times> int) io" where
  "retry_fibmap e fd block = retry_loop_fibmap FIBMAP_RETRY_LIMIT e fd block"

section \<open>The block map\<close>

text \<open>The variables of the two loops.\<close>

record win =
  w_buffers :: "byte list list"
  w_head :: nat
  w_tail :: nat
  w_head_block :: int
  w_ranges :: "int list"
  w_pos :: nat
  w_progress :: int

definition first_window :: "bool \<Rightarrow> nat \<Rightarrow> win" where
  "first_window encrypted blksize =
     \<lparr>w_buffers = (if encrypted then replicate WINDOW_SIZE (replicate blksize 0) else []), w_head = 0, w_tail = 0,
      w_head_block = 0, w_ranges = [], w_pos = 0, w_progress = 0\<rparr>"

text \<open>The part that both loops share: find the place of the head block, and write it out.\<close>

definition write_out_head :: "'z uncrypt_env \<Rightarrow> bool \<Rightarrow> nat \<Rightarrow> int \<Rightarrow> int \<Rightarrow> win \<Rightarrow> ('z, int + win) io" where
  "write_out_head e encrypted blksize fd wfd w = do {
     b \<leftarrow> ue_fibmap e fd (w_head_block w);
     case b of
       None \<Rightarrow> ret (Inl kUncryptIoctlError)
     | Some block \<Rightarrow> do {
         (error, block) \<leftarrow> (if block = 0 then retry_fibmap e fd block else ret (kUncryptNoError, block));
         if error \<noteq> kUncryptNoError then ret (Inl error)
         else do {
           let w = w\<lparr>w_ranges := add_block_to_ranges (w_ranges w) block\<rparr>;
           r \<leftarrow> (if encrypted then write_at_offset e (w_buffers w ! w_head w) wfd (int blksize * block) else ret 0);
           if r \<noteq> 0 then ret (Inl kUncryptWriteError)
           else ret (Inr (w\<lparr>w_head := (w_head w + 1) mod WINDOW_SIZE, w_head_block := w_head_block w + 1\<rparr>)) } } }"

text \<open>The loop that reads the file; the first argument bounds the number of turns.\<close>

fun read_window :: "nat \<Rightarrow> 'z uncrypt_env \<Rightarrow> bool \<Rightarrow> nat \<Rightarrow> nat \<Rightarrow> int \<Rightarrow> int \<Rightarrow> int \<Rightarrow> win \<Rightarrow> ('z, int + win) io" where
  "read_window 0 e encrypted st_size blksize fd wfd socket w = ret (Inr w)"
| "read_window (Suc n) e encrypted st_size blksize fd wfd socket w =
     (if \<not> w_pos w < st_size then ret (Inr w)
      else do {
        let progress = ue_percent e (w_pos w) st_size;
        w \<leftarrow> (if progress > w_progress w
          then do { write_status_to_socket e progress socket; ret (w\<lparr>w_progress := progress\<rparr>) }
          else ret w);
        out \<leftarrow> (if (w_tail w + 1) mod WINDOW_SIZE = w_head w then write_out_head e encrypted blksize fd wfd w else ret (Inr w));
        case out of
          Inl error \<Rightarrow> ret (Inl error)
        | Inr w \<Rightarrow> do {
            got \<leftarrow> (if encrypted
              then do {
                let to_read = min blksize (st_size - w_pos w);
                r \<leftarrow> me_ReadFully (ue_misc e) fd to_read;
                ret (map_option (\<lambda>xs. w\<lparr>w_buffers := (w_buffers w)[w_tail w := xs @ drop to_read (w_buffers w ! w_tail w)],
                  w_pos := w_pos w + to_read\<rparr>) r) }
              else ret (Some (w\<lparr>w_pos := w_pos w + blksize\<rparr>)));
            case got of
              None \<Rightarrow> ret (Inl kUncryptReadError)
            | Some w \<Rightarrow> read_window n e encrypted st_size blksize fd wfd socket (w\<lparr>w_tail := (w_tail w + 1) mod WINDOW_SIZE\<rparr>) } })"

text \<open>The loop that empties the window.\<close>

fun drain_window :: "nat \<Rightarrow> 'z uncrypt_env \<Rightarrow> bool \<Rightarrow> nat \<Rightarrow> int \<Rightarrow> int \<Rightarrow> win \<Rightarrow> ('z, int + win) io" where
  "drain_window 0 e encrypted blksize fd wfd w = ret (Inr w)"
| "drain_window (Suc n) e encrypted blksize fd wfd w =
     (if w_head w = w_tail w then ret (Inr w)
      else do {
        out \<leftarrow> write_out_head e encrypted blksize fd wfd w;
        case out of Inl error \<Rightarrow> ret (Inl error) | Inr w \<Rightarrow> drain_window n e encrypted blksize fd wfd w })"

text \<open>The loop that prints the ranges.\<close>

fun write_ranges :: "'z uncrypt_env \<Rightarrow> int \<Rightarrow> int list \<Rightarrow> ('z, bool) io" where
  "write_ranges e mapfd (a # b # ranges) = do {
     ok \<leftarrow> ue_WriteStringToFd e (int_to_string a @ '' '' @ int_to_string b @ [NL]) mapfd;
     if \<not> ok then ret False else write_ranges e mapfd ranges }"
| "write_ranges e mapfd ranges = ret True"

text \<open>A return that closes the descriptors still open.\<close>

fun leave :: "int list \<Rightarrow> 'a \<Rightarrow> ('z, 'a) io" where
  "leave [] x = ret x"
| "leave (fd # fds) x = do { sys_close fd; leave fds x }"

definition dirname :: "string \<Rightarrow> string" where
  "dirname p = butlast (rev (dropWhile (\<lambda>c. c \<noteq> CHR ''/'') (rev p)))"

text \<open>The end of \<^verbatim>\<open>produce_block_map\<close>: the text is complete, make it durable and give it its name.\<close>

definition commit_map :: "'z uncrypt_env \<Rightarrow> string \<Rightarrow> string \<Rightarrow> bool \<Rightarrow> int \<Rightarrow> int \<Rightarrow> int \<Rightarrow> ('z, int) io" where
  "commit_map e tmp_map_file map_file encrypted mapfd fd wfd = (
     let open_fds = (if encrypted then [wfd, fd] else [fd]) in do {
     r \<leftarrow> sys_fsync mapfd;
     if r = -1 then leave (open_fds @ [mapfd]) kUncryptFileSyncError
     else do {
     r \<leftarrow> sys_close mapfd;
     if r = -1 then leave open_fds kUncryptFileCloseError
     else do {
     r \<leftarrow> (if encrypted then sys_fsync wfd else ret 0);
     if r = -1 then leave open_fds kUncryptFileSyncError
     else do {
     r \<leftarrow> (if encrypted then sys_close wfd else ret 0);
     if r = -1 then leave [fd] kUncryptFileCloseError
     else do {
     r \<leftarrow> sys_rename tmp_map_file map_file;
     if r = -1 then leave [fd] kUncryptFileRenameError
     else do {
     dfd \<leftarrow> sys_open (dirname map_file) [O_RDONLY, O_DIRECTORY];
     if dfd = -1 then leave [fd] kUncryptFileOpenError
     else do {
     r \<leftarrow> sys_fsync dfd;
     if r = -1 then leave [dfd, fd] kUncryptFileSyncError
     else do {
     r \<leftarrow> sys_close dfd;
     if r = -1 then leave [fd] kUncryptFileCloseError
     else leave [fd] 0 }}}}}}}})"

definition produce_block_map :: "'z uncrypt_env \<Rightarrow> string \<Rightarrow> string \<Rightarrow> string \<Rightarrow> bool \<Rightarrow> bool \<Rightarrow> int \<Rightarrow> ('z, int) io" where
  "produce_block_map e path map_file blk_dev encrypted f2fs_fs socket = do {
     ok \<leftarrow> ue_RemoveFileIfExists e map_file;
     if \<not> ok then ret kUncryptFileRemoveError
     else let tmp_map_file = map_file @ ''.tmp'' in do {
     mapfd \<leftarrow> sys_open tmp_map_file [O_WRONLY, O_CREAT];
     if mapfd = -1 then ret kUncryptFileOpenError
     else do {
     ok \<leftarrow> write_status_to_socket e 0 socket;
     if \<not> ok then leave [mapfd] kUncryptSocketWriteError
     else do {
     st \<leftarrow> sys_stat path;
     case st of
       None \<Rightarrow> leave [mapfd] kUncryptFileStatError
     | Some st_size \<Rightarrow> let blksize = ue_blksize e path in do {
     CHECK (blksize \<noteq> 0);
     ok \<leftarrow> ue_WriteStringToFd e (blk_dev @ [NL] @ to_string st_size @ '' '' @ to_string blksize @ [NL]) mapfd;
     if \<not> ok then leave [mapfd] kUncryptWriteError
     else do {
     fd \<leftarrow> sys_open path [O_RDWR];
     if fd = -1 then leave [mapfd] kUncryptFileOpenError
     else do {
     wfd \<leftarrow> (if encrypted then sys_open blk_dev [O_WRONLY] else ret (-1));
     if encrypted \<and> wfd = -1 then leave [fd, mapfd] kUncryptBlockOpenError
     else let open_fds = (if encrypted then [wfd, fd, mapfd] else [fd, mapfd]) in do {
     pinned \<leftarrow> (if f2fs_fs then ue_pin_file e fd else ret True);
     if \<not> pinned then leave open_fds kUncryptIoctlError
     else do {
     out \<leftarrow> read_window (Suc st_size) e encrypted st_size blksize fd wfd socket
       (first_window encrypted blksize);
     case out of
       Inl error \<Rightarrow> leave open_fds error
     | Inr w \<Rightarrow> do {
     out \<leftarrow> drain_window WINDOW_SIZE e encrypted blksize fd wfd w;
     case out of
       Inl error \<Rightarrow> leave open_fds error
     | Inr w \<Rightarrow> do {
     ok \<leftarrow> ue_WriteStringToFd e (to_string (length (w_ranges w) div 2) @ [NL]) mapfd;
     if \<not> ok then leave open_fds kUncryptWriteError
     else do {
     ok \<leftarrow> write_ranges e mapfd (w_ranges w);
     if \<not> ok then leave open_fds kUncryptWriteError
     else commit_map e tmp_map_file map_file encrypted mapfd fd wfd }}}}}}}}}}}}"


definition uncrypt :: "'z uncrypt_env \<Rightarrow> string \<Rightarrow> string \<Rightarrow> int \<Rightarrow> ('z, int) io" where
  "uncrypt e input_path map_file socket =
     (case ue_realpath e input_path of
        None \<Rightarrow> ret kUncryptRealpathFindError
      | Some path \<Rightarrow>
          (case find_block_device (ue_crypto_state e) (the (ue_fstab e)) path of
             None \<Rightarrow> ret kUncryptBlockDeviceFindError
           | Some (blk_dev, encrypted, f2fs_fs) \<Rightarrow>
               if take 6 path = ''/data/'' then produce_block_map e path map_file blk_dev encrypted f2fs_fs socket
               else ret 0))"

section \<open>The service\<close>

definition log_uncrypt_error_code :: "'z uncrypt_env \<Rightarrow> int \<Rightarrow> ('z, unit) io" where
  "log_uncrypt_error_code e code = do {
     ue_WriteStringToFile e (''uncrypt_error: '' @ int_to_string code @ [NL]) UNCRYPT_STATUS;
     ret () }"

definition uncrypt_wrapper :: "'z uncrypt_env \<Rightarrow> string option \<Rightarrow> string \<Rightarrow> int \<Rightarrow> ('z, bool) io" where
  "uncrypt_wrapper e input_path map_file socket = do {
     log_uncrypt_error_code e kUncryptErrorPlaceholder;
     input \<leftarrow> (case input_path of Some p \<Rightarrow> ret (Some p) | None \<Rightarrow> find_uncrypt_package e UNCRYPT_PATH_FILE);
     case input of
       None \<Rightarrow> do {
         write_status_to_socket e (-1) socket;
         log_uncrypt_error_code e kUncryptPackageMissingError;
         ret False }
     | Some p \<Rightarrow> do {
         status \<leftarrow> uncrypt e (cstr p) map_file socket;
         let time_message = ''uncrypt_time: '' @ int_to_string (ue_seconds e) @ [NL];
         if status \<noteq> 0 then do {
           ue_WriteStringToFile e (time_message @ ''uncrypt_error: '' @ int_to_string status @ [NL]) UNCRYPT_STATUS;
           write_status_to_socket e (-1) socket;
           ret False }
         else do {
           ue_WriteStringToFile e time_message UNCRYPT_STATUS;
           write_status_to_socket e 100 socket;
           ret True } } }"

definition clear_bcb :: "'z uncrypt_env \<Rightarrow> int \<Rightarrow> ('z, bool) io" where
  "clear_bcb e socket = do {
     r \<leftarrow> clear_bootloader_message (ue_misc e);
     case r of
       Inl _ \<Rightarrow> do { write_status_to_socket e (-1) socket; ret False }
     | Inr _ \<Rightarrow> do { write_status_to_socket e 100 socket; ret True } }"

text \<open>\<^verbatim>\<open>ntohl\<close> of four bytes, as an int.\<close>

definition int_be32 :: "byte list \<Rightarrow> int" where
  "int_be32 bs = (let n = foldl (\<lambda>a b. 256 * a + uint b) 0 bs in if n < 2 ^ 31 then n else n - 2 ^ 32)"

definition wipe_prefix :: string where "wipe_prefix = ''--wipe_package=''"

text \<open>The loop over the options: the changed options and the wipe package, or \<open>None\<close> when a package cannot be read.\<close>

fun wipe_options :: "'z uncrypt_env \<Rightarrow> string list \<Rightarrow> string list \<Rightarrow> string \<Rightarrow> ('z, (string list \<times> string) option) io" where
  "wipe_options e [] acc wipe_package = ret (Some (acc, wipe_package))"
| "wipe_options e (option # options) acc wipe_package =
     (if take (length wipe_prefix) option = wipe_prefix
      then do {
        r \<leftarrow> me_ReadFileToString (ue_misc e) (drop (length wipe_prefix) option);
        case r of
          None \<Rightarrow> ret None
        | Some package \<Rightarrow> wipe_options e options (acc @ [''--wipe_package_size='' @ to_string (length package)]) package }
      else wipe_options e options (acc @ [option]) wipe_package)"

text \<open>\<^verbatim>\<open>resize\<close> throws for a negative length.\<close>

definition setup_bcb :: "'z uncrypt_env \<Rightarrow> int \<Rightarrow> ('z, bool) io" where
  "setup_bcb e socket = do {
     l \<leftarrow> me_ReadFully (ue_misc e) socket 4;
     case l of
       None \<Rightarrow> ret False
     | Some bs \<Rightarrow> do {
         CHECK (0 \<le> int_be32 bs);
         content \<leftarrow> me_ReadFully (ue_misc e) socket (nat (int_be32 bs));
         case content of
           None \<Rightarrow> ret False
         | Some content \<Rightarrow> do {
             r \<leftarrow> wipe_options e (ab_split (me_ab (ue_misc e)) (text_of content) [NL]) [] [];
             case r of
               None \<Rightarrow> ret False
             | Some (options, wipe_package) \<Rightarrow> do {
                 r \<leftarrow> write_bootloader_message_options (ue_misc e) options;
                 r \<leftarrow> (case r of
                   Inl err \<Rightarrow> ret (Inl err)
                 | Inr _ \<Rightarrow> if wipe_package = [] then ret (Inr ()) else write_wipe_package (ue_misc e) (bytes_of wipe_package));
                 case r of
                   Inl _ \<Rightarrow> do { write_status_to_socket e (-1) socket; ret False }
                 | Inr _ \<Rightarrow> do { write_status_to_socket e 100 socket; ret True } } } } }"

datatype action = UNCRYPT | SETUP_BCB | CLEAR_BCB | UNCRYPT_DEBUG

definition parse_action :: "string list \<Rightarrow> action option" where
  "parse_action argv =
     (if length argv = 2 \<and> argv ! 1 = ''--clear-bcb'' then Some CLEAR_BCB
      else if length argv = 2 \<and> argv ! 1 = ''--setup-bcb'' then Some SETUP_BCB
      else if length argv = 1 then Some UNCRYPT
      else if length argv = 3 then Some UNCRYPT_DEBUG
      else None)"

definition uncrypt_main :: "'z uncrypt_env \<Rightarrow> string list \<Rightarrow> ('z, int) io" where
  "uncrypt_main e argv =
     (case parse_action argv of
        None \<Rightarrow> ret 2
      | Some action \<Rightarrow>
          if ue_fstab e = None then do { log_uncrypt_error_code e kUncryptFstabReadError; ret 1 }
          else if action = UNCRYPT_DEBUG then do {
            success \<leftarrow> uncrypt_wrapper e (Some (argv ! 1)) (argv ! 2) (-1);
            ret (if success then 0 else 1) }
          else do {
            conn \<leftarrow> ue_connect e;
            case conn of
              Inl error \<Rightarrow> do { log_uncrypt_error_code e error; ret 1 }
            | Inr socket \<Rightarrow> do {
                success \<leftarrow> (case action of
                    UNCRYPT \<Rightarrow> uncrypt_wrapper e None CACHE_BLOCK_MAP socket
                  | SETUP_BCB \<Rightarrow> setup_bcb e socket
                  | CLEAR_BCB \<Rightarrow> clear_bcb e socket
                  | UNCRYPT_DEBUG \<Rightarrow> ret False);
                me_ReadFully (ue_misc e) socket 4;
                ret (if success then 0 else 1) } })"


section \<open>The ranges\<close>

definition flat :: "(nat \<times> nat) list \<Rightarrow> int list" where
  "flat rs = concat (map (\<lambda>(a, b). [int a, int b]) rs)"

definition extend_ranges :: "(nat \<times> nat) list \<Rightarrow> nat \<Rightarrow> (nat \<times> nat) list" where
  "extend_ranges rs b = (if rs \<noteq> [] \<and> snd (last rs) = b then butlast rs @ [(fst (last rs), b + 1)] else rs @ [(b, b + 1)])"

lemma flat_simps [simp]: "flat [] = []" "flat (rs @ qs) = flat rs @ flat qs" "flat ((a, b) # rs) = int a # int b # flat rs"
  by (simp_all add: flat_def)

lemma length_flat [simp]: "length (flat rs) = 2 * length rs"
  by (induction rs) (auto simp: flat_def)

lemma add_block_flat: "add_block_to_ranges (flat rs) (int b) = flat (extend_ranges rs b)"
proof (cases rs rule: rev_exhaust)
  case (snoc qs r)
  obtain x y where "r = (x, y)" by fastforce
  with snoc show ?thesis by (simp add: add_block_to_ranges_def extend_ranges_def butlast_append)
qed (simp add: add_block_to_ranges_def extend_ranges_def)

lemma extend_ranges_ok:
  assumes "ranges_ok rs"
  shows "ranges_ok (extend_ranges rs b)" "range_list (extend_ranges rs b) = range_list rs @ [b]"
proof -
  have "ranges_ok (extend_ranges rs b) \<and> range_list (extend_ranges rs b) = range_list rs @ [b]"
  proof (cases rs rule: rev_exhaust)
    case (snoc qs r)
    obtain x y where "r = (x, y)" by fastforce
    with snoc assms show ?thesis by (auto simp: ranges_ok_def range_list_def extend_ranges_def)
  qed (simp add: ranges_ok_def range_list_def extend_ranges_def)
  then show "ranges_ok (extend_ranges rs b)" "range_list (extend_ranges rs b) = range_list rs @ [b]" by simp_all
qed

section \<open>Frames\<close>

text \<open>\<open>frame F P\<close>: only the descriptors in \<open>F\<close> and the files in \<open>P\<close> have changed.\<close>

definition frame :: "int set \<Rightarrow> string set \<Rightarrow> 'z world_scheme \<Rightarrow> 'z world_scheme \<Rightarrow> bool" where
  "frame F P s s' \<longleftrightarrow> (\<forall>fd. fd \<notin> F \<longrightarrow> fd_of s' fd = fd_of s fd) \<and> (\<forall>q. q \<notin> P \<longrightarrow> file_of s' q = file_of s q) \<and> w_next_fd s' = w_next_fd s \<and> w_dirs s' = w_dirs s"

lemma frame_refl: "frame F P s s"
  by (simp add: frame_def)

lemma frame_at: "frame F P s s' \<Longrightarrow> at fd p pos c s \<Longrightarrow> fd \<notin> F \<Longrightarrow> p \<notin> P \<Longrightarrow> at fd p pos c s'"
  by (simp add: frame_def at_def)

lemma frame_file: "frame F P s s' \<Longrightarrow> p \<notin> P \<Longrightarrow> file_of s' p = file_of s p"
  by (simp add: frame_def)

lemma frame_fd: "frame F P s s' \<Longrightarrow> fd \<notin> F \<Longrightarrow> fd_of s' fd = fd_of s fd"
  by (simp add: frame_def)

text \<open>
  Documented behaviour of the helpers: they work on the descriptor or file they are given, at its
  current position, and on nothing else.  A socket is a descriptor without a file.
\<close>

definition file_helpers_ok :: "'z uncrypt_env \<Rightarrow> bool" where
  "file_helpers_ok e \<longleftrightarrow>
     (\<forall>fd n s. wp (me_ReadFully (ue_misc e) fd n) (\<lambda>r s'. frame {fd} {} s s' \<and>
        (\<forall>xs p pos c. r = Some xs \<and> at fd p pos c s \<longrightarrow> length xs = n \<and> xs = take n (drop pos c) \<and> at fd p (pos + n) c s')) s) \<and>
     (\<forall>fd xs p pos c s. at fd p pos c s \<longrightarrow> wp (me_WriteFully (ue_misc e) fd xs) (\<lambda>ok s'. frame {fd} {p} s s' \<and>
        (ok \<longrightarrow> at fd p (pos + length xs) (overlay pos xs c) s')) s) \<and>
     (\<forall>fd xs s. fd_of s fd = None \<longrightarrow> wp (me_WriteFully (ue_misc e) fd xs) (\<lambda>_ s'. frame {} {} s s') s) \<and>
     (\<forall>t fd p pos c s. at fd p pos c s \<longrightarrow> wp (ue_WriteStringToFd e t fd) (\<lambda>ok s'. frame {fd} {p} s s' \<and>
        (ok \<longrightarrow> at fd p (pos + length t) (overlay pos (bytes_of t) c) s')) s) \<and>
     (\<forall>f s. wp (ue_RemoveFileIfExists e f) (\<lambda>_ s'. frame {} {f} s s') s) \<and>
     (\<forall>fd s. wp (ue_pin_file e fd) (\<lambda>_ s'. frame {} {} s s') s)"

lemma helpersD:
  assumes "file_helpers_ok e"
  shows "wp (me_ReadFully (ue_misc e) fd n) (\<lambda>r s'. frame {fd} {} s s' \<and>
        (\<forall>xs p pos c. r = Some xs \<and> at fd p pos c s \<longrightarrow> length xs = n \<and> xs = take n (drop pos c) \<and> at fd p (pos + n) c s')) s"
    and "at fd p pos c s \<Longrightarrow> wp (me_WriteFully (ue_misc e) fd xs) (\<lambda>ok s'. frame {fd} {p} s s' \<and>
        (ok \<longrightarrow> at fd p (pos + length xs) (overlay pos xs c) s')) s"
    and "fd_of s fd = None \<Longrightarrow> wp (me_WriteFully (ue_misc e) fd xs) (\<lambda>_ s'. frame {} {} s s') s"
    and "at fd p pos c s \<Longrightarrow> wp (ue_WriteStringToFd e t fd) (\<lambda>ok s'. frame {fd} {p} s s' \<and>
        (ok \<longrightarrow> at fd p (pos + length t) (overlay pos (bytes_of t) c) s')) s"
    and "wp (ue_RemoveFileIfExists e f) (\<lambda>_ s'. frame {} {f} s s') s"
    and "wp (ue_pin_file e fd) (\<lambda>_ s'. frame {} {} s s') s"
  using assms unfolding file_helpers_ok_def by simp_all

text \<open>
  \<^verbatim>\<open>FIBMAP\<close> on a file whose blocks are all allocated: block \<open>i\<close> of the file is block \<open>lay i\<close> of the
  device, which is never 0.
\<close>

definition fibmap_ok :: "'z uncrypt_env \<Rightarrow> string \<Rightarrow> (nat \<Rightarrow> nat) \<Rightarrow> nat \<Rightarrow> bool" where
  "fibmap_ok e path lay n \<longleftrightarrow> (\<forall>i < n. 0 < lay i) \<and>
     (\<forall>fd pos s i. fd_of s fd = Some (path, pos) \<and> i < n \<longrightarrow>
        wp (ue_fibmap e fd (int i)) (\<lambda>r s'. frame {} {} s s' \<and> (\<forall>b. r = Some b \<longrightarrow> b = int (lay i))) s)"

lemma frame_simps [simp]:
  "frame F P s (s'\<lparr>w_halted := h\<rparr>) = frame F P s s'" "frame F P s (s'\<lparr>w_oracle := evs\<rparr>) = frame F P s s'"
  "frame F P s (s'\<lparr>w_errno := er\<rparr>) = frame F P s s'" "fd \<in> F \<Longrightarrow> frame F P s (set_fd fd p pos s') = frame F P s s'"
  by (auto simp: frame_def set_fd_def fd_of_def file_of_def update_conv')

lemma wp_seek_frame:
  assumes "at fd p pos c s"
  shows "wp (TEMP_FAILURE_RETRY (\<lambda>r. r = -1) (if off < 0 then fail EINVAL else sys_lseek fd (nat off)))
    (\<lambda>r s'. frame {fd} {} s s' \<and> (if r = -1 then at fd p pos c s' else at fd p (nat off) c s')) s"
proof (rule wp_retry [where P = "\<lambda>s'. frame {fd} {} s s' \<and> at fd p pos c s'"], goal_cases)
  case (1 s1)
  then show ?case unfolding sys_lseek_def wp_if wp_bind
    by (auto simp: at_def split: io_event.split intro!: wp_next_eventI)
qed (use assms frame_refl in auto)


section \<open>The window\<close>

text \<open>Block \<open>i\<close> of a file; the last one may be shorter.\<close>

definition nth_block :: "nat \<Rightarrow> byte list \<Rightarrow> nat \<Rightarrow> byte list" where
  "nth_block blksize c i = take blksize (drop (i * blksize) c)"

definition blocks_of_file :: "nat \<Rightarrow> byte list \<Rightarrow> nat" where
  "blocks_of_file blksize c = (if c = [] then 0 else (length c - 1) div blksize + 1)"

text \<open>Blocks \<open>0..<h\<close> of the file are at their places on the device.\<close>

definition laid_out :: "(nat \<Rightarrow> nat) \<Rightarrow> nat \<Rightarrow> byte list \<Rightarrow> nat \<Rightarrow> byte list \<Rightarrow> bool" where
  "laid_out lay blksize c h d \<longleftrightarrow> (\<forall>i < h. take (length (nth_block blksize c i)) (drop (lay i * blksize) d) = nth_block blksize c i)"

text \<open>
  The descriptors during the loops, for file contents \<open>c\<close>, device contents \<open>d\<close>, and text \<open>m\<close> of
  the map so far; \<open>pos\<close> is the position in the file.
\<close>

record job =
  j_path :: string
  j_dev :: string
  j_tmp :: string
  j_fd :: int
  j_wfd :: int
  j_mapfd :: int
  j_socket :: int
  j_encrypted :: bool
  j_c :: "byte list"
  j_blksize :: nat
  j_lay :: "nat \<Rightarrow> nat"
  j_n :: nat  \<comment> \<open>the number of blocks\<close>
  j_m :: "byte list"

definition job_ok :: "job \<Rightarrow> bool" where
  "job_ok j \<longleftrightarrow> j_fd j \<noteq> j_wfd j \<and> j_fd j \<noteq> j_mapfd j \<and> j_wfd j \<noteq> j_mapfd j \<and> j_path j \<noteq> j_dev j \<and> j_path j \<noteq> j_tmp j \<and> j_dev j \<noteq> j_tmp j \<and>
     (j_socket j \<noteq> -1 \<longrightarrow> j_socket j \<notin> {j_fd j, j_wfd j, j_mapfd j}) \<and> 0 < j_blksize j \<and> inj_on (j_lay j) {..<j_n j} \<and>
     j_n j = blocks_of_file (j_blksize j) (j_c j)"

definition fds_are :: "job \<Rightarrow> nat \<Rightarrow> byte list \<Rightarrow> 'z world_scheme \<Rightarrow> bool" where
  "fds_are j pos d s \<longleftrightarrow> at (j_fd j) (j_path j) pos (j_c j) s \<and> at (j_mapfd j) (j_tmp j) (length (j_m j)) (j_m j) s \<and>
     file_of s (j_dev j) = Some d \<and> (j_encrypted j \<longrightarrow> (\<exists>q. at (j_wfd j) (j_dev j) q d s)) \<and> (j_socket j \<noteq> -1 \<longrightarrow> fd_of s (j_socket j) = None)"

definition job_block :: "job \<Rightarrow> nat \<Rightarrow> byte list" where
  "job_block j i = nth_block (j_blksize j) (j_c j) i"

definition stored :: "job \<Rightarrow> nat \<Rightarrow> byte list \<Rightarrow> bool" where
  "stored j h d \<longleftrightarrow> laid_out (j_lay j) (j_blksize j) (j_c j) h d"

text \<open>Blocks \<open>h..<t\<close> are in the buffers.\<close>

definition buffers_hold :: "job \<Rightarrow> nat \<Rightarrow> nat \<Rightarrow> byte list list \<Rightarrow> bool" where
  "buffers_hold j h t bs \<longleftrightarrow> length bs = 5 \<and> (\<forall>b \<in> set bs. length b = j_blksize j) \<and>
     (\<forall>i. h \<le> i \<and> i < t \<longrightarrow> take (length (job_block j i)) (bs ! (i mod 5)) = job_block j i)"

definition window_inv :: "job \<Rightarrow> nat \<Rightarrow> nat \<Rightarrow> win \<Rightarrow> byte list \<Rightarrow> bool" where
  "window_inv j h t w d \<longleftrightarrow> h \<le> t \<and> t \<le> h + 4 \<and> t \<le> j_n j \<and> w_head_block w = int h \<and> w_head w = h mod 5 \<and> w_tail w = t mod 5 \<and>
     (\<exists>rs. w_ranges w = flat rs \<and> ranges_ok rs \<and> range_list rs = map (j_lay j) [0..<h]) \<and>
     (\<forall>i < j_n j. (j_lay j i + 1) * j_blksize j \<le> length d) \<and>
     (j_encrypted j \<longrightarrow> buffers_hold j h t (w_buffers w)) \<and>
     stored j (if j_encrypted j then h else j_n j) d"

lemma fds_are_frame: "fds_are j pos d s \<Longrightarrow> frame {} {} s s' \<Longrightarrow> fds_are j pos d s'"
  by (auto simp: fds_are_def frame_def at_def)

lemma stored_overlay:
  assumes "job_ok j" "h < j_n j" "length buf = j_blksize j" "take (length (job_block j h)) buf = job_block j h"
    and "\<forall>i < j_n j. (j_lay j i + 1) * j_blksize j \<le> length d" "stored j h d"
  shows "stored j (Suc h) (overlay (j_lay j h * j_blksize j) buf d)" "length (overlay (j_lay j h * j_blksize j) buf d) = length d"
proof -
  let ?b = "j_blksize j" and ?o = "j_lay j h * j_blksize j"
  have b: "0 < ?b" "inj_on (j_lay j) {..<j_n j}" using assms(1) by (auto simp: job_ok_def)
  have fit: "?o + ?b \<le> length d" using assms(2,5) by (auto simp: algebra_simps)
  then have ov: "overlay ?o buf d = take ?o d @ buf @ drop (?o + ?b) d" using assms(3) by (simp add: overlay_inside)
  then show "length (overlay ?o buf d) = length d" using fit assms(3) by simp
  have le: "length (job_block j i) \<le> ?b" for i by (simp add: job_block_def nth_block_def)
  have "take (length (job_block j i)) (drop (j_lay j i * ?b) (overlay ?o buf d)) = job_block j i" if "i < Suc h" for i
  proof (cases "i = h")
    case True
    then show ?thesis using ov fit assms(3,4) le [of h] by simp
  next
    case False
    with that have "i < h" by simp
    then have "j_lay j i \<noteq> j_lay j h" using inj_onD [OF b(2), of i h] assms(2) False by auto
    have "(j_lay j i + 1) * ?b \<le> length d" using assms(2,5) \<open>i < h\<close> by (meson order.strict_trans)
    have "outside_same ?o ?b d (overlay ?o buf d)" using ov fit assms(3) by (simp add: outside_same_def)
    moreover have "j_lay j i * ?b + length (job_block j i) \<le> ?o \<or> ?o + ?b \<le> j_lay j i * ?b"
    proof (cases "j_lay j i < j_lay j h")
      case True
      then have "(j_lay j i + 1) * ?b \<le> ?o" by (intro mult_le_mono1) simp
      then show ?thesis using le [of i] by (simp add: algebra_simps)
    next
      case False
      then have "(j_lay j h + 1) * ?b \<le> j_lay j i * ?b" using \<open>j_lay j i \<noteq> j_lay j h\<close> by (intro mult_le_mono1) simp
      then show ?thesis by (simp add: algebra_simps)
    qed
    ultimately show ?thesis using outside_same_other assms(6) \<open>i < h\<close> unfolding stored_def laid_out_def job_block_def by metis
  qed
  then show "stored j (Suc h) (overlay ?o buf d)" by (simp add: stored_def laid_out_def job_block_def)
qed


definition serves :: "'z uncrypt_env \<Rightarrow> job \<Rightarrow> bool" where
  "serves e j \<longleftrightarrow> file_helpers_ok e \<and> job_ok j \<and> fibmap_ok e (j_path j) (j_lay j) (j_n j)"

lemma wp_fibmap:
  assumes "serves e j" "fds_are j pos d s" "h < j_n j"
  shows "wp (ue_fibmap e (j_fd j) (int h)) (\<lambda>r s'. fds_are j pos d s' \<and> (\<forall>b. r = Some b \<longrightarrow> b = int (j_lay j h) \<and> b \<noteq> 0)) s"
proof -
  have "fd_of s (j_fd j) = Some (j_path j, pos)" "0 < j_lay j h" using assms by (auto simp: fds_are_def at_def serves_def fibmap_ok_def)
  with assms have "wp (ue_fibmap e (j_fd j) (int h)) (\<lambda>r s'. frame {} {} s s' \<and> (\<forall>b. r = Some b \<longrightarrow> b = int (j_lay j h))) s"
    unfolding serves_def fibmap_ok_def by blast
  then show ?thesis by (rule wp_mono) (use assms(2) \<open>0 < j_lay j h\<close> fds_are_frame in auto)
qed

lemma wp_write_at_offset:
  assumes "serves e j" "fds_are j pos d s" "j_encrypted j"
  shows "wp (write_at_offset e buf (j_wfd j) (int off)) (\<lambda>r s'. r = 0 \<longrightarrow> fds_are j pos (overlay off buf d) s') s"
proof -
  have j: "job_ok j" "file_helpers_ok e" using assms(1) by (auto simp: serves_def)
  obtain q where q: "at (j_wfd j) (j_dev j) q d s" using assms(2,3) by (auto simp: fds_are_def)
  have ok: "fds_are j pos (overlay off buf d) s2"
    if "frame {j_wfd j} {} s s1" "frame {j_wfd j} {j_dev j} s1 s2" "at (j_wfd j) (j_dev j) (off + length buf) (overlay off buf d) s2" for s1 s2 :: "'a world_scheme"
  proof -
    have "at (j_fd j) (j_path j) pos (j_c j) s2" "at (j_mapfd j) (j_tmp j) (length (j_m j)) (j_m j) s2"
      using assms(2) j(1) that(1,2) by (auto simp: fds_are_def job_ok_def at_def frame_def)
    moreover have "j_socket j \<noteq> -1 \<longrightarrow> fd_of s2 (j_socket j) = None"
      using assms(2) j(1) that(1,2) by (auto simp: fds_are_def job_ok_def frame_def)
    ultimately show ?thesis using that(3) by (auto simp: fds_are_def at_def)
  qed
  show ?thesis unfolding write_at_offset_def
  proof (rule wp_seq [OF wp_seek_frame [OF q]], rule wp_ifI, goal_cases)
    case (2 r s1)
    then have at1: "at (j_wfd j) (j_dev j) off d s1" "frame {j_wfd j} {} s s1" by auto
    show ?case by (rule wp_seq [OF helpersD(2) [OF j(2) at1(1)]]) (use ok at1(2) in auto)
  qed simp
qed

lemma window_step:
  assumes "job_ok j" "window_inv j h t w d" "h < t"
    and "d' = (if j_encrypted j then overlay (j_lay j h * j_blksize j) (w_buffers w ! w_head w) d else d)"
  shows "window_inv j (Suc h) t (w\<lparr>w_ranges := add_block_to_ranges (w_ranges w) (int (j_lay j h)),
    w_head := (w_head w + 1) mod WINDOW_SIZE, w_head_block := w_head_block w + 1\<rparr>) d'"
proof -
  note inv = assms(2) [unfolded window_inv_def]
  obtain rs where rs: "w_ranges w = flat rs" "ranges_ok rs" "range_list rs = map (j_lay j) [0..<h]" using inv by blast
  have "h < j_n j" using inv assms(3) by simp
  have dev: "stored j (if j_encrypted j then Suc h else j_n j) d'" "length d' = length d"
  proof (atomize (full), cases "j_encrypted j")
    case True
    then have hold: "buffers_hold j h t (w_buffers w)" "w_head w = h mod 5" using inv by blast+
    then have "w_buffers w ! (h mod 5) \<in> set (w_buffers w)" by (simp add: buffers_hold_def)
    then have "length (w_buffers w ! (h mod 5)) = j_blksize j"
      "take (length (job_block j h)) (w_buffers w ! (h mod 5)) = job_block j h" using hold(1) assms(3) unfolding buffers_hold_def by blast+
    then show "stored j (if j_encrypted j then Suc h else j_n j) d' \<and> length d' = length d"
      using True stored_overlay [OF assms(1) \<open>h < j_n j\<close>, of "w_buffers w ! (h mod 5)" d] inv assms(4) hold(2) by simp
  qed (use inv assms(4) in auto)
  have "\<exists>rs'. add_block_to_ranges (w_ranges w) (int (j_lay j h)) = flat rs' \<and> ranges_ok rs' \<and> range_list rs' = map (j_lay j) [0..<Suc h]"
    using extend_ranges_ok [OF rs(2)] rs by (intro exI [of _ "extend_ranges rs (j_lay j h)"]) (simp add: add_block_flat)
  moreover have "buffers_hold j (Suc h) t bs" if "buffers_hold j h t bs" for bs using that unfolding buffers_hold_def by auto
  ultimately show ?thesis using inv assms(3) dev by (simp add: window_inv_def WINDOW_SIZE_def mod_Suc_eq)
qed

lemma wp_ret_bind: "wp (f a) Q s \<Longrightarrow> wp (ret a \<bind> f) Q s"
  by simp

lemma wp_write_out_head:
  assumes "serves e j" "fds_are j pos d s" "window_inv j h t w d" "h < t"
  shows "wp (write_out_head e (j_encrypted j) (j_blksize j) (j_fd j) (j_wfd j) w) (\<lambda>r s'. case r of Inl err \<Rightarrow> err \<noteq> 0
    | Inr w' \<Rightarrow> \<exists>d'. fds_are j pos d' s' \<and> window_inv j (Suc h) t w' d' \<and> w_pos w' = w_pos w) s"
proof -
  have j: "job_ok j" "h < j_n j" "w_head_block w = int h" using assms by (auto simp: serves_def window_inv_def)
  let ?w = "w\<lparr>w_ranges := add_block_to_ranges (w_ranges w) (int (j_lay j h))\<rparr>"
  have wr: "wp (if j_encrypted j then write_at_offset e (w_buffers ?w ! w_head ?w) (j_wfd j) (int (j_blksize j) * int (j_lay j h)) else ret 0)
    (\<lambda>r s'. r = 0 \<longrightarrow> fds_are j pos (if j_encrypted j then overlay (j_lay j h * j_blksize j) (w_buffers w ! w_head w) d else d) s') s1"
    if "fds_are j pos d s1" for s1 :: "'a world_scheme"
    using wp_write_at_offset [OF assms(1) that, of _ "j_lay j h * j_blksize j"] that by (simp add: mult.commute)
  show ?thesis
    unfolding write_out_head_def j(3)
  proof (rule wp_seq [OF wp_fibmap [OF assms(1,2) j(2)]], rule wp_optionI, goal_cases)
    case (2 x s1 b)
    then have b: "b = int (j_lay j h)" "b \<noteq> 0" "fds_are j pos d s1" by auto
    show ?case
      unfolding Let_def if_not_P [OF b(2)]
    proof (rule wp_ret_bind, unfold prod.case b(1), rule wp_ifI, goal_cases)
      case 2
      show ?case
        by (rule wp_seq [OF wr [OF b(3)]])
          (use window_step [OF j(1) assms(3,4) refl] in \<open>auto simp: kUncryptWriteError_def\<close>)
    qed simp
  qed (simp add: kUncryptIoctlError_def)
qed


lemma block_count:
  assumes "job_ok j"
  shows "t < j_n j \<longleftrightarrow> t * j_blksize j < length (j_c j)"
proof (cases "j_c j = []")
  case False
  have b: "0 < j_blksize j" "j_n j = (length (j_c j) - 1) div j_blksize j + 1" using assms False by (auto simp: job_ok_def blocks_of_file_def)
  have "t < j_n j \<longleftrightarrow> t * j_blksize j \<le> length (j_c j) - 1"
    using b by (simp add: less_Suc_eq_le less_eq_div_iff_mult_less_eq)
  then show ?thesis using False by (cases "length (j_c j)") auto
qed (use assms in \<open>simp add: job_ok_def blocks_of_file_def\<close>)

lemma window_full:
  assumes "h \<le> t" "t \<le> h + 4"
  shows "(t mod 5 + 1) mod 5 = h mod 5 \<longleftrightarrow> t = h + (4 :: nat)"
proof -
  have "(t mod 5 + 1) mod 5 = h mod 5 \<longleftrightarrow> 5 dvd Suc t - h"
    using assms by (simp add: mod_Suc_eq mod_eq_dvd_iff_nat)
  also have "\<dots> \<longleftrightarrow> Suc t - h = 5" using assms by (auto dest: dvd_imp_le)
  finally show ?thesis using assms by auto
qed

lemma window_slots:
  assumes "h \<le> i" "i < t" "t \<le> h + (3 :: nat)"
  shows "i mod 5 \<noteq> t mod (5 :: nat)"
proof
  assume "i mod 5 = t mod 5"
  then have "5 dvd t - i" using assms mod_eq_dvd_iff_nat [of i t 5] by simp
  then show False using assms by (auto dest: dvd_imp_le)
qed

text \<open>One more block in the window.\<close>

lemma window_read:
  assumes "window_inv j h t w d" "t \<le> h + 3" "t < j_n j" "xs = job_block j t"
  shows "window_inv j h (Suc t) (w\<lparr>w_buffers := (w_buffers w)[w_tail w := xs @ drop (length xs) (w_buffers w ! w_tail w)],
      w_pos := p, w_tail := (w_tail w + 1) mod WINDOW_SIZE\<rparr>) d"
    and "\<not> j_encrypted j \<Longrightarrow> window_inv j h (Suc t) (w\<lparr>w_pos := p, w_tail := (w_tail w + 1) mod WINDOW_SIZE\<rparr>) d"
proof -
  note inv = assms(1) [unfolded window_inv_def]
  have "w_tail w = t mod 5" using inv by blast
  then have tail: "(w_tail w + 1) mod WINDOW_SIZE = Suc t mod 5" by (simp add: WINDOW_SIZE_def mod_Suc_eq)
  show "\<not> j_encrypted j \<Longrightarrow> window_inv j h (Suc t) (w\<lparr>w_pos := p, w_tail := (w_tail w + 1) mod WINDOW_SIZE\<rparr>) d"
    using inv assms(2,3) unfolding tail by (simp add: window_inv_def)
  let ?buf = "xs @ drop (length xs) (w_buffers w ! w_tail w)" and ?bs = "(w_buffers w)[w_tail w := xs @ drop (length xs) (w_buffers w ! w_tail w)]"
  have "buffers_hold j h (Suc t) ?bs" if "j_encrypted j"
  proof -
    have l: "length (w_buffers w) = 5" "\<forall>b \<in> set (w_buffers w). length b = j_blksize j" "w_tail w = t mod 5" using inv that unfolding buffers_hold_def by blast+
    then have "w_buffers w ! w_tail w \<in> set (w_buffers w)" by simp
    then have buf: "length ?buf = j_blksize j" using l assms(4) by (simp add: job_block_def nth_block_def)
    have blocks: "take (length (job_block j i)) (?bs ! (i mod 5)) = job_block j i" if i: "h \<le> i" "i < Suc t" for i
    proof (cases "i = t")
      case True
      then show ?thesis using l assms(4) by simp
    next
      case False
      then have "i < t" using i by simp
      then have "t mod 5 \<noteq> i mod 5" using i assms(2) window_slots [of h i t] by metis
      moreover have "take (length (job_block j i)) (w_buffers w ! (i mod 5)) = job_block j i"
        using inv \<open>j_encrypted j\<close> i(1) \<open>i < t\<close> unfolding buffers_hold_def by blast
      ultimately show ?thesis using l(3) by (simp only: nth_list_update_neq [OF \<open>t mod 5 \<noteq> i mod 5\<close>])
    qed
    have lens: "length b = j_blksize j" if "b \<in> set ?bs" for b
    proof -
      have "b = ?buf \<or> b \<in> set (w_buffers w)" using subsetD [OF set_update_subset_insert that] by simp
      then show ?thesis using l(2) buf by (elim disjE) (simp only:, blast)
    qed
    have "length ?bs = 5" using l(1) by (simp only: length_list_update)
    then show ?thesis unfolding buffers_hold_def
      by (intro conjI ballI allI impI) (assumption, erule lens, elim conjE, erule (1) blocks)
  qed
  then show "window_inv j h (Suc t) (w\<lparr>w_buffers := ?bs, w_pos := p, w_tail := (w_tail w + 1) mod WINDOW_SIZE\<rparr>) d"
    using inv assms(2,3) unfolding tail by (simp add: window_inv_def)
qed


lemma wp_status:
  assumes "serves e j" "fds_are j pos d s"
  shows "wp (write_status_to_socket e status (j_socket j)) (\<lambda>_ s'. fds_are j pos d s') s"
  unfolding write_status_to_socket_def
proof (rule wp_ifI, goal_cases)
  case 2
  then have "fd_of s (j_socket j) = None" using assms(2) by (simp add: fds_are_def)
  with assms(1) show ?case
    by (intro wp_mono [OF helpersD(3)]) (auto simp: serves_def intro: fds_are_frame [OF assms(2)])
qed (use assms in simp)

text \<open>Where the reading loop stands; the file is read to its end when \<open>t\<close> is the number of blocks.\<close>

definition reading :: "job \<Rightarrow> nat \<Rightarrow> win \<Rightarrow> nat \<Rightarrow> bool" where
  "reading j t w pos \<longleftrightarrow> w_pos w = (if j_encrypted j then min (t * j_blksize j) (length (j_c j)) else t * j_blksize j) \<and>
     (j_encrypted j \<longrightarrow> pos = w_pos w)"

lemma wp_read_block:
  assumes "serves e j" "fds_are j pos d s" "window_inv j h t w d" "t \<le> h + 3" "t < j_n j" "reading j t w pos"
  shows "wp (if j_encrypted j
      then do {
        let to_read = min (j_blksize j) (length (j_c j) - w_pos w);
        r \<leftarrow> me_ReadFully (ue_misc e) (j_fd j) to_read;
        ret (map_option (\<lambda>xs. w\<lparr>w_buffers := (w_buffers w)[w_tail w := xs @ drop to_read (w_buffers w ! w_tail w)], w_pos := w_pos w + to_read\<rparr>) r) }
      else ret (Some (w\<lparr>w_pos := w_pos w + j_blksize j\<rparr>)))
    (\<lambda>r s'. \<forall>w'. r = Some w' \<longrightarrow> (\<exists>pos'. fds_are j pos' d s' \<and> reading j (Suc t) w' pos' \<and>
      window_inv j h (Suc t) (w'\<lparr>w_tail := (w_tail w' + 1) mod WINDOW_SIZE\<rparr>) d \<and> w_pos w < w_pos w')) s"
proof (rule wp_ifI, goal_cases)
  case 1
  let ?n = "min (j_blksize j) (length (j_c j) - w_pos w)"
  have j: "job_ok j" "file_helpers_ok e" using assms(1) by (auto simp: serves_def)
  have lt: "t * j_blksize j < length (j_c j)" using block_count [OF j(1)] assms(5) by simp
  have p: "w_pos w = t * j_blksize j" "pos = w_pos w" using 1 assms(6) lt by (auto simp: reading_def)
  have n: "?n = length (job_block j t)" "take ?n (drop pos (j_c j)) = job_block j t" "0 < ?n"
    using lt j(1) p by (simp_all add: job_block_def nth_block_def job_ok_def min_def)
  have at: "at (j_fd j) (j_path j) pos (j_c j) s" using assms(2) by (simp add: fds_are_def)
  have sum: "w_pos w + ?n = min (Suc t * j_blksize j) (length (j_c j))" using lt p by auto
  show ?case
    unfolding Let_def
  proof (rule wp_seq [OF helpersD(1) [OF j(2)]], goal_cases)
    case (1 r s1)
    have "fds_are j (pos + ?n) d s1" "xs = job_block j t" if "r = Some xs" for xs
    proof -
      have "at (j_fd j) (j_path j) (pos + ?n) (j_c j) s1" "xs = job_block j t" using 1 at n(2) that by auto
      then show "fds_are j (pos + ?n) d s1" "xs = job_block j t"
        using assms(2) j(1) 1 by (auto simp: fds_are_def job_ok_def frame_def at_def)
    qed
    moreover have "reading j (Suc t) (w\<lparr>w_buffers := bs, w_pos := w_pos w + ?n\<rparr>) (pos + ?n)" for bs
      using \<open>j_encrypted j\<close> sum p by (simp add: reading_def)
    moreover have "window_inv j h (Suc t) (w\<lparr>w_buffers := (w_buffers w)[w_tail w := job_block j t @ drop ?n (w_buffers w ! w_tail w)],
        w_pos := w_pos w + ?n, w_tail := (w_tail w + 1) mod WINDOW_SIZE\<rparr>) d"
      using window_read(1) [OF assms(3-5) refl, of "w_pos w + ?n"] n(1) by simp
    ultimately show ?case using n(3) by (cases r) auto
  qed
next
  case 2
  have "0 < j_blksize j" using assms(1) by (auto simp: serves_def job_ok_def)
  with 2 window_read(2) [OF assms(3-5) refl 2, of "w_pos w + j_blksize j"] assms(2,6) show ?case by (auto simp: reading_def)
qed


definition loop_post :: "job \<Rightarrow> int + win \<Rightarrow> 'z world_scheme \<Rightarrow> bool" where
  "loop_post j r s \<longleftrightarrow> (case r of Inl err \<Rightarrow> err \<noteq> 0
     | Inr w \<Rightarrow> \<exists>h d pos. fds_are j pos d s \<and> window_inv j h (j_n j) w d)"

lemma wp_make_room:
  assumes "serves e j" "fds_are j pos d s" "window_inv j h t w d"
  shows "wp (if (w_tail w + 1) mod WINDOW_SIZE = w_head w then write_out_head e (j_encrypted j) (j_blksize j) (j_fd j) (j_wfd j) w else ret (Inr w))
    (\<lambda>r s'. case r of Inl err \<Rightarrow> err \<noteq> 0
      | Inr w' \<Rightarrow> \<exists>h' d'. fds_are j pos d' s' \<and> window_inv j h' t w' d' \<and> t \<le> h' + 3 \<and> w_pos w' = w_pos w) s"
proof -
  have w: "h \<le> t" "t \<le> h + 4" "w_tail w = t mod 5" "w_head w = h mod 5" using assms(3) unfolding window_inv_def by blast+
  have full: "(w_tail w + 1) mod WINDOW_SIZE = w_head w \<longleftrightarrow> t = h + 4" using window_full [OF w(1,2)] w(3,4) by (simp add: WINDOW_SIZE_def)
  show ?thesis
  proof (cases "t = h + 4")
    case True
    then have "h < t" by simp
    show ?thesis unfolding full if_P [OF True]
      by (rule wp_mono [OF wp_write_out_head [OF assms \<open>h < t\<close>]]) (use True in \<open>force split: sum.splits\<close>)
  next
    case False
    then have "t \<le> h + 3" using w(2) by simp
    then show ?thesis unfolding full if_not_P [OF False] using assms(2,3) by auto
  qed
qed

lemma reading_end:
  assumes "job_ok j" "reading j t w pos" "t \<le> j_n j"
  shows "w_pos w < length (j_c j) \<longleftrightarrow> t < j_n j"
  using block_count [OF assms(1), of t] assms(2) by (auto simp: reading_def split: if_splits)

lemma wp_read_window:
  assumes "serves e j" "fds_are j pos d s" "window_inv j h t w d" "reading j t w pos" "length (j_c j) < fuel + w_pos w"
  shows "wp (read_window fuel e (j_encrypted j) (length (j_c j)) (j_blksize j) (j_fd j) (j_wfd j) (j_socket j) w) (loop_post j) s"
  using assms(2-)
proof (induction fuel arbitrary: w s h t d pos)
  case 0
  have "t \<le> j_n j" using 0(2) unfolding window_inv_def by blast
  then have "t = j_n j" using 0 reading_end [of j t w pos] assms(1) by (auto simp: serves_def)
  then show ?case using 0(1,2) unfolding loop_post_def by auto
next
  case (Suc fuel)
  have j: "job_ok j" using assms(1) by (simp add: serves_def)
  have t: "t \<le> j_n j" using Suc.prems(2) unfolding window_inv_def by blast
  show ?case
  proof (cases "w_pos w < length (j_c j)")
    case False
    then have "t = j_n j" using reading_end [OF j Suc.prems(3) t] t by simp
    then show ?thesis using False Suc.prems(1,2) by (auto simp: loop_post_def)
  next
    case True
    then have "t < j_n j" using reading_end [OF j Suc.prems(3) t] by simp
    let ?p = "ue_percent e (w_pos w) (length (j_c j))"
    have st: "wp (if ?p > w_progress w then do { write_status_to_socket e ?p (j_socket j); ret (w\<lparr>w_progress := ?p\<rparr>) } else ret w)
        (\<lambda>w' s'. fds_are j pos d s' \<and> window_inv j h t w' d \<and> reading j t w' pos \<and> w_pos w' = w_pos w) s"
    proof (rule wp_ifI, goal_cases)
      case 1
      show ?case by (rule wp_seq [OF wp_status [OF assms(1) Suc.prems(1)]]) (use Suc.prems(2,3) in \<open>simp add: window_inv_def reading_def\<close>)
    qed (use Suc.prems in simp)
    show ?thesis
      unfolding read_window.simps Let_def
    proof (rule wp_ifI, use True in simp, rule wp_seq [OF st], elim conjE, goal_cases)
      case (1 w1 s1)
      show ?case
      proof (rule wp_seq [OF wp_make_room [OF assms(1) 1(2,3)]], goal_cases)
        case (1 out s2)
        show ?case
        proof (cases out)
          case (Inl err)
          then show ?thesis using 1 by (simp add: loop_post_def)
        next
          case (Inr w2)
          then obtain h' d' where hd: "fds_are j pos d' s2" "window_inv j h' t w2 d'" "t \<le> h' + 3" "w_pos w2 = w_pos w1" using 1 by auto
          have rd: "reading j t w2 pos" using \<open>reading j t w1 pos\<close> hd(4) by (simp add: reading_def)
          show ?thesis unfolding Inr sum.case
          proof (rule wp_seq [OF wp_read_block [OF assms(1) hd(1,2,3) \<open>t < j_n j\<close> rd, unfolded Let_def]], rule wp_optionI, goal_cases)
            case (2 x s3 w3)
            then obtain pos' where p: "fds_are j pos' d' s3" "reading j (Suc t) w3 pos'"
              "window_inv j h' (Suc t) (w3\<lparr>w_tail := (w_tail w3 + 1) mod WINDOW_SIZE\<rparr>) d'" "w_pos w2 < w_pos w3" by auto
            show ?case
              by (rule Suc.IH [OF p(1,3)]) (use p(2,4) hd(4) \<open>w_pos w1 = w_pos w\<close> Suc.prems(4) in \<open>simp_all add: reading_def\<close>)
          qed (simp add: loop_post_def kUncryptReadError_def)
        qed
      qed
    qed
  qed
qed


lemma wp_drain_window:
  assumes "serves e j" "fds_are j pos d s" "window_inv j h (j_n j) w d" "j_n j - h < fuel"
  shows "wp (drain_window fuel e (j_encrypted j) (j_blksize j) (j_fd j) (j_wfd j) w)
    (\<lambda>r s'. case r of Inl err \<Rightarrow> err \<noteq> 0 | Inr w' \<Rightarrow> \<exists>d'. fds_are j pos d' s' \<and> window_inv j (j_n j) (j_n j) w' d') s"
  using assms(2-)
proof (induction fuel arbitrary: w s h d)
  case (Suc fuel)
  have w: "h \<le> j_n j" "j_n j \<le> h + 4" "w_tail w = j_n j mod 5" "w_head w = h mod 5" using Suc.prems(2) unfolding window_inv_def by blast+
  have eq: "w_head w = w_tail w \<longleftrightarrow> h = j_n j"
  proof
    assume "w_head w = w_tail w"
    then have "5 dvd j_n j - h" using w mod_eq_dvd_iff_nat [of h "j_n j" 5] by simp
    then show "h = j_n j" using w(1,2) by (auto dest: dvd_imp_le)
  qed (use w in simp)
  show ?case
  proof (cases "h = j_n j")
    case True
    then show ?thesis unfolding drain_window.simps if_P [OF True [folded eq]] using Suc.prems(1,2) by auto
  next
    case False
    then have lt: "h < j_n j" using w(1) by simp
    show ?thesis unfolding drain_window.simps if_not_P [OF False [folded eq]]
    proof (rule wp_seq [OF wp_write_out_head [OF assms(1) Suc.prems(1,2) lt]], goal_cases)
      case (1 out s1)
      then show ?case
      proof (cases out)
        case (Inr w1)
        then obtain d1 where "fds_are j pos d1 s1" "window_inv j (Suc h) (j_n j) w1 d1" using 1 by auto
        then show ?thesis unfolding Inr sum.case using Suc.prems(3) lt by (intro Suc.IH) auto
      qed simp
    qed
  qed
qed simp

text \<open>The text of the map, appended to what is there.\<close>

lemma overlay_end: "overlay (length m) xs m = m @ xs"
  by (simp add: overlay_def)

lemma fds_are_map:
  assumes "fds_are j pos d s" "job_ok j" "frame {j_mapfd j} {j_tmp j} s s'"
    and "at (j_mapfd j) (j_tmp j) (length (j_m j) + length t) (overlay (length (j_m j)) (bytes_of t) (j_m j)) s'"
  shows "fds_are (j\<lparr>j_m := j_m j @ bytes_of t\<rparr>) pos d s'"
  using assms by (auto simp: fds_are_def job_ok_def frame_def at_def overlay_end bytes_of_def)

lemma wp_append:
  assumes "serves e j" "fds_are j pos d s"
  shows "wp (ue_WriteStringToFd e t (j_mapfd j)) (\<lambda>ok s'. ok \<longrightarrow> fds_are (j\<lparr>j_m := j_m j @ bytes_of t\<rparr>) pos d s') s"
proof -
  have j: "job_ok j" "file_helpers_ok e" "at (j_mapfd j) (j_tmp j) (length (j_m j)) (j_m j) s" using assms by (auto simp: serves_def fds_are_def)
  show ?thesis by (rule wp_mono [OF helpersD(4) [OF j(2,3)]]) (use fds_are_map [OF assms(2) j(1)] in blast)
qed

lemma serves_m [simp]: "serves e (j\<lparr>j_m := m\<rparr>) = serves e j"
  by (simp add: serves_def job_ok_def)

lemma int_to_string_nat [simp]: "int_to_string (int n) = to_string n"
  by (simp add: int_to_string_def)

lemma wp_write_ranges:
  assumes "serves e j" "fds_are j pos d s"
  shows "wp (write_ranges e (j_mapfd j) (flat rs)) (\<lambda>ok s'. ok \<longrightarrow>
    fds_are (j\<lparr>j_m := j_m j @ bytes_of (concat (map (\<lambda>r. range_line r @ [NL]) rs))\<rparr>) pos d s') s"
  using assms
proof (induction rs arbitrary: j s)
  case Nil
  then show ?case by (simp add: bytes_of_def)
next
  case (Cons r rs)
  obtain a b where r: "r = (a, b)" by fastforce
  let ?j = "j\<lparr>j_m := j_m j @ bytes_of (range_line r @ [NL])\<rparr>"
  show ?case
    unfolding r flat_simps write_ranges.simps int_to_string_nat
  proof (rule wp_seq [OF wp_append [OF Cons.prems]], rule wp_ifI, goal_cases)
    case (2 ok s1)
    then have "fds_are ?j pos d s1" by (simp add: r range_line_def)
    from Cons.IH [OF _ this] Cons.prems(1) show ?case by (simp add: r bytes_of_def)
  qed simp
qed


section \<open>The whole function\<close>

lemma wp_leave: "wp (leave fds x) (\<lambda>r s'. r = x) s"
  by (induction fds arbitrary: s) (auto simp: wp_const intro: wp_mono)

lemma wp_error: "x \<noteq> 0 \<Longrightarrow> wp (leave fds x) (\<lambda>r s'. r = 0 \<longrightarrow> P s') s"
  by (rule wp_mono [OF wp_leave]) simp

lemma keep_leave: "keep (\<lambda>s. file_of s q = x) (leave fds y)"
  by (induction fds) (auto intro!: keeps keep_on_file)

lemma keep_open_plain: "O_CREAT \<notin> set flags \<Longrightarrow> O_TRUNC \<notin> set flags \<Longrightarrow> keep (\<lambda>s. file_of s q = x) (sys_open p flags)"
  unfolding sys_open_def keep_def wp_bind alloc_fd_def
  by (auto intro!: wp_next_eventI split: io_event.split option.split simp: file_of_def set_fd_def)

lemma keep_fsync_file: "keep (\<lambda>s. file_of s q = x) (sys_fsync fd)"
  unfolding sys_fsync_def by (rule keep_on_file)

lemma wp_rename_file:
  assumes "file_of s p = Some m" "p \<noteq> q"
  shows "wp (sys_rename p q) (\<lambda>r s'. r \<noteq> -1 \<longrightarrow> file_of s' q = Some m \<and> (\<forall>f. f \<notin> {p, q} \<longrightarrow> file_of s' f = file_of s f)) s"
  using assms unfolding sys_rename_def sys_atomic_def wp_bind
  by (intro wp_next_eventI) (auto split: io_event.split simp: file_of_def set_file_def del_file_def update_conv' delete_conv')

lemma uncrypt_codes: "kUncryptFileRemoveError \<noteq> 0" "kUncryptFileOpenError \<noteq> 0" "kUncryptSocketWriteError \<noteq> 0" "kUncryptFileStatError \<noteq> 0"
  "kUncryptBlockOpenError \<noteq> 0" "kUncryptIoctlError \<noteq> 0" "kUncryptReadError \<noteq> 0" "kUncryptWriteError \<noteq> 0" "kUncryptFileSyncError \<noteq> 0"
  "kUncryptFileCloseError \<noteq> 0" "kUncryptFileRenameError \<noteq> 0"
  by (simp_all add: kUncryptFileRemoveError_def kUncryptFileOpenError_def kUncryptSocketWriteError_def kUncryptFileStatError_def
      kUncryptBlockOpenError_def kUncryptIoctlError_def kUncryptReadError_def kUncryptWriteError_def kUncryptFileSyncError_def
      kUncryptFileCloseError_def kUncryptFileRenameError_def)

lemma keep2: "(\<And>q x. keep (\<lambda>s. file_of s q = x) prog) \<Longrightarrow> keep (\<lambda>s. file_of s p = x \<and> file_of s q = y) prog"
  unfolding keep_def by (auto intro!: wp_conj)

lemma wp_commit_map:
  assumes "file_of s tmp = Some m" "file_of s dev = Some d" "tmp \<noteq> map_file" "dev \<noteq> tmp" "dev \<noteq> map_file"
  shows "wp (commit_map e tmp map_file encrypted mapfd fd wfd) (\<lambda>r s'. r = 0 \<longrightarrow> file_of s' map_file = Some m \<and> file_of s' dev = Some d) s"
proof -
  let ?I = "\<lambda>s. file_of s tmp = Some m \<and> file_of s dev = Some d"
  let ?J = "\<lambda>s. file_of s map_file = Some m \<and> file_of s dev = Some d"
  let ?post = "\<lambda>r s'. r = 0 \<longrightarrow> ?J s'"
  note k = keep2 [OF keep_fsync_file] keep2 [OF keep_on_file(1)] keep2 [OF keep_open_plain] keep2 [OF keep_leave]
  have fin: "wp (leave fds 0) ?post s'" if "?J s'" for fds and s' :: "'a world_scheme" using keep_wp [OF k(4) that] by (rule wp_mono) simp
  have stage: "wp (prog \<bind> (\<lambda>r. if r = -1 then leave fds err else f r)) ?post s'"
    if "keep K prog" "K s'" "err \<noteq> 0" "\<And>r s''. K s'' \<Longrightarrow> wp (f r) ?post s''"
    for K and prog :: "('a, int) io" and fds err f and s' :: "'a world_scheme"
    by (rule wp_seq [OF keep_wp [OF that(1,2)]]) (rule wp_ifI, rule wp_error [OF that(3)], rule that(4))
  have k_if: "keep ?I (if encrypted then prog else ret 0)" if "keep ?I prog" for prog :: "('a, int) io" using that by (simp add: keeps)
  have ren: "wp (sys_rename tmp map_file \<bind> (\<lambda>r. if r = -1 then leave [fd] kUncryptFileRenameError else f r)) ?post s'"
    if "?I s'" "\<And>r s''. ?J s'' \<Longrightarrow> wp (f r) ?post s''" for f and s' :: "'a world_scheme"
  proof (rule wp_seq [OF wp_rename_file [OF that(1) [THEN conjunct1] assms(3)]], rule wp_ifI, goal_cases)
    case (2 r s1)
    then show ?case using that assms(4,5) by auto
  qed (rule wp_error [OF uncrypt_codes(11)])
  show ?thesis
    unfolding commit_map_def Let_def
    by (rule stage, rule k(1), rule conjI [OF assms(1,2)], rule uncrypt_codes,
        rule stage, rule k(2), assumption, rule uncrypt_codes,
        rule stage, rule k_if, rule k(1), assumption, rule uncrypt_codes,
        rule stage, rule k_if, rule k(2), assumption, rule uncrypt_codes,
        rule ren, assumption,
        rule stage, rule k(3), simp, simp, assumption, rule uncrypt_codes,
        rule stage, rule k(1), assumption, rule uncrypt_codes,
        rule stage, rule k(2), assumption, rule uncrypt_codes, rule fin)
qed


lemma wp_open_frame:
  assumes "O_TRUNC \<notin> set flags" "file_of s p = Some c \<or> (file_of s p = None \<and> p \<notin> set (w_dirs s) \<and> O_CREAT \<in> set flags \<and> c = [])"
  shows "wp (sys_open p flags) (\<lambda>fd s'. fd \<noteq> -1 \<longrightarrow> fd = w_next_fd s \<and> at fd p 0 c s' \<and> (\<forall>g. g \<noteq> fd \<longrightarrow> fd_of s' g = fd_of s g) \<and>
    (\<forall>q. q \<noteq> p \<longrightarrow> file_of s' q = file_of s q) \<and> w_next_fd s' = w_next_fd s + 1) s"
  using assms unfolding sys_open_def wp_bind alloc_fd_def
  by (intro wp_next_eventI) (auto split: io_event.split option.split simp: at_def set_file_def file_of_def update_conv' set_fd_def fd_of_def)

lemma wp_stat_frame: "wp (sys_stat p) (\<lambda>r s'. frame {} {} s s' \<and> (\<forall>n. r = Some n \<and> file_of s p = Some c \<longrightarrow> n = length c)) s"
  unfolding sys_stat_def wp_bind
  by (intro wp_next_eventI) (auto split: io_event.split option.split simp: frame_refl)

text \<open>The state after the map file has been created and before the package is opened.\<close>

definition prepared :: "string \<Rightarrow> string \<Rightarrow> string \<Rightarrow> byte list \<Rightarrow> byte list \<Rightarrow> int \<Rightarrow> int \<Rightarrow> byte list \<Rightarrow> 'z world_scheme \<Rightarrow> bool" where
  "prepared path dev tmp c d socket mapfd m s \<longleftrightarrow> at mapfd tmp (length m) m s \<and> file_of s path = Some c \<and> file_of s dev = Some d \<and>
     0 \<le> mapfd \<and> mapfd < w_next_fd s \<and> (socket \<noteq> -1 \<longrightarrow> fd_of s socket = None \<and> socket < w_next_fd s \<and> socket \<noteq> mapfd)"

lemma prepared_frame: "prepared path dev tmp c d socket mapfd m s \<Longrightarrow> frame {} {} s s' \<Longrightarrow> prepared path dev tmp c d socket mapfd m s'"
  by (auto simp: prepared_def frame_def at_def)

text \<open>What the caller sees of the environment: paths that differ, a socket, and no left-over of an earlier run.\<close>

definition uncrypt_start :: "string \<Rightarrow> string \<Rightarrow> string \<Rightarrow> byte list \<Rightarrow> byte list \<Rightarrow> int \<Rightarrow> 'z world_scheme \<Rightarrow> bool" where
  "uncrypt_start path dev map_file c d socket s \<longleftrightarrow> file_of s path = Some c \<and> file_of s dev = Some d \<and>
     distinct [path, dev, map_file, map_file @ ''.tmp''] \<and> file_of s (map_file @ ''.tmp'') = None \<and> map_file @ ''.tmp'' \<notin> set (w_dirs s) \<and>
     0 \<le> w_next_fd s \<and> (socket \<noteq> -1 \<longrightarrow> fd_of s socket = None \<and> socket < w_next_fd s)"


lemma join_lines: "xs \<noteq> [] \<Longrightarrow> join_with c xs @ [c] = concat (map (\<lambda>l. l @ [c]) xs)"
  by (induction c xs rule: join_with.induct) auto

lemma map_text_concat: "map_text dev sz blksize rs = (dev @ [NL] @ to_string sz @ '' '' @ to_string blksize @ [NL]) @ (to_string (length rs) @ [NL]) @
    concat (map (\<lambda>r. range_line r @ [NL]) rs)"
  unfolding map_text_def by (subst join_lines) (simp_all add: map_lines_def comp_def)

lemma bytes_of_append [simp]: "bytes_of (xs @ ys) = bytes_of xs @ bytes_of ys"
  by (simp add: bytes_of_def)

text \<open>What a successful run leaves behind.\<close>

definition mapped :: "string \<Rightarrow> byte list \<Rightarrow> nat \<Rightarrow> (nat \<Rightarrow> nat) \<Rightarrow> string \<Rightarrow> 'z world_scheme \<Rightarrow> bool" where
  "mapped dev c blksize lay map_file s \<longleftrightarrow> (\<exists>rs d. file_of s map_file = Some (bytes_of (map_text dev (length c) blksize rs)) \<and>
     file_of s dev = Some d \<and> ranges_ok rs \<and> range_list rs = map lay [0..<blocks_of_file blksize c] \<and>
     laid_out lay blksize c (blocks_of_file blksize c) d)"

text \<open>The loops and the end of the function.\<close>

lemma wp_after_open:
  assumes j: "serves e j" and start: "fds_are j 0 d s" "j_m j = bytes_of (j_dev j @ [NL] @ to_string (length (j_c j)) @ '' '' @ to_string (j_blksize j) @ [NL])"
    and fit: "\<forall>i < j_n j. (j_lay j i + 1) * j_blksize j \<le> length d" "\<not> j_encrypted j \<Longrightarrow> stored j (j_n j) d"
    and names: "j_tmp j \<noteq> map_file" "j_dev j \<noteq> map_file"
  shows "wp (do {
     out \<leftarrow> read_window (Suc (length (j_c j))) e (j_encrypted j) (length (j_c j)) (j_blksize j) (j_fd j) (j_wfd j) (j_socket j)
       (first_window (j_encrypted j) (j_blksize j));
     case out of
       Inl error \<Rightarrow> leave fds error
     | Inr w \<Rightarrow> do {
     out \<leftarrow> drain_window WINDOW_SIZE e (j_encrypted j) (j_blksize j) (j_fd j) (j_wfd j) w;
     case out of
       Inl error \<Rightarrow> leave fds error
     | Inr w \<Rightarrow> do {
     ok \<leftarrow> ue_WriteStringToFd e (to_string (length (w_ranges w) div 2) @ [NL]) (j_mapfd j);
     if \<not> ok then leave fds kUncryptWriteError
     else do {
     ok \<leftarrow> write_ranges e (j_mapfd j) (w_ranges w);
     if \<not> ok then leave fds kUncryptWriteError
     else commit_map e (j_tmp j) map_file (j_encrypted j) (j_mapfd j) (j_fd j) (j_wfd j) }}}})
    (\<lambda>r s'. r = 0 \<longrightarrow> mapped (j_dev j) (j_c j) (j_blksize j) (j_lay j) map_file s') s"
proof -
  let ?w0 = "first_window (j_encrypted j) (j_blksize j)"
  have jok: "job_ok j" using j by (simp add: serves_def)
  have "window_inv j 0 0 ?w0 d"
    using fit jok by (auto simp: window_inv_def buffers_hold_def stored_def laid_out_def ranges_ok_def range_list_def WINDOW_SIZE_def first_window_def intro!: exI [of _ "[]"])
  moreover have "reading j 0 ?w0 0" by (simp add: reading_def first_window_def)
  ultimately have r: "wp (read_window (Suc (length (j_c j))) e (j_encrypted j) (length (j_c j)) (j_blksize j) (j_fd j) (j_wfd j) (j_socket j) ?w0) (loop_post j) s"
    by (intro wp_read_window [OF j start(1)]) (simp_all add: first_window_def)
  show ?thesis
  proof (rule wp_seq [OF r], goal_cases)
    case (1 out s1)
    show ?case
    proof (cases out)
      case (Inl err)
      then show ?thesis using 1 wp_error by (simp add: loop_post_def)
    next
      case (Inr w)
      then obtain h d1 pos where h: "fds_are j pos d1 s1" "window_inv j h (j_n j) w d1" using 1 by (auto simp: loop_post_def)
      then have "j_n j \<le> h + 4" unfolding window_inv_def by blast
      then have n: "j_n j - h < WINDOW_SIZE" by (simp add: WINDOW_SIZE_def)
      show ?thesis unfolding Inr sum.case
      proof (rule wp_seq [OF wp_drain_window [OF j h n]], goal_cases)
        case (1 out s2)
        show ?case
        proof (cases out)
          case (Inl err)
          then show ?thesis using 1 wp_error by simp
        next
          case (Inr w2)
          then obtain d2 where d2: "fds_are j pos d2 s2" "window_inv j (j_n j) (j_n j) w2 d2" using 1 by auto
          then obtain rs where rs: "w_ranges w2 = flat rs" "ranges_ok rs" "range_list rs = map (j_lay j) [0..<j_n j]" "stored j (j_n j) d2"
            unfolding window_inv_def by (auto split: if_splits)
          let ?j1 = "j\<lparr>j_m := j_m j @ bytes_of (to_string (length rs) @ [NL])\<rparr>"
          have m: "j_m ?j1 @ bytes_of (concat (map (\<lambda>r. range_line r @ [NL]) rs)) = bytes_of (map_text (j_dev j) (length (j_c j)) (j_blksize j) rs)"
            by (simp add: start(2) map_text_concat bytes_of_def)
          show ?thesis unfolding Inr sum.case rs(1) length_flat
          proof (rule wp_seq [OF wp_append [OF j d2(1)]], rule wp_ifI, rule wp_error [OF uncrypt_codes(8)], goal_cases)
            case (1 ok s3)
            then have f: "fds_are ?j1 pos d2 s3" "serves e ?j1" using j by auto
            have w: "wp (write_ranges e (j_mapfd j) (flat rs)) (\<lambda>ok s'. ok \<longrightarrow>
                fds_are (j\<lparr>j_m := bytes_of (map_text (j_dev j) (length (j_c j)) (j_blksize j) rs)\<rparr>) pos d2 s') s3"
              using wp_write_ranges [OF f(2,1), of rs] m by simp
            show ?case
            proof (rule wp_seq [OF w], rule wp_ifI, rule wp_error [OF uncrypt_codes(8)], goal_cases)
              case (1 ok s4)
              then have "file_of s4 (j_tmp j) = Some (bytes_of (map_text (j_dev j) (length (j_c j)) (j_blksize j) rs))" "file_of s4 (j_dev j) = Some d2"
                by (auto simp: fds_are_def at_def)
              note files = this
              have n: "j_n j = blocks_of_file (j_blksize j) (j_c j)" "j_dev j \<noteq> j_tmp j" using jok by (auto simp: job_ok_def)
              show ?case
                by (rule wp_mono [OF wp_commit_map [OF files names(1) n(2) names(2)]])
                  (use rs n(1) in \<open>auto simp: mapped_def stored_def\<close>)
            qed
          qed
        qed
      qed
    qed
  qed
qed


lemma prepared_open:
  assumes "prepared path dev tmp c d socket mapfd m s" "tmp \<notin> {path, dev}" "path \<noteq> dev"
  shows "wp (sys_open path [O_RDWR]) (\<lambda>fd s'. fd \<noteq> -1 \<longrightarrow> at fd path 0 c s' \<and> mapfd < fd \<and> fd < w_next_fd s' \<and> (socket \<noteq> -1 \<longrightarrow> socket < fd) \<and>
    prepared path dev tmp c d socket mapfd m s') s"
proof -
  have "file_of s path = Some c" using assms(1) by (simp add: prepared_def)
  then show ?thesis using assms
    by (intro wp_mono [OF wp_open_frame [of _ s path c]]) (auto simp: prepared_def at_def)
qed

lemma prepared_open_dev:
  assumes "prepared path dev tmp c d socket mapfd m s" "tmp \<notin> {path, dev}" "path \<noteq> dev" "at fd path 0 c s" "mapfd < fd" "fd < w_next_fd s"
    "socket \<noteq> -1 \<longrightarrow> socket < fd"
  shows "wp (sys_open dev [O_WRONLY]) (\<lambda>wfd s'. wfd \<noteq> -1 \<longrightarrow> at fd path 0 c s' \<and> at wfd dev 0 d s' \<and> fd < wfd \<and>
    prepared path dev tmp c d socket mapfd m s') s"
proof -
  have "file_of s dev = Some d" using assms(1) by (simp add: prepared_def)
  then show ?thesis using assms
    by (intro wp_mono [OF wp_open_frame [of _ s dev d]]) (auto simp: prepared_def at_def)
qed

lemma wp_prepared_status:
  assumes "file_helpers_ok e" "prepared path dev tmp c d socket mapfd m s"
  shows "wp (write_status_to_socket e st socket) (\<lambda>_ s'. prepared path dev tmp c d socket mapfd m s') s"
  unfolding write_status_to_socket_def
proof (rule wp_ifI, goal_cases)
  case 2
  then have "fd_of s socket = None" using assms(2) by (simp add: prepared_def)
  then show ?case by (intro wp_mono [OF helpersD(3) [OF assms(1)]] prepared_frame [OF assms(2)])
qed (use assms in simp)

lemma wp_prepared_text:
  assumes "file_helpers_ok e" "prepared path dev tmp c d socket mapfd m s" "tmp \<notin> {path, dev}"
  shows "wp (ue_WriteStringToFd e t mapfd) (\<lambda>ok s'. ok \<longrightarrow> prepared path dev tmp c d socket mapfd (m @ bytes_of t) s') s"
proof -
  have "at mapfd tmp (length m) m s" using assms(2) by (simp add: prepared_def)
  from helpersD(4) [OF assms(1) this] show ?thesis
    by (rule wp_mono) (use assms(2,3) in \<open>auto simp: prepared_def frame_def at_def overlay_end bytes_of_def\<close>)
qed

lemma wp_produce_block_map:
  assumes "file_helpers_ok e" "uncrypt_start path dev map_file c d socket s" "0 < ue_blksize e path"
    and "fibmap_ok e path lay (blocks_of_file (ue_blksize e path) c)" "inj_on lay {..<blocks_of_file (ue_blksize e path) c}"
    and "\<forall>i < blocks_of_file (ue_blksize e path) c. (lay i + 1) * ue_blksize e path \<le> length d"
    and "\<not> encrypted \<Longrightarrow> laid_out lay (ue_blksize e path) c (blocks_of_file (ue_blksize e path) c) d"
  shows "wp (produce_block_map e path map_file dev encrypted f2fs_fs socket) (\<lambda>r s'. r = 0 \<longrightarrow> mapped dev c (ue_blksize e path) lay map_file s') s"
    (is "wp _ ?post s")
proof -
  let ?tmp = "map_file @ ''.tmp''" and ?b = "ue_blksize e path"
  let ?head = "dev @ [NL] @ to_string (length c) @ '' '' @ to_string ?b @ [NL]"
  let ?prep = "prepared path dev ?tmp c d socket"
  have names: "?tmp \<notin> {path, dev}" "path \<noteq> dev" "dev \<noteq> map_file" "?tmp \<noteq> map_file" using assms(2) by (auto simp: uncrypt_start_def)
  let ?j = "\<lambda>fd wfd mapfd. \<lparr>j_path = path, j_dev = dev, j_tmp = ?tmp, j_fd = fd, j_wfd = wfd, j_mapfd = mapfd, j_socket = socket,
      j_encrypted = encrypted, j_c = c, j_blksize = ?b, j_lay = lay, j_n = blocks_of_file ?b c, j_m = bytes_of ?head\<rparr>"
  have loops: "wp (do {
     pinned \<leftarrow> (if f2fs_fs then ue_pin_file e fd else ret True);
     if \<not> pinned then leave fds kUncryptIoctlError
     else do {
     out \<leftarrow> read_window (Suc (length c)) e encrypted (length c) ?b fd wfd socket (first_window encrypted ?b);
     case out of
       Inl error \<Rightarrow> leave fds error
     | Inr w \<Rightarrow> do {
     out \<leftarrow> drain_window WINDOW_SIZE e encrypted ?b fd wfd w;
     case out of
       Inl error \<Rightarrow> leave fds error
     | Inr w \<Rightarrow> do {
     ok \<leftarrow> ue_WriteStringToFd e (to_string (length (w_ranges w) div 2) @ [NL]) mapfd;
     if \<not> ok then leave fds kUncryptWriteError
     else do {
     ok \<leftarrow> write_ranges e mapfd (w_ranges w);
     if \<not> ok then leave fds kUncryptWriteError
     else commit_map e ?tmp map_file encrypted mapfd fd wfd }}}}}) ?post s1"
    if p: "?prep mapfd (bytes_of ?head) s1" "at fd path 0 c s1" "mapfd < fd" "socket \<noteq> -1 \<longrightarrow> socket < fd"
      and wfd: "if encrypted then at wfd dev 0 d s1 \<and> fd < wfd else wfd = -1" for fd wfd mapfd fds and s1 :: "'a world_scheme"
  proof -
    have ok: "job_ok (?j fd wfd mapfd)" using p wfd names assms(3,5) by (auto simp: job_ok_def prepared_def split: if_splits)
    have fds: "fds_are (?j fd wfd mapfd) 0 d s2" if "frame {} {} s1 s2" for s2
      by (rule fds_are_frame [OF _ that]) (use p wfd in \<open>auto simp: fds_are_def prepared_def split: if_splits\<close>)
    have serves: "serves e (?j fd wfd mapfd)" using ok assms(1,4) by (simp add: serves_def)
    have pin: "wp (if f2fs_fs then ue_pin_file e fd else ret True) (\<lambda>_ s'. frame {} {} s1 s') s1"
      by (rule wp_ifI) (use helpersD(6) [OF assms(1)] frame_refl in auto)
    show ?thesis
    proof (rule wp_seq [OF pin], rule wp_ifI, rule wp_error [OF uncrypt_codes(6)], goal_cases)
      case (1 pinned s2)
      show ?case
        by (rule wp_after_open [OF serves fds [OF 1(1)], unfolded job.select_convs])
          (use assms(6,7) names in \<open>simp_all add: stored_def\<close>)
    qed
  qed
  have start: "wp (ue_RemoveFileIfExists e map_file) (\<lambda>_ s'. uncrypt_start path dev map_file c d socket s') s"
    by (rule wp_mono [OF helpersD(5) [OF assms(1)]]) (use assms(2) in \<open>auto simp: uncrypt_start_def frame_def\<close>)
  have create: "wp (sys_open ?tmp [O_WRONLY, O_CREAT]) (\<lambda>mapfd s'. mapfd \<noteq> -1 \<longrightarrow> ?prep mapfd [] s') s1"
    if "uncrypt_start path dev map_file c d socket s1" for s1 :: "'a world_scheme"
    by (rule wp_mono [OF wp_open_frame [of _ s1 ?tmp "[]"]]) (use that in \<open>auto simp: uncrypt_start_def prepared_def at_def\<close>)
  have stat: "wp (sys_stat path) (\<lambda>st s'. ?prep mapfd [] s' \<and> (\<forall>n. st = Some n \<longrightarrow> n = length c)) s1" if "?prep mapfd [] s1" for mapfd and s1 :: "'a world_scheme"
    by (rule wp_mono [OF wp_stat_frame [of path s1 c]]) (use that prepared_frame [OF that] in \<open>auto simp: prepared_def\<close>)
  show ?thesis
    unfolding produce_block_map_def
  proof (rule wp_seq [OF start], rule wp_ifI, use uncrypt_codes(1) in simp, unfold Let_def, rule wp_seq [OF create], assumption,
      rule wp_ifI, use uncrypt_codes(2) in simp, goal_cases)
    case (1 ok s1 mapfd s2)
    then have p2: "?prep mapfd [] s2" by simp
    show ?case
    proof (rule wp_seq [OF wp_prepared_status [OF assms(1) p2]], rule wp_ifI, rule wp_error [OF uncrypt_codes(3)],
        rule wp_seq [OF stat], assumption, rule wp_optionI, rule wp_error [OF uncrypt_codes(4)], goal_cases)
      case (1 ok' s3 st s4 n)
      then have n: "n = length c" and p4: "?prep mapfd [] s4" by auto
      have chk: "wp (CHECK (?b \<noteq> 0)) (\<lambda>_ s'. ?prep mapfd [] s') s4" using p4 assms(3) by (simp add: CHECK_def)
      show ?case unfolding n
      proof (rule wp_seq [OF chk], rule wp_seq [OF wp_prepared_text [OF assms(1) _ names(1)]], assumption,
          rule wp_ifI, rule wp_error [OF uncrypt_codes(8)], goal_cases)
        case (1 u s5 ok5 s6)
        then have p6: "?prep mapfd (bytes_of ?head) s6" by simp
        show ?case
        proof (rule wp_seq [OF prepared_open [OF p6 names(1,2)]], rule wp_ifI, rule wp_error [OF uncrypt_codes(2)], goal_cases)
          case (1 fd s7)
          then have p7: "?prep mapfd (bytes_of ?head) s7" "at fd path 0 c s7" "mapfd < fd" "fd < w_next_fd s7" "socket \<noteq> -1 \<longrightarrow> socket < fd" by auto
          have wfd: "wp (if encrypted then sys_open dev [O_WRONLY] else ret (-1)) (\<lambda>wfd s'. \<not> (encrypted \<and> wfd = -1) \<longrightarrow>
              ?prep mapfd (bytes_of ?head) s' \<and> at fd path 0 c s' \<and> (if encrypted then at wfd dev 0 d s' \<and> fd < wfd else wfd = -1)) s7"
            by (rule wp_ifI, rule wp_mono [OF prepared_open_dev [OF p7(1) names(1,2) p7(2-5)]]) (use p7 in auto)
          show ?case
            by (rule wp_seq [OF wfd], rule wp_ifI, rule wp_error [OF uncrypt_codes(5)], rule loops) (use p7 in auto)
        qed
      qed
    qed
  qed
qed


section \<open>Writing and reading a block map\<close>

lemma file_view_take:
  assumes "take (length fb) (drop off d) = fb" "length fb \<le> n"
  shows "take (length fb) (file_view d off n) = map Some fb"
proof (rule nth_equalityI)
  show "length (take (length fb) (file_view d off n)) = length (map Some fb)" using assms(2) by simp
  fix k assume "k < length (take (length fb) (file_view d off n))"
  then have k: "k < length fb" by simp
  have "length fb \<le> length d - off" using assms(1) by (metis length_drop length_take min.cobounded2 min.commute)
  moreover have "d ! (off + k) = fb ! k" using assms(1) k calculation by (metis add_leD1 le_add_diff_inverse2 length_drop nat_le_linear nth_drop nth_take diff_is_0_eq' le_zero_eq less_nat_zero_code)
  ultimately show "take (length fb) (file_view d off n) ! k = map Some fb ! k" using k assms(2) by (simp add: file_view_def)
qed

lemma length_block_view: "length (block_view d blksize bs) = length bs * blksize"
  by (induction bs) (simp_all add: block_view_def)

lemma block_view_file:
  assumes "laid_out lay blksize c n d" "0 < blksize" "h \<le> n" "n = blocks_of_file blksize c"
  shows "take (min (h * blksize) (length c)) (block_view d blksize (map lay [0..<h])) = map Some (take (h * blksize) c)"
  using assms(3)
proof (induction h)
  case (Suc h)
  let ?fb = "nth_block blksize c h"
  have "h < n" using Suc.prems by simp
  then have lt: "h * blksize < length c"
    using assms(2,4) less_eq_div_iff_mult_less_eq [of blksize h "length c - 1"]
    by (cases "length c") (auto simp: blocks_of_file_def less_Suc_eq_le split: if_splits)
  have fb: "take (length ?fb) (file_view d (lay h * blksize) blksize) = map Some ?fb"
    using assms(1) \<open>h < n\<close> by (intro file_view_take) (auto simp: laid_out_def nth_block_def)
  have len: "length ?fb = min blksize (length c - h * blksize)" by (simp add: nth_block_def)
  have B: "block_view d blksize (map lay [0..<Suc h]) = block_view d blksize (map lay [0..<h]) @ file_view d (lay h * blksize) blksize"
    by (simp add: block_view_def)
  have "take (min (Suc h * blksize) (length c)) (block_view d blksize (map lay [0..<Suc h])) =
      block_view d blksize (map lay [0..<h]) @ take (length ?fb) (file_view d (lay h * blksize) blksize)"
    unfolding B using lt len length_block_view [of d blksize "map lay [0..<h]"] by (auto simp: min_def)
  also have "block_view d blksize (map lay [0..<h]) = map Some (take (h * blksize) c)"
    using Suc.IH Suc.prems lt length_block_view [of d blksize "map lay [0..<h]"] by simp
  also have "map Some (take (h * blksize) c) @ take (length ?fb) (file_view d (lay h * blksize) blksize) = map Some (take (Suc h * blksize) c)"
    unfolding fb by (simp only: nth_block_def mult_Suc add.commute [of blksize] take_add map_append)
  finally show ?case .
qed (simp add: block_view_def)


lemma blocks_bound: "blocks_of_file blksize c * blksize \<le> length c + blksize"
proof -
  have "(length c - 1) div blksize * blksize \<le> length c" by (rule le_trans [OF div_times_less_eq_dividend]) simp
  then show ?thesis by (simp add: blocks_of_file_def)
qed

lemma length_ranges: "ranges_ok rs \<Longrightarrow> length rs \<le> length (range_list rs)"
  by (induction rs) (auto simp: ranges_ok_def range_list_def)

lemma block_map_round_trip_lemma:
  assumes env: "file_helpers_ok e" "split_ok (me_ab (ue_misc e))" "trim_ok (me_ab (ue_misc e))" "read_file_ok (me_ReadFileToString (ue_misc e))" "dev_name_ok dev"
    and start: "uncrypt_start path dev map_file c d socket s" "c \<noteq> []" "length d \<le> SIZE_MAX" "length c + ue_blksize e path + 3 \<le> SIZE_MAX"
    and lay: "0 < ue_blksize e path" "fibmap_ok e path lay (blocks_of_file (ue_blksize e path) c)" "inj_on lay {..<blocks_of_file (ue_blksize e path) c}"
      "\<forall>i < blocks_of_file (ue_blksize e path) c. (lay i + 1) * ue_blksize e path \<le> length d"
      "\<not> encrypted \<Longrightarrow> laid_out lay (ue_blksize e path) c (blocks_of_file (ue_blksize e path) c) d"
    and runs: "run_state (produce_block_map e path map_file dev encrypted f2fs_fs socket) s = (0, s1)"
      "run_state (MapBlockFile (me_ReadFileToString (ue_misc e)) (me_ab (ue_misc e)) map_file m) s1 = ((True, m'), s2)"
  shows "mm_length m' = length c \<and> take (length c) (mm_addr m') = map Some c"
proof -
  let ?b = "ue_blksize e path" and ?n = "blocks_of_file (ue_blksize e path) c"
  have "mapped dev c ?b lay map_file s1" using wp_runD [OF wp_produce_block_map [OF env(1) start(1) lay] runs(1)] by simp
  then obtain rs d' where r: "file_of s1 map_file = Some (bytes_of (map_text dev (length c) ?b rs))" "file_of s1 dev = Some d'"
    "ranges_ok rs" "range_list rs = map lay [0..<?n]" "laid_out lay ?b c ?n d'" unfolding mapped_def by blast
  have n: "length (range_list rs) = ?n" "?n = (length c - 1) div ?b + 1" using r(4) start(2) by (simp_all add: blocks_of_file_def)
  have lim: "?n * ?b \<le> length c + ?b" "?n \<le> ?n * ?b" using blocks_bound [of ?b c] lay(1) by simp_all
  have "rs \<noteq> []" using n by (auto simp: range_list_def)
  have top: "b * ?b \<le> SIZE_MAX" if "(a, b) \<in> set rs" for a b
  proof -
    have "a < b" using r(3) that by (auto simp: ranges_ok_def)
    then have "b - 1 \<in> set [a..<b]" by simp
    then have "b - 1 \<in> set (range_list rs)" using that unfolding range_list_def by force
    then obtain i where "i < ?n" "b - 1 = lay i" unfolding r(4) by auto
    then have "(b - 1 + 1) * ?b \<le> length d" using lay(4) by metis
    then show ?thesis using start(3) \<open>a < b\<close> by simp
  qed
  have len: "length (range_list rs) * ?b \<le> SIZE_MAX" "length rs + 3 \<le> SIZE_MAX"
    unfolding n(1) using lim start(4) length_ranges [OF r(3)] n(1) by linarith+
  have "wp (MapBlockFile (me_ReadFileToString (ue_misc e)) (me_ab (ue_misc e)) map_file m)
      (\<lambda>(ok, m') s'. ok \<longrightarrow> mm_addr m' = block_view d' ?b (range_list rs) \<and> mm_length m' = length c) s1"
  proof (rule wp_MapBlockFile [OF env(2-5) r(3) \<open>rs \<noteq> []\<close> _ lay(1) _ _ len _ r(2)])
    show "0 < length c" using start(2) by simp
    show "length (range_list rs) = (length c - 1) div ?b + 1" using n by simp
    show "\<forall>(a, b) \<in> set rs. b * ?b \<le> SIZE_MAX" using top by blast
    show "map_option text_of (file_of s1 map_file) = Some (map_text dev (length c) ?b rs)" using r(1) by simp
  qed
  from wp_runD [OF this runs(2)] have v: "mm_addr m' = block_view d' ?b (map lay [0..<?n])" "mm_length m' = length c" using r(4) by simp_all
  have "length c \<le> ?n * ?b" using dividend_less_div_times [OF lay(1), of "length c - 1"] start(2) by (simp add: blocks_of_file_def)
  then show ?thesis using block_view_file [OF r(5) lay(1) _ refl, of ?n] v by (simp add: min.absorb2)
qed


section \<open>A sample package\<close>

text \<open>A package of six blocks of one byte, in two runs of the device: the window wraps around.\<close>

definition sample_lay :: "nat \<Rightarrow> nat" where
  "sample_lay i = (if i < 2 then i + 3 else i + 5)"

definition sample_uncrypt :: "unit uncrypt_env" where
  "sample_uncrypt = \<lparr>ue_misc = sample_misc\<lparr>me_ReadFileToString := (\<lambda>f. gets (\<lambda>s. map_option text_of (file_of s f)))\<rparr>,
     ue_fstab = Some [\<lparr>fr_mount_point = Some ''/data'', fr_blk_device = ''/dev/data'', fr_fs_type = ''ext4'', fr_encryptable = True, fr_file_encrypted = False\<rparr>],
     ue_crypto_state = ''encrypted'', ue_realpath = Some, ue_blksize = (\<lambda>_. 1), ue_percent = (\<lambda>p n. int (100 * p div n)),
     ue_RemoveFileIfExists = (\<lambda>f. do { sys_unlink f; ret True }),
     ue_WriteStringToFd = (\<lambda>t fd. do { r \<leftarrow> sys_write fd (bytes_of t); ret (r = int (length t)) }),
     ue_WriteStringToFile = (\<lambda>t f. do { upd (set_file f (bytes_of t)); ret True }),
     ue_fibmap = (\<lambda>fd b. ret (Some (int (sample_lay (nat b))))), ue_pin_file = (\<lambda>_. ret True), ue_seconds = 0, ue_connect = ret (Inl 0)\<rparr>"

lemma frame_sys_read: "wp (sys_read fd n) (\<lambda>_ s'. frame {fd} {} s s') s"
  unfolding sys_read_def wp_bind
  by (auto simp: fail_def frame_refl Let_def split: io_event.split option.split intro!: wp_next_eventI)

lemma frame_sys_write: "at fd p pos c s \<Longrightarrow> wp (sys_write fd xs) (\<lambda>_ s'. frame {fd} {p} s s') s"
  unfolding sys_write_def wp_if wp_bind
  by (auto simp: fail_def frame_refl Let_def at_def frame_def fd_of_def file_of_def put_bytes_def set_file_def set_fd_def update_conv' split: io_event.split option.split intro!: wp_next_eventI)

lemma frame_sys_write_socket: "fd_of s fd = None \<Longrightarrow> wp (sys_write fd xs) (\<lambda>_ s'. frame {} {} s s') s"
  unfolding sys_write_def wp_if wp_bind
  by (auto simp: fail_def frame_refl split: io_event.split option.split intro!: wp_next_eventI)

lemma frame_sys_unlink: "wp (sys_unlink f) (\<lambda>_ s'. frame {} {f} s s') s"
  unfolding sys_unlink_def sys_atomic_def wp_bind
  by (auto simp: fail_def frame_refl frame_def del_file_def file_of_def fd_of_def delete_conv' split: io_event.split option.split if_splits intro!: wp_next_eventI)

lemma sample_helpers_ok: "file_helpers_ok sample_uncrypt"
proof -
  have misc: "me_ReadFully (ue_misc sample_uncrypt) = me_ReadFully sample_misc" "me_WriteFully (ue_misc sample_uncrypt) = me_WriteFully sample_misc"
    by (simp_all add: sample_uncrypt_def)
  have r: "wp (me_ReadFully sample_misc fd n) (\<lambda>r s'. frame {fd} {} s s' \<and>
        (\<forall>xs p pos c. r = Some xs \<and> at fd p pos c s \<longrightarrow> length xs = n \<and> xs = take n (drop pos c) \<and> at fd p (pos + n) c s')) s" for fd n and s :: "unit world_scheme"
  proof (cases "\<exists>p pos c. at fd p pos c s")
    case True
    then obtain p pos c where p: "at fd p pos c s" by blast
    then have same: "at fd p' pos' c' s \<longleftrightarrow> p' = p \<and> pos' = pos \<and> c' = c" for p' pos' c' by (auto simp: at_def)
    show ?thesis unfolding same
      by (simp add: sample_misc_def, rule wp_mono [OF wp_conj [OF frame_sys_read wp_sys_read [OF p]]])
        (auto simp: read_post_def read_some_def split: option.splits if_splits)
  next
    case False
    then show ?thesis by (simp add: sample_misc_def) (rule wp_mono [OF frame_sys_read], simp)
  qed
  have w: "wp (sys_write fd xs) (\<lambda>n s'. frame {fd} {p} s s' \<and> (n = int (length xs) \<longrightarrow> at fd p (pos + length xs) (overlay pos xs c) s')) s"
    if "at fd p pos c s" for fd xs p pos c and s :: "unit world_scheme"
    by (rule wp_mono [OF wp_conj [OF frame_sys_write [OF that] wp_sys_write_wrote [OF that]]]) (auto simp: wrote_def split: if_splits)
  show ?thesis
    unfolding file_helpers_ok_def misc
  proof (intro conjI allI impI, goal_cases)
    case (1 fd n s)
    show ?case by (rule r)
  next
    case (2 fd xs p pos c s)
    show ?case by (simp add: sample_misc_def) (rule w [OF 2])
  next
    case (3 fd xs s)
    show ?case by (simp add: sample_misc_def) (rule frame_sys_write_socket [OF 3])
  next
    case (4 t fd p pos c s)
    show ?case using w [OF 4, of "bytes_of t"] by (simp add: sample_uncrypt_def bytes_of_def)
  next
    case (5 f s)
    show ?case by (simp add: sample_uncrypt_def) (rule frame_sys_unlink)
  next
    case (6 fd s)
    show ?case by (simp add: sample_uncrypt_def frame_refl)
  qed
qed

lemma sample_fibmap_ok: "fibmap_ok sample_uncrypt path sample_lay n"
  by (simp add: fibmap_ok_def sample_uncrypt_def sample_lay_def frame_refl)

lemma sample_read_file_ok: "read_file_ok (me_ReadFileToString (ue_misc sample_uncrypt))"
  by (simp add: read_file_ok_def sample_uncrypt_def)

lemma dropWhile_all_append: "(\<forall>x \<in> set xs. P x) \<Longrightarrow> ys \<noteq> [] \<Longrightarrow> \<not> P (hd ys) \<Longrightarrow> dropWhile P (xs @ ys) = ys"
  by (induction xs) (auto simp: neq_Nil_conv)

lemma sample_trim_ok: "trim_ok sample_base"
proof -
  have "trim_spaces (t @ sp) = t" if "t \<noteq> []" "\<not> is_space (hd t)" "\<not> is_space (last t)" "\<forall>c \<in> set sp. is_space c" for t sp
  proof -
    have "dropWhile is_space (t @ sp) = t @ sp" using that by (cases t) auto
    moreover have "dropWhile is_space (rev sp @ rev t) = rev t" using that by (intro dropWhile_all_append) (auto simp: hd_rev)
    ultimately show ?thesis using that by (simp add: trim_spaces_def)
  qed
  then show ?thesis by (simp add: trim_ok_def sample_base_def)
qed

definition package_bytes :: "byte list" where "package_bytes = [1, 2, 3, 4, 5, 6]"

definition package_world :: "world" where
  "package_world = \<lparr>w_halted = False, w_files = [(''/data/p'', package_bytes), (''/dev/data'', replicate 12 0)], w_dev = [''/dev/data''],
     w_dirs = [''/cache''], w_fds = [], w_next_fd = 3, w_oracle = [], w_errno = 0, w_stdout = []\<rparr>"

lemma sample_start: "uncrypt_start ''/data/p'' ''/dev/data'' ''/cache/m'' package_bytes (replicate 12 0) (-1) package_world"
  by (simp add: uncrypt_start_def package_world_def file_of_def)

lemma sample_blocks: "blocks_of_file (ue_blksize sample_uncrypt p) package_bytes = 6" "ue_blksize sample_uncrypt p = 1"
  by (simp_all add: blocks_of_file_def sample_uncrypt_def package_bytes_def)

definition package_done :: "world" where
  "package_done = package_world\<lparr>w_files := [(''/data/p'', package_bytes), (''/dev/data'', [0, 0, 0, 1, 2, 0, 0, 3, 4, 5, 6, 0]),
     (''/cache/m'', bytes_of (map_text ''/dev/data'' 6 1 [(3, 5), (7, 11)]))], w_next_fd := 7, w_errno := ENOENT\<rparr>"

lemma sample_run: "run_state (produce_block_map sample_uncrypt ''/data/p'' ''/cache/m'' ''/dev/data'' True False (-1)) package_world = (0, package_done)"
  by code_simp

definition fresh_mapping :: mem_mapping where
  "fresh_mapping = \<lparr>mm_addr = [], mm_length = 0, mm_ranges = []\<rparr>"

lemma sample_lines: "ab_split sample_base (ab_trim sample_base (map_text ''/dev/data'' 6 1 [(3, 5), (7, 11)])) [NL] =
    [''/dev/data'', range_line (6, 1), to_string 2, range_line (3, 5), range_line (7, 11)]"
proof -
  have "dev_name_ok ''/dev/data''" by (simp add: dev_name_ok_def is_space_def NL_def NUL_def)
  from map_text_lines [OF sample_split_ok sample_trim_ok this, of "[(3, 5), (7, 11)]" 6 1] show ?thesis by (simp add: map_lines_def range_line_def numeral_2_eq_2)
qed

lemma sample_scan: "sscanf2 (range_line (6, 1)) = Some (6, 1)" "sscanf1 (to_string 2) = Some 2"
  "sscanf2 (range_line (3, 5)) = Some (3, 5)" "sscanf2 (range_line (7, 11)) = Some (7, 11)"
proof -
  have "n \<le> SIZE_MAX" if "n \<le> 11" for n using that by (simp add: SIZE_MAX_def)
  then show "sscanf2 (range_line (6, 1)) = Some (6, 1)" "sscanf1 (to_string 2) = Some 2"
    "sscanf2 (range_line (3, 5)) = Some (3, 5)" "sscanf2 (range_line (7, 11)) = Some (7, 11)"
    by (simp_all add: sscanf_numbers range_line_def del: append.simps)
qed

lemma sample_uncrypt_env: "me_ab (ue_misc sample_uncrypt) = sample_base"
    "me_ReadFileToString (ue_misc sample_uncrypt) = (\<lambda>f. gets (\<lambda>s. map_option text_of (file_of s f)))"
  by (simp_all add: sample_uncrypt_def sample_misc_def)

lemma sample_map: "fst (fst (run_state (MapBlockFile (me_ReadFileToString (ue_misc sample_uncrypt)) (me_ab (ue_misc sample_uncrypt)) ''/cache/m'' fresh_mapping) package_done))"
proof -
  have cont: "file_of package_done ''/cache/m'' = Some (bytes_of (map_text ''/dev/data'' 6 1 [(3, 5), (7, 11)]))"
    by (simp add: package_done_def file_of_def)
  have name: "cstr ''/dev/data'' = ''/dev/data''" by (simp add: cstr_def NUL_def)
  have sizes: "size_sub 6 1 = 5" "size_add 5 1 = 6" "size_add 3 2 = 5" "size_mul 6 1 = 6" "size_sub 5 3 = 2" "size_sub 11 7 = 4" "size_mul 2 1 = 2" "size_mul 4 1 = 4"
    "size_mul 3 1 = 3" "size_mul 7 1 = 7" "\<not> SIZE_MAX < 6" "\<not> SIZE_MAX < 2" "\<not> SIZE_MAX < 4"
    by (simp_all add: size_sub_def size_add_def size_mul_def SIZE_MAX_def)
  show ?thesis
    unfolding MapBlockFile_def sample_uncrypt_env run_statements(2) run_gets cont prod.case option.case option.map text_of_bytes_of Let_def sample_lines
    by (simp add: package_done_def package_world_def with_fd_def run_eval file_of_def fd_of_def set_fd_def sys_mmap_def fresh_mapping_def sizes name sample_scan
        del: One_nat_def cong: bind_weak_cong let_weak_cong)
qed

text \<open>
  C34.  A package that uncrypt has prepared is the package that recovery reads: when \<^verbatim>\<open>produce_block_map\<close>
  returns 0 for a package with contents \<open>c\<close>, whatever errors the calls before had, and \<^verbatim>\<open>MapBlockFile\<close> of the map
  it wrote succeeds, then the mapped memory begins with exactly the bytes \<open>c\<close> and has the length of
  the package.  On an encrypted file system this includes that every block has been written in the
  clear to its place, through the window of five buffers; otherwise the blocks are already there.
  The blocks of the file are all allocated, no two at the same place, and the temporary map file
  does not exist before.
\<close>

theorem block_map_round_trip:
  assumes "file_helpers_ok e" "split_ok (me_ab (ue_misc e))" "trim_ok (me_ab (ue_misc e))" "read_file_ok (me_ReadFileToString (ue_misc e))" "dev_name_ok dev"
    and "uncrypt_start path dev map_file c d socket s" "c \<noteq> []" "length d \<le> SIZE_MAX" "length c + ue_blksize e path + 3 \<le> SIZE_MAX"
    and "0 < ue_blksize e path" "fibmap_ok e path lay (blocks_of_file (ue_blksize e path) c)" "inj_on lay {..<blocks_of_file (ue_blksize e path) c}"
      "\<forall>i < blocks_of_file (ue_blksize e path) c. (lay i + 1) * ue_blksize e path \<le> length d"
      "\<not> encrypted \<Longrightarrow> laid_out lay (ue_blksize e path) c (blocks_of_file (ue_blksize e path) c) d"
    and "run_state (produce_block_map e path map_file dev encrypted f2fs_fs socket) s = (0, s1)"
      "run_state (MapBlockFile (me_ReadFileToString (ue_misc e)) (me_ab (ue_misc e)) map_file m) s1 = ((True, m'), s2)"
  shows "mm_length m' = length c \<and> take (length c) (mm_addr m') = map Some c"
  by (rule block_map_round_trip_lemma [OF assms])

theorem block_map_round_trip_witness:
  "\<exists>m' s2. run_state (produce_block_map sample_uncrypt ''/data/p'' ''/cache/m'' ''/dev/data'' True False (-1)) package_world = (0, package_done) \<and>
     run_state (MapBlockFile (me_ReadFileToString (ue_misc sample_uncrypt)) (me_ab (ue_misc sample_uncrypt)) ''/cache/m'' fresh_mapping) package_done =
       ((True, m'), s2) \<and>
     mm_length m' = 6 \<and> take 6 (mm_addr m') = map Some package_bytes"
proof -
  obtain m' s2 where map: "run_state (MapBlockFile (me_ReadFileToString (ue_misc sample_uncrypt)) (me_ab (ue_misc sample_uncrypt)) ''/cache/m'' fresh_mapping)
      package_done = ((True, m'), s2)"
    using sample_map by (metis prod.collapse)
  have lens: "length package_bytes = 6" "package_bytes \<noteq> []" by (simp_all add: package_bytes_def)
  have "mm_length m' = length package_bytes \<and> take (length package_bytes) (mm_addr m') = map Some package_bytes"
  proof (rule block_map_round_trip [OF sample_helpers_ok _ _ sample_read_file_ok _ sample_start lens(2) _ _ _ sample_fibmap_ok _ _ _ sample_run map])
    show "split_ok (me_ab (ue_misc sample_uncrypt))" "trim_ok (me_ab (ue_misc sample_uncrypt))"
      unfolding sample_uncrypt_env by (rule sample_split_ok sample_trim_ok)+
    show "dev_name_ok ''/dev/data''" by (simp add: dev_name_ok_def is_space_def NL_def NUL_def)
    show "inj_on sample_lay {..<blocks_of_file (ue_blksize sample_uncrypt ''/data/p'') package_bytes}"
      by (auto simp: inj_on_def sample_lay_def split: if_splits)
  qed (auto simp: sample_blocks(2) sample_blocks(1) [unfolded sample_blocks(2)] sample_lay_def SIZE_MAX_def lens simp del: One_nat_def)
  then show ?thesis using sample_run map lens by auto
qed

text \<open>
  C35.  The retry of a block that is not allocated yet asks for the wrong block: \<^verbatim>\<open>retry_fibmap\<close> passes
  the variable in which \<^verbatim>\<open>FIBMAP\<close> has just stored 0, so every retry asks where block 0 of the file is.
  Whatever the head block is, the place of block 0 goes into the ranges as its place, and no error
  is reported.
\<close>

theorem retry_maps_first_block:
  assumes "ue_fibmap e fd (w_head_block w) = ret (Some 0)" "ue_fibmap e fd 0 = ret (Some b)" "b \<noteq> 0" "\<not> w_halted s" "w_oracle s = []"
  shows "run_state (write_out_head e False blksize fd wfd w) s =
    (Inr (w\<lparr>w_ranges := add_block_to_ranges (w_ranges w) b, w_head := (w_head w + 1) mod WINDOW_SIZE, w_head_block := w_head_block w + 1\<rparr>), s)"
  using assms
  by (simp add: write_out_head_def retry_fibmap_def FIBMAP_RETRY_LIMIT_def eval_nat_numeral run_eval cong: bind_weak_cong let_weak_cong)

theorem retry_maps_first_block_witness:
  "run_state (write_out_head (sample_uncrypt\<lparr>ue_fibmap := (\<lambda>_ i. ret (Some (if i = 0 then 9 else 0)))\<rparr>) False 1 3 (-1)
       ((first_window False 1)\<lparr>w_ranges := [9, 10], w_head := 1, w_head_block := 1\<rparr>)) package_world =
    (Inr ((first_window False 1)\<lparr>w_ranges := [9, 10, 9, 10], w_head := 2, w_head_block := 2\<rparr>), package_world)"
  using retry_maps_first_block [of "sample_uncrypt\<lparr>ue_fibmap := (\<lambda>_ i. ret (Some (if i = 0 then 9 else 0)))\<rparr>" 3
      "(first_window False 1)\<lparr>w_ranges := [9, 10], w_head := 1, w_head_block := 1\<rparr>" 9 package_world 1 "-1"]
  by (simp add: package_world_def add_block_to_ranges_def first_window_def WINDOW_SIZE_def)

end
