(* ===== verification/Install_Fns.thy ===== *)
theory Install_Fns
  imports Block_Img Block_Map
begin

text \<open>
  The functions that the updater offers to scripts (\<^verbatim>\<open>updater/install.cpp\<close>), with the helpers they use:
  directories (\<^verbatim>\<open>otautil/DirUtil.cpp\<close>), extraction of a tree (\<^verbatim>\<open>otautil/ZipUtil.cpp\<close>) and the mount table
  (\<^verbatim>\<open>mounts.cpp\<close>).

  The state has what the block functions need and, beyond that, the text sent through the command
  pipe, symbolic links, the attributes of files, the properties and the mounts.  Paths are
  compared as strings, a link is followed where it is the last component, and creating an entry
  does not look for its parent.

  Parameters: the zip library, \<^verbatim>\<open>blkid\<close>, the order in which \<^verbatim>\<open>nftw\<close> walks a tree, child processes, \<^verbatim>\<open>tune2fs\<close>,
  \<^verbatim>\<open>wipe_block_device\<close>, and the conversion of floating-point numbers.  SELinux contexts of new files,
  the times of files, logging and pauses are left out.
\<close>

section \<open>State\<close>

text \<open>\<^verbatim>\<open>uid_t\<close>, \<^verbatim>\<open>gid_t\<close> and \<^verbatim>\<open>mode_t\<close> have 32 bits.\<close>

record attrs =
  at_uid :: "32 word"
  at_gid :: "32 word"
  at_mode :: "32 word"
  at_selabel :: string
  at_caps :: "64 word option"

record MountedVolume =
  mv_device :: string
  mv_mount_point :: string
  mv_filesystem :: string
  mv_flags :: string

text \<open>\<open>u_mounts\<close> is what \<^verbatim>\<open>/proc/mounts\<close> shows; \<open>max_warnings\<close> is the static variable of \<^verbatim>\<open>ParsePermArgs\<close>.\<close>

record updater_world = block_world +
  cmd_pipe :: string
  u_links :: "(string \<times> string) list"
  u_attrs :: "string \<Rightarrow> attrs"
  u_props :: "(string \<times> string) list"
  u_mounts :: "MountedVolume list"
  g_mounts_state :: "MountedVolume list"
  max_warnings :: nat

type_synonym ('z, 'a) uw = "('z updater_world_scheme, 'a) state"

type_synonym 'z UpdaterFn = "string \<Rightarrow> 'z updater_world_scheme arg list \<Rightarrow> ('z, Value option) uw"

text \<open>An archive: its entries in the order of iteration, and the two ways to extract one; the result of an extraction is 0 or an error.\<close>

record 'z zip_handle =
  zh_entries :: "string list"
  zh_start :: int
  zh_memory :: "string \<Rightarrow> int + byte list"
  zh_file :: "string \<Rightarrow> int \<Rightarrow> ('z, int) uw"
  zh_length :: "string \<Rightarrow> nat"
  zh_error :: "int \<Rightarrow> string"

record 'z install_env =
  ie_block :: "'z updater_world_ext block_env"
  ie_misc :: "'z updater_world_ext block_world_ext patch_world_ext edify_state_ext ota_world_ext misc_env"
  ie_zip :: "'z zip_handle"
  ie_blkid :: "string \<Rightarrow> string option"
  ie_walk :: "string \<Rightarrow> 'z updater_world_scheme \<Rightarrow> string list option"
  ie_exec :: "string \<Rightarrow> string list \<Rightarrow> ('z, int) uw"
  ie_run :: "string list \<Rightarrow> ('z, int) uw"
  ie_tune2fs :: "string list \<Rightarrow> ('z, int) uw"
  ie_wipe_block_device :: "int \<Rightarrow> nat \<Rightarrow> ('z, int) uw"
  ie_WriteStringToFile :: "string \<Rightarrow> string \<Rightarrow> ('z, bool) uw"
  ie_ParseDouble :: "string \<Rightarrow> string option"  \<comment> \<open>the text of the number in the format \<^verbatim>\<open>%f\<close>\<close>

abbreviation ie_ab :: "'z install_env \<Rightarrow> android_base" where
  "ie_ab e \<equiv> be_ab (ie_block e)"

abbreviation ie_env :: "'z install_env \<Rightarrow> 'z updater_world_ext block_world_ext env" where
  "ie_env e \<equiv> be_env (ie_block e)"

definition errno_text :: "'z install_env \<Rightarrow> ('z, string) uw" where
  "errno_text e = do { n \<leftarrow> gets w_errno; ret (be_strerror (ie_block e) n) }"

section \<open>Paths\<close>

definition EBUSY :: int where "EBUSY = 16"
definition EISDIR :: int where "EISDIR = 21"
definition ENOTEMPTY :: int where "ENOTEMPTY = 39"
definition ELOOP :: int where "ELOOP = 40"
definition ENODATA :: int where "ENODATA = 61"

datatype kind = S_IFREG | S_IFDIR | S_IFLNK | S_IFBLK

text \<open>A directory may be named with slashes at the end; the root is one.\<close>

definition strip_slashes :: "string \<Rightarrow> string" where
  "strip_slashes p = rev (dropWhile (\<lambda>c. c = CHR ''/'') (rev p))"

definition names_dir :: "'z world_scheme \<Rightarrow> string \<Rightarrow> bool" where
  "names_dir s p \<longleftrightarrow> p \<noteq> [] \<and> (strip_slashes p = [] \<or> strip_slashes p \<in> set (w_dirs s))"

definition lkind :: "'z updater_world_scheme \<Rightarrow> string \<Rightarrow> kind option" where
  "lkind s p =
     (if map_of (u_links s) p \<noteq> None then Some S_IFLNK
      else if names_dir s p then Some S_IFDIR
      else case file_of s p of
        None \<Rightarrow> None
      | Some _ \<Rightarrow> Some (if p \<in> set (w_dev s) then S_IFBLK else S_IFREG))"

fun follow :: "nat \<Rightarrow> (string \<times> string) list \<Rightarrow> string \<Rightarrow> string option" where
  "follow 0 links p = None"
| "follow (Suc n) links p =
     (case map_of links p of
        None \<Rightarrow> Some p
      | Some t \<Rightarrow> follow n links (if starts_with ''/'' t then t else dir_part p @ t))"

text \<open>The kernel follows at most 40 links.\<close>

definition fkind :: "'z updater_world_scheme \<Rightarrow> string \<Rightarrow> kind option" where
  "fkind s p = (case follow 41 (u_links s) p of None \<Rightarrow> None | Some q \<Rightarrow> lkind s q)"

section \<open>System calls\<close>

definition sys_kind :: "('z updater_world_scheme \<Rightarrow> kind option) \<Rightarrow> ('z updater_world_scheme \<Rightarrow> int) \<Rightarrow> ('z, kind option) uw" where
  "sys_kind look err = do {
     ev \<leftarrow> next_event;
     k \<leftarrow> gets look;
     er' \<leftarrow> gets err;
     case ev of
       IoErr er _ \<Rightarrow> do { fail er; ret None }
     | IoHalt _ \<Rightarrow> do { halt; ret None }
     | _ \<Rightarrow> if k = None then do { fail er'; ret None } else ret k }"

definition u_stat :: "string \<Rightarrow> ('z, kind option) uw" where
  "u_stat p = sys_kind (\<lambda>s. fkind s p) (\<lambda>s. if follow 41 (u_links s) p = None then ELOOP else ENOENT)"

definition u_lstat :: "string \<Rightarrow> ('z, kind option) uw" where
  "u_lstat p = sys_kind (\<lambda>s. lkind s p) (\<lambda>_. ENOENT)"

text \<open>\<^verbatim>\<open>access(path, F_OK)\<close>\<close>

definition u_access :: "string \<Rightarrow> ('z, int) uw" where
  "u_access p = do { k \<leftarrow> u_stat p; ret (if k = None then -1 else 0) }"

definition u_mkdir :: "string \<Rightarrow> ('z, int) uw" where
  "u_mkdir p =
     sys_atomic (\<lambda>s. if lkind s p \<noteq> None then Some EEXIST else None) (\<lambda>s. s\<lparr>w_dirs := strip_slashes p # w_dirs s\<rparr>)"

definition remove_entry :: "string \<Rightarrow> 'z updater_world_scheme \<Rightarrow> 'z updater_world_scheme" where
  "remove_entry p s = (if map_of (u_links s) p \<noteq> None then s\<lparr>u_links := AList.delete p (u_links s)\<rparr> else del_file p s)"

definition u_unlink :: "string \<Rightarrow> ('z, int) uw" where
  "u_unlink p =
     sys_atomic (\<lambda>s. case lkind s p of None \<Rightarrow> Some ENOENT | Some k \<Rightarrow> if k = S_IFDIR then Some EISDIR else None) (remove_entry p)"

definition u_symlink :: "string \<Rightarrow> string \<Rightarrow> ('z, int) uw" where
  "u_symlink target p =
     sys_atomic (\<lambda>s. if lkind s p \<noteq> None then Some EEXIST else None) (\<lambda>s. s\<lparr>u_links := (p, target) # u_links s\<rparr>)"

text \<open>The names of everything directly inside a directory.\<close>

definition dir_names :: "string \<Rightarrow> 'z updater_world_scheme \<Rightarrow> string list" where
  "dir_names d s = remdups (names_in (strip_slashes d) (map fst (w_files s) @ w_dirs s @ map fst (u_links s)))"

definition u_opendir :: "string \<Rightarrow> ('z, string list option) uw" where
  "u_opendir d = do {
     ev \<leftarrow> next_event;
     ok \<leftarrow> gets (\<lambda>s. fkind s d = Some S_IFDIR);
     names \<leftarrow> gets (dir_names d);
     case ev of
       IoErr er _ \<Rightarrow> do { fail er; ret None }
     | IoHalt _ \<Rightarrow> do { halt; ret None }
     | _ \<Rightarrow> if ok then ret (Some names) else do { fail ENOENT; ret None } }"

definition u_rmdir :: "string \<Rightarrow> ('z, int) uw" where
  "u_rmdir d =
     sys_atomic (\<lambda>s. if lkind s d \<noteq> Some S_IFDIR then Some ENOENT else if strip_slashes d = [] then Some EBUSY
         else if dir_names d s \<noteq> [] then Some ENOTEMPTY else None)
       (\<lambda>s. s\<lparr>w_dirs := removeAll (strip_slashes d) (w_dirs s)\<rparr>)"

text \<open>\<^verbatim>\<open>rename\<close>: a file or link replaces what has the new name; a directory moves with all that is in it.\<close>

definition moved :: "string \<Rightarrow> string \<Rightarrow> string \<Rightarrow> string" where
  "moved p q x = (if x = p \<or> starts_with (p @ ''/'') x then q @ drop (length p) x else x)"

definition move_entry :: "string \<Rightarrow> string \<Rightarrow> 'z updater_world_scheme \<Rightarrow> 'z updater_world_scheme" where
  "move_entry p q s =
     (if p = q then s
      else case (map_of (u_links s) p, file_of s p) of
        (Some t, _) \<Rightarrow> (remove_entry q (remove_entry p s))\<lparr>u_links := (q, t) # AList.delete q (AList.delete p (u_links s))\<rparr>
      | (None, Some c) \<Rightarrow> set_file q c (remove_entry q (remove_entry p s))
      | (None, None) \<Rightarrow>
          let p' = strip_slashes p; q' = strip_slashes q
          in if p' = q' then s
             else s\<lparr>w_files := map (\<lambda>(x, c). (moved p' q' x, c)) (w_files s), w_dirs := map (moved p' q') (removeAll q' (w_dirs s)),
               u_links := map (\<lambda>(x, t). (moved p' q' x, t)) (u_links s)\<rparr>)"

definition rename_error :: "string \<Rightarrow> string \<Rightarrow> 'z updater_world_scheme \<Rightarrow> int option" where
  "rename_error p q s =
     (case lkind s p of
        None \<Rightarrow> Some ENOENT
      | Some k \<Rightarrow>
          if p = q \<or> k = S_IFDIR \<and> strip_slashes p = strip_slashes q then None
          else if k = S_IFDIR
          then (if strip_slashes p = [] then Some EBUSY
                else if starts_with (strip_slashes p @ ''/'') q then Some EINVAL
                else case lkind s q of
                  None \<Rightarrow> None
                | Some k' \<Rightarrow> if k' \<noteq> S_IFDIR then Some ENOTDIR else if dir_names q s \<noteq> [] then Some ENOTEMPTY else None)
          else if lkind s q = Some S_IFDIR then Some EISDIR else None)"

definition u_rename :: "string \<Rightarrow> string \<Rightarrow> ('z, int) uw" where
  "u_rename p q = sys_atomic (rename_error p q) (move_entry p q)"

text \<open>A call that changes the attributes of a file: \<^verbatim>\<open>chown\<close>, \<^verbatim>\<open>chmod\<close>, \<^verbatim>\<open>lsetfilecon\<close>, \<^verbatim>\<open>setxattr\<close>.\<close>

definition u_set_attr :: "string \<Rightarrow> (attrs \<Rightarrow> attrs) \<Rightarrow> ('z, int) uw" where
  "u_set_attr p f =
     sys_atomic (\<lambda>s. if lkind s p = None then Some ENOENT else None) (\<lambda>s. s\<lparr>u_attrs := (u_attrs s)(p := f (u_attrs s p))\<rparr>)"

definition u_removexattr :: "string \<Rightarrow> ('z, int) uw" where
  "u_removexattr p =
     sys_atomic (\<lambda>s. if lkind s p = None then Some ENOENT else if at_caps (u_attrs s p) = None then Some ENODATA else None)
       (\<lambda>s. s\<lparr>u_attrs := (u_attrs s)(p := (u_attrs s p)\<lparr>at_caps := None\<rparr>)\<rparr>)"

definition u_mount :: "string \<Rightarrow> string \<Rightarrow> string \<Rightarrow> string \<Rightarrow> ('z, int) uw" where
  "u_mount location mount_point fs_type options =
     sys_atomic (\<lambda>s. if fkind s mount_point \<noteq> Some S_IFDIR then Some ENOENT else None)
       (\<lambda>s. s\<lparr>u_mounts := u_mounts s @ [\<lparr>mv_device = location, mv_mount_point = mount_point, mv_filesystem = fs_type, mv_flags = options\<rparr>]\<rparr>)"

text \<open>\<^verbatim>\<open>umount\<close> takes away the mount that came last.\<close>

definition remove_last_mount :: "string \<Rightarrow> MountedVolume list \<Rightarrow> MountedVolume list" where
  "remove_last_mount mp vs =
     rev (takeWhile (\<lambda>v. mv_mount_point v \<noteq> mp) (rev vs) @ drop 1 (dropWhile (\<lambda>v. mv_mount_point v \<noteq> mp) (rev vs)))"

definition u_umount :: "string \<Rightarrow> ('z, int) uw" where
  "u_umount mount_point =
     sys_atomic (\<lambda>s. if mount_point \<in> mv_mount_point ` set (u_mounts s) then None else Some EINVAL)
       (\<lambda>s. s\<lparr>u_mounts := remove_last_mount mount_point (u_mounts s)\<rparr>)"

section \<open>Directories\<close>

text \<open>\<^verbatim>\<open>mkdir_recursively\<close> and the extraction below always get a timestamp, which \<^verbatim>\<open>utime\<close> (\<open>sys_plain\<close>) sets.\<close>

datatype DirStatus = DMISSING | DDIR | DILLEGAL

definition dir_status :: "string \<Rightarrow> ('z, DirStatus) uw" where
  "dir_status path = do {
     k \<leftarrow> u_stat path;
     case k of
       Some k \<Rightarrow> if k = S_IFDIR then ret DDIR else do { fail ENOTDIR; ret DILLEGAL }
     | None \<Rightarrow> do {
         er \<leftarrow> gets w_errno;
         ret (if er \<noteq> ENOENT then DILLEGAL else DMISSING) } }"

text \<open>The prefixes before every slash but a leading one, which the loops with \<^verbatim>\<open>find('/', prev_end + 1)\<close> visit.\<close>

definition slash_prefixes :: "string \<Rightarrow> string list" where
  "slash_prefixes path = map (\<lambda>i. take i path) (filter (\<lambda>i. path ! i = CHR ''/'') [1..<length path])"

fun make_levels :: "string list \<Rightarrow> ('z, int) uw" where
  "make_levels [] = ret 0"
| "make_levels (dir_path # dirs) = do {
     ds \<leftarrow> dir_status dir_path;
     case ds of
       DILLEGAL \<Rightarrow> ret (-1)
     | DDIR \<Rightarrow> make_levels dirs
     | DMISSING \<Rightarrow> do {
         err \<leftarrow> u_mkdir dir_path;
         if err \<noteq> 0 then ret (-1)
         else do {
           r \<leftarrow> sys_plain;
           if r \<noteq> 0 then ret (-1) else make_levels dirs } } }"

definition mkdir_recursively :: "string \<Rightarrow> bool \<Rightarrow> ('z, int) uw" where
  "mkdir_recursively input_path strip_filename =
     (if input_path = [] \<or> strip_filename \<and> CHR ''/'' \<notin> set input_path then fail ENOENT
      else let path = (if strip_filename then dir_part input_path else input_path @ ''/'') in do {
        ds \<leftarrow> dir_status path;
        case ds of DDIR \<Rightarrow> ret 0 | DILLEGAL \<Rightarrow> ret (-1) | DMISSING \<Rightarrow> make_levels (slash_prefixes path) })"

fun unlink_children :: "(string \<Rightarrow> ('z, int) uw) \<Rightarrow> string \<Rightarrow> string list \<Rightarrow> ('z, bool) uw" where
  "unlink_children unlink path [] = ret True"
| "unlink_children unlink path (d_name # names) = do {
     r \<leftarrow> unlink (path @ ''/'' @ d_name);
     if r < 0 then ret False else unlink_children unlink path names }"

text \<open>The first argument bounds the depth of the recursion.\<close>

fun unlink_hierarchy :: "nat \<Rightarrow> string \<Rightarrow> ('z, int) uw" where
  "unlink_hierarchy 0 path = do { CHECK False; ret (-1) }"
| "unlink_hierarchy (Suc n) path = do {
     k \<leftarrow> u_lstat path;
     case k of
       None \<Rightarrow> ret (-1)
     | Some k \<Rightarrow>
         if k \<noteq> S_IFDIR then u_unlink path
         else do {
           names \<leftarrow> u_opendir path;
           case names of
             None \<Rightarrow> ret (-1)
           | Some names \<Rightarrow> do {
               ok \<leftarrow> unlink_children (unlink_hierarchy n) path names;
               r \<leftarrow> sys_plain;
               if \<not> ok \<or> r < 0 then ret (-1) else u_rmdir path } } }"

definition dirUnlinkHierarchy :: "string \<Rightarrow> ('z, int) uw" where
  "dirUnlinkHierarchy path = do {
     n \<leftarrow> gets (\<lambda>s. length (w_dirs s));
     unlink_hierarchy (n + 2) path }"

section \<open>The mount table\<close>

definition scan_mounted_volumes :: "('z, bool) uw" where
  "scan_mounted_volumes = do {
     upd (\<lambda>s. s\<lparr>g_mounts_state := []\<rparr>);
     r \<leftarrow> sys_plain;
     if r = -1 then ret False
     else do { upd (\<lambda>s. s\<lparr>g_mounts_state := u_mounts s\<rparr>); ret True } }"

text \<open>The index of the volume.\<close>

definition find_mounted_volume_by_mount_point :: "string \<Rightarrow> ('z, nat option) uw" where
  "find_mounted_volume_by_mount_point mount_point =
     gets (\<lambda>s. let vs = g_mounts_state s; i = length (takeWhile (\<lambda>v. mv_mount_point v \<noteq> mount_point) vs)
               in if i < length vs then Some i else None)"

definition forget_volume :: "nat \<Rightarrow> ('z, string) uw" where
  "forget_volume i = do {
     vs \<leftarrow> gets g_mounts_state;
     upd (\<lambda>s. s\<lparr>g_mounts_state := vs[i := (vs ! i)\<lparr>mv_mount_point := []\<rparr>]\<rparr>);
     ret (mv_mount_point (vs ! i)) }"

definition unmount_mounted_volume :: "nat \<Rightarrow> ('z, int) uw" where
  "unmount_mounted_volume i = do { mount_point \<leftarrow> forget_volume i; u_umount mount_point }"

text \<open>A lazy unmount takes effect for the caller at once.\<close>

definition unmount_mounted_volume_detach :: "nat \<Rightarrow> ('z, int) uw" where
  "unmount_mounted_volume_detach i = do { mount_point \<leftarrow> forget_volume i; u_umount mount_point }"

section \<open>Extraction of a tree\<close>

fun extract_entries :: "'z zip_handle \<Rightarrow> string \<Rightarrow> string \<Rightarrow> string list \<Rightarrow> ('z, bool) uw" where
  "extract_entries za prefix_path target_dir [] = ret True"
| "extract_entries za prefix_path target_dir (entry_name # names) = do {
     CHECK (length prefix_path \<le> length entry_name);
     let path = target_dir @ drop (length prefix_path) entry_name;
     if last path = CHR ''/'' then extract_entries za prefix_path target_dir names
     else do {
       r \<leftarrow> mkdir_recursively (cstr path) True;
       if r \<noteq> 0 then ret False
       else do {
         fd \<leftarrow> sys_open (cstr path) [O_CREAT, O_WRONLY, O_TRUNC];
         if fd = -1 then ret False
         else do {
           err \<leftarrow> zh_file za entry_name fd;
           if err \<noteq> 0 then closing fd (ret False)
           else do {
             r \<leftarrow> sys_fsync fd;
             if r \<noteq> 0 then closing fd (ret False)
             else do {
               r \<leftarrow> sys_plain;
               if r \<noteq> 0 then closing fd (ret False)
               else do {
                 sys_close fd;
                 extract_entries za prefix_path target_dir names } } } } } } }"

definition ExtractPackageRecursive :: "'z zip_handle \<Rightarrow> string \<Rightarrow> string \<Rightarrow> ('z, bool) uw" where
  "ExtractPackageRecursive za zip_path dest_path =
     (if zip_path \<noteq> [] \<and> hd zip_path = CHR ''/'' then ret False
      else if dest_path = [] \<or> hd dest_path \<noteq> CHR ''/'' then ret False
      else
        let target_dir = (if last dest_path \<noteq> CHR ''/'' then dest_path @ ''/'' else dest_path);
            prefix_path = (if zip_path \<noteq> [] \<and> last zip_path \<noteq> CHR ''/'' then zip_path @ ''/'' else zip_path)
        in if zh_start za \<noteq> 0 then ret False
           else extract_entries za prefix_path target_dir (filter (starts_with (cstr prefix_path)) (zh_entries za)))"

section \<open>Messages\<close>

definition send :: "string \<Rightarrow> ('z, unit) uw" where
  "send text = upd (\<lambda>s. s\<lparr>cmd_pipe := cmd_pipe s @ text\<rparr>)"

definition uiPrint :: "'z install_env \<Rightarrow> string \<Rightarrow> ('z, unit) uw" where
  "uiPrint e buffer =
     send (concat (map (\<lambda>line. ''ui_print '' @ cstr line @ [NL]) (filter (\<lambda>line. line \<noteq> []) (ab_split (ie_ab e) buffer [NL]))))"

definition quoted :: "string \<Rightarrow> string" where
  "quoted t = [CHR 0x22] @ t @ [CHR 0x22]"

abbreviation args_abort :: "'z install_env \<Rightarrow> string \<Rightarrow> ('z, Value option) uw" where
  "args_abort e msg \<equiv> ErrorAbort (ie_ab e) kArgsParsingFailure msg"

text \<open>The check of the number of arguments and their evaluation, with which most functions begin.\<close>

definition with_args :: "'z install_env \<Rightarrow> bool \<Rightarrow> string \<Rightarrow> string \<Rightarrow> 'z updater_world_scheme arg list \<Rightarrow> (string list \<Rightarrow> ('z, Value option) uw) \<Rightarrow>
    ('z, Value option) uw" where
  "with_args e wrong expects failed argv body =
     (if wrong then args_abort e (expects @ '', got '' @ to_string (length argv))
      else do {
        args \<leftarrow> ReadArgs (ie_ab e) argv;
        case args of None \<Rightarrow> args_abort e failed | Some args \<Rightarrow> body args })"

definition parse_failed :: "string \<Rightarrow> string" where
  "parse_failed name = name @ ''() Failed to parse the argument(s)''"

definition truth_value :: "bool \<Rightarrow> Value option" where
  "truth_value b = StringValue (if b then ''t'' else [])"

section \<open>Files of the package\<close>

fun make_parents_loop :: "string list \<Rightarrow> ('z, bool) uw" where
  "make_parents_loop [] = ret True"
| "make_parents_loop (dir_path # dirs) = do {
     k \<leftarrow> u_stat dir_path;
     if k = Some S_IFDIR then make_parents_loop dirs
     else do {
       result \<leftarrow> u_mkdir dir_path;
       if result \<noteq> 0 then ret False else make_parents_loop dirs } }"

definition make_parents :: "string \<Rightarrow> ('z, bool) uw" where
  "make_parents name = make_parents_loop (map cstr (slash_prefixes name))"

definition UIPrintFn :: "'z install_env \<Rightarrow> 'z UpdaterFn" where
  "UIPrintFn e name argv = do {
     args \<leftarrow> ReadArgs (ie_ab e) argv;
     case args of
       None \<Rightarrow> args_abort e (name @ ''(): Failed to parse the argument(s)'')
     | Some args \<Rightarrow> do {
         uiPrint e (concat args);
         ret (StringValue (concat args)) } }"

definition PackageExtractDirFn :: "'z install_env \<Rightarrow> 'z UpdaterFn" where
  "PackageExtractDirFn e name argv =
     with_args e (length argv \<noteq> 2) (name @ ''() expects 2 args'') (parse_failed name) argv (\<lambda>args. do {
       success \<leftarrow> ExtractPackageRecursive (ie_zip e) (args ! 0) (args ! 1);
       ret (truth_value success) })"

definition extract_to_file :: "'z install_env \<Rightarrow> string \<Rightarrow> string \<Rightarrow> ('z, Value option) uw" where
  "extract_to_file e zip_path dest_path =
     (if cstr zip_path \<notin> set (zh_entries (ie_zip e)) then ret (StringValue [])
      else do {
        fd \<leftarrow> TEMP_FAILURE_RETRY (\<lambda>r. r = -1) (ota_open (cstr dest_path) [O_WRONLY, O_CREAT, O_TRUNC]);
        if fd = -1 then ret (StringValue [])
        else do {
          r1 \<leftarrow> zh_file (ie_zip e) (cstr zip_path) fd;
          r2 \<leftarrow> ota_fsync fd;
          r3 \<leftarrow> ota_close fd;
          ret (truth_value (r1 = 0 \<and> r2 \<noteq> -1 \<and> r3 \<noteq> -1)) } })"

definition extract_to_value :: "'z install_env \<Rightarrow> string \<Rightarrow> string \<Rightarrow> ('z, Value option) uw" where
  "extract_to_value e name zip_path =
     (if cstr zip_path \<notin> set (zh_entries (ie_zip e))
      then ErrorAbort (ie_ab e) kPackageExtractFileFailure (name @ ''(): no '' @ cstr zip_path @ '' in package'')
      else case zh_memory (ie_zip e) (cstr zip_path) of
        Inl error \<Rightarrow> ErrorAbort (ie_ab e) kPackageExtractFileFailure
          (name @ '': Failed to extract entry '' @ quoted (cstr zip_path) @ '' ('' @ to_string (zh_length (ie_zip e) (cstr zip_path)) @
           '' bytes) to memory: '' @ zh_error (ie_zip e) error)
      | Inr buffer \<Rightarrow> ret (Some \<lparr>v_type = VAL_BLOB, v_data = text_of buffer\<rparr>))"

definition PackageExtractFileFn :: "'z install_env \<Rightarrow> 'z UpdaterFn" where
  "PackageExtractFileFn e name argv =
     with_args e (length argv < 1 \<or> length argv > 2) (name @ ''() expects 1 or 2 args'')
       (name @ ''() Failed to parse '' @ to_string (length argv) @ '' args'') argv (\<lambda>args.
       if length argv = 2 then extract_to_file e (args ! 0) (args ! 1) else extract_to_value e name (args ! 0))"

section \<open>Patches and digests\<close>

text \<open>The first argument pair whose types are wrong.\<close>

fun patch_type_error :: "string \<Rightarrow> nat \<Rightarrow> Value list \<Rightarrow> string option" where
  "patch_type_error name i (sha # patch # vs) =
     (if v_type sha \<noteq> VAL_STRING then Some (name @ ''(): sha-1 #'' @ to_string i @ '' is not string'')
      else if v_type patch \<noteq> VAL_BLOB then Some (name @ ''(): patch #'' @ to_string (i + 1) @ '' is not blob'')
      else patch_type_error name (i + 2) vs)"
| "patch_type_error name i vs = None"

fun value_pairs :: "'a list \<Rightarrow> ('a \<times> 'a) list" where
  "value_pairs (x # y # zs) = (x, y) # value_pairs zs"
| "value_pairs zs = []"

definition ApplyPatchFn :: "'z install_env \<Rightarrow> 'z UpdaterFn" where
  "ApplyPatchFn e name argv =
     (if length argv < 6 \<or> odd (length argv)
      then args_abort e (name @ ''(): expected at least 6 args and an even number, got '' @ to_string (length argv))
      else do {
        args \<leftarrow> ReadArgs_range (ie_ab e) argv 0 4;
        case args of
          None \<Rightarrow> args_abort e (parse_failed name)
        | Some args \<Rightarrow>
            (case ab_parse_uint (ie_ab e) (cstr (args ! 3)) SIZE_MAX of
               None \<Rightarrow> args_abort e (name @ ''(): can't parse '' @ quoted (cstr (args ! 3)) @ '' as byte count'')
             | Some tgt_size \<Rightarrow> do {
                 arg_values \<leftarrow> ReadValueArgs_range argv 4 (length argv - 4);
                 case arg_values of
                   None \<Rightarrow> ret None
                 | Some arg_values \<Rightarrow>
                     (case patch_type_error name 0 arg_values of
                        Some msg \<Rightarrow> args_abort e msg
                      | None \<Rightarrow> do {
                          result \<leftarrow> applypatch (ie_env e) (cstr (args ! 0)) (cstr (args ! 1)) (cstr (args ! 2))
                            (map (v_data \<circ> fst) (value_pairs arg_values)) (map snd (value_pairs arg_values)) None;
                          ret (truth_value (result = 0)) }) }) })"

definition ApplyPatchCheckFn :: "'z install_env \<Rightarrow> 'z UpdaterFn" where
  "ApplyPatchCheckFn e name argv =
     (if length argv < 1 then args_abort e (name @ ''(): expected at least 1 arg, got '' @ to_string (length argv))
      else do {
        args \<leftarrow> ReadArgs_range (ie_ab e) argv 0 1;
        case args of
          None \<Rightarrow> args_abort e (parse_failed name)
        | Some args \<Rightarrow> do {
            sha1s \<leftarrow> (if length argv > 1 then ReadArgs_range (ie_ab e) argv 1 (length argv - 1) else ret (Some []));
            case sha1s of
              None \<Rightarrow> args_abort e (parse_failed name)
            | Some sha1s \<Rightarrow> do {
                result \<leftarrow> applypatch_check (ie_env e) (cstr (args ! 0)) sha1s;
                ret (truth_value (result = 0)) } } })"

text \<open>The first argument that is a string with the digest.\<close>

fun matching_digest :: "byte list \<Rightarrow> Value list \<Rightarrow> Value option" where
  "matching_digest digest [] = StringValue []"
| "matching_digest digest (v # vs) =
     (if v_type v = VAL_STRING \<and> ParseSha1 (cstr (v_data v)) = Some digest then Some v else matching_digest digest vs)"

definition Sha1CheckFn :: "'z install_env \<Rightarrow> 'z UpdaterFn" where
  "Sha1CheckFn e name argv =
     (if length argv < 1 then args_abort e (name @ ''() expects at least 1 arg'')
      else do {
        args \<leftarrow> ReadValueArgs argv;
        case args of
          None \<Rightarrow> ret None
        | Some args \<Rightarrow>
            if v_type (args ! 0) = VAL_INVALID then ret (StringValue [])
            else
              let digest = e_sha1 (ie_env e) (bytes_of (v_data (args ! 0)))
              in if length argv = 1 then ret (StringValue (print_sha1 digest)) else ret (matching_digest digest (tl args)) })"

definition ApplyPatchSpaceFn :: "'z install_env \<Rightarrow> 'z UpdaterFn" where
  "ApplyPatchSpaceFn e name argv =
     with_args e (length argv \<noteq> 1) (name @ ''() expects 1 args'') (parse_failed name) argv (\<lambda>args.
       case ab_parse_uint (ie_ab e) (cstr (args ! 0)) SIZE_MAX of
         None \<Rightarrow> args_abort e (name @ ''(): can't parse '' @ quoted (cstr (args ! 0)) @ '' as byte count'')
       | Some bytes \<Rightarrow> do {
           retry \<leftarrow> gets st_is_retry;
           if retry then ret (StringValue ''t'')
           else do {
             r \<leftarrow> CacheSizeCheck (ie_env e) bytes;
             ret (truth_value (r = 0)) } })"

section \<open>Mounting and formatting\<close>

definition MountFn :: "'z install_env \<Rightarrow> 'z UpdaterFn" where
  "MountFn e name argv =
     with_args e (length argv \<noteq> 4 \<and> length argv \<noteq> 5) (name @ ''() expects 4-5 args'') (parse_failed name) argv (\<lambda>args.
       let fs_type = args ! 0; partition_type = args ! 1; location = args ! 2; mount_point = args ! 3;
           mount_options = (if length argv = 5 then args ! 4 else [])
       in if fs_type = [] then args_abort e (''fs_type argument to '' @ name @ ''() can't be empty'')
          else if partition_type = [] then args_abort e (''partition_type argument to '' @ name @ ''() can't be empty'')
          else if location = [] then args_abort e (''location argument to '' @ name @ ''() can't be empty'')
          else if mount_point = [] then args_abort e (''mount_point argument to '' @ name @ ''() can't be empty'')
          else do {
            u_mkdir (cstr mount_point);
            fs_type \<leftarrow> (case ie_blkid e (cstr location) of
                Some detected \<Rightarrow>
                  if detected \<noteq> [] then do {
                    uiPrint e (''detected filesystem '' @ detected @ '' for '' @ cstr location @ [NL]);
                    ret detected }
                  else do {
                    uiPrint e (''could not detect filesystem for '' @ cstr location @ '', assuming '' @ cstr fs_type @ [NL]);
                    ret fs_type }
              | None \<Rightarrow> do {
                  uiPrint e (''could not detect filesystem for '' @ cstr location @ '', assuming '' @ cstr fs_type @ [NL]);
                  ret fs_type });
            r \<leftarrow> u_mount (cstr location) (cstr mount_point) (cstr fs_type) (cstr mount_options);
            if r < 0 then do {
              t \<leftarrow> errno_text e;
              uiPrint e (name @ '': Failed to mount '' @ cstr location @ '' at '' @ cstr mount_point @ '': '' @ t);
              ret (StringValue []) }
            else ret (StringValue mount_point) })"

definition IsMountedFn :: "'z install_env \<Rightarrow> 'z UpdaterFn" where
  "IsMountedFn e name argv =
     with_args e (length argv \<noteq> 1) (name @ ''() expects 1 arg'') (parse_failed name) argv (\<lambda>args.
       let mount_point = args ! 0
       in if mount_point = [] then args_abort e ''mount_point argument to unmount() can't be empty''
          else do {
            scan_mounted_volumes;
            vol \<leftarrow> find_mounted_volume_by_mount_point (cstr mount_point);
            ret (StringValue (if vol = None then [] else mount_point)) })"

definition UnmountFn :: "'z install_env \<Rightarrow> 'z UpdaterFn" where
  "UnmountFn e name argv =
     with_args e (length argv \<noteq> 1) (name @ ''() expects 1 arg'') (parse_failed name) argv (\<lambda>args.
       let mount_point = args ! 0
       in if mount_point = [] then args_abort e ''mount_point argument to unmount() can't be empty''
          else do {
            scan_mounted_volumes;
            vol \<leftarrow> find_mounted_volume_by_mount_point (cstr mount_point);
            case vol of
              None \<Rightarrow> do {
                uiPrint e (''Failed to unmount '' @ cstr mount_point @ '': No such volume'');
                ret None }
            | Some vol \<Rightarrow> do {
                r \<leftarrow> unmount_mounted_volume vol;
                (if r \<noteq> 0 then do {
                   t \<leftarrow> errno_text e;
                   uiPrint e (''Failed to unmount '' @ cstr mount_point @ '': '' @ t) }
                 else ret ());
                ret (StringValue mount_point) } })"

text \<open>Division of signed integers rounds towards zero.\<close>

definition quotient :: "int \<Rightarrow> int \<Rightarrow> int" where
  "quotient a b = (if a < 0 then - ((- a) div b) else a div b)"

definition format_ext4 :: "'z install_env \<Rightarrow> string \<Rightarrow> string \<Rightarrow> int \<Rightarrow> ('z, Value option) uw" where
  "format_ext4 e location mount_point fs_bytes = do {
     status \<leftarrow> ie_exec e ''/sbin/mke2fs_static''
       ([''/sbin/mke2fs_static'', ''-t'', ''ext4'', ''-b'', ''4096'', cstr location] @
        (if fs_bytes \<noteq> 0 then [int_to_string (quotient fs_bytes 4096)] else []));
     if status \<noteq> 0 then ret (StringValue [])
     else do {
       status \<leftarrow> ie_exec e ''/sbin/e2fsdroid_static'' [''/sbin/e2fsdroid_static'', ''-e'', ''-a'', cstr mount_point, cstr location];
       ret (StringValue (if status \<noteq> 0 then [] else location)) } }"

definition format_f2fs :: "'z install_env \<Rightarrow> string \<Rightarrow> string \<Rightarrow> int \<Rightarrow> ('z, Value option) uw" where
  "format_f2fs e location mount_point fs_bytes =
     (if fs_bytes < 0 then ret (StringValue [])
      else do {
        status \<leftarrow> ie_exec e ''/sbin/mkfs.f2fs''
          ([''mkfs.f2fs'', ''-d1'', ''-f'', ''-O'', ''encrypt'', ''-O'', ''quota'', ''-O'', ''verity'', ''-w'', ''512'', cstr location] @
           (if fs_bytes < 512 then [] else [int_to_string (quotient fs_bytes 512)]));
        if status \<noteq> 0 then ret (StringValue [])
        else do {
          status \<leftarrow> ie_exec e ''/sbin/sload.f2fs'' [''/sbin/sload.f2fs'', ''-t'', cstr mount_point, cstr location];
          ret (StringValue (if status \<noteq> 0 then [] else location)) } })"

definition FormatFn :: "'z install_env \<Rightarrow> 'z UpdaterFn" where
  "FormatFn e name argv =
     with_args e (length argv \<noteq> 5) (name @ ''() expects 5 args'') (parse_failed name) argv (\<lambda>args.
       let fs_type = args ! 0; partition_type = args ! 1; location = args ! 2; fs_size = args ! 3; mount_point = args ! 4
       in if fs_type = [] then args_abort e (''fs_type argument to '' @ name @ ''() can't be empty'')
          else if partition_type = [] then args_abort e (''partition_type argument to '' @ name @ ''() can't be empty'')
          else if location = [] then args_abort e (''location argument to '' @ name @ ''() can't be empty'')
          else if mount_point = [] then args_abort e (''mount_point argument to '' @ name @ ''() can't be empty'')
          else case ab_parse_int (ie_ab e) (cstr fs_size) INT64_MIN INT64_MAX of
            None \<Rightarrow> args_abort e (name @ '': failed to parse int in '' @ cstr fs_size)
          | Some n \<Rightarrow>
              if fs_type = ''ext4'' then format_ext4 e location mount_point n
              else if fs_type = ''f2fs'' then format_f2fs e location mount_point n
              else ret None)"

section \<open>Changing the file system\<close>

definition RenameFn :: "'z install_env \<Rightarrow> 'z UpdaterFn" where
  "RenameFn e name argv =
     with_args e (length argv \<noteq> 2) (name @ ''() expects 2 args'') (parse_failed name) argv (\<lambda>args.
       let src_name = args ! 0; dst_name = args ! 1
       in if src_name = [] then args_abort e (''src_name argument to '' @ name @ ''() can't be empty'')
          else if dst_name = [] then args_abort e (''dst_name argument to '' @ name @ ''() can't be empty'')
          else do {
            ok \<leftarrow> make_parents dst_name;
            if \<not> ok then do {
              t \<leftarrow> errno_text e;
              ErrorAbort (ie_ab e) kFileRenameFailure (''Creating parent of '' @ cstr dst_name @ '' failed, error '' @ t) }
            else do {
              already \<leftarrow> do {
                r \<leftarrow> u_access (cstr dst_name);
                if r = 0 then do { r \<leftarrow> u_access (cstr src_name); ret (r \<noteq> 0) } else ret False };
              if already then ret (StringValue dst_name)
              else do {
                r \<leftarrow> u_rename (cstr src_name) (cstr dst_name);
                if r \<noteq> 0 then do {
                  t \<leftarrow> errno_text e;
                  ErrorAbort (ie_ab e) kFileRenameFailure (''Rename of '' @ cstr src_name @ '' to '' @ cstr dst_name @ '' failed, error '' @ t) }
                else ret (StringValue dst_name) } } })"

fun delete_paths :: "bool \<Rightarrow> string list \<Rightarrow> nat \<Rightarrow> ('z, nat) uw" where
  "delete_paths recursive [] success = ret success"
| "delete_paths recursive (path # paths) success = do {
     r \<leftarrow> (if recursive then dirUnlinkHierarchy (cstr path) else u_unlink (cstr path));
     delete_paths recursive paths (if r = 0 then success + 1 else success) }"

definition DeleteFn :: "'z install_env \<Rightarrow> 'z UpdaterFn" where
  "DeleteFn e name argv = do {
     paths \<leftarrow> ReadArgs (ie_ab e) argv;
     case paths of
       None \<Rightarrow> ret None
     | Some paths \<Rightarrow> do {
         success \<leftarrow> delete_paths (name = ''delete_recursive'') paths 0;
         ret (StringValue (to_string success)) } }"

fun make_links :: "string \<Rightarrow> string list \<Rightarrow> nat \<Rightarrow> ('z, nat) uw" where
  "make_links target [] bad = ret bad"
| "make_links target (src # srcs) bad = do {
     r \<leftarrow> u_unlink (cstr src);
     er \<leftarrow> gets w_errno;
     if r = -1 \<and> er \<noteq> ENOENT then make_links target srcs (bad + 1)
     else do {
       ok \<leftarrow> make_parents src;
       if \<not> ok then make_links target srcs (bad + 1)
       else do {
         r \<leftarrow> u_symlink (cstr target) (cstr src);
         make_links target srcs (if r = -1 then bad + 1 else bad) } } }"

definition SymlinkFn :: "'z install_env \<Rightarrow> 'z UpdaterFn" where
  "SymlinkFn e name argv =
     with_args e (length argv = 0) (name @ ''() expects 1+ args'') (name @ ''(): Failed to parse the argument(s)'') argv (\<lambda>args.
       if args ! 0 = [] then args_abort e (name @ ''() target argument can't be empty'')
       else do {
         bad \<leftarrow> make_links (args ! 0) (tl args) 0;
         if bad \<noteq> 0 then ErrorAbort (ie_ab e) kSymlinkFailure (name @ '': Failed to create '' @ to_string bad @ '' symlink(s)'')
         else ret (StringValue ''t'') })"

text \<open>
  \<^verbatim>\<open>sscanf\<close> of one integer, as bionic does it: in decimal, or for \<open>auto\<close> (\<^verbatim>\<open>%i\<close>) with the base given by the
  prefix, limited to 64 bits.  A prefix without digits is a zero.
\<close>

definition digits_value :: "nat \<Rightarrow> string \<Rightarrow> nat" where
  "digits_value base ds = foldl (\<lambda>a c. a * base + the (hex_value c)) 0 ds"

definition scan_int :: "bool \<Rightarrow> string \<Rightarrow> int option" where
  "scan_int auto str =
     (let t = dropWhile is_space str;
          neg = (t \<noteq> [] \<and> hd t = CHR ''-'');
          t = (if t \<noteq> [] \<and> hd t \<in> {CHR ''-'', CHR ''+''} then tl t else t);
          hex = (auto \<and> (starts_with ''0x'' t \<or> starts_with ''0X'' t));
          oct = (auto \<and> \<not> hex \<and> starts_with ''0'' t);
          base = (if hex then 16 else if oct then 8 else 10);
          ds = takeWhile (\<lambda>c. \<exists>d \<in> set_option (hex_value c). d < base) (if hex then drop 2 t else t);
          n = int (digits_value base ds)
      in if \<not> hex \<and> ds = [] then None else Some (min INT64_MAX (max INT64_MIN (if neg then - n else n))))"

record perm_parsed_args =
  pa_uid :: "32 word option"
  pa_gid :: "32 word option"
  pa_mode :: "32 word option"
  pa_fmode :: "32 word option"
  pa_dmode :: "32 word option"
  pa_selabel :: "string option"
  pa_capabilities :: "64 word option"

definition no_perms :: perm_parsed_args where
  "no_perms = \<lparr>pa_uid = None, pa_gid = None, pa_mode = None, pa_fmode = None, pa_dmode = None, pa_selabel = None, pa_capabilities = None\<rparr>"

definition parse_perm :: "'z install_env \<Rightarrow> bool \<Rightarrow> string \<Rightarrow> string \<Rightarrow> (int \<Rightarrow> perm_parsed_args \<Rightarrow> perm_parsed_args) \<Rightarrow> perm_parsed_args \<Rightarrow>
    ('z, perm_parsed_args) uw" where
  "parse_perm e auto what val set_field parsed =
     (case scan_int auto (cstr val) of
        Some v \<Rightarrow> ret (set_field v parsed)
      | None \<Rightarrow> do {
          uiPrint e (''ParsePermArgs: invalid '' @ what @ '' '' @ quoted (cstr val) @ [NL]);
          ret parsed })"

definition unknown_key :: "string \<Rightarrow> perm_parsed_args \<Rightarrow> ('z, perm_parsed_args) uw" where
  "unknown_key key parsed = do {
     upd (\<lambda>s. if max_warnings s = 0 then s
       else s\<lparr>w_stdout := w_stdout s @ ''ParsedPermArgs: unknown key '' @ quoted (cstr key) @ '', ignoring'' @ [NL], max_warnings := max_warnings s - 1\<rparr>);
     ret parsed }"

definition perm_arg :: "'z install_env \<Rightarrow> string \<Rightarrow> string \<Rightarrow> perm_parsed_args \<Rightarrow> ('z, perm_parsed_args) uw" where
  "perm_arg e key val parsed =
     (if key = ''uid'' then parse_perm e False ''UID'' val (\<lambda>v p. p\<lparr>pa_uid := Some (of_int v)\<rparr>) parsed
      else if key = ''gid'' then parse_perm e False ''GID'' val (\<lambda>v p. p\<lparr>pa_gid := Some (of_int v)\<rparr>) parsed
      else if key = ''mode'' then parse_perm e True ''mode'' val (\<lambda>v p. p\<lparr>pa_mode := Some (of_int v)\<rparr>) parsed
      else if key = ''dmode'' then parse_perm e True ''dmode'' val (\<lambda>v p. p\<lparr>pa_dmode := Some (of_int v)\<rparr>) parsed
      else if key = ''fmode'' then parse_perm e True ''fmode'' val (\<lambda>v p. p\<lparr>pa_fmode := Some (of_int v)\<rparr>) parsed
      else if key = ''capabilities'' then parse_perm e True ''capabilities'' val (\<lambda>v p. p\<lparr>pa_capabilities := Some (of_int v)\<rparr>) parsed
      else if key = ''selabel''
      then (if val \<noteq> [] then ret (parsed\<lparr>pa_selabel := Some (cstr val)\<rparr>)
            else do {
              uiPrint e (''ParsePermArgs: invalid selabel '' @ quoted [] @ [NL]);
              ret parsed })
      else unknown_key key parsed)"

fun ParsePermArgs :: "'z install_env \<Rightarrow> string list \<Rightarrow> perm_parsed_args \<Rightarrow> ('z, perm_parsed_args) uw" where
  "ParsePermArgs e (key # val # args) parsed = do {
     parsed \<leftarrow> perm_arg e key val parsed;
     ParsePermArgs e args parsed }"
| "ParsePermArgs e args parsed = ret parsed"

text \<open>One change: 1 and a message when it fails.\<close>

definition perm_step :: "'z install_env \<Rightarrow> ('z, int) uw \<Rightarrow> string \<Rightarrow> ('z, int) uw" where
  "perm_step e call what = do {
     r \<leftarrow> call;
     if r < 0 then do {
       t \<leftarrow> errno_text e;
       uiPrint e (''ApplyParsedPerms: '' @ what @ '' failed: '' @ t @ [NL]);
       ret 1 }
     else ret 0 }"

definition perm_if :: "'a option \<Rightarrow> bool \<Rightarrow> ('a \<Rightarrow> ('z, int) uw) \<Rightarrow> ('z, int) uw" where
  "perm_if x applies step = (case x of None \<Rightarrow> ret 0 | Some v \<Rightarrow> if applies then step v else ret 0)"

fun hex_text :: "nat \<Rightarrow> string" where
  "hex_text n = (if n < 16 then [hex_digit n] else hex_text (n div 16) @ [hex_digit (n mod 16)])"

declare hex_text.simps [simp del]

definition set_capabilities :: "'z install_env \<Rightarrow> string \<Rightarrow> 64 word \<Rightarrow> ('z, int) uw" where
  "set_capabilities e filename caps =
     (if caps = 0 then do {
        r \<leftarrow> u_removexattr filename;
        er \<leftarrow> gets w_errno;
        if r = -1 \<and> er \<noteq> ENODATA then do {
          t \<leftarrow> errno_text e;
          uiPrint e (''ApplyParsedPerms: removexattr of '' @ filename @ '' to '' @ hex_text (unat caps) @ '' failed: '' @ t @ [NL]);
          ret 1 }
        else ret 0 }
      else perm_step e (u_set_attr filename (\<lambda>a. a\<lparr>at_caps := Some caps\<rparr>)) (''setcap of '' @ filename @ '' to '' @ hex_text (unat caps)))"

definition ApplyParsedPerms :: "'z install_env \<Rightarrow> string \<Rightarrow> kind \<Rightarrow> perm_parsed_args \<Rightarrow> ('z, int) uw" where
  "ApplyParsedPerms e filename k parsed = do {
     b1 \<leftarrow> perm_if (pa_selabel parsed) True (\<lambda>l. perm_step e (u_set_attr filename (\<lambda>a. a\<lparr>at_selabel := l\<rparr>))
       (''lsetfilecon of '' @ filename @ '' to '' @ l));
     if k = S_IFLNK then ret b1
     else do {
       b2 \<leftarrow> perm_if (pa_uid parsed) True (\<lambda>u. perm_step e (u_set_attr filename (\<lambda>a. a\<lparr>at_uid := u\<rparr>))
         (''chown of '' @ filename @ '' to '' @ int_to_string (sint u)));
       b3 \<leftarrow> perm_if (pa_gid parsed) True (\<lambda>g. perm_step e (u_set_attr filename (\<lambda>a. a\<lparr>at_gid := g\<rparr>))
         (''chgrp of '' @ filename @ '' to '' @ int_to_string (sint g)));
       b4 \<leftarrow> perm_if (pa_mode parsed) True (\<lambda>m. perm_step e (u_set_attr filename (\<lambda>a. a\<lparr>at_mode := m\<rparr>))
         (''chmod of '' @ filename @ '' to '' @ int_to_string (sint m)));
       b5 \<leftarrow> perm_if (pa_dmode parsed) (k = S_IFDIR) (\<lambda>m. perm_step e (u_set_attr filename (\<lambda>a. a\<lparr>at_mode := m\<rparr>))
         (''chmod of '' @ filename @ '' to '' @ int_to_string (sint m)));
       b6 \<leftarrow> perm_if (pa_fmode parsed) (k = S_IFREG) (\<lambda>m. perm_step e (u_set_attr filename (\<lambda>a. a\<lparr>at_mode := m\<rparr>))
         (''chmod of '' @ filename @ '' to '' @ int_to_string (sint m)));
       b7 \<leftarrow> perm_if (pa_capabilities parsed) (k = S_IFREG) (set_capabilities e filename);
       ret (b1 + b2 + b3 + b4 + b5 + b6 + b7) } }"

text \<open>\<^verbatim>\<open>nftw\<close> with the handler \<^verbatim>\<open>do_SetMetadataRecursive\<close>: it stops at the first result that is not 0.\<close>

fun do_SetMetadataRecursive :: "'z install_env \<Rightarrow> perm_parsed_args \<Rightarrow> string list \<Rightarrow> ('z, int) uw" where
  "do_SetMetadataRecursive e parsed [] = ret 0"
| "do_SetMetadataRecursive e parsed (filename # files) = do {
     k \<leftarrow> u_lstat filename;
     case k of
       None \<Rightarrow> ret (-1)
     | Some k \<Rightarrow> do {
         r \<leftarrow> ApplyParsedPerms e filename k parsed;
         if r \<noteq> 0 then ret r else do_SetMetadataRecursive e parsed files } }"

definition SetMetadataFn :: "'z install_env \<Rightarrow> 'z UpdaterFn" where
  "SetMetadataFn e name argv =
     with_args e (length argv mod 2 \<noteq> 1) (name @ ''() expects an odd number of arguments'') (parse_failed name) argv (\<lambda>args. do {
       sb \<leftarrow> u_lstat (cstr (args ! 0));
       case sb of
         None \<Rightarrow> do {
           t \<leftarrow> errno_text e;
           ErrorAbort (ie_ab e) kSetMetadataFailure (name @ '': Error on lstat of '' @ quoted (cstr (args ! 0)) @ '': '' @ t) }
       | Some k \<Rightarrow> do {
           parsed \<leftarrow> ParsePermArgs e (tl args) no_perms;
           bad \<leftarrow> (if name = ''set_metadata_recursive''
             then do {
               walk \<leftarrow> gets (ie_walk e (cstr (args ! 0)));
               case walk of None \<Rightarrow> ret (-1) | Some files \<Rightarrow> do_SetMetadataRecursive e parsed files }
             else ApplyParsedPerms e (cstr (args ! 0)) k parsed);
           if bad > 0 then ErrorAbort (ie_ab e) kSetMetadataFailure (name @ '': some changes failed'')
           else ret (StringValue []) } })"

section \<open>Progress, properties, programs\<close>

definition ShowProgressFn :: "'z install_env \<Rightarrow> 'z UpdaterFn" where
  "ShowProgressFn e name argv =
     with_args e (length argv \<noteq> 2) (name @ ''() expects 2 args'') (parse_failed name) argv (\<lambda>args.
       case ie_ParseDouble e (cstr (args ! 0)) of
         None \<Rightarrow> args_abort e (name @ '': failed to parse double in '' @ cstr (args ! 0))
       | Some frac \<Rightarrow>
           (case ab_parse_int (ie_ab e) (cstr (args ! 1)) (- int INT_MAX - 1) (int INT_MAX) of
              None \<Rightarrow> args_abort e (name @ '': failed to parse int in '' @ cstr (args ! 1))
            | Some sec \<Rightarrow> do {
                send (''progress '' @ frac @ '' '' @ int_to_string sec @ [NL]);
                ret (StringValue (args ! 0)) }))"

definition SetProgressFn :: "'z install_env \<Rightarrow> 'z UpdaterFn" where
  "SetProgressFn e name argv =
     with_args e (length argv \<noteq> 1) (name @ ''() expects 1 arg'') (parse_failed name) argv (\<lambda>args.
       case ie_ParseDouble e (cstr (args ! 0)) of
         None \<Rightarrow> args_abort e (name @ '': failed to parse double in '' @ cstr (args ! 0))
       | Some frac \<Rightarrow> do {
           send (''set_progress '' @ frac @ [NL]);
           ret (StringValue (args ! 0)) })"

definition GetProperty :: "string \<Rightarrow> string \<Rightarrow> ('z, string) uw" where
  "GetProperty key default_value =
     gets (\<lambda>s. case map_of (u_props s) key of None \<Rightarrow> default_value | Some v \<Rightarrow> if v = [] then default_value else v)"

definition GetPropFn :: "'z install_env \<Rightarrow> 'z UpdaterFn" where
  "GetPropFn e name argv =
     (if length argv \<noteq> 1 then args_abort e (name @ ''() expects 1 arg, got '' @ to_string (length argv))
      else EvaluateAt (ie_ab e) argv 0 (\<lambda>key. do {
        val \<leftarrow> GetProperty key [];
        ret (StringValue val) }))"

text \<open>The value of a key in the lines of a property file.\<close>

fun prop_value :: "android_base \<Rightarrow> string \<Rightarrow> string list \<Rightarrow> string" where
  "prop_value ab key [] = []"
| "prop_value ab key (l # ls) =
     (let line = ab_trim ab l
      in if line = [] \<or> hd line = CHR ''#'' then prop_value ab key ls
         else if CHR ''='' \<notin> set line then prop_value ab key ls
         else
           let equal_pos = length (takeWhile (\<lambda>c. c \<noteq> CHR ''='') line)
           in if key \<noteq> ab_trim ab (take equal_pos line) then prop_value ab key ls
              else ab_trim ab (drop (equal_pos + 1) line))"

definition MAX_FILE_GETPROP_SIZE :: nat where "MAX_FILE_GETPROP_SIZE = 65536"

definition FileGetPropFn :: "'z install_env \<Rightarrow> 'z UpdaterFn" where
  "FileGetPropFn e name argv =
     with_args e (length argv \<noteq> 2) (name @ ''() expects 2 args'') (parse_failed name) argv (\<lambda>args.
       let filename = cstr (args ! 0); key = args ! 1
       in do {
         st \<leftarrow> sys_stat filename;
         case st of
           None \<Rightarrow> do {
             t \<leftarrow> errno_text e;
             ErrorAbort (ie_ab e) kFileGetPropFailure (name @ '': failed to stat '' @ quoted filename @ '': '' @ t) }
         | Some st_size \<Rightarrow>
             if st_size > MAX_FILE_GETPROP_SIZE
             then ErrorAbort (ie_ab e) kFileGetPropFailure (filename @ '' too large for '' @ name @ '' (max '' @ to_string MAX_FILE_GETPROP_SIZE @ '')'')
             else do {
               f \<leftarrow> ota_fopen filename [O_RDONLY];
               if f = -1 then do {
                 t \<leftarrow> errno_text e;
                 ErrorAbort (ie_ab e) kFileOpenFailure (name @ '': failed to open '' @ filename @ '': '' @ t) }
               else do {
                 buffer \<leftarrow> ota_fread f st_size;
                 if length buffer \<noteq> st_size then do {
                   ErrorAbort (ie_ab e) kFreadFailure (name @ '': failed to read '' @ to_string st_size @ '' bytes from '' @ filename);
                   ota_fclose f;
                   ret None }
                 else do {
                   ota_fclose f;
                   ret (StringValue (prop_value (ie_ab e) key (ab_split (ie_ab e) (text_of buffer) [NL]))) } } } })"

definition WipeCacheFn :: "'z install_env \<Rightarrow> 'z UpdaterFn" where
  "WipeCacheFn e name argv =
     (if argv \<noteq> [] then args_abort e (name @ ''() expects no args, got '' @ to_string (length argv))
      else do { send (''wipe_cache'' @ [NL]); ret (StringValue ''t'') })"

definition RunProgramFn :: "'z install_env \<Rightarrow> 'z UpdaterFn" where
  "RunProgramFn e name argv =
     (if length argv < 1 then args_abort e (name @ ''() expects at least 1 arg'')
      else do {
        args \<leftarrow> ReadArgs (ie_ab e) argv;
        case args of
          None \<Rightarrow> args_abort e (parse_failed name)
        | Some args \<Rightarrow> do {
            status \<leftarrow> ie_run e (map cstr args);
            ret (StringValue (int_to_string status)) } })"

definition ReadFileFn :: "'z install_env \<Rightarrow> 'z UpdaterFn" where
  "ReadFileFn e name argv =
     with_args e (length argv \<noteq> 1) (name @ ''() expects 1 arg'') (parse_failed name) argv (\<lambda>args. do {
       fc \<leftarrow> LoadFileContents (ie_env e) (cstr (args ! 0));
       ret (Some (case fc of
           None \<Rightarrow> \<lparr>v_type = VAL_INVALID, v_data = []\<rparr>
         | Some fc \<Rightarrow> \<lparr>v_type = VAL_BLOB, v_data = text_of (f_data fc)\<rparr>)) })"

definition WriteValueFn :: "'z install_env \<Rightarrow> 'z UpdaterFn" where
  "WriteValueFn e name argv =
     with_args e (length argv \<noteq> 2) (name @ ''() expects 2 args'') (name @ ''(): Failed to parse the argument(s)'') argv (\<lambda>args.
       if args ! 1 = [] then args_abort e (name @ ''(): Filename cannot be empty'')
       else do {
         ok \<leftarrow> ie_WriteStringToFile e (args ! 0) (args ! 1);
         ret (truth_value ok) })"

section \<open>The bootloader message\<close>

definition GetBoolProperty :: "string \<Rightarrow> ('z, bool) uw" where
  "GetBoolProperty key = do {
     v \<leftarrow> GetProperty key [];
     ret (v \<in> {''1'', ''y'', ''yes'', ''on'', ''true''}) }"

definition ANDROID_RB_PROPERTY :: string where "ANDROID_RB_PROPERTY = ''sys.powerctl''"

definition RebootNowFn :: "'z install_env \<Rightarrow> 'z UpdaterFn" where
  "RebootNowFn e name argv =
     with_args e (length argv \<noteq> 2) (name @ ''() expects 2 args'') (name @ ''(): Failed to parse the argument(s)'') argv (\<lambda>args. do {
       r \<leftarrow> read_bootloader_message_from (ie_misc e) (cstr (args ! 0));
       case r of
         Inl err \<Rightarrow> ret (StringValue [])
       | Inr boot \<Rightarrow> do {
           w \<leftarrow> write_bootloader_message_to (ie_misc e) (boot\<lparr>bm_command := zeros (length (bm_command boot))\<rparr>) (cstr (args ! 0));
           case w of
             Inl err \<Rightarrow> ret (StringValue [])
           | Inr _ \<Rightarrow> do {
               quiescent \<leftarrow> GetBoolProperty ''ro.boot.quiescent'';
               upd (\<lambda>s. s\<lparr>u_props := AList.update ANDROID_RB_PROPERTY (''reboot,'' @ args ! 1 @ (if quiescent then '',quiescent'' else [])) (u_props s)\<rparr>);
               ErrorAbort (ie_ab e) kRebootFailure (name @ ''() failed to reboot'') } } })"

definition SetStageFn :: "'z install_env \<Rightarrow> 'z UpdaterFn" where
  "SetStageFn e name argv =
     with_args e (length argv \<noteq> 2) (name @ ''() expects 2 args'') (parse_failed name) argv (\<lambda>args. do {
       r \<leftarrow> read_bootloader_message_from (ie_misc e) (cstr (args ! 0));
       case r of
         Inl err \<Rightarrow> ret (StringValue [])
       | Inr boot \<Rightarrow> do {
           w \<leftarrow> write_bootloader_message_to (ie_misc e) (boot\<lparr>bm_stage := strlcpy (bm_stage boot) (args ! 1)\<rparr>) (cstr (args ! 0));
           case w of Inl err \<Rightarrow> ret (StringValue []) | Inr _ \<Rightarrow> ret (StringValue (args ! 0)) } })"

text \<open>A stage without a terminator runs on into the field that follows it.\<close>

definition GetStageFn :: "'z install_env \<Rightarrow> 'z UpdaterFn" where
  "GetStageFn e name argv =
     with_args e (length argv \<noteq> 1) (name @ ''() expects 1 arg'') (parse_failed name) argv (\<lambda>args. do {
       r \<leftarrow> read_bootloader_message_from (ie_misc e) (cstr (args ! 0));
       case r of
         Inl err \<Rightarrow> ret (StringValue [])
       | Inr boot \<Rightarrow> do {
           CHECK (NUL \<in> set (bm_stage boot @ bm_reserved boot));
           ret (StringValue (bm_stage boot @ bm_reserved boot)) } })"

definition WipeBlockDeviceFn :: "'z install_env \<Rightarrow> 'z UpdaterFn" where
  "WipeBlockDeviceFn e name argv =
     with_args e (length argv \<noteq> 2) (name @ ''() expects 2 args'') (parse_failed name) argv (\<lambda>args.
       case ab_parse_uint (ie_ab e) (cstr (args ! 1)) SIZE_MAX of
         None \<Rightarrow> ret None
       | Some len \<Rightarrow> do {
           fd \<leftarrow> ota_open (cstr (args ! 0)) [O_WRONLY];
           status \<leftarrow> ie_wipe_block_device e fd len;
           (if fd = -1 then ret 0 else ota_close fd);
           ret (truth_value (status = 0)) })"

definition EnableRebootFn :: "'z install_env \<Rightarrow> 'z UpdaterFn" where
  "EnableRebootFn e name argv =
     (if argv \<noteq> [] then args_abort e (name @ ''() expects no args, got '' @ to_string (length argv))
      else do { send (''enable_reboot'' @ [NL]); ret (StringValue ''t'') })"

definition Tune2FsFn :: "'z install_env \<Rightarrow> 'z UpdaterFn" where
  "Tune2FsFn e name argv =
     with_args e (argv = []) (name @ ''() expects args'') (name @ ''() could not read args'') argv (\<lambda>args. do {
       result \<leftarrow> ie_tune2fs e (name # map cstr args);
       if result \<noteq> 0 then ErrorAbort (ie_ab e) kTune2FsFailure (name @ ''() returned error code '' @ int_to_string result)
       else ret (StringValue ''t'') })"

section \<open>Registration\<close>

definition install_functions :: "'z install_env \<Rightarrow> (string \<times> 'z UpdaterFn) list" where
  "install_functions e =
     [(''mount'', MountFn e), (''is_mounted'', IsMountedFn e), (''unmount'', UnmountFn e), (''format'', FormatFn e),
      (''show_progress'', ShowProgressFn e), (''set_progress'', SetProgressFn e), (''delete'', DeleteFn e), (''delete_recursive'', DeleteFn e),
      (''package_extract_dir'', PackageExtractDirFn e), (''package_extract_file'', PackageExtractFileFn e), (''symlink'', SymlinkFn e),
      (''set_metadata'', SetMetadataFn e), (''set_metadata_recursive'', SetMetadataFn e), (''getprop'', GetPropFn e),
      (''file_getprop'', FileGetPropFn e), (''apply_patch'', ApplyPatchFn e), (''apply_patch_check'', ApplyPatchCheckFn e),
      (''apply_patch_space'', ApplyPatchSpaceFn e), (''wipe_block_device'', WipeBlockDeviceFn e), (''read_file'', ReadFileFn e),
      (''sha1_check'', Sha1CheckFn e), (''rename'', RenameFn e), (''write_value'', WriteValueFn e), (''wipe_cache'', WipeCacheFn e),
      (''ui_print'', UIPrintFn e), (''run_program'', RunProgramFn e), (''reboot_now'', RebootNowFn e), (''get_stage'', GetStageFn e),
      (''set_stage'', SetStageFn e), (''enable_reboot'', EnableRebootFn e), (''tune2fs'', Tune2FsFn e)]"

text \<open>The function that a script calls by a name is the one with the same key here.\<close>

definition RegisterInstallFunctions :: "'z install_env \<Rightarrow> (string \<times> Fn) list \<Rightarrow> (string \<times> Fn) list" where
  "RegisterInstallFunctions e tbl = foldl (\<lambda>t (name, _). RegisterFunction name (UserFn name) t) tbl (install_functions e)"

section \<open>Removing a tree\<close>

text \<open>\<open>pruned p s0 s\<close>: \<open>s\<close> has the entries of \<open>s0\<close>, less some at or below \<open>p\<close>.\<close>

definition in_tree :: "string \<Rightarrow> string \<Rightarrow> bool" where
  "in_tree p q \<longleftrightarrow> q = p \<or> starts_with (p @ ''/'') q"

definition pruned :: "string \<Rightarrow> 'z updater_world_scheme \<Rightarrow> 'z updater_world_scheme \<Rightarrow> bool" where
  "pruned p s0 s \<longleftrightarrow> set (w_dirs s) \<subseteq> set (w_dirs s0) \<and> (\<forall>q \<in> set (w_dirs s0) - set (w_dirs s). in_tree p q) \<and>
     (\<forall>q. file_of s q = file_of s0 q \<or> file_of s q = None \<and> in_tree p q) \<and>
     (\<forall>q. map_of (u_links s) q = map_of (u_links s0) q \<or> map_of (u_links s) q = None \<and> in_tree p q)"

lemma pruned_refl: "pruned p s s"
  by (simp add: pruned_def)

lemma pruned_simps [simp]:
  "pruned p s0 (s\<lparr>w_oracle := x\<rparr>) = pruned p s0 s" "pruned p s0 (s\<lparr>w_errno := er\<rparr>) = pruned p s0 s" "pruned p s0 (s\<lparr>w_halted := h\<rparr>) = pruned p s0 s"
  by (simp_all add: pruned_def file_of_def)

lemma keep_pruned_event [keeps]: "keep (pruned p s0) next_event"
  by (rule keepI) (simp add: wp_next_event split: list.split)

lemma keep_pruned_fail [keeps]: "keep (pruned p s0) (fail er)"
  unfolding fail_def by (intro keeps keep_upd) simp

lemma keep_pruned_halt [keeps]: "keep (pruned p s0) halt"
  unfolding halt_def by (intro keep_upd) simp

lemma keep_pruned_atomic: "(\<And>s. pruned p s0 s \<Longrightarrow> pruned p s0 (f s)) \<Longrightarrow> keep (pruned p s0) (sys_atomic err f)"
  unfolding sys_atomic_def by (intro keeps keep_upd) (auto intro!: keeps keep_upd split: option.split io_event.split)

lemma keep_pruned_kind [keeps]: "keep (pruned p s0) (sys_kind look err)"
  unfolding sys_kind_def by (intro keeps)

lemma keep_pruned_plain [keeps]: "keep (pruned p s0) sys_plain"
  unfolding sys_plain_def by (intro keeps)

lemma keep_pruned_opendir [keeps]: "keep (pruned p s0) (u_opendir d)"
  unfolding u_opendir_def by (intro keeps)

lemma keep_pruned_unlink: "in_tree p q \<Longrightarrow> keep (pruned p s0) (u_unlink q)"
  unfolding u_unlink_def
  by (rule keep_pruned_atomic) (auto simp: pruned_def remove_entry_def del_file_def file_of_def delete_conv')

lemma keep_pruned_rmdir: "in_tree p (strip_slashes q) \<Longrightarrow> keep (pruned p s0) (u_rmdir q)"
  unfolding u_rmdir_def by (rule keep_pruned_atomic) (auto simp: pruned_def file_of_def)

definition entry_name :: "string \<Rightarrow> bool" where
  "entry_name d \<longleftrightarrow> d \<noteq> [] \<and> CHR ''/'' \<notin> set d"

definition no_slash_end :: "string \<Rightarrow> bool" where
  "no_slash_end p \<longleftrightarrow> p \<noteq> [] \<and> last p \<noteq> CHR ''/''"

lemma strip_no_slash [simp]: "no_slash_end p \<Longrightarrow> strip_slashes p = p"
  by (cases p rule: rev_cases) (simp_all add: no_slash_end_def strip_slashes_def)

lemma no_slash_child: "entry_name d \<Longrightarrow> no_slash_end (p @ ''/'' @ d)"
  using last_in_set [of d] by (cases "last d = CHR ''/''") (auto simp: entry_name_def no_slash_end_def)

lemma in_tree_iff: "in_tree p q \<longleftrightarrow> q = p \<or> (\<exists>r. q = p @ ''/'' @ r)"
  unfolding in_tree_def starts_with_def by (metis append.assoc append_eq_conv_conj append_take_drop_id)

lemma in_tree_child: "in_tree p q \<Longrightarrow> in_tree p (q @ ''/'' @ d)"
  by (auto simp: in_tree_iff)

lemma in_tree_trans: "in_tree p q \<Longrightarrow> in_tree q r \<Longrightarrow> in_tree p r"
  by (auto simp: in_tree_iff)

lemma dir_names_entry: "d \<in> set (dir_names p s) \<Longrightarrow> entry_name d"
  by (auto simp: dir_names_def names_in_def entry_name_def Let_def)

lemma wp_opendir:
  "pruned p s0 s \<Longrightarrow> wp (u_opendir d) (\<lambda>r s'. pruned p s0 s' \<and> (\<forall>names. r = Some names \<longrightarrow> list_all entry_name names)) s"
  using keep_wp [OF keep_pruned_opendir] 
  by (rule wp_conj) (auto simp: u_opendir_def list_all_iff dir_names_entry split: io_event.split intro!: wp_next_eventI)

lemma keep_pruned_children:
  assumes "\<And>d. d \<in> set names \<Longrightarrow> keep I (unlink (path @ ''/'' @ d))"
  shows "keep I (unlink_children unlink path names)"
  using assms by (induction names) (auto intro!: keeps)

lemma keep_pruned_hierarchy: "no_slash_end q \<Longrightarrow> in_tree p q \<Longrightarrow> keep (pruned p s0) (unlink_hierarchy n q)"
proof (induction n arbitrary: q)
  case 0
  then show ?case by (auto simp: CHECK_def intro!: keeps)
next
  case (Suc n)
  have children: "keep (pruned p s0) (unlink_children (unlink_hierarchy n) q names)" if "list_all entry_name names" for names
    using that Suc.prems by (intro keep_pruned_children Suc.IH no_slash_child in_tree_child) (auto simp: list_all_iff)
  have "keep (pruned p s0) (u_opendir q \<bind> (\<lambda>names. case names of None \<Rightarrow> ret (-1) | Some names \<Rightarrow>
      unlink_children (unlink_hierarchy n) q names \<bind> (\<lambda>ok. sys_plain \<bind> (\<lambda>r. if \<not> ok \<or> r < 0 then ret (-1) else u_rmdir q))))"
  proof (rule keepI, rule wp_seq [OF wp_opendir], assumption, rule wp_optionI)
    fix r s' names
    assume *: "pruned p s0 s' \<and> (\<forall>names. r = Some names \<longrightarrow> list_all entry_name names)" "r = Some names"
    then have "keep (pruned p s0) (unlink_children (unlink_hierarchy n) q names \<bind> (\<lambda>ok. sys_plain \<bind> (\<lambda>r. if \<not> ok \<or> r < 0 then ret (-1) else u_rmdir q)))"
      using Suc.prems by (intro keeps children keep_pruned_rmdir) simp_all
    then show "wp (unlink_children (unlink_hierarchy n) q names \<bind> (\<lambda>ok. sys_plain \<bind> (\<lambda>r. if \<not> ok \<or> r < 0 then ret (-1) else u_rmdir q)))
        (\<lambda>_. pruned p s0) s'" using * by (blast intro: keep_wp)
  qed auto
  with Suc.prems show ?case unfolding unlink_hierarchy.simps u_lstat_def
    by (intro keep_bind [OF keep_pruned_kind] keep_option keep_ret keep_if keep_pruned_unlink)
qed

text \<open>The recursion goes no deeper than there are directories with names at least as long.\<close>

definition dirs_beyond :: "string \<Rightarrow> 'z world_scheme \<Rightarrow> nat" where
  "dirs_beyond p s = card {d \<in> set (w_dirs s). length p \<le> length d}"

lemma dirs_beyond_child:
  assumes "p \<in> set (w_dirs s)" "set (w_dirs s') \<subseteq> set (w_dirs s)"
  shows "dirs_beyond (p @ ''/'' @ d) s' < dirs_beyond p s"
  unfolding dirs_beyond_def
proof (rule psubset_card_mono)
  have "p \<in> {d \<in> set (w_dirs s). length p \<le> length d} - {x \<in> set (w_dirs s'). length (p @ ''/'' @ d) \<le> length x}" using assms(1) by simp
  then show "{x \<in> set (w_dirs s'). length (p @ ''/'' @ d) \<le> length x} \<subset> {d \<in> set (w_dirs s). length p \<le> length d}"
    using subsetD [OF assms(2)] by (intro psubsetI subsetI) (simp, blast)
qed simp

lemma dirs_beyond_le: "dirs_beyond p s \<le> length (w_dirs s)"
proof -
  have "dirs_beyond p s \<le> card (set (w_dirs s))" unfolding dirs_beyond_def by (intro card_mono) auto
  then show ?thesis using card_length le_trans by blast
qed

lemma run_children_cong:
  assumes "\<And>d s'. d \<in> set names \<Longrightarrow> I s' \<Longrightarrow> run_state (f (path @ ''/'' @ d)) s' = run_state (g (path @ ''/'' @ d)) s'"
    and "\<And>d. d \<in> set names \<Longrightarrow> keep I (f (path @ ''/'' @ d))" "I s"
  shows "run_state (unlink_children f path names) s = run_state (unlink_children g path names) s"
  using assms
proof (induction names arbitrary: s)
  case (Cons d names)
  obtain r s' where r: "run_state (f (path @ ''/'' @ d)) s = (r, s')" by fastforce
  moreover have "I s'" using keepD [OF Cons.prems(2) Cons.prems(3), of d] r by simp
  moreover have "run_state (g (path @ ''/'' @ d)) s = (r, s')" using Cons.prems(1) [of d s] Cons.prems(3) r by simp
  ultimately show ?case using Cons.IH [of s'] Cons.prems(1,2) by (simp add: run_statements)
qed simp

lemma lstat_dir: "run_state (u_lstat q) s = (Some S_IFDIR, s1) \<Longrightarrow> no_slash_end q \<Longrightarrow> q \<in> set (w_dirs s) \<and> w_dirs s1 = w_dirs s"
  by (auto simp: u_lstat_def sys_kind_def run_eval lkind_def names_dir_def no_slash_end_def split: if_splits list.splits io_event.splits option.splits)

lemma unlink_fuel:
  "no_slash_end q \<Longrightarrow> dirs_beyond q s < n \<Longrightarrow> run_state (unlink_hierarchy (n + k) q) s = run_state (unlink_hierarchy n q) s"
proof (induction n arbitrary: q s)
  case (Suc n)
  obtain r s1 where s1: "run_state (u_lstat q) s = (r, s1)" by fastforce
  obtain names s2 where s2: "run_state (u_opendir q) s1 = (names, s2)" by fastforce
  show ?case
  proof (cases "r = Some S_IFDIR")
    case True
    have dirs: "q \<in> set (w_dirs s)" "w_dirs s1 = w_dirs s" using lstat_dir [of q s s1] s1 True Suc.prems(1) by auto
    note opened = wp_runD [OF wp_opendir [OF pruned_refl [of q s1], of q] s2]
    have "run_state (unlink_children (unlink_hierarchy (n + k)) q ns) s2 = run_state (unlink_children (unlink_hierarchy n) q ns) s2" if "names = Some ns" for ns
    proof (rule run_children_cong [where I = "pruned q s1"])
      fix d s' assume d: "d \<in> set ns" and s': "pruned q s1 s'"
      have child: "no_slash_end (q @ ''/'' @ d)" using opened that d no_slash_child by (auto simp: list_all_iff)
      have "dirs_beyond (q @ ''/'' @ d) s' < n" using dirs_beyond_child [OF dirs(1), of s' d] s' dirs(2) Suc.prems(2) by (simp add: pruned_def)
      then show "run_state (unlink_hierarchy (n + k) (q @ ''/'' @ d)) s' = run_state (unlink_hierarchy n (q @ ''/'' @ d)) s'" by (rule Suc.IH [OF child])
    next
      fix d assume "d \<in> set ns"
      then have "no_slash_end (q @ ''/'' @ d)" using opened that no_slash_child by (auto simp: list_all_iff)
      then show "keep (pruned q s1) (unlink_hierarchy (n + k) (q @ ''/'' @ d))" by (rule keep_pruned_hierarchy) (simp add: in_tree_iff)
    qed (use opened in blast)
    then show ?thesis using s1 s2 True by (cases names) (simp_all add: run_statements)
  next
    case False
    then show ?thesis using s1 by (cases r) (simp_all add: run_statements)
  qed
qed simp

text \<open>A name stands for one entry only; then an unlink or a \<^verbatim>\<open>rmdir\<close> that succeeds leaves nothing under it.\<close>

definition one_kind :: "'z updater_world_scheme \<Rightarrow> string \<Rightarrow> bool" where
  "one_kind s p \<longleftrightarrow> (file_of s p \<noteq> None \<longrightarrow> \<not> names_dir s p \<and> map_of (u_links s) p = None) \<and> (names_dir s p \<longrightarrow> map_of (u_links s) p = None)"

lemma one_kind_pruned: "pruned p s0 s \<Longrightarrow> one_kind s0 q \<Longrightarrow> one_kind s q"
  unfolding pruned_def one_kind_def names_dir_def by (metis subset_iff)

lemma one_kind_simps [simp]:
  "one_kind (s\<lparr>w_oracle := x\<rparr>) = one_kind s" "one_kind (s\<lparr>w_errno := er\<rparr>) = one_kind s"
  by (simp_all add: one_kind_def fun_eq_iff file_of_def names_dir_def)

lemma wp_atomic_zero:
  assumes "one_kind s q" "\<And>s. one_kind s q \<Longrightarrow> err s = None \<Longrightarrow> lkind (f s) q = None"
  shows "wp (sys_atomic err f) (\<lambda>r s'. r = 0 \<longrightarrow> lkind s' q = None) s"
  using assms
  by (auto simp: sys_atomic_def fail_def intro!: wp_next_eventI split: io_event.split option.split)

lemma wp_unlink_zero: "one_kind s q \<Longrightarrow> wp (u_unlink q) (\<lambda>r s'. r = 0 \<longrightarrow> lkind s' q = None) s"
  unfolding u_unlink_def
  by (rule wp_atomic_zero)
    (auto simp: one_kind_def lkind_def remove_entry_def del_file_def file_of_def names_dir_def delete_conv' split: option.splits if_splits)

lemma wp_rmdir_zero: "one_kind s q \<Longrightarrow> wp (u_rmdir q) (\<lambda>r s'. r = 0 \<longrightarrow> lkind s' q = None) s"
  unfolding u_rmdir_def
  by (rule wp_atomic_zero) (auto simp: one_kind_def lkind_def file_of_def names_dir_def split: option.splits if_splits)

lemma unlink_zero:
  assumes "no_slash_end q" "one_kind s q"
  shows "wp (unlink_hierarchy n q) (\<lambda>r s'. r = 0 \<longrightarrow> lkind s' q = None) s"
proof (cases n)
  case (Suc m)
  have stays: "one_kind s' q" if "pruned q s s'" for s' using one_kind_pruned [OF that assms(2)] .
  show ?thesis unfolding Suc unlink_hierarchy.simps u_lstat_def
  proof (rule wp_seq [OF keep_wp [OF keep_pruned_kind pruned_refl [of q s]]], rule wp_optionI, simp, rule wp_ifI, rule wp_unlink_zero, erule stays,
      rule wp_seq [OF wp_opendir], assumption, rule wp_optionI, simp, goal_cases)
    case (1 k s1 k' names s2 ns)
    then have k: "keep (pruned q s) (unlink_children (unlink_hierarchy m) q ns)"
      using assms(1) by (intro keep_pruned_children keep_pruned_hierarchy no_slash_child in_tree_child) (auto simp: list_all_iff in_tree_iff)
    from 1 show ?case
      by (intro wp_seq [OF keep_wp [OF k]] wp_seq [OF keep_wp [OF keep_pruned_plain]] wp_ifI wp_rmdir_zero stays) auto
  qed
qed simp

text \<open>Without faults everything goes: each child in turn, then the empty directory.\<close>

definition calm :: "'z world_scheme \<Rightarrow> bool" where
  "calm s \<longleftrightarrow> w_oracle s = [] \<and> \<not> w_halted s"

lemma fkind_plain: "map_of (u_links s) p = None \<Longrightarrow> fkind s p = lkind s p"
  by (simp add: fkind_def numeral_eq_Suc)

lemma exists_iff: "lkind s q \<noteq> None \<longleftrightarrow> map_of (u_links s) q \<noteq> None \<or> names_dir s q \<or> file_of s q \<noteq> None"
  by (auto simp: lkind_def split: option.splits)

lemma exists_pruned: "pruned p s0 s \<Longrightarrow> lkind s q \<noteq> None \<Longrightarrow> lkind s0 q \<noteq> None"
  unfolding exists_iff pruned_def names_dir_def by (metis subset_iff)

lemma exists_outside:
  assumes "pruned p s0 s" "\<not> in_tree p q" "no_slash_end q" "lkind s0 q \<noteq> None"
  shows "lkind s q \<noteq> None"
  using assms unfolding exists_iff pruned_def names_dir_def by (metis DiffI strip_no_slash)

lemma pruned_trans: "pruned p s0 s \<Longrightarrow> in_tree p q \<Longrightarrow> pruned q s s' \<Longrightarrow> pruned p s0 s'"
  unfolding pruned_def using in_tree_trans by (metis (no_types, lifting) DiffD1 DiffD2 DiffI subset_trans)

lemma dir_names_iff: "no_slash_end q \<Longrightarrow> x \<in> set (dir_names q s) \<longleftrightarrow> entry_name x \<and> lkind s (q @ ''/'' @ x) \<noteq> None"
proof -
  assume q: "no_slash_end q"
  have names: "x \<in> set (names_in q ps) \<longleftrightarrow> entry_name x \<and> q @ ''/'' @ x \<in> set ps" for ps
    by (auto simp: names_in_def entry_name_def Let_def image_iff) (metis append_assoc append_take_drop_id append.simps)+
  have dirs: "names_dir s (q @ ''/'' @ x) \<longleftrightarrow> q @ ''/'' @ x \<in> set (w_dirs s)" if "entry_name x"
    using no_slash_child [OF that, of q] by (simp add: names_dir_def)
  have "x \<in> set (dir_names q s) \<longleftrightarrow> entry_name x \<and> q @ ''/'' @ x \<in> fst ` set (w_files s) \<union> set (w_dirs s) \<union> fst ` set (u_links s)"
    unfolding dir_names_def set_remdups strip_no_slash [OF q] names by auto
  then show ?thesis unfolding exists_iff file_of_def map_of_eq_None_iff using dirs by blast
qed

lemma calm_calls:
  assumes "calm s"
  shows "lkind s q \<noteq> None \<Longrightarrow> run_state (u_lstat q) s = (lkind s q, s)"
    "lkind s q = Some k \<Longrightarrow> k \<noteq> S_IFDIR \<Longrightarrow> run_state (u_unlink q) s = (0, remove_entry q s)"
    "lkind s q = Some S_IFDIR \<Longrightarrow> run_state (u_opendir q) s = (Some (dir_names q s), s)"
    "run_state sys_plain s = (0, s)"
    "lkind s q = Some S_IFDIR \<Longrightarrow> strip_slashes q \<noteq> [] \<Longrightarrow> dir_names q s = [] \<Longrightarrow>
       run_state (u_rmdir q) s = (0, s\<lparr>w_dirs := removeAll (strip_slashes q) (w_dirs s)\<rparr>)"
proof -
  have f: "fkind s q = lkind s q" if "lkind s q = Some S_IFDIR"
    using that by (intro fkind_plain) (auto simp: lkind_def split: if_splits)
  show "lkind s q = Some S_IFDIR \<Longrightarrow> run_state (u_opendir q) s = (Some (dir_names q s), s)"
    using assms f by (simp add: u_opendir_def calm_def run_eval)
qed (use assms in \<open>auto simp: u_lstat_def sys_kind_def u_unlink_def u_rmdir_def calm_def run_eval\<close>)

lemma calm_remove [simp]: "calm (remove_entry q s) = calm s" "calm (s\<lparr>w_dirs := ds\<rparr>) = calm s"
  by (simp_all add: calm_def remove_entry_def del_file_def)

lemma children_go:
  assumes "\<And>d s'. d \<in> set names \<Longrightarrow> pruned q s0 s' \<Longrightarrow> calm s' \<Longrightarrow> lkind s' (q @ ''/'' @ d) \<noteq> None \<Longrightarrow>
      wp (f (q @ ''/'' @ d)) (\<lambda>r s''. r = 0 \<and> calm s'' \<and> pruned (q @ ''/'' @ d) s' s'' \<and> lkind s'' (q @ ''/'' @ d) = None) s'"
    and "calm s" "pruned q s0 s" "distinct names" "no_slash_end q" "q \<in> set (w_dirs s)"
    and "\<And>d. d \<in> set names \<Longrightarrow> d \<in> set (dir_names q s)" "set (dir_names q s) \<subseteq> set names"
  shows "wp (unlink_children f q names) (\<lambda>ok s'. ok \<and> calm s' \<and> pruned q s0 s' \<and> q \<in> set (w_dirs s') \<and> dir_names q s' = []) s"
  using assms
proof (induction names arbitrary: s)
  case (Cons d names)
  have member: "entry_name x \<and> lkind s (q @ ''/'' @ x) \<noteq> None" if "x \<in> set (d # names)" for x
    using Cons.prems(7) [OF that] dir_names_iff [OF Cons.prems(5)] by blast
  show ?case unfolding unlink_children.simps
  proof (rule wp_seq [OF Cons.prems(1)], goal_cases)
    case (5 r s')
    have tree: "in_tree q (q @ ''/'' @ d)" by (simp add: in_tree_iff)
    have others: "x \<in> set (dir_names q s')" if "x \<in> set names" for x
    proof -
      have "x \<noteq> d" using that Cons.prems(4) by auto
      moreover have "entry_name x" using member that by simp
      ultimately have "\<not> in_tree (q @ ''/'' @ d) (q @ ''/'' @ x)" by (auto simp: in_tree_iff entry_name_def)
      with exists_outside [of "q @ ''/'' @ d" s s' "q @ ''/'' @ x"] 5 member [of x] that no_slash_child [OF \<open>entry_name x\<close>] show ?thesis
        unfolding dir_names_iff [OF Cons.prems(5)] by simp
    qed
    have "set (dir_names q s') \<subseteq> set names"
    proof
      fix x assume x: "x \<in> set (dir_names q s')"
      then have "x \<in> set (dir_names q s)" using exists_pruned [of "q @ ''/'' @ d" s s'] 5 unfolding dir_names_iff [OF Cons.prems(5)] by blast
      moreover have "x \<noteq> d" using x 5 unfolding dir_names_iff [OF Cons.prems(5)] by auto
      ultimately show "x \<in> set names" using Cons.prems(8) by auto
    qed
    moreover have "q \<in> set (w_dirs s')" using 5 Cons.prems(6) by (auto simp: pruned_def in_tree_iff)
    moreover have "pruned q s0 s'" using pruned_trans [OF Cons.prems(3) tree] 5 by blast
    ultimately have "wp (unlink_children f q names) (\<lambda>ok s'. ok \<and> calm s' \<and> pruned q s0 s' \<and> q \<in> set (w_dirs s') \<and> dir_names q s' = []) s'"
      using 5 Cons.prems(1,4) by (intro Cons.IH Cons.prems(5) others) auto
    then show ?case using 5 by simp
  qed (use Cons.prems member in auto)
qed simp

lemma unlink_goes:
  "calm s \<Longrightarrow> no_slash_end q \<Longrightarrow> (\<And>p. one_kind s p) \<Longrightarrow> lkind s q \<noteq> None \<Longrightarrow> dirs_beyond q s < n \<Longrightarrow>
     wp (unlink_hierarchy n q) (\<lambda>r s'. r = 0 \<and> calm s' \<and> pruned q s s' \<and> lkind s' q = None) s"
proof (induction n arbitrary: q s)
  case (Suc n)
  have "wp (unlink_hierarchy (Suc n) q) (\<lambda>r s'. r = 0 \<and> calm s') s"
  proof (cases "lkind s q = Some S_IFDIR")
    case True
    have q: "q \<in> set (w_dirs s)" using True Suc.prems(2) by (auto simp: lkind_def names_dir_def no_slash_end_def split: if_splits option.splits)
    have "wp (unlink_children (unlink_hierarchy n) q (dir_names q s)) (\<lambda>ok s'. ok \<and> calm s' \<and> pruned q s s' \<and> q \<in> set (w_dirs s') \<and> dir_names q s' = []) s"
    proof (rule children_go, rule Suc.IH, goal_cases)
      case (2 d s')
      then show ?case using dir_names_entry no_slash_child by blast
    next
      case (3 d s' p)
      then show ?case using one_kind_pruned Suc.prems(3) by blast
    next
      case (5 d s')
      then show ?case using dirs_beyond_child [OF q, of s' d] Suc.prems(5) by (simp add: pruned_def)
    qed (use Suc.prems q in \<open>auto simp: pruned_refl dir_names_def\<close>)
    then obtain s1 where s1: "run_state (unlink_children (unlink_hierarchy n) q (dir_names q s)) s = (True, s1)" "calm s1" "pruned q s s1" "q \<in> set (w_dirs s1)" "dir_names q s1 = []"
      by (auto simp: wp_def split: prod.splits)
    have "map_of (u_links s1) q = None" using one_kind_pruned [OF s1(3) Suc.prems(3), of q] s1(4) Suc.prems(2) by (auto simp: one_kind_def names_dir_def no_slash_end_def)
    then have "lkind s1 q = Some S_IFDIR" using s1(4) Suc.prems(2) by (simp add: lkind_def names_dir_def no_slash_end_def)
    then show ?thesis using s1 True Suc.prems(1,2) by (simp add: wp_def run_statements calm_calls no_slash_end_def)
  next
    case False
    then show ?thesis using Suc.prems by (auto simp: wp_def run_statements run_cases calm_calls)
  qed
  then have "wp (unlink_hierarchy (Suc n) q) (\<lambda>r s'. (r = 0 \<and> calm s') \<and> pruned q s s' \<and> (r = 0 \<longrightarrow> lkind s' q = None)) s"
    by (rule wp_conj [OF _ wp_conj [OF keep_wp [OF keep_pruned_hierarchy [OF Suc.prems(2)] pruned_refl] unlink_zero [OF Suc.prems(2,3)]]]) (simp add: in_tree_iff)
  then show ?case by (rule wp_mono) blast
qed simp

text \<open>
  C40.  \<^verbatim>\<open>dirUnlinkHierarchy\<close>, behind \<^verbatim>\<open>delete_recursive\<close>, on every schedule of faults: it comes to an end (a larger bound
  on the depth changes nothing), removes nothing outside the tree and adds nothing, so that a link
  in the tree is removed and not followed, and when it returns 0 there is nothing left under the
  name.  Without faults it does return 0, whatever the tree.
\<close>

theorem dirUnlinkHierarchy_tree:
  fixes s :: "'z updater_world_scheme"
  assumes "no_slash_end path" "\<forall>p. one_kind s p" "run_state (dirUnlinkHierarchy path) s = (r, s')"
  shows "(\<forall>k. run_state (unlink_hierarchy (length (w_dirs s) + 2 + k) path) s = (r, s')) \<and> pruned path s s' \<and>
    (r = 0 \<longrightarrow> lkind s' path = None) \<and> (calm s \<and> lkind s path \<noteq> None \<longrightarrow> r = 0)"
proof -
  have enough: "dirs_beyond path s < length (w_dirs s) + 2" using dirs_beyond_le [of path s] by simp
  have run: "run_state (unlink_hierarchy (length (w_dirs s) + 2) path) s = (r, s')" using assms(3) by (simp add: dirUnlinkHierarchy_def run_statements)
  have tree: "in_tree path path" by (simp add: in_tree_iff)
  have one: "one_kind s p" for p using assms(2) ..
  have "calm s \<Longrightarrow> lkind s path \<noteq> None \<Longrightarrow> r = 0" using wp_runD [OF unlink_goes [OF _ assms(1) one _ enough] run] by blast
  then show ?thesis
    using unlink_fuel [OF assms(1) enough] run wp_runD [OF keep_wp [OF keep_pruned_hierarchy [OF assms(1) tree] pruned_refl] run]
      wp_runD [OF unlink_zero [OF assms(1) one] run] by simp
qed

section \<open>Types of the results\<close>

text \<open>\<open>yields P m\<close>: every run of \<open>m\<close> returns a value with \<open>P\<close>.\<close>

definition yields :: "('a \<Rightarrow> bool) \<Rightarrow> ('s, 'a) state \<Rightarrow> bool" where
  "yields P m \<longleftrightarrow> (\<forall>s. P (fst (run_state m s)))"

named_theorems yields_intros "the value of a statement decides"

lemma yields_ret [yields_intros]: "P x \<Longrightarrow> yields P (ret x)"
  by (simp add: yields_def)

lemma yields_bind [yields_intros]: "(\<And>x. yields P (f x)) \<Longrightarrow> yields P (m \<bind> f)"
  by (simp add: yields_def split_beta)

lemma yields_if [yields_intros]: "(b \<Longrightarrow> yields P m) \<Longrightarrow> (\<not> b \<Longrightarrow> yields P n) \<Longrightarrow> yields P (if b then m else n)"
  by simp

lemma yields_let [yields_intros]: "(\<And>y. yields P (f y)) \<Longrightarrow> yields P (Let x f)"
  by simp

lemma yields_option [yields_intros]:
  "yields P m \<Longrightarrow> (\<And>y. yields P (f y)) \<Longrightarrow> yields P (case x of None \<Rightarrow> m | Some y \<Rightarrow> f y)"
  by (cases x) simp_all

lemma yields_sum [yields_intros]:
  "(\<And>y. yields P (f y)) \<Longrightarrow> (\<And>y. yields P (g y)) \<Longrightarrow> yields P (case x of Inl y \<Rightarrow> f y | Inr y \<Rightarrow> g y)"
  by (cases x) simp_all

text \<open>Null, or a value of one of the types.\<close>

definition typed :: "ValueType set \<Rightarrow> Value option \<Rightarrow> bool" where
  "typed T r \<longleftrightarrow> (\<forall>v. r = Some v \<longrightarrow> v_type v \<in> T)"

lemma typed_values [yields_intros]:
  "typed T None" "VAL_STRING \<in> T \<Longrightarrow> typed T (StringValue t)" "VAL_STRING \<in> T \<Longrightarrow> typed T (truth_value b)"
  by (simp_all add: typed_def StringValue_def truth_value_def)

lemma yields_ErrorAbort [yields_intros]: "yields (typed T) (ErrorAbort ab c m)"
  unfolding ErrorAbort_def by (intro yields_intros)

lemma yields_with_args [yields_intros]:
  "(\<And>args. yields (typed T) (body args)) \<Longrightarrow> yields (typed T) (with_args e wrong expects failed argv body)"
  unfolding with_args_def by (intro yields_intros)

lemma yields_EvaluateAt [yields_intros]: "(\<And>x. yields (typed T) (k x)) \<Longrightarrow> yields (typed T) (EvaluateAt ab argv i k)"
  unfolding EvaluateAt_def with_arg_def by (intro yields_intros)









section \<open>Arguments that are values\<close>

definition str :: "string \<Rightarrow> Value" where
  "str t = \<lparr>v_type = VAL_STRING, v_data = t\<rparr>"

definition const_args :: "'s arg list \<Rightarrow> Value list \<Rightarrow> bool" where
  "const_args argv vs \<longleftrightarrow> map arg_eval argv = map (\<lambda>v. ret (Some v)) vs"

lemma const_args_length: "const_args argv vs \<Longrightarrow> length argv = length vs"
  unfolding const_args_def using map_eq_imp_length_eq by blast


lemma const_args_Cons: "const_args argv (v # vs) \<longleftrightarrow> (\<exists>a as. argv = a # as \<and> arg_eval a = ret (Some v) \<and> const_args as vs)"
  by (cases argv) (auto simp: const_args_def)

lemma run_ReadArgs_loop:
  "const_args argv (map str ts) \<Longrightarrow> run_state (ReadArgs_loop ab argv acc) s = (Some (acc @ ts), s)"
proof (induction ts arbitrary: argv acc)
  case (Cons t ts)
  then show ?case by (auto simp: const_args_Cons Evaluate_def str_def run_statements)
qed (simp add: const_args_def)


lemma size_add_le: "size_add a b \<le> a + b"
  by (simp add: size_add_def)

lemma run_ReadArgs:
  assumes "const_args argv (map str ts)"
  shows "run_state (ReadArgs ab argv) s = (Some ts, s)"
  using run_ReadArgs_loop [OF assms, of ab "[]" s] size_add_le [of 0 "length argv"]
  by (simp add: ReadArgs_def ReadArgs_range_def)

lemma run_with_args:
  assumes "const_args argv (map str ts)"
  shows "run_state (with_args e False expects failed argv body) s = run_state (body ts) s"
  using assms by (simp add: with_args_def run_statements run_ReadArgs)

lemma wp_with_args:
  assumes "const_args argv (map str ts)" "wp (body ts) Q s"
  shows "wp (with_args e False expects failed argv body) Q s"
  using assms(2) by (simp add: wp_def run_with_args [OF assms(1)])

section \<open>The stage\<close>

lemma cstr_strlcpy: "buf \<noteq> [] \<Longrightarrow> cstr (strlcpy buf src @ ys) = take (length buf - 1) (cstr src)"
proof -
  assume "buf \<noteq> []"
  have "NUL \<notin> set (take (length buf - 1) (cstr src))"
    by (auto simp: cstr_def NUL_def dest!: in_set_takeD set_takeWhileD)
  then show ?thesis using \<open>buf \<noteq> []\<close> by (simp add: strlcpy_def store_def cstr_text)
qed

lemma message_ok_bytes: "length xs = message_size \<Longrightarrow> message_ok (bytes_message xs)"
  by (simp add: message_ok_def bytes_message_def message_size_def text_of_def Let_def)

definition message_at :: "'z misc_env \<Rightarrow> byte list \<Rightarrow> bootloader_message" where
  "message_at e c = bytes_message (take message_size (drop (me_offset e) c))"

text \<open>
  C37.  The stage of a multi-stage package survives a reboot: after a \<^verbatim>\<open>set_stage\<close> that reports success, the
  message on the partition is the old one with a new stage and nothing else on the partition has
  changed, and a \<^verbatim>\<open>get_stage\<close> that gets a result returns the text that was set, cut off after 31 bytes.
\<close>

theorem stage_round_trip:
  assumes "fully_ok (ie_misc e)" "const_args argv [str dev, str stage]" "const_args argv' [str dev]" "cstr dev \<noteq> []"
    and "file_of s (cstr dev) = Some c" "me_offset (ie_misc e) + message_size \<le> length c"
    and "run_state (SetStageFn e name argv) s = (Some v, s1)" "v_data v \<noteq> []"
    and "run_state (GetStageFn e name' argv') s1 = (Some w, s2)" "v_data w \<noteq> []"
  shows "v_data w = take 31 (cstr stage) \<and>
    (\<exists>c'. file_of s1 (cstr dev) = Some c' \<and> outside_same (me_offset (ie_misc e)) message_size c c' \<and>
       message_at (ie_misc e) c' = (message_at (ie_misc e) c)\<lparr>bm_stage := bm_stage (message_at (ie_misc e) c')\<rparr>)"
proof -
  let ?m = "ie_misc e" and ?d = "cstr dev"
  let ?boot = "\<lambda>boot. boot\<lparr>bm_stage := strlcpy (bm_stage boot) stage\<rparr>"
  have boot: "message_ok (message_at ?m c)" "message_ok (?boot (message_at ?m c))"
    using message_ok_bytes [of "take message_size (drop (me_offset ?m) c)"] assms(6) by (simp_all add: message_at_def message_ok_def)
  have set_run: "run_state (SetStageFn e name argv) s = (let (r, s') = run_state (read_bootloader_message_from ?m ?d) s in
      case r of Inl err \<Rightarrow> (StringValue [], s')
      | Inr boot \<Rightarrow> let (w, s'') = run_state (write_bootloader_message_to ?m (?boot boot) ?d) s' in (StringValue (if w = Inr () then dev else []), s''))"
    using const_args_length [OF assms(2)] by (auto simp: SetStageFn_def run_with_args [of argv "[dev, stage]", simplified, OF assms(2)] run_statements split: sum.split prod.split)
  obtain r s' where read1: "run_state (read_bootloader_message_from ?m ?d) s = (r, s')" by fastforce
  note first = wp_runD [OF message.load [OF assms(1,5)] read1]
  obtain old where old: "r = Inr old" using set_run read1 assms(7,8) by (cases r) (auto simp: StringValue_def cstr_def)
  then have "old = message_at ?m c" using first by (simp add: message_at_def)
  obtain q where wr: "run_state (write_bootloader_message_to ?m (?boot old) ?d) s' = (q, s1)"
    using set_run read1 assms(7) old by (auto split: prod.splits)
  have "q = Inr ()" using set_run read1 assms(7,8) old wr by (auto simp: StringValue_def cstr_def split: if_splits)
  obtain c' where c': "file_of s1 ?d = Some c'" "outside_same (me_offset ?m) message_size c c'"
      "take message_size (drop (me_offset ?m) c') = message_bytes (?boot old)"
    using wp_runD [OF message.wp_save_region [OF assms(1) boot(2) conjunct1 [OF first] assms(6)]] wr \<open>q = Inr ()\<close> \<open>old = message_at ?m c\<close> by blast
  have new: "message_at ?m c' = ?boot old" unfolding message_at_def c'(3)
    using message_round_trip(2) boot(2) \<open>old = message_at ?m c\<close> by simp
  have get_run: "run_state (GetStageFn e name' argv') s1 = (let (r, s') = run_state (read_bootloader_message_from ?m ?d) s1 in
      case r of Inl err \<Rightarrow> (StringValue [], s')
      | Inr boot \<Rightarrow> (StringValue (bm_stage boot @ bm_reserved boot), snd (run_state (CHECK (NUL \<in> set (bm_stage boot @ bm_reserved boot))) s')))"
    using const_args_length [OF assms(3)] by (auto simp: GetStageFn_def run_with_args [of argv' "[dev]", simplified, OF assms(3)] run_statements split: sum.split prod.split)
  obtain r2 s3 where read2: "run_state (read_bootloader_message_from ?m ?d) s1 = (r2, s3)" by fastforce
  obtain b where b: "r2 = Inr b" using get_run read2 assms(9,10) by (cases r2) (auto simp: StringValue_def cstr_def)
  have "b = message_at ?m c'" using wp_runD [OF message.load [OF assms(1) c'(1)] read2] b by (simp add: message_at_def)
  then have "v_data w = cstr (strlcpy (bm_stage old) stage @ bm_reserved old)"
    using get_run read2 b assms(9) new by (auto simp: StringValue_def)
  moreover have "length (bm_stage old) = 32" using boot(1) \<open>old = message_at ?m c\<close> by (simp add: message_ok_def)
  ultimately have "v_data w = take 31 (cstr stage)" using cstr_strlcpy [of "bm_stage old"] by fastforce
  then show ?thesis using c'(1,2) new \<open>old = message_at ?m c\<close> by auto
qed

section \<open>Renaming\<close>

text \<open>
  The contents \<open>c\<close> are at the old or at the new name, and neither is a directory or a link.  With
  \<open>quiet\<close>, no faults are to come.
\<close>

definition at_one_place :: "string \<Rightarrow> string \<Rightarrow> byte list \<Rightarrow> 'z updater_world_scheme \<Rightarrow> bool" where
  "at_one_place src dst c s \<longleftrightarrow> (file_of s src = Some c \<or> file_of s src = None \<and> file_of s dst = Some c) \<and>
     map_of (u_links s) src = None \<and> map_of (u_links s) dst = None \<and> \<not> names_dir s src \<and> \<not> names_dir s dst"

definition rename_inv :: "bool \<Rightarrow> string \<Rightarrow> string \<Rightarrow> byte list \<Rightarrow> 'z updater_world_scheme \<Rightarrow> bool" where
  "rename_inv quiet src dst c s \<longleftrightarrow> at_one_place src dst c s \<and> (quiet \<longrightarrow> w_oracle s = [] \<and> \<not> w_halted s)"

lemma at_one_place_simps [simp]:
  "at_one_place src dst c (s\<lparr>w_oracle := x\<rparr>) = at_one_place src dst c s" "at_one_place src dst c (s\<lparr>w_errno := er\<rparr>) = at_one_place src dst c s"
  "at_one_place src dst c (s\<lparr>w_halted := h\<rparr>) = at_one_place src dst c s"
  by (simp_all add: at_one_place_def file_of_def names_dir_def)

lemma kind_simps [simp]: "lkind (s\<lparr>w_errno := er\<rparr>) p = lkind s p" "fkind (s\<lparr>w_errno := er\<rparr>) p = fkind s p"
proof -
  show "lkind (s\<lparr>w_errno := er\<rparr>) p = lkind s p" for p by (simp add: lkind_def file_of_def names_dir_def)
  then show "fkind (s\<lparr>w_errno := er\<rparr>) p = fkind s p" by (simp add: fkind_def split: option.split)
qed

lemma wp_rename_event:
  assumes "rename_inv quiet src dst c s"
    and "\<And>ev s'. rename_inv quiet src dst c s' \<Longrightarrow> (quiet \<Longrightarrow> ev = IoOk) \<Longrightarrow> (w_halted s' \<Longrightarrow> ev = IoErr EIO 0) \<Longrightarrow> Q ev s'"
  shows "wp next_event Q s"
proof (cases "w_halted s \<or> w_oracle s = []")
  case True
  then show ?thesis using assms(1) assms(2) [of s IoOk] assms(2) [of s "IoErr EIO 0"] unfolding wp_next_event by (auto simp: rename_inv_def)
next
  case False
  then obtain ev evs where "w_oracle s = ev # evs" by (cases "w_oracle s") auto
  then show ?thesis using assms(1) assms(2) [of "s\<lparr>w_oracle := evs\<rparr>" ev] False unfolding wp_next_event by (auto simp: rename_inv_def)
qed

lemma wp_kind:
  assumes "rename_inv quiet src dst c s" "\<And>s x. look (s\<lparr>w_errno := x\<rparr>) = look s"
  shows "wp (sys_kind look err) (\<lambda>r s'. rename_inv quiet src dst c s' \<and> (quiet \<longrightarrow> r = look s')) s"
  unfolding sys_kind_def wp_bind
  by (rule wp_rename_event [OF assms(1)]) (auto simp: fail_def rename_inv_def assms(2) split: io_event.split)

lemma wp_access:
  assumes "rename_inv quiet src dst c s"
  shows "wp (u_access p) (\<lambda>r s'. rename_inv quiet src dst c s' \<and> (quiet \<and> r \<noteq> 0 \<longrightarrow> fkind s' p = None)) s"
  unfolding u_access_def u_stat_def by (rule wp_seq [OF wp_kind [OF assms]]) auto

lemma missing: "map_of (u_links s) p = None \<Longrightarrow> lkind s p = None \<Longrightarrow> file_of s p = None"
  by (auto simp: lkind_def split: if_splits option.splits)

definition plain_name :: "string \<Rightarrow> bool" where
  "plain_name p \<longleftrightarrow> p \<noteq> [] \<and> NUL \<notin> set p \<and> last p \<noteq> CHR ''/''"

lemma strip_plain: "plain_name p \<Longrightarrow> strip_slashes p = p"
  by (rule strip_no_slash) (simp add: plain_name_def no_slash_end_def)

lemma strip_append: "strip_slashes p = [] \<or> (\<exists>n. p = strip_slashes p @ replicate n (CHR ''/''))"
proof -
  have "p = strip_slashes p @ rev (takeWhile (\<lambda>c. c = CHR ''/'') (rev p))"
    unfolding strip_slashes_def by (metis rev_append rev_rev_ident takeWhile_dropWhile_id)
  moreover have "set (takeWhile (\<lambda>c. c = CHR ''/'') (rev p)) \<subseteq> {CHR ''/''}" by (auto dest: set_takeWhileD)
  then obtain n where "takeWhile (\<lambda>c. c = CHR ''/'') (rev p) = replicate n (CHR ''/'')"
    by (metis replicate_length_same singletonD subsetD)
  ultimately show ?thesis by (metis rev_replicate)
qed

lemma prefix_names:
  assumes "p \<in> set (slash_prefixes dst)" "plain_name src" "\<not> starts_with (src @ ''/'') dst"
  shows "strip_slashes p \<noteq> src" "strip_slashes p \<noteq> dst"
proof -
  obtain i where i: "p = take i dst" "i < length dst" "dst ! i = CHR ''/''" using assms(1) by (auto simp: slash_prefixes_def)
  have "length (strip_slashes p) \<le> i" using i(1,2) length_dropWhile_le [of "\<lambda>c. c = CHR ''/''" "rev p"] by (simp add: strip_slashes_def)
  then show "strip_slashes p \<noteq> dst" using i(2) by auto
  show "strip_slashes p \<noteq> src"
  proof
    assume src: "strip_slashes p = src"
    then obtain n where n: "p = src @ replicate n (CHR ''/'')" using strip_append [of p] assms(2) by (auto simp: plain_name_def)
    have "take (Suc i) dst = src @ replicate (Suc n) (CHR ''/'')"
      using i by (simp add: take_Suc_conv_app_nth n [symmetric] flip: replicate_append_same)
    then have "take (length src + 1) (take (Suc i) dst) = src @ ''/''" by simp
    moreover have "length src + 1 \<le> Suc i" using i n by (metis Suc_eq_plus1 Suc_le_mono length_append le_add1 length_take min.absorb2 less_imp_le_nat)
    ultimately show False using assms(3) by (simp add: starts_with_def min_def)
  qed
qed

lemma wp_rename_atomic:
  assumes "rename_inv quiet src dst c s"
    and "\<And>s :: 'a updater_world_scheme. at_one_place src dst c s \<Longrightarrow> err s = None \<Longrightarrow> at_one_place src dst c (f s)"
    and "\<And>s :: 'a updater_world_scheme. w_oracle (f s) = w_oracle s \<and> w_halted (f s) = w_halted s"
  shows "wp (sys_atomic err f) (\<lambda>r s'. rename_inv quiet src dst c s' \<and> (r = 0 \<longrightarrow> (\<exists>s0. at_one_place src dst c s0 \<and> err s0 = None \<and> s' = f s0))) s"
  unfolding sys_atomic_def wp_bind
proof (rule wp_rename_event [OF assms(1)], goal_cases)
  case (1 ev s')
  then show ?case using assms(2,3) by (cases ev) (auto simp: fail_def rename_inv_def split: option.split)
qed

lemma wp_mkdir:
  assumes "rename_inv quiet src dst c s" "p \<in> set (slash_prefixes dst)" "plain_name src" "plain_name dst" "\<not> starts_with (src @ ''/'') dst"
  shows "wp (u_mkdir p) (\<lambda>_ s'. rename_inv quiet src dst c s') s"
proof -
  note names = prefix_names [OF assms(2,3,5)] strip_plain [OF assms(3)] strip_plain [OF assms(4)]
  show ?thesis
    unfolding u_mkdir_def
    by (rule wp_mono [OF wp_rename_atomic [OF assms(1)]]) (use names in \<open>auto simp: at_one_place_def names_dir_def file_of_def\<close>)
qed

lemma cstr_prefix: "plain_name dst \<Longrightarrow> p \<in> set (slash_prefixes dst) \<Longrightarrow> cstr p = p"
  by (intro cstr_plain) (auto simp: slash_prefixes_def plain_name_def dest: in_set_takeD)

lemma wp_make_parents:
  assumes "rename_inv quiet src dst c s" "plain_name src" "plain_name dst" "\<not> starts_with (src @ ''/'') dst"
  shows "wp (make_parents dst) (\<lambda>_ s'. rename_inv quiet src dst c s') s"
proof -
  have "wp (make_parents_loop ps) (\<lambda>_ s'. rename_inv quiet src dst c s') s" if "rename_inv quiet src dst c s" "set ps \<subseteq> set (slash_prefixes dst)"
    for ps and s :: "'a updater_world_scheme"
    using that
  proof (induction ps arbitrary: s)
    case (Cons p ps)
    show ?case unfolding make_parents_loop.simps u_stat_def
    proof (rule wp_seq [OF wp_kind [OF Cons.prems(1)]], simp, rule wp_ifI, goal_cases)
      case (2 k s1)
      then show ?case using Cons by (intro wp_seq [OF wp_mkdir [OF _ _ assms(2-4)]]) auto
    qed (use Cons in auto)
  qed simp
  moreover have "map cstr (slash_prefixes dst) = slash_prefixes dst" using cstr_prefix [OF assms(3)] by (simp add: map_idI)
  ultimately show ?thesis using assms(1) by (simp add: make_parents_def)
qed

lemma move_plain:
  assumes "at_one_place src dst c s" "rename_error src dst s = None" "src \<noteq> dst"
  shows "at_one_place src dst c (move_entry src dst s)" "file_of (move_entry src dst s) dst = Some c"
proof -
  have k: "lkind s src \<noteq> None" "map_of (u_links s) src = None" "map_of (u_links s) dst = None" "\<not> names_dir s src"
    using assms(1,2) by (cases "lkind s src"; auto simp: rename_error_def at_one_place_def)+
  then have "file_of s src = Some c" using assms(1) by (auto simp: at_one_place_def lkind_def split: if_splits)
  then have "move_entry src dst s = set_file dst c (del_file dst (del_file src s))"
    using k assms(3) by (simp add: move_entry_def remove_entry_def del_file_def)
  then show "at_one_place src dst c (move_entry src dst s)" "file_of (move_entry src dst s) dst = Some c"
    using assms(1,3) by (auto simp: at_one_place_def set_file_def del_file_def file_of_def names_dir_def update_conv' delete_conv')
qed

lemma wp_rename_plain:
  assumes "rename_inv quiet src dst c s" "src \<noteq> dst"
  shows "wp (u_rename src dst) (\<lambda>r s'. rename_inv quiet src dst c s' \<and> (r = 0 \<longrightarrow> file_of s' dst = Some c)) s"
  unfolding u_rename_def
proof (rule wp_mono [OF wp_rename_atomic [OF assms(1)]], goal_cases)
  case (1 s)
  then show ?case using move_plain(1) assms(2) by blast
next
  case (2 s)
  then show ?case by (auto simp: move_entry_def remove_entry_def set_file_def del_file_def Let_def split: option.split)
next
  case (3 r s')
  then show ?case using move_plain(2) assms(2) by blast
qed

lemma wp_RenameFn:
  assumes "const_args argv [str src, str dst]" "plain_name src" "plain_name dst" "\<not> starts_with (src @ ''/'') dst" "src \<noteq> dst"
    and "rename_inv quiet src dst c s"
  shows "wp (RenameFn e name argv) (\<lambda>r s'. rename_inv quiet src dst c s' \<and> (quiet \<and> r \<noteq> None \<longrightarrow> file_of s' dst = Some c)) s" (is "wp _ ?Q s")
proof -
  have names: "cstr src = src" "cstr dst = dst" "src \<noteq> []" "dst \<noteq> []" using assms(2,3) cstr_plain by (auto simp: plain_name_def)
  have err: "wp (errno_text e \<bind> (\<lambda>t. ErrorAbort ab cause (msg t))) ?Q s1" if "rename_inv quiet src dst c s1"
    for ab cause msg and s1 :: "'a updater_world_scheme"
    using that by (auto simp: errno_text_def ErrorAbort_def rename_inv_def at_one_place_def file_of_def names_dir_def)
  have access: "wp (u_access dst \<bind> (\<lambda>r. if r = 0 then u_access src \<bind> (\<lambda>r. ret (r \<noteq> 0)) else ret False))
      (\<lambda>already s'. rename_inv quiet src dst c s' \<and> (quiet \<and> already \<longrightarrow> file_of s' dst = Some c)) s1"
    if "rename_inv quiet src dst c s1" for s1 :: "'a updater_world_scheme"
  proof (rule wp_seq [OF wp_access [OF that, of dst]], rule wp_ifI, rule wp_seq [OF wp_access [of quiet src dst c _ src]], erule conjunct1, goal_cases)
    case (1 r1 s2 r2 s3)
    then show ?case using missing [of s3 src] fkind_plain [of s3 src] by (auto simp: rename_inv_def at_one_place_def)
  qed auto
  have wrong: "(length argv \<noteq> 2) = False" using const_args_length [OF assms(1)] by simp
  have args: "const_args argv (map str [src, dst])" using assms(1) by simp
  show ?thesis
    unfolding RenameFn_def wrong
  proof (rule wp_with_args [OF args], unfold Let_def nth_Cons_0 One_nat_def nth_Cons_Suc, simp only: names if_False,
      rule wp_seq [OF wp_make_parents [OF assms(6,2-4)]], rule wp_ifI, rule err, assumption, rule wp_seq [OF access], assumption, rule wp_ifI, goal_cases)
    case (2 ok s1 already s2)
    then have "rename_inv quiet src dst c s2" by simp
    then show ?case by (intro wp_seq [OF wp_rename_plain [OF _ assms(5)]] wp_ifI err) auto
  qed simp
qed

text \<open>
  C38.  \<^verbatim>\<open>rename\<close> never loses the file and can be repeated: when the contents are at the old name, or already
  at the new one, then after a call they are at one of the two, however the call ends (an error or
  a power loss at any point).  A call without faults that returns a value leaves them at the new
  name.
\<close>

theorem rename_loses_nothing:
  assumes "const_args argv [str src, str dst]" "plain_name src" "plain_name dst" "\<not> starts_with (src @ ''/'') dst" "src \<noteq> dst"
    and "at_one_place src dst c s"
  shows "at_one_place src dst c (snd (run_state (RenameFn e name argv) s)) \<and>
    (w_oracle s = [] \<and> \<not> w_halted s \<and> fst (run_state (RenameFn e name argv) s) \<noteq> None \<longrightarrow>
       file_of (snd (run_state (RenameFn e name argv) s)) dst = Some c)"
  using wp_RenameFn [OF assms(1-5), of False c s e name] wp_RenameFn [OF assms(1-5), of True c s e name] assms(6)
  by (simp add: wp_run rename_inv_def)

section \<open>Applying patches\<close>





section \<open>Recursive metadata\<close>

text \<open>
  A tree walk that fails is taken for a success: \<^verbatim>\<open>nftw\<close> returns -1, which is added to the number of
  failures, and only a positive number is an error.
\<close>

lemma set_metadata_ignores_walk_failure:
  assumes "const_args argv [str f]" "\<not> w_halted s" "w_oracle s = []" "lkind s (cstr f) = Some k" "ie_walk e (cstr f) s = None"
  shows "run_state (SetMetadataFn e ''set_metadata_recursive'' argv) s = (StringValue [], s)"
proof -
  have wrong: "(length argv mod 2 \<noteq> 1) = False" using const_args_length [OF assms(1)] by simp
  have args: "const_args argv (map str [f])" using assms(1) by simp
  have stat: "run_state (u_lstat (cstr f)) s = (Some k, s)" using assms(2-4) by (simp add: u_lstat_def sys_kind_def run_eval)
  show ?thesis
    unfolding SetMetadataFn_def wrong run_with_args [OF args]
    using stat assms(5) by (simp add: run_statements run_cases)
qed

section \<open>A sample device\<close>

definition sample_install :: "unit install_env" where
  "sample_install = \<lparr>ie_block = \<lparr>be_env = \<lparr>e_ab = sample_base, e_sha1 = sample_sha1, e_bspatch = copy_bspatch, e_zlib = sample_zlib,
       e_platform = \<lparr>pf_statfs = (\<lambda>_. Some (4096, 100)), pf_open_files = Some []\<rparr>, e_cache = default_cache_location\<rparr>,
       be_ReadFdToString = (\<lambda>_. ret None), be_WriteStringToFd = (\<lambda>_ _. ret True), be_Dirname = id, be_discard = (\<lambda>_ c. c),
       be_brotli = \<lparr>br_step = (\<lambda>_ _ _. (True, 0, [])), br_more = (\<lambda>_. False), br_turns = 0\<rparr>, be_strerror = (\<lambda>_. ''error'')\<rparr>,
     ie_misc = sample_misc,
     ie_zip = \<lparr>zh_entries = [''f''], zh_start = 0, zh_memory = (\<lambda>_. Inr [1]), zh_file = (\<lambda>_ _. ret 0), zh_length = (\<lambda>_. 1), zh_error = (\<lambda>_. ''error'')\<rparr>,
     ie_blkid = (\<lambda>_. None), ie_walk = (\<lambda>_ _. Some []), ie_exec = (\<lambda>_ _. ret 0), ie_run = (\<lambda>_. ret 0), ie_tune2fs = (\<lambda>_. ret 0),
     ie_wipe_block_device = (\<lambda>_ _. ret 0), ie_WriteStringToFile = (\<lambda>_ _. ret True), ie_ParseDouble = Some\<rparr>"

definition device :: "(string \<times> byte list) list \<Rightarrow> string list \<Rightarrow> string list \<Rightarrow> int \<Rightarrow> updater_world" where
  "device files devs dirs n = \<lparr>w_halted = False, w_files = files, w_dev = devs, w_dirs = dirs, w_fds = [], w_next_fd = n, w_oracle = [],
     w_errno = 0, w_stdout = [], archive = None, io_is_retry = False, should_inject_cache = [], filename_cache = [], read_fault_file_name = [],
     write_fault_file_name = [], fsync_fault_file_name = [], have_eio_error = False, script = [], errmsg = [], error_code = kNoError,
     cause_code = kNoCause, st_is_retry = False, sha_ctx = [], memory_sink_str = [], z_calls = [], z_ret = 0, actual_target_length = 0, total_written = 0, failure_type = kNoCause, is_retry = False,
     stash_map = [], p_cpos = 0, p_freestash = [], p_foundwrites = False, p_isunresumable = False, p_written = 0, p_stashed = 0, p_buffer = [],
     p_target_verified = False, nti_writer = None, nti_receiver_available = False, nti_chunks = [], nti_brotli = [], diff_writer = None,
     cmd_pipe = [], u_links = [], u_attrs = (\<lambda>_. \<lparr>at_uid = 0, at_gid = 0, at_mode = 0, at_selabel = [], at_caps = None\<rparr>), u_props = [],
     u_mounts = [], g_mounts_state = [], max_warnings = 20\<rparr>"

definition lits :: "Value list \<Rightarrow> updater_world arg list" where
  "lits vs = map (\<lambda>v. Arg (ret (Some v)) 0 0) vs"

lemma const_lits [simp]: "const_args (lits vs) vs"
  by (simp add: const_args_def lits_def)


lemma device_write:
  assumes "length xs = message_size" "message_size \<le> length c" "0 \<le> n"
  shows "run_state (write_misc_partition sample_misc xs ''/dev/misc'' 0) (device [(''/dev/misc'', c)] [''/dev/misc''] [] n) =
    (Inr (), device [(''/dev/misc'', overlay 0 xs c)] [''/dev/misc''] [] (n + 1))"
  using assms
  by (simp add: write_misc_partition_def sample_misc_def device_def with_fd_def run_eval file_defs message_size_def Let_def
      cong: bind_weak_cong let_weak_cong)

lemma device_read:
  assumes "message_size \<le> length c" "0 \<le> n"
  shows "run_state (read_bootloader_message_from sample_misc ''/dev/misc'') (device [(''/dev/misc'', c)] [''/dev/misc''] [] n) =
    (Inr (bytes_message (take message_size c)), device [(''/dev/misc'', c)] [''/dev/misc''] [] (n + 1))"
  using assms
  by (simp add: read_bootloader_message_from_def read_misc_partition_def wait_for_device_def sample_misc_def device_def with_fd_def run_eval file_defs message_size_def Let_def
      eval_nat_numeral cong: bind_weak_cong let_weak_cong)

lemma sample_install_simps [simp]:
  "ie_misc sample_install = sample_misc" "ie_ab sample_install = sample_base" "me_offset sample_misc = 0"
  "e_sha1 (ie_env sample_install) = sample_sha1" "e_bspatch (ie_env sample_install) = copy_bspatch"
  "e_cache (ie_env sample_install) = default_cache_location"
  by (simp_all add: sample_install_def sample_misc_def)

theorem stage_round_trip_witness:
  "\<exists>s1 s2 w. run_state (SetStageFn sample_install ''set_stage'' (lits [str ''/dev/misc'', str ''2/3''])) (device [(''/dev/misc'', replicate 2048 0)] [''/dev/misc''] [] 3) =
       (StringValue ''/dev/misc'', s1) \<and>
     run_state (GetStageFn sample_install ''get_stage'' (lits [str ''/dev/misc''])) s1 = (Some w, s2) \<and> v_data w = ''2/3''"
proof -
  let ?c = "replicate 2048 (0 :: byte)" and ?w = "\<lambda>c n. device [(''/dev/misc'', c)] [''/dev/misc''] [] n"
  let ?old = "bytes_message (take message_size ?c)"
  let ?new = "?old\<lparr>bm_stage := strlcpy (bm_stage ?old) ''2/3''\<rparr>"
  let ?c1 = "overlay 0 (message_bytes ?new) ?c"
  have name: "cstr ''/dev/misc'' = ''/dev/misc''" "cstr ''2/3'' = ''2/3''" by (simp_all add: cstr_def)
  have sz: "message_size = 2048" by (simp add: message_size_def)
  have ok: "message_ok ?old" using message_ok_bytes [of "take message_size ?c"] by (simp add: sz)
  then have ok1: "message_ok ?new" by (simp add: message_ok_def)
  have len: "length (message_bytes ?new) = message_size" using message_round_trip(1) [OF ok1] .
  have len1: "length ?c1 = 2048" using len by (simp add: overlay_inside sz)
  have a2: "length (lits [str ''/dev/misc'', str ''2/3'']) = 2" "length (lits [str ''/dev/misc'']) = 1" by (simp_all add: lits_def)
  have set_run: "run_state (SetStageFn sample_install ''set_stage'' (lits [str ''/dev/misc'', str ''2/3''])) (?w ?c 3) = (StringValue ''/dev/misc'', ?w ?c1 (3 + 1 + 1))"
    using device_read [of ?c 3] device_write [OF len, of ?c "3 + 1"] run_with_args [of "lits [str ''/dev/misc'', str ''2/3'']" "[''/dev/misc'', ''2/3'']"]
    by (simp add: SetStageFn_def a2 run_statements write_bootloader_message_to_def name sz)
  have new: "bytes_message (take message_size ?c1) = ?new"
    using len len1 message_round_trip(2) [OF ok1] by (simp add: overlay_inside sz)
  let ?t = "bm_stage ?new @ bm_reserved ?new"
  have "length (bm_stage ?old) = 32" using ok unfolding message_ok_def by blast
  then have "bm_stage ?old \<noteq> []" by (metis list.size(3) zero_neq_numeral)
  then have stage: "cstr ?t = ''2/3''"
    using cstr_strlcpy [of "bm_stage ?old" "''2/3''" "bm_reserved ?old"] name \<open>length (bm_stage ?old) = 32\<close> by simp
  have get_run: "\<exists>s2. run_state (GetStageFn sample_install ''get_stage'' (lits [str ''/dev/misc''])) (?w ?c1 (3 + 1 + 1)) = (StringValue ?t, s2)"
    using device_read [of ?c1 "3 + 1 + 1"] run_with_args [of "lits [str ''/dev/misc'']" "[''/dev/misc'']"] len1 new
    by (simp add: GetStageFn_def a2 run_statements name sz split_beta)
  then obtain s2 where get: "run_state (GetStageFn sample_install ''get_stage'' (lits [str ''/dev/misc''])) (?w ?c1 (3 + 1 + 1)) =
      (Some \<lparr>v_type = VAL_STRING, v_data = ''2/3''\<rparr>, s2)" using stage by (auto simp: StringValue_def)
  have "file_of (?w ?c 3) (cstr ''/dev/misc'') = Some ?c" by (simp add: device_def file_of_def name)
  from stage_round_trip [OF _ const_lits const_lits _ this _ set_run [unfolded StringValue_def] _ get] set_run get
  show ?thesis by (auto simp: sample_fully_ok name sz)
qed

text \<open>The rename of a file, with a power loss at the second call of the kernel, and without faults.\<close>

lemma sample_rename_args: "plain_name ''/a''" "plain_name ''/d/b''" "\<not> starts_with (''/a'' @ ''/'') ''/d/b''" "(''/a'' :: string) \<noteq> ''/d/b''"
  by (simp_all add: plain_name_def starts_with_def NUL_def)

lemma sample_rename_run: "fst (run_state (RenameFn sample_install ''rename'' (lits [str ''/a'', str ''/d/b''])) (device [(''/a'', [1])] [] [] 3)) \<noteq> None"
proof -
  have a2: "length (lits [str ''/a'', str ''/d/b'']) = 2" by (simp add: lits_def)
  have "slash_prefixes ''/d/b'' = [''/d'']" "cstr ''/a'' = ''/a''" "cstr ''/d/b'' = ''/d/b''" "cstr ''/d'' = ''/d''"
    by (simp_all add: slash_prefixes_def upt_rec cstr_def)
  then show ?thesis
    using run_with_args [of "lits [str ''/a'', str ''/d/b'']" "[''/a'', ''/d/b'']"]
    by (simp add: RenameFn_def a2 make_parents_def u_stat_def sys_kind_def u_mkdir_def u_access_def u_rename_def device_def run_eval fkind_plain lkind_def names_dir_def
        strip_slashes_def file_defs rename_error_def move_entry_def remove_entry_def StringValue_def Let_def starts_with_def cong: bind_weak_cong let_weak_cong)
qed

theorem rename_loses_nothing_witness:
  "at_one_place ''/a'' ''/d/b'' [1] (snd (run_state (RenameFn sample_install ''rename'' (lits [str ''/a'', str ''/d/b'']))
       (device [(''/a'', [1])] [] [] 3\<lparr>w_oracle := [IoOk, IoHalt 1]\<rparr>))) \<and>
   file_of (snd (run_state (RenameFn sample_install ''rename'' (lits [str ''/a'', str ''/d/b''])) (device [(''/a'', [1])] [] [] 3))) ''/d/b'' = Some [1]"
proof -
  have "at_one_place ''/a'' ''/d/b'' [1] (device [(''/a'', [1])] [] [] 3)"
    by (simp add: at_one_place_def device_def file_of_def names_dir_def strip_slashes_def)
  moreover have "w_oracle (device [(''/a'', [1])] [] [] 3) = []" "\<not> w_halted (device [(''/a'', [1])] [] [] 3)" by (simp_all add: device_def)
  ultimately show ?thesis
    using rename_loses_nothing [OF const_lits sample_rename_args, of "[1]" "device [(''/a'', [1])] [] [] 3\<lparr>w_oracle := [IoOk, IoHalt 1]\<rparr>" sample_install "''rename''"]
      rename_loses_nothing [OF const_lits sample_rename_args, of "[1]" "device [(''/a'', [1])] [] [] 3" sample_install "''rename''"] sample_rename_run by simp
qed








lemma one_kind_plain:
  assumes "list_all (\<lambda>p. \<not> names_dir s p) (map fst (w_files s) @ map fst (u_links s))" "list_all (\<lambda>p. p \<notin> fst ` set (u_links s)) (map fst (w_files s))"
  shows "one_kind s p"
  using assms unfolding one_kind_def file_of_def map_of_eq_None_iff list_all_iff by auto

abbreviation tree_device :: updater_world where
  "tree_device \<equiv> device [(''/d/e/f'', [1]), (''/x'', [2])] [] [''/d'', ''/d/e''] 3\<lparr>u_links := [(''/d/l'', ''/x'')]\<rparr>"

lemma tree_device_simps:
  "w_files tree_device = [(''/d/e/f'', [1]), (''/x'', [2])]" "u_links tree_device = [(''/d/l'', ''/x'')]" "w_dirs tree_device = [''/d'', ''/d/e'']"
  "w_oracle tree_device = []" "w_halted tree_device = False"
  by (simp_all add: device_def)

lemma tree_device_names: "names_dir tree_device p \<longleftrightarrow> p \<noteq> [] \<and> strip_slashes p \<in> {[], ''/d'', ''/d/e''}"
  by (auto simp: names_dir_def tree_device_simps)

lemma tree_device_one: "one_kind tree_device p"
  by (rule one_kind_plain) (simp_all add: tree_device_simps tree_device_names strip_slashes_def)

theorem dirUnlinkHierarchy_tree_witness:
  "\<exists>s'. run_state (dirUnlinkHierarchy ''/d'') tree_device = (0, s') \<and> lkind s' ''/d'' = None \<and> file_of s' ''/x'' = Some [2]"
proof -
  have slash: "no_slash_end ''/d''" by (simp add: no_slash_end_def)
  have one: "\<forall>p. one_kind tree_device p"
    using tree_device_one by blast
  obtain r s' where run: "run_state (dirUnlinkHierarchy ''/d'') tree_device = (r, s')" by fastforce
  note tree = dirUnlinkHierarchy_tree [OF slash one run]
  have "calm tree_device" "lkind tree_device ''/d'' \<noteq> None"
    unfolding calm_def exists_iff by (simp_all add: tree_device_simps tree_device_names strip_slashes_def)
  moreover have "pruned ''/d'' tree_device s'" using tree by (elim conjE)
  then have "file_of s' ''/x'' = file_of tree_device ''/x'' \<or> in_tree ''/d'' ''/x''" unfolding pruned_def by metis
  then have "file_of s' ''/x'' = Some [2]" by (simp add: tree_device_simps file_of_def in_tree_def starts_with_def)
  ultimately show ?thesis using run tree by simp
qed

end
