(* ===== verification/Spec2Isabelle.thy ===== *)
theory Spec2Isabelle
  imports Prelude Range_Sets Verifier Edify Apply_Patch Block_Commands Fuse_Sideload Boot_Control Uncrypt Install_Fns
begin

text \<open>
  A verification library for the Android recovery and updater programs.

  \<^bold>\<open>The system.\<close>  A device reboots into recovery to install a package.  Before the reboot \<^verbatim>\<open>uncrypt\<close>
  turns a package on the encrypted data partition into a map of plain blocks, which recovery maps
  into memory without mounting the file system (\<^verbatim>\<open>otautil/SysUtil.cpp\<close>).  Otherwise recovery gets the package
  from a file or, block by block, from a host (\<^verbatim>\<open>fuse_sideload.cpp\<close>), checks its signature
  (\<^verbatim>\<open>verifier.cpp\<close> with the DER cursor of \<^verbatim>\<open>asn1_decoder.cpp\<close>) and runs the updater, which
  evaluates the script of the package (\<^verbatim>\<open>edify/expr.cpp\<close>).  The functions the script calls patch a
  partition as a whole (\<^verbatim>\<open>applypatch/\<close>), run a transfer list on a block device
  (\<^verbatim>\<open>updater/blockimg.cpp\<close>), or mount, extract, link and rename files (\<^verbatim>\<open>updater/install.cpp\<close>); block addresses are range sets (\<^verbatim>\<open>otautil/rangeset.cpp\<close>), and all file
  access of the updater goes through wrappers that can inject faults (\<^verbatim>\<open>otafault/\<close>).  What recovery
  has to do, and which slot boots next, is stored on the \<^verbatim>\<open>misc\<close> partition
  (\<^verbatim>\<open>bootloader_message.cpp\<close>, \<^verbatim>\<open>boot_control.cpp\<close>).

  \<^bold>\<open>The theories\<close>, in the order of their imports.

    \<^item> \<open>Prelude\<close>: bytes, \<^verbatim>\<open>size_t\<close> with its wrap-around, decimal numbers, and the record of the
      string functions of android-base, which are parameters of everything that uses them.
    \<^item> \<open>Range_Sets\<close> (\<^verbatim>\<open>RangeSet\<close>, \<^verbatim>\<open>SortedRangeSet\<close>): parsing undoes printing and always yields
      well-formed sets, overlap and split are those of the block sets, insertion into a sorted set
      is union; the sorted set is an interpretation of the locale \<open>block_set\<close>.
    \<^item> \<open>Asn1\<close> and \<open>Verifier\<close> (\<^verbatim>\<open>asn1_context\<close>, \<^verbatim>\<open>read_pkcs7\<close>, \<^verbatim>\<open>verify_file\<close>): the cursor never leaves its
      buffer, the signature block is found where the encoder puts it, and \<^verbatim>\<open>verify_file\<close> succeeds
      exactly when a key verifies the signature over the signed part.
    \<^item> \<open>World\<close>: the files, descriptors and system calls of a machine on which calls can fail, be
      interrupted, transfer less than asked, or be the last before the power goes; \<open>wp\<close> and
      \<open>keep\<close> reason about every such run.
    \<^item> \<open>Ota_Io\<close>: the wrappers of \<^verbatim>\<open>otafault\<close> and the laws of reading and writing through them.
    \<^item> \<open>Edify\<close>: values, builtins, argument evaluation and the evaluator; a denotational semantics of
      the pure builtins, which the evaluator refines.
    \<^item> \<open>Patching\<close>: digest text, sinks and the two patch formats with bsdiff and zlib as parameters.
    \<^item> \<open>Apply_Patch\<close>: cache space, loading, saving, writing a partition with verification, and
      \<^verbatim>\<open>applypatch\<close>: it is sound and can be resumed after a power loss at any point.
    \<^item> \<open>Block_Io\<close> and \<open>Block_Img\<close>: the whole of \<^verbatim>\<open>blockimg.cpp\<close>: block I/O, the range sink, the new-data
      callbacks, stash files, the commands, the driver and the other registered functions.
    \<^item> \<open>Block_Contents\<close>, \<open>Range_Sink\<close>, \<open>Block_Commands\<close>: what these functions do to the contents of the
      device: block writes and reads are inverse and confined, moving within a buffer equals
      copying, the range sink equals a block write, a \<^verbatim>\<open>move\<close> reaches its target digest,
      verification changes nothing and an update only its device and the cache.
    \<^item> \<open>Fuse_Sideload\<close>: the sideload file system; the locale \<open>block_source\<close> is the contract between
      the read handler and the block fetcher, interpreted for an untrusted and for an honest host.
    \<^item> \<open>Boot_Message\<close>: the bootloader message and \<^verbatim>\<open>get_args\<close> of \<^verbatim>\<open>recovery.cpp\<close>: the options that the
      system writes are the arguments that recovery reads.  The locale \<open>region_store\<close> is the
      contract of a structure at a fixed place of a partition.
    \<^item> \<open>Boot_Control\<close>: the boot control module with its bit fields and checksum: the table-driven
      CRC is the serial one and detects bursts, the block is the second interpretation of
      \<open>region_store\<close>, setting a slot active makes it the one with the highest priority, and
      sessions of calls keep the block valid.  The theorem of this theory combines the two.
    \<^item> \<open>Block_Map\<close> (\<^verbatim>\<open>MemMapping\<close>): scanning of a block map and the memory that it shows.
    \<^item> \<open>Uncrypt\<close> (\<^verbatim>\<open>uncrypt.cpp\<close>): the window of buffers, the ranges, the map file, and the service that
      sets and clears the bootloader message; what \<open>Block_Map\<close> shows of a map that was reported as
      complete are the bytes of the package.
    \<^item> \<open>Install_Fns\<close> (\<^verbatim>\<open>updater/install.cpp\<close>, \<^verbatim>\<open>otautil/DirUtil.cpp\<close>, \<^verbatim>\<open>otautil/ZipUtil.cpp\<close>, \<^verbatim>\<open>mounts.cpp\<close>): the 31
      functions that the updater registers besides those of \<^verbatim>\<open>blockimg.cpp\<close>: the types of their
      results, the round trip of the stage, \<^verbatim>\<open>rename\<close> loses no file and \<^verbatim>\<open>apply_patch\<close> keeps its promise.

  \<^bold>\<open>State and effects.\<close>  Stateful code is a function in the state monad over a record that grows
  along the imports: \<open>world\<close>, \<open>ota_world\<close>, \<open>edify_state\<close>, \<open>patch_world\<close>, \<open>block_world\<close>,
  \<open>updater_world\<close>.  The oracle of the world is the list of outcomes of the coming system calls, so that a theorem for all states
  covers all schedules of faults.  After the process has ended nothing changes the state any more.

  \<^bold>\<open>Bounds and fuel.\<close>  Loops over lists are structural.  \<^verbatim>\<open>read_all\<close>, \<^verbatim>\<open>write_all\<close> and the sink loop
  take the number of bytes (plus ranges) as fuel, since each turn makes progress or leaves; a retry
  loop recurses on the oracle.  The eviction loop of the sideload cache has the number of blocks
  plus one, and is proved to find a block before that.  The loop of uncrypt over the file has the size
  of the file plus one, since each turn moves at least one byte, and the loop that empties the
  window has its five slots; both are proved to leave no block behind.  The recursion that removes a
  directory goes no deeper than the number of directories plus one.

  \<^bold>\<open>Not modelled.\<close>  Code outside the repository is a parameter with named assumptions: the string
  and file helpers of android-base, SHA-1, SHA-256 and RSA/ECDSA, bsdiff, zlib, brotli, libfec and
  the zip reader.  Console output and logs are left out.  The user interface, the control of
  processes and of mounts by recovery itself, adb transport, the script grammar (generated by bison and flex) and the host tool
  \<^verbatim>\<open>imgdiff\<close> are not modelled.
\<close>

section \<open>The message and the control block share a partition\<close>

text \<open>
  C33.  The two structures on the \<^verbatim>\<open>misc\<close> partition do not disturb each other, on every schedule of
  I/O errors and power losses: writing, updating and clearing the bootloader message leaves the
  control block as it is, and no sequence of calls to the boot control module changes the message.
  This holds when the build places the message at offset 0 or behind the control block.
\<close>

theorem message_and_control_independent:
  assumes "fully_ok e" "me_fstab e = Some (Some dev)" "file_of s dev = Some c"
    and "me_offset e + message_size \<le> length c" "kBootloaderControlOffset + control_size \<le> length c"
    and "me_offset e = 0 \<or> kBootloaderControlOffset + control_size \<le> me_offset e"
  shows "(\<forall>op \<in> {write_bootloader_message_options e options, update_bootloader_message e options, write_reboot_bootloader e,
          clear_bootloader_message e}.
        \<exists>c'. file_of (snd (run_state op s)) dev = Some c' \<and> control_at c' = control_at c) \<and>
     (\<forall>sfx calls module s'. hal_session e sfx s calls module s' \<longrightarrow>
        (\<exists>c'. file_of s' dev = Some c' \<and> take message_size (drop (me_offset e) c') = take message_size (drop (me_offset e) c)))"
proof (intro conjI ballI allI impI, goal_cases)
  case (1 op)
  have "me_offset e = 0 \<or> message_size \<le> me_offset e"
    using assms(6) by (auto simp: message_size_def kBootloaderControlOffset_def)
  with wp_message_operations [OF assms(1-4) 1] obtain c' where c': "file_of (snd (run_state op s)) dev = Some c'" "outside_same (me_offset e) message_size c c'"
    unfolding wp_run by blast
  moreover have "control_at c' = control_at c"
    unfolding control_at_def using assms(6) outside_same_other [OF c'(2), of kBootloaderControlOffset control_size]
    by (auto simp: message_size_def kBootloaderControlOffset_def)
  ultimately show ?case by blast
next
  case (2 sfx calls module s')
  obtain c' where c': "file_of s' dev = Some c'" "outside_same kBootloaderControlOffset control_size c c'"
    by (rule hal_session_confined [OF 2 assms(1,2,3,5)])
  with assms(6) outside_same_other [OF c'(2), of "me_offset e" message_size] show ?case
    by (auto simp: message_size_def kBootloaderControlOffset_def)
qed

theorem message_and_control_independent_witness:
  "\<exists>c'. file_of (snd (run_state (clear_bootloader_message sample_misc) (misc_world sample_part 3))) ''/dev/misc'' = Some c' \<and>
     control_at c' = with_crc sample_control"
proof -
  have "me_offset sample_misc + message_size \<le> length sample_part" "kBootloaderControlOffset + control_size \<le> length sample_part"
    "me_offset sample_misc = 0 \<or> kBootloaderControlOffset + control_size \<le> me_offset sample_misc"
    by (simp_all add: sample_misc_def sample_part_control message_size_def kBootloaderControlOffset_def control_size_def)
  from message_and_control_independent [OF sample_fully_ok sample_fstab misc_world_file this, of "[]"] show ?thesis
    by (simp add: sample_part_control)
qed

end
